(* ===== verification/Alp_Prelude.thy ===== *)
theory Alp_Prelude
  imports "HOL-Library.Word"
begin

unbundle bit_operations_syntax

text \<open>
  Shared vocabulary of the development: the machine integer types of the C
  sources, the status codes every entry point returns (\<open>alp_status_t\<close> of
  \<^verbatim>\<open>include/alp/peripheral.h\<close>), byte buffers with the \<^verbatim>\<open>memset\<close> and
  \<^verbatim>\<open>memcpy\<close> patterns the encoders use, and little-endian loads and stores.

  Conventions. A pointer argument that the code compares with \<^verbatim>\<open>NULL\<close> is an
  \<open>option\<close>; a byte buffer together with its length is a list of bytes; an
  out-parameter is a further component of the result; state shared through a
  static variable or a context pointer is passed in and returned.
\<close>

named_theorems buffer_simps \<open>reading back parts of a buffer built by mem_write\<close>
named_theorems model_defs \<open>definitions unfolded together in branch-by-branch proofs\<close>

section \<open>Machine integers and status codes\<close>

type_synonym u8 = "8 word"
type_synonym u16 = "16 word"
type_synonym u32 = "32 word"
type_synonym u64 = "64 word"
type_synonym i16 = "16 word"
type_synonym bytes = "8 word list"

datatype alp_status =
    ALP_OK
  | ALP_ERR_INVAL
  | ALP_ERR_NOT_READY
  | ALP_ERR_BUSY
  | ALP_ERR_TIMEOUT
  | ALP_ERR_IO
  | ALP_ERR_NOSUPPORT
  | ALP_ERR_NOMEM
  | ALP_ERR_OUT_OF_RANGE
  | ALP_ERR_NOT_PRESENT_ON_THIS_SOC
  | ALP_ERR_NOT_IMPLEMENTED
  | ALP_ERR_VERSION
  | ALP_ERR_NO_BACKEND
  | ALP_ERR_NO_FIT
  | ALP_ERR_NOT_FOUND
  | ALP_ERR_NOT_PROVISIONED

text \<open>The value of each enumerator, and the name table of \<^verbatim>\<open>src/status_strings.c\<close>.\<close>

fun alp_status_code :: "alp_status \<Rightarrow> int" where
  "alp_status_code ALP_OK = 0"
| "alp_status_code ALP_ERR_INVAL = -1"
| "alp_status_code ALP_ERR_NOT_READY = -2"
| "alp_status_code ALP_ERR_BUSY = -3"
| "alp_status_code ALP_ERR_TIMEOUT = -4"
| "alp_status_code ALP_ERR_IO = -5"
| "alp_status_code ALP_ERR_NOSUPPORT = -6"
| "alp_status_code ALP_ERR_NOMEM = -7"
| "alp_status_code ALP_ERR_OUT_OF_RANGE = -8"
| "alp_status_code ALP_ERR_NOT_PRESENT_ON_THIS_SOC = -9"
| "alp_status_code ALP_ERR_NOT_IMPLEMENTED = -10"
| "alp_status_code ALP_ERR_VERSION = -11"
| "alp_status_code ALP_ERR_NO_BACKEND = -12"
| "alp_status_code ALP_ERR_NO_FIT = -13"
| "alp_status_code ALP_ERR_NOT_FOUND = -14"
| "alp_status_code ALP_ERR_NOT_PROVISIONED = -15"

section \<open>Buffers\<close>

text \<open>\<^verbatim>\<open>memset(p, v, n)\<close> on a whole buffer, \<^verbatim>\<open>memcpy(p + off, b, len)\<close> into a
  buffer, and the sub-buffer a reader sees at \<^verbatim>\<open>p + off\<close>.\<close>

definition mem_set :: "u8 \<Rightarrow> nat \<Rightarrow> bytes" where
  "mem_set v n = replicate n v"

definition mem_write :: "bytes \<Rightarrow> nat \<Rightarrow> bytes \<Rightarrow> bytes" where
  "mem_write p off b = take off p @ b @ drop (off + length b) p"

definition mem_read :: "bytes \<Rightarrow> nat \<Rightarrow> nat \<Rightarrow> bytes" where
  "mem_read p off n = take n (drop off p)"

text \<open>A checked read: \<open>None\<close> is a read that leaves the buffer.\<close>

definition read_at :: "bytes \<Rightarrow> nat \<Rightarrow> nat \<Rightarrow> bytes option" where
  "read_at p off n = (if off + n \<le> length p then Some (mem_read p off n) else None)"

text \<open>Little-endian byte order: byte \<open>i\<close> carries bits \<open>8 i\<close> to \<open>8 i + 7\<close>.\<close>

definition le_bytes :: "nat \<Rightarrow> 'a::len word \<Rightarrow> bytes" where
  "le_bytes n v = map (\<lambda>i. ucast (drop_bit (8 * i) v)) [0..<n]"

definition le_word :: "nat \<Rightarrow> bytes \<Rightarrow> 'a::len word" where
  "le_word n p = fold (\<lambda>i v. v OR push_bit (8 * i) (ucast (p ! i))) [0..<n] 0"

section \<open>Facts about buffers\<close>

lemma length_mem_set [simp]: "length (mem_set v n) = n"
  by (simp add: mem_set_def)

lemma length_mem_write [simp]:
  "off + length b \<le> length p \<Longrightarrow> length (mem_write p off b) = length p"
  by (simp add: mem_write_def)

lemma length_mem_read [simp]:
  "off + n \<le> length p \<Longrightarrow> length (mem_read p off n) = n"
  by (simp add: mem_read_def)

lemma read_at_some [simp]: "off + n \<le> length p \<Longrightarrow> read_at p off n = Some (mem_read p off n)"
  by (simp add: read_at_def)

text \<open>A read inside the written range, and reads wholly before or after it.\<close>

lemma mem_read_write_same [buffer_simps]:
  "off + length b \<le> length p \<Longrightarrow> n = length b \<Longrightarrow> mem_read (mem_write p off b) off n = b"
  by (simp add: mem_read_def mem_write_def)

lemma mem_read_write_before [buffer_simps]:
  "off' + n \<le> off \<Longrightarrow> off + length b \<le> length p \<Longrightarrow>
   mem_read (mem_write p off b) off' n = mem_read p off' n"
  by (simp add: mem_read_def mem_write_def drop_take min_absorb1)

lemma mem_read_write_after [buffer_simps]:
  "off + length b \<le> off' \<Longrightarrow> off + length b \<le> length p \<Longrightarrow>
   mem_read (mem_write p off b) off' n = mem_read p off' n"
  by (simp add: mem_read_def mem_write_def)

lemma mem_read_set [buffer_simps]:
  "off + n \<le> m \<Longrightarrow> mem_read (mem_set v m) off n = replicate n v"
  by (simp add: mem_read_def mem_set_def)

lemma mem_read_nth:
  "i < n \<Longrightarrow> off + n \<le> length p \<Longrightarrow> mem_read p off n ! i = p ! (off + i)"
  by (simp add: mem_read_def)

lemma nth_conv_mem_read: "off < length p \<Longrightarrow> p ! off = hd (mem_read p off 1)"
  by (simp add: mem_read_def hd_drop_conv_nth take_Suc)

section \<open>Facts about little-endian words\<close>

lemma length_le_bytes [simp]: "length (le_bytes n v) = n"
  by (simp add: le_bytes_def)

lemma bit_fold_or:
  "bit (fold (\<lambda>i v. v OR f i) xs (a :: 'a::len word)) k \<longleftrightarrow> bit a k \<or> (\<exists>i \<in> set xs. bit (f i) k)"
  by (induction xs arbitrary: a) (auto simp: bit_or_iff)

lemma bit_le_word:
  "bit (le_word n p :: 'a::len word) k \<longleftrightarrow>
     k < LENGTH('a) \<and> k < 8 * n \<and> bit (p ! (k div 8)) (k mod 8)"
proof -
  have range: "(8 * i \<le> k \<and> bit (p ! i) (k - 8 * i)) \<longleftrightarrow> (i = k div 8 \<and> bit (p ! i) (k mod 8))" for i
  proof
    assume *: "8 * i \<le> k \<and> bit (p ! i) (k - 8 * i)"
    define r where "r = k - 8 * i"
    from * have k: "k = 8 * i + r" by (simp add: r_def)
    from * have "r < 8" using bit_imp_le_length [of "p ! i" r] by (simp add: r_def)
    with k have "i = k div 8" "k - 8 * i = k mod 8" by auto
    with * show "i = k div 8 \<and> bit (p ! i) (k mod 8)" by simp
  next
    assume "i = k div 8 \<and> bit (p ! i) (k mod 8)"
    moreover have "k - 8 * (k div 8) = k mod 8" by (simp add: minus_mult_div_eq_mod)
    ultimately show "8 * i \<le> k \<and> bit (p ! i) (k - 8 * i)" by auto
  qed
  have "bit (le_word n p :: 'a word) k \<longleftrightarrow>
     (\<exists>i<n. k < LENGTH('a) \<and> (8 * i \<le> k \<and> bit (p ! i) (k - 8 * i)))"
    by (auto simp: le_word_def bit_fold_or bit_push_bit_iff bit_ucast_iff)
  also have "\<dots> \<longleftrightarrow> (\<exists>i<n. k < LENGTH('a) \<and> i = k div 8 \<and> bit (p ! i) (k mod 8))"
    by (simp only: range)
  also have "\<dots> \<longleftrightarrow> k < LENGTH('a) \<and> k < 8 * n \<and> bit (p ! (k div 8)) (k mod 8)"
    by auto
  finally show ?thesis .
qed

lemma le_word_bytes:
  "LENGTH('a::len) \<le> 8 * n \<Longrightarrow> le_word n (le_bytes n v) = (v :: 'a word)"
proof (rule bit_word_eqI)
  fix k assume *: "LENGTH('a) \<le> 8 * n" "k < LENGTH('a)"
  then have "k div 8 < n" by (simp add: less_mult_imp_div_less)
  then show "bit (le_word n (le_bytes n v) :: 'a word) k = bit v k"
    using * by (auto simp: bit_le_word le_bytes_def bit_ucast_iff bit_drop_bit_eq)
qed

lemma le_bytes_word:
  assumes "length p = n" and "8 * n \<le> LENGTH('a::len)"
  shows "le_bytes n (le_word n p :: 'a word) = p"
proof (rule nth_equalityI)
  show "length (le_bytes n (le_word n p :: 'a word)) = length p" using assms by simp
next
  fix i assume "i < length (le_bytes n (le_word n p :: 'a word))"
  then have i: "i < n" by simp
  show "le_bytes n (le_word n p :: 'a word) ! i = p ! i"
  proof (rule bit_word_eqI)
    fix k assume "k < LENGTH(8)"
    then have k: "k < 8" by simp
    then have "8 * i + k < 8 * n" "(8 * i + k) div 8 = i" "(8 * i + k) mod 8 = k"
      using i by auto
    then show "bit (le_bytes n (le_word n p :: 'a word) ! i) k = bit (p ! i) k"
      using assms i k by (auto simp: le_bytes_def bit_ucast_iff bit_drop_bit_eq bit_le_word add.commute)
  qed
qed

section \<open>Counting threads\<close>

text \<open>How the number of threads with a property changes when one thread moves.\<close>

lemma card_fun_upd:
  fixes t N :: nat
  assumes "t < N"
  shows "card {u \<in> {..<N}. P ((f(t := p)) u)} + (if P (f t) then 1 else 0) =
    card {u \<in> {..<N}. P (f u)} + (if P p then 1 else 0)"
proof -
  let ?R = "{u \<in> {..<N} - {t}. P (f u)}"
  have "{u \<in> {..<N}. P ((f(t := p)) u)} = (if P p then insert t ?R else ?R)"
    "{u \<in> {..<N}. P (f u)} = (if P (f t) then insert t ?R else ?R)"
    using assms by auto
  moreover have "finite ?R" by (rule finite_subset [of _ "{..<N}"]) auto
  then have "card (insert t ?R) = Suc (card ?R)" by (rule card_insert_disjoint) auto
  ultimately show ?thesis by auto
qed

end
