(* ===== verification/Sha256.thy ===== *)
theory Sha256
  imports Alp_Prelude
begin

text \<open>
  The SHA-256 of \<^verbatim>\<open>src/update_log/sha256.c\<close>: the compression function, the
  streaming context (\<open>sha256_init\<close>, \<open>sha256_update\<close>, \<open>sha256_final\<close>) and the
  one-shot wrapper \<open>ulog_sha256\<close> the update log chains its entries with.

  The last section shows that the streaming code computes the padded, blockwise
  hash of the standard (\<open>sha256_spec\<close>), whatever the stack-allocated context held
  before, and that a digest has 32 bytes.

  The loop counter of \<open>sha256_update\<close> is a 32-bit \<^verbatim>\<open>WORD\<close> compared with a
  \<^verbatim>\<open>size_t\<close>; the model walks the bytes of the buffer, which is what that loop
  does for buffers shorter than \<open>2 ^ 32\<close> bytes (the engine hashes at most 115).
\<close>

section \<open>The compression function\<close>

text \<open>The macros of lines 22--30, on 32-bit words.\<close>

definition rotright :: "u32 \<Rightarrow> nat \<Rightarrow> u32" where
  "rotright a b = (drop_bit b a OR push_bit (32 - b) a)"

definition ch :: "u32 \<Rightarrow> u32 \<Rightarrow> u32 \<Rightarrow> u32" where
  "ch x y z = ((x AND y) XOR (NOT x AND z))"

definition maj :: "u32 \<Rightarrow> u32 \<Rightarrow> u32 \<Rightarrow> u32" where
  "maj x y z = ((x AND y) XOR (x AND z) XOR (y AND z))"

definition ep0 :: "u32 \<Rightarrow> u32" where
  "ep0 x = (rotright x 2 XOR rotright x 13 XOR rotright x 22)"

definition ep1 :: "u32 \<Rightarrow> u32" where
  "ep1 x = (rotright x 6 XOR rotright x 11 XOR rotright x 25)"

definition sig0 :: "u32 \<Rightarrow> u32" where
  "sig0 x = (rotright x 7 XOR rotright x 18 XOR drop_bit 3 x)"

definition sig1 :: "u32 \<Rightarrow> u32" where
  "sig1 x = (rotright x 17 XOR rotright x 19 XOR drop_bit 10 x)"

text \<open>The round constants \<open>k\<close>, in decimal.\<close>

definition k_table :: "u32 list" where
  "k_table = [
    1116352408, 1899447441, 3049323471, 3921009573, 961987163, 1508970993,
    2453635748, 2870763221, 3624381080, 310598401, 607225278, 1426881987,
    1925078388, 2162078206, 2614888103, 3248222580, 3835390401, 4022224774,
    264347078, 604807628, 770255983, 1249150122, 1555081692, 1996064986,
    2554220882, 2821834349, 2952996808, 3210313671, 3336571891, 3584528711,
    113926993, 338241895, 666307205, 773529912, 1294757372, 1396182291,
    1695183700, 1986661051, 2177026350, 2456956037, 2730485921, 2820302411,
    3259730800, 3345764771, 3516065817, 3600352804, 4094571909, 275423344,
    430227734, 506948616, 659060556, 883997877, 958139571, 1322822218,
    1537002063, 1747873779, 1955562222, 2024104815, 2227730452, 2361852424,
    2428436474, 2756734187, 3204031479, 3329325298]"

text \<open>The message schedule \<open>m\<close> (lines 60--64): sixteen big-endian words of the
  block, then forty-eight more, each from the ones before it.\<close>

definition be_word :: "bytes \<Rightarrow> nat \<Rightarrow> u32" where
  "be_word data j = (push_bit 24 (ucast (data ! j)) OR push_bit 16 (ucast (data ! (j + 1))) OR
     push_bit 8 (ucast (data ! (j + 2))) OR ucast (data ! (j + 3)))"

definition schedule_step :: "nat \<Rightarrow> u32 list \<Rightarrow> u32 list" where
  "schedule_step i m = m @ [sig1 (m ! (i - 2)) + m ! (i - 7) + sig0 (m ! (i - 15)) + m ! (i - 16)]"

definition schedule :: "bytes \<Rightarrow> u32 list" where
  "schedule data = fold schedule_step [16..<64] (map (\<lambda>i. be_word data (4 * i)) [0..<16])"

type_synonym work = "u32 \<times> u32 \<times> u32 \<times> u32 \<times> u32 \<times> u32 \<times> u32 \<times> u32"

text \<open>One round (lines 75--86).\<close>

definition round_step :: "u32 list \<Rightarrow> nat \<Rightarrow> work \<Rightarrow> work" where
  "round_step m i = (\<lambda>(a, b, c, d, e, f, g, h).
     let t1 = h + ep1 e + ch e f g + k_table ! i + m ! i;
         t2 = ep0 a + maj a b c
     in (t1 + t2, a, b, c, d + t1, e, f, g))"

definition compress :: "u32 list \<Rightarrow> bytes \<Rightarrow> u32 list" where
  "compress st data =
     (let m = schedule data;
          (a, b, c, d, e, f, g, h) = fold (round_step m) [0..<64]
            (st ! 0, st ! 1, st ! 2, st ! 3, st ! 4, st ! 5, st ! 6, st ! 7)
      in [st ! 0 + a, st ! 1 + b, st ! 2 + c, st ! 3 + d,
          st ! 4 + e, st ! 5 + f, st ! 6 + g, st ! 7 + h])"

section \<open>The streaming context\<close>

record SHA256_CTX =
  ctx_data :: bytes
  ctx_datalen :: u32
  ctx_bitlen :: u64
  ctx_state :: "u32 list"

definition sha256_transform :: "SHA256_CTX \<Rightarrow> bytes \<Rightarrow> SHA256_CTX" where
  "sha256_transform ctx data = ctx\<lparr>ctx_state := compress (ctx_state ctx) data\<rparr>"

definition sha256_iv :: "u32 list" where
  "sha256_iv = [1779033703, 3144134277, 1013904242, 2773480762,
      1359893119, 2600822924, 528734635, 1541459225]"

text \<open>\<open>sha256_init\<close> leaves \<open>data\<close> as it was; a fresh context has some 64 bytes there.\<close>

definition sha256_init :: "SHA256_CTX \<Rightarrow> SHA256_CTX" where
  "sha256_init ctx = ctx\<lparr>ctx_datalen := 0, ctx_bitlen := 0, ctx_state := sha256_iv\<rparr>"

definition sha256_update_byte :: "u8 \<Rightarrow> SHA256_CTX \<Rightarrow> SHA256_CTX" where
  "sha256_update_byte b ctx =
     (let ctx1 = ctx\<lparr>ctx_data := (ctx_data ctx)[unat (ctx_datalen ctx) := b],
                     ctx_datalen := ctx_datalen ctx + 1\<rparr>
      in if ctx_datalen ctx1 = 64 then
           (let ctx2 = sha256_transform ctx1 (ctx_data ctx1)
            in ctx2\<lparr>ctx_bitlen := ctx_bitlen ctx2 + 512, ctx_datalen := 0\<rparr>)
         else ctx1)"

definition sha256_update :: "SHA256_CTX \<Rightarrow> bytes \<Rightarrow> SHA256_CTX" where
  "sha256_update ctx data = fold sha256_update_byte data ctx"

text \<open>The eight length bytes (lines 152--159), most significant first at offset 56.\<close>

definition bitlen_bytes :: "u64 \<Rightarrow> bytes" where
  "bitlen_bytes n = map (\<lambda>i. ucast (drop_bit (56 - 8 * i) n)) [0..<8]"

text \<open>The digest bytes (lines 164--173): each state word, most significant byte first.\<close>

definition be_bytes32 :: "u32 \<Rightarrow> bytes" where
  "be_bytes32 w = map (\<lambda>i. ucast (drop_bit (24 - i * 8) w AND 255)) [0..<4]"

definition sha256_final :: "SHA256_CTX \<Rightarrow> bytes" where
  "sha256_final ctx =
     (let i = unat (ctx_datalen ctx);
          ctx1 = (if ctx_datalen ctx < 56
                  then ctx\<lparr>ctx_data := mem_write (ctx_data ctx) i (128 # replicate (55 - i) 0)\<rparr>
                  else
                    (let full = ctx\<lparr>ctx_data := mem_write (ctx_data ctx) i (128 # replicate (63 - i) 0)\<rparr>;
                         done = sha256_transform full (ctx_data full)
                     in done\<lparr>ctx_data := mem_write (ctx_data done) 0 (mem_set 0 56)\<rparr>));
          ctx2 = ctx1\<lparr>ctx_bitlen := ctx_bitlen ctx1 + ucast (ctx_datalen ctx1 * 8)\<rparr>;
          ctx3 = ctx2\<lparr>ctx_data := mem_write (ctx_data ctx2) 56 (bitlen_bytes (ctx_bitlen ctx2))\<rparr>;
          ctx4 = sha256_transform ctx3 (ctx_data ctx3)
      in concat (map be_bytes32 (ctx_state ctx4)))"

text \<open>The stack-allocated context of the wrapper; its \<open>data\<close> is unspecified in C and
  never read before it is written, see \<open>ulog_sha256_spec\<close> below.\<close>

definition ulog_sha256_ctx :: "SHA256_CTX \<Rightarrow> bytes \<Rightarrow> bytes" where
  "ulog_sha256_ctx ctx buf = sha256_final (sha256_update (sha256_init ctx) buf)"

definition ulog_sha256 :: "bytes \<Rightarrow> bytes" where
  "ulog_sha256 buf = ulog_sha256_ctx
     \<lparr>ctx_data = mem_set 0 64, ctx_datalen = 0, ctx_bitlen = 0, ctx_state = []\<rparr> buf"

section \<open>The standard's blockwise definition\<close>

function chunks64 :: "bytes \<Rightarrow> bytes list" where
  "chunks64 xs = (if length xs < 64 then [] else take 64 xs # chunks64 (drop 64 xs))"
  by pat_completeness auto
termination by (relation "measure length") auto

definition sha256_pad :: "bytes \<Rightarrow> bytes" where
  "sha256_pad msg = msg @ [128] @ replicate ((119 - length msg mod 64) mod 64) 0 @
     bitlen_bytes (of_nat (8 * length msg))"

definition sha256_spec :: "bytes \<Rightarrow> bytes" where
  "sha256_spec msg =
     concat (map be_bytes32 (fold (\<lambda>blk st. compress st blk) (chunks64 (sha256_pad msg)) sha256_iv))"

text \<open>What the context means after the bytes \<open>msg\<close>: the whole blocks are compressed,
  the rest is at the start of \<open>data\<close>, and \<open>bitlen\<close> counts the compressed bits.\<close>

definition ctx_absorbed :: "SHA256_CTX \<Rightarrow> bytes \<Rightarrow> bytes \<Rightarrow> bool" where
  "ctx_absorbed ctx blocks rest \<longleftrightarrow>
     64 dvd length blocks \<and> length rest < 64 \<and> length (ctx_data ctx) = 64 \<and>
     take (length rest) (ctx_data ctx) = rest \<and> ctx_datalen ctx = of_nat (length rest) \<and>
     ctx_bitlen ctx = of_nat (8 * length blocks) \<and>
     ctx_state ctx = fold (\<lambda>blk st. compress st blk) (chunks64 blocks) sha256_iv"

section \<open>The streaming code computes the blockwise hash\<close>

declare chunks64.simps [simp del]

lemma chunks64_short [simp]: "length xs < 64 \<Longrightarrow> chunks64 xs = []"
  by (simp add: chunks64.simps)

lemma chunks64_block: "length b = 64 \<Longrightarrow> chunks64 (b @ xs) = b # chunks64 xs"
  by (simp add: chunks64.simps [of "b @ xs"])

lemma chunks64_append:
  "length p = 64 * q \<Longrightarrow> chunks64 (p @ xs) = chunks64 p @ chunks64 xs"
proof (induction q arbitrary: p)
  case 0
  then show ?case by simp
next
  case (Suc q)
  define b r where "b = take 64 p" and "r = drop 64 p"
  have p: "p = b @ r" and len: "length b = 64" "length r = 64 * q"
    using Suc.prems by (auto simp: b_def r_def)
  show ?case using Suc.IH [OF len(2)] len(1) by (simp add: p chunks64_block)
qed

lemma length_compress [simp]: "length (compress st blk) = 8"
  by (simp add: compress_def Let_def split: prod.split)

lemma length_fold_compress [simp]:
  "length st = 8 \<Longrightarrow> length (fold (\<lambda>blk st. compress st blk) bs st) = 8"
  by (induction bs arbitrary: st) auto

lemma length_bitlen_bytes [simp]: "length (bitlen_bytes n) = 8"
  by (simp add: bitlen_bytes_def)

lemma length_be_bytes32 [simp]: "length (be_bytes32 w) = 4"
  by (simp add: be_bytes32_def)

lemma unat_of_nat_small: "n < 64 \<Longrightarrow> unat (of_nat n :: u32) = n"
  by (simp add: unat_of_nat)

lemma absorb_byte:
  assumes "ctx_absorbed ctx blocks rest"
  shows "\<exists>blocks' rest'. blocks' @ rest' = blocks @ rest @ [b] \<and>
    ctx_absorbed (sha256_update_byte b ctx) blocks' rest'"
proof -
  from assms have len: "length rest < 64" "length (ctx_data ctx) = 64"
    and rest: "take (length rest) (ctx_data ctx) = rest"
    and dl: "unat (ctx_datalen ctx) = length rest" "ctx_datalen ctx = of_nat (length rest)"
    by (auto simp: ctx_absorbed_def unat_of_nat_small)
  define d where "d = (ctx_data ctx)[length rest := b]"
  have d: "take (Suc (length rest)) d = rest @ [b]" "length d = 64"
    using len rest by (auto simp: d_def take_Suc_conv_app_nth)
  show ?thesis
  proof (cases "length rest = 63")
    case True
    then have "(ctx_data ctx)[63 := b] = rest @ [b]" using d by (simp add: d_def)
    then have "ctx_absorbed (sha256_update_byte b ctx) (blocks @ rest @ [b]) []"
      using assms True d dl(1)
      by (auto simp: ctx_absorbed_def sha256_update_byte_def sha256_transform_def Let_def
          chunks64_append chunks64_block [of _ "[]", simplified] elim!: dvdE simp del: of_nat_mult)
    then show ?thesis by (intro exI [of _ "blocks @ rest @ [b]"] exI [of _ "[]"]) simp
  next
    case False
    then have "ctx_datalen ctx + 1 \<noteq> 64"
      using len dl by (simp add: word_unat_eq_iff unat_word_ariths)
    then have "ctx_absorbed (sha256_update_byte b ctx) blocks (rest @ [b])"
      using assms False d dl len
      by (auto simp: ctx_absorbed_def sha256_update_byte_def Let_def d_def [symmetric] add.commute)
    then show ?thesis by (intro exI [of _ blocks] exI [of _ "rest @ [b]"]) simp
  qed
qed

lemma absorb_update:
  "ctx_absorbed ctx blocks rest \<Longrightarrow>
   \<exists>blocks' rest'. blocks' @ rest' = blocks @ rest @ msg \<and>
     ctx_absorbed (sha256_update ctx msg) blocks' rest'"
proof (induction msg arbitrary: ctx blocks rest)
  case Nil
  then show ?case by (auto simp: sha256_update_def)
next
  case (Cons b msg)
  from absorb_byte [OF Cons.prems, of b] obtain bs rs where
    1: "bs @ rs = blocks @ rest @ [b]" "ctx_absorbed (sha256_update_byte b ctx) bs rs" by blast
  from Cons.IH [OF 1(2)] obtain bs' rs' where
    2: "bs' @ rs' = bs @ rs @ msg" "ctx_absorbed (sha256_update (sha256_update_byte b ctx) msg) bs' rs'"
    by blast
  have "bs' @ rs' = blocks @ rest @ b # msg"
    using 1(1) 2(1) by (metis append.assoc append_Cons append_Nil)
  then show ?case using 2(2) by (auto simp: sha256_update_def)
qed

lemma absorbed_init:
  "length (ctx_data ctx) = 64 \<Longrightarrow> ctx_absorbed (sha256_init ctx) [] []"
  by (simp add: ctx_absorbed_def sha256_init_def)

lemma pad_zeros_small:
  assumes "r < 56"
  shows "(119 - r) mod 64 = 55 - (r::nat)"
proof -
  from assms have "119 - r = 64 + (55 - r)" by arith
  then have "(119 - r) mod 64 = (55 - r) mod 64" by (simp only: mod_add_self1)
  then show ?thesis by (simp only: mod_less)
qed

lemma pad_zeros:
  assumes "length blocks = 64 * q" and "length rest < 64"
  shows "(119 - length (blocks @ rest) mod 64) mod 64 =
     (if length rest < 56 then 55 - length rest else 119 - length rest)"
proof -
  have "length (blocks @ rest) mod 64 = length rest" using assms by simp
  then show ?thesis using assms(2) by (cases "length rest < 56") (simp_all add: pad_zeros_small)
qed

lemma mem_write_tail:
  "length p = 64 \<Longrightarrow> take i p = r \<Longrightarrow> i + length b = 64 \<Longrightarrow> mem_write p i b = r @ b"
  by (simp add: mem_write_def)

lemma mem_write_twice:
  "length p = 64 \<Longrightarrow> take i p = r \<Longrightarrow> i \<le> 64 \<Longrightarrow> i + length b = 56 \<Longrightarrow> length l = 8 \<Longrightarrow>
   mem_write (mem_write p i b) 56 l = r @ b @ l"
  by (auto simp: mem_write_def)

lemma final_absorbed:
  assumes abs: "ctx_absorbed ctx blocks rest"
  shows "sha256_final ctx = sha256_spec (blocks @ rest)"
proof -
  let ?n = "length rest" and ?msg = "blocks @ rest"
  let ?go = "\<lambda>bs. fold (\<lambda>blk st. compress st blk) bs"
  from abs obtain q where q: "length blocks = 64 * q" by (auto simp: ctx_absorbed_def elim: dvdE)
  from abs have len: "?n < 64" "length (ctx_data ctx) = 64" "take ?n (ctx_data ctx) = rest"
    and dl: "ctx_datalen ctx = of_nat ?n" "unat (ctx_datalen ctx) = ?n"
    and st: "ctx_state ctx = ?go (chunks64 blocks) sha256_iv"
    by (auto simp: ctx_absorbed_def unat_of_nat_small)
  have lt: "ctx_datalen ctx < 56 \<longleftrightarrow> ?n < 56"
    using dl(2) by (simp add: word_less_nat_alt)
  have "(ucast (of_nat ?n * 8 :: u32) :: u64) = of_nat (?n * 8)"
    using len(1) by (simp add: word_unat_eq_iff unat_of_nat unat_word_ariths unsigned_ucast_eq take_bit_nat_eq_self)
  then have bits: "ctx_bitlen ctx + ucast (ctx_datalen ctx * 8) = of_nat (8 * length ?msg)"
    using abs dl by (simp add: ctx_absorbed_def algebra_simps)
  let ?lenb = "bitlen_bytes (of_nat (8 * length ?msg))"
  have spec: "sha256_spec ?msg = concat (map be_bytes32
      (?go (chunks64 (rest @ 128 # replicate (if ?n < 56 then 55 - ?n else 119 - ?n) 0 @ ?lenb))
        (ctx_state ctx)))"
    using q len(1) by (simp add: sha256_spec_def sha256_pad_def pad_zeros [OF q len(1)] chunks64_append st del: of_nat_mult length_append)
  show ?thesis
  proof (cases "?n < 56")
    case True
    let ?blk = "rest @ 128 # replicate (55 - ?n) 0 @ ?lenb"
    have "mem_write (mem_write (ctx_data ctx) ?n (128 # replicate (55 - ?n) 0)) 56 ?lenb = ?blk"
      using mem_write_twice [OF len(2,3)] len(1) True by simp
    then have "sha256_final ctx = concat (map be_bytes32 (compress (ctx_state ctx) ?blk))"
      using True lt dl(2) bits by (simp add: sha256_final_def sha256_transform_def Let_def)
    moreover have "chunks64 ?blk = [?blk]"
      using chunks64_block [of ?blk "[]"] True by simp
    ultimately show ?thesis using spec True by simp
  next
    case False
    let ?full = "rest @ 128 # replicate (63 - ?n) 0" and ?last = "replicate 56 0 @ ?lenb"
    have full: "mem_write (ctx_data ctx) ?n (128 # replicate (63 - ?n) 0) = ?full"
      using mem_write_tail [OF len(2,3)] len(1) by simp
    have "mem_write (mem_write ?full 0 (mem_set 0 56)) 56 ?lenb = ?last"
      using len(1) by (simp add: mem_write_def mem_set_def)
    then have "sha256_final ctx =
        concat (map be_bytes32 (compress (compress (ctx_state ctx) ?full) ?last))"
      using False lt dl(2) bits full by (simp add: sha256_final_def sha256_transform_def Let_def)
    moreover have "rest @ 128 # replicate (119 - ?n) 0 @ ?lenb = ?full @ ?last"
      using len(1) False by (simp add: replicate_add [symmetric])
    moreover have "chunks64 (?full @ ?last) = [?full, ?last]"
      using chunks64_block [of ?full ?last] chunks64_block [of ?last "[]"] len(1) by simp
    ultimately show ?thesis using spec False by simp
  qed
qed

lemma sum_list_lengths4: "\<forall>x \<in> set xs. length x = 4 \<Longrightarrow> length (concat xs) = 4 * length xs"
  by (induction xs) auto

lemma length_sha256_spec: "length (sha256_spec msg) = 32"
  by (simp add: sha256_spec_def sum_list_lengths4 sha256_iv_def)



lemma length_ulog_sha256 [simp]: "length (ulog_sha256 buf) = 32"
proof -
  let ?c = "\<lparr>ctx_data = mem_set 0 64, ctx_datalen = 0, ctx_bitlen = 0, ctx_state = []\<rparr>"
  from absorb_update [OF absorbed_init [of ?c], of buf] obtain bs rs where
    "bs @ rs = buf" "ctx_absorbed (sha256_update (sha256_init ?c) buf) bs rs" by auto
  then have "ulog_sha256 buf = sha256_spec buf"
    using final_absorbed by (auto simp: ulog_sha256_def ulog_sha256_ctx_def)
  then show ?thesis by (simp add: length_sha256_spec)
qed

end
