(* ===== verification/Ulog_Codec.thy ===== *)
theory Ulog_Codec
  imports Sha256
begin

text \<open>
  The wire formats of the update log (\<^verbatim>\<open>src/update_log/engine.c\<close>, lines 32--157,
  and \<^verbatim>\<open>src/update_log/engine.h\<close>): the little-endian field accessors, the 115-byte
  entry, the 46-byte metadata record, and the store keys \<^verbatim>\<open>"ulog.<seq>"\<close> that
  \<open>kbuf\<close> renders.

  Shown here: an encoded entry decodes to itself (its version string normalised after
  the terminating NUL) with the chaining hash it was written with; the metadata record
  round-trips; every malformed input is refused with the status the code gives; and
  the rendered keys are injective up to \<open>ULOG_SEQ_MAX\<close>, never equal to the metadata
  key, and parse back to the number they were rendered from.
\<close>

section \<open>Constants and records\<close>

abbreviation ULOG_VERSION :: u16 where "ULOG_VERSION \<equiv> 1"
abbreviation ULOG_ENTRY_WIRE_LEN :: nat where "ULOG_ENTRY_WIRE_LEN \<equiv> 115"
abbreviation ULOG_META_WIRE_LEN :: nat where "ULOG_META_WIRE_LEN \<equiv> 46"
abbreviation ULOG_META_MAGIC :: u32 where "ULOG_META_MAGIC \<equiv> 0x554C4F47"
abbreviation ALP_UPDATE_LOG_FWVER_MAX :: nat where "ALP_UPDATE_LOG_FWVER_MAX \<equiv> 31"

definition ULOG_SEQ_MAX :: u64 where
  "ULOG_SEQ_MAX = 999999999999999999"

text \<open>\<open>alp_update_log_entry_t\<close>. The status is an \<^verbatim>\<open>enum\<close> a caller can fill with any
  integer, and the encoder checks its range, so it is kept as a 32-bit word.\<close>

record update_log_entry =
  ule_seq :: u64
  ule_fw_version :: bytes
  ule_image_hash :: bytes
  ule_status :: u32
  ule_timestamp :: u64

definition entry_wf :: "update_log_entry \<Rightarrow> bool" where
  "entry_wf e \<longleftrightarrow> length (ule_fw_version e) = ALP_UPDATE_LOG_FWVER_MAX + 1 \<and> length (ule_image_hash e) = 32"

definition zero_entry :: update_log_entry where
  "zero_entry = \<lparr>ule_seq = 0, ule_fw_version = mem_set 0 32, ule_image_hash = mem_set 0 32,
     ule_status = 0, ule_timestamp = 0\<rparr>"

record ulog_meta =
  um_count :: u64
  um_head_hash :: bytes

abbreviation ALP_UPDATE_STATUS_PENDING_CONFIRM :: u32 where
  "ALP_UPDATE_STATUS_PENDING_CONFIRM \<equiv> 3"

section \<open>Field accessors\<close>

definition put_u16 :: "bytes \<Rightarrow> nat \<Rightarrow> u16 \<Rightarrow> bytes" where
  "put_u16 p off v = mem_write p off [ucast v, ucast (drop_bit 8 v)]"

definition put_u32 :: "bytes \<Rightarrow> nat \<Rightarrow> u32 \<Rightarrow> bytes" where
  "put_u32 p off v = mem_write p off (le_bytes 4 v)"

definition put_u64 :: "bytes \<Rightarrow> nat \<Rightarrow> u64 \<Rightarrow> bytes" where
  "put_u64 p off v = mem_write p off (le_bytes 8 v)"

definition get_u16 :: "bytes \<Rightarrow> nat \<Rightarrow> u16" where
  "get_u16 p off = (ucast (p ! off) OR push_bit 8 (ucast (p ! (off + 1))))"

definition get_u32 :: "bytes \<Rightarrow> nat \<Rightarrow> u32" where
  "get_u32 p off = le_word 4 (drop off p)"

definition get_u64 :: "bytes \<Rightarrow> nat \<Rightarrow> u64" where
  "get_u64 p off = le_word 8 (drop off p)"

text \<open>\<open>bounded_len\<close>: the index of the first NUL below \<open>cap\<close>, else \<open>cap\<close>.\<close>

function bounded_len_from :: "bytes \<Rightarrow> nat \<Rightarrow> nat \<Rightarrow> nat" where
  "bounded_len_from s cap n =
     (if n < cap \<and> s ! n \<noteq> 0 then bounded_len_from s cap (n + 1) else n)"
  by pat_completeness auto
termination by (relation "measure (\<lambda>(s, cap, n). cap - n)") auto

definition bounded_len :: "bytes \<Rightarrow> nat \<Rightarrow> nat" where
  "bounded_len s cap = bounded_len_from s cap 0"

section \<open>Entries\<close>

definition ulog_entry_encode ::
  "update_log_entry option \<Rightarrow> bytes option \<Rightarrow> bytes option \<Rightarrow> alp_status \<times> bytes option" where
  "ulog_entry_encode e prev_hash out =
     (case (e, prev_hash, out) of
        (Some e, Some prev_hash, Some out) \<Rightarrow>
          (let vlen = bounded_len (ule_fw_version e) (ALP_UPDATE_LOG_FWVER_MAX + 1)
           in if vlen > ALP_UPDATE_LOG_FWVER_MAX then (ALP_ERR_INVAL, Some out)
           else if ule_status e > ALP_UPDATE_STATUS_PENDING_CONFIRM then (ALP_ERR_INVAL, Some out)
           else
             (let out = mem_set 0 ULOG_ENTRY_WIRE_LEN;
                  out = put_u16 out 0 ULOG_VERSION;
                  out = put_u64 out 2 (ule_seq e);
                  out = mem_write out 10 [ucast (ule_status e)];
                  out = put_u64 out 11 (ule_timestamp e);
                  out = mem_write out 19 [of_nat vlen];
                  out = mem_write out 20 (take vlen (ule_fw_version e));
                  out = mem_write out 51 (take 32 prev_hash);
                  out = mem_write out 83 (take 32 (ule_image_hash e))
              in (ALP_OK, Some out)))
      | _ \<Rightarrow> (ALP_ERR_INVAL, out))"

definition ulog_entry_decode ::
  "bytes option \<Rightarrow> update_log_entry option \<Rightarrow> bytes option \<Rightarrow>
   alp_status \<times> update_log_entry option \<times> bytes option" where
  "ulog_entry_decode buf e_out prev_hash_out =
     (case (buf, e_out) of
        (Some buf, Some e_out) \<Rightarrow>
          if length buf < ULOG_ENTRY_WIRE_LEN then (ALP_ERR_INVAL, Some e_out, prev_hash_out)
          else if get_u16 buf 0 \<noteq> ULOG_VERSION then (ALP_ERR_VERSION, Some e_out, prev_hash_out)
          else
            (let vlen = unat (buf ! 19)
             in if vlen > ALP_UPDATE_LOG_FWVER_MAX then (ALP_ERR_INVAL, Some e_out, prev_hash_out)
             else
               (let e = zero_entry\<lparr>
                     ule_seq := get_u64 buf 2,
                     ule_status := ucast (buf ! 10),
                     ule_timestamp := get_u64 buf 11,
                     ule_fw_version := mem_write (ule_fw_version zero_entry) 0 (mem_read buf 20 vlen),
                     ule_image_hash := mem_read buf 83 32\<rparr>
                in (ALP_OK, Some e, map_option (\<lambda>_. mem_read buf 51 32) prev_hash_out)))
      | _ \<Rightarrow> (ALP_ERR_INVAL, e_out, prev_hash_out))"

section \<open>Metadata\<close>

definition ulog_meta_encode :: "ulog_meta option \<Rightarrow> bytes option \<Rightarrow> alp_status \<times> bytes option" where
  "ulog_meta_encode m out =
     (case (m, out) of
        (Some m, Some out) \<Rightarrow>
          (let out = mem_set 0 ULOG_META_WIRE_LEN;
               out = put_u16 out 0 ULOG_VERSION;
               out = put_u32 out 2 ULOG_META_MAGIC;
               out = put_u64 out 6 (um_count m);
               out = mem_write out 14 (take 32 (um_head_hash m))
           in (ALP_OK, Some out))
      | _ \<Rightarrow> (ALP_ERR_INVAL, out))"

definition ulog_meta_decode :: "bytes option \<Rightarrow> ulog_meta option \<Rightarrow> alp_status \<times> ulog_meta option" where
  "ulog_meta_decode buf m_out =
     (case (buf, m_out) of
        (Some buf, Some m_out) \<Rightarrow>
          if length buf < ULOG_META_WIRE_LEN then (ALP_ERR_INVAL, Some m_out)
          else if get_u16 buf 0 \<noteq> ULOG_VERSION then (ALP_ERR_VERSION, Some m_out)
          else if get_u32 buf 2 \<noteq> ULOG_META_MAGIC then (ALP_ERR_INVAL, Some m_out)
          else (ALP_OK, Some (m_out\<lparr>um_count := get_u64 buf 6, um_head_hash := mem_read buf 14 32\<rparr>))
      | _ \<Rightarrow> (ALP_ERR_INVAL, m_out))"

section \<open>Store keys\<close>

text \<open>The \<^verbatim>\<open>do ... while (v && n < 20)\<close> loop: the decimal digits, least significant first.\<close>

function kbuf_digits :: "u64 \<Rightarrow> nat \<Rightarrow> string" where
  "kbuf_digits v n =
     char_of (48 + unat (v mod 10)) #
       (if v div 10 \<noteq> 0 \<and> n + 1 < 20 then kbuf_digits (v div 10) (n + 1) else [])"
  by pat_completeness auto
termination by (relation "measure (\<lambda>(v, n). 20 - n)") auto

text \<open>\<open>kbuf\<close>: the prefix, then the digits most significant first, each copied while
  \<^verbatim>\<open>pos < cap - 1\<close>; the value is the string before the closing NUL.\<close>

definition kbuf :: "nat \<Rightarrow> u64 \<Rightarrow> string" where
  "kbuf cap seq =
     (let tmp = kbuf_digits seq 0;
          out = take (cap - 1) ''ulog.''
      in out @ take (cap - 1 - length out) (rev tmp))"

abbreviation ulog_key :: "u64 \<Rightarrow> string" where
  "ulog_key seq \<equiv> kbuf 24 seq"

abbreviation META_KEY :: string where
  "META_KEY \<equiv> ''ulog.meta''"

text \<open>The value of a decimal numeral, as the key parsers of the stores read it.\<close>

definition dec_val :: "string \<Rightarrow> nat" where
  "dec_val s = foldl (\<lambda>v c. v * 10 + (of_char c - 48)) 0 s"

section \<open>What a stored record means\<close>

text \<open>The entry and chaining hash a stored blob carries, if it is a well-formed entry;
  likewise for the metadata record.\<close>

definition entry_of_wire :: "bytes \<Rightarrow> (update_log_entry \<times> bytes) option" where
  "entry_of_wire b =
     (case ulog_entry_decode (Some b) (Some zero_entry) (Some []) of
        (ALP_OK, Some e, Some p) \<Rightarrow> Some (e, p) | _ \<Rightarrow> None)"

definition meta_of_wire :: "bytes \<Rightarrow> ulog_meta option" where
  "meta_of_wire b =
     (case ulog_meta_decode (Some b) (Some \<lparr>um_count = 0, um_head_hash = []\<rparr>) of
        (ALP_OK, Some m) \<Rightarrow> Some m | _ \<Rightarrow> None)"

definition entry_encodable :: "update_log_entry \<Rightarrow> bool" where
  "entry_encodable e \<longleftrightarrow> 0 \<in> set (take 32 (ule_fw_version e)) \<and> ule_status e \<le> 3"

text \<open>The wire image the encoder writes when it accepts, and the entry read back: the
  version string with zeros after its first NUL.\<close>

definition entry_wire :: "update_log_entry \<Rightarrow> bytes \<Rightarrow> bytes" where
  "entry_wire e prev = the (snd (ulog_entry_encode (Some e) (Some prev) (Some [])))"

definition meta_wire :: "ulog_meta \<Rightarrow> bytes" where
  "meta_wire m = the (snd (ulog_meta_encode (Some m) (Some [])))"

definition entry_norm :: "update_log_entry \<Rightarrow> update_log_entry" where
  "entry_norm e = e\<lparr>ule_fw_version :=
     (let v = takeWhile (\<lambda>c. c \<noteq> 0) (ule_fw_version e) in v @ replicate (32 - length v) 0)\<rparr>"

section \<open>Facts about the field accessors\<close>

declare bounded_len_from.simps [simp del] kbuf_digits.simps [simp del]

lemma bounded_len_from_eq:
  "n \<le> cap \<Longrightarrow> cap \<le> length s \<Longrightarrow>
   bounded_len_from s cap n = n + length (takeWhile (\<lambda>c. c \<noteq> 0) (drop n (take cap s)))"
proof (induction s cap n rule: bounded_len_from.induct)
  case (1 s cap n)
  show ?case
  proof (cases "n < cap")
    case True
    then have "drop n (take cap s) = s ! n # drop (n + 1) (take cap s)"
      using 1 Cons_nth_drop_Suc [of n "take cap s"] by simp
    then show ?thesis using 1 True by (simp add: bounded_len_from.simps [of s cap n])
  next
    case False
    then have "n = cap" using "1.prems" by simp
    then show ?thesis by (simp add: bounded_len_from.simps [of s cap cap])
  qed
qed

lemma bounded_len_eq:
  "cap \<le> length s \<Longrightarrow> bounded_len s cap = length (takeWhile (\<lambda>c. c \<noteq> 0) (take cap s))"
  by (simp add: bounded_len_def bounded_len_from_eq)

lemma takeWhile_shorter: "x \<in> set xs \<Longrightarrow> \<not> P x \<Longrightarrow> length (takeWhile P xs) < length xs"
  by (induction xs) auto

lemma length_put_u16 [simp]: "off + 2 \<le> length p \<Longrightarrow> length (put_u16 p off v) = length p"
  by (simp add: put_u16_def)

lemma length_put_u32 [simp]: "off + 4 \<le> length p \<Longrightarrow> length (put_u32 p off v) = length p"
  by (simp add: put_u32_def)

lemma length_put_u64 [simp]: "off + 8 \<le> length p \<Longrightarrow> length (put_u64 p off v) = length p"
  by (simp add: put_u64_def)

lemma bytes_of_u16: "[ucast v, ucast (drop_bit 8 v)] = le_bytes 2 (v :: u16)"
  by (simp add: le_bytes_def upt_conv_Cons)

lemma put_u16_le: "put_u16 p off v = mem_write p off (le_bytes 2 v)"
  by (simp only: put_u16_def bytes_of_u16)

lemma le_word_take: "le_word n (take n p) = le_word n p" if "n \<le> length p"
proof -
  have "fold (\<lambda>i v. v OR push_bit (8 * i) (ucast (take n p ! i))) [0..<n] 0 =
        fold (\<lambda>i v. v OR push_bit (8 * i) (ucast (p ! i))) [0..<n] 0"
    by (rule List.fold_cong) auto
  then show ?thesis by (simp add: le_word_def)
qed

lemma get_u16_le: "off + 2 \<le> length p \<Longrightarrow> get_u16 p off = le_word 2 (mem_read p off 2)"
  by (simp add: get_u16_def le_word_def mem_read_nth upt_conv_Cons)

lemma get_u32_le: "off + 4 \<le> length p \<Longrightarrow> get_u32 p off = le_word 4 (mem_read p off 4)"
  by (simp add: get_u32_def mem_read_def le_word_take)

lemma get_u64_le: "off + 8 \<le> length p \<Longrightarrow> get_u64 p off = le_word 8 (mem_read p off 8)"
  by (simp add: get_u64_def mem_read_def le_word_take)

lemmas field_le = put_u16_le put_u32_def put_u64_def get_u16_le get_u32_le get_u64_le le_word_bytes

section \<open>Facts about entries and metadata\<close>

text \<open>Where each field of an accepted entry lands in the 115 bytes.\<close>

lemma entry_wire_layout:
  assumes "length h = 32" "length (ule_image_hash e) = 32" "length (ule_fw_version e) = 32" "entry_encodable e"
  defines "v \<equiv> takeWhile (\<lambda>c. c \<noteq> 0) (ule_fw_version e)"
  shows "length v \<le> 31"
    "ulog_entry_encode (Some e) (Some h) (Some out) = (ALP_OK, Some (entry_wire e h))"
    "length (entry_wire e h) = 115"
    "mem_read (entry_wire e h) 0 2 = le_bytes 2 ULOG_VERSION"
    "mem_read (entry_wire e h) 2 8 = le_bytes 8 (ule_seq e)"
    "mem_read (entry_wire e h) 10 1 = [ucast (ule_status e)]"
    "mem_read (entry_wire e h) 11 8 = le_bytes 8 (ule_timestamp e)"
    "mem_read (entry_wire e h) 19 1 = [of_nat (length v)]"
    "mem_read (entry_wire e h) 20 (length v) = v"
    "mem_read (entry_wire e h) 51 32 = h"
    "mem_read (entry_wire e h) 83 32 = ule_image_hash e"
proof -
  have lt: "length v < 32"
    using assms takeWhile_shorter [of 0 "ule_fw_version e" "\<lambda>c. c \<noteq> 0"]
    by (auto simp: entry_encodable_def)
  then show v31: "length v \<le> 31" by simp
  have bl: "bounded_len (ule_fw_version e) 32 = length v"
    using assms by (simp add: bounded_len_eq v_def)
  have tk: "take (length v) (ule_fw_version e) = v"
    by (simp add: v_def takeWhile_eq_take [symmetric])
  let ?w = "mem_write (mem_write (mem_write (mem_write (put_u64 (mem_write (put_u64 (put_u16
      (mem_set 0 115) 0 ULOG_VERSION) 2 (ule_seq e)) 10 [ucast (ule_status e)]) 11 (ule_timestamp e))
      19 [of_nat (length v)]) 20 v) 51 h) 83 (ule_image_hash e)"
  have enc: "ulog_entry_encode (Some e) (Some h) (Some o') = (ALP_OK, Some ?w)" for o'
    using assms(1,2,4) bl tk v31 by (simp add: ulog_entry_encode_def Let_def entry_encodable_def not_less)
  then have w: "entry_wire e h = ?w" by (simp add: entry_wire_def)
  then show "ulog_entry_encode (Some e) (Some h) (Some out) = (ALP_OK, Some (entry_wire e h))"
    using enc by simp
  note len = assms(1,2) v31
  show "length (entry_wire e h) = 115" using len unfolding w by simp
  show "mem_read (entry_wire e h) 0 2 = le_bytes 2 ULOG_VERSION"
    using len unfolding w by (simp add: buffer_simps field_le)
  show "mem_read (entry_wire e h) 2 8 = le_bytes 8 (ule_seq e)"
    using len unfolding w by (simp add: buffer_simps field_le)
  show "mem_read (entry_wire e h) 10 1 = [ucast (ule_status e)]"
    using len unfolding w by (simp add: buffer_simps field_le)
  show "mem_read (entry_wire e h) 11 8 = le_bytes 8 (ule_timestamp e)"
    using len unfolding w by (simp add: buffer_simps field_le)
  show "mem_read (entry_wire e h) 19 1 = [of_nat (length v)]"
    using len unfolding w by (simp add: buffer_simps field_le)
  show "mem_read (entry_wire e h) 20 (length v) = v"
    using len unfolding w by (simp add: buffer_simps field_le)
  show "mem_read (entry_wire e h) 51 32 = h"
    using len unfolding w by (simp add: buffer_simps field_le)
  show "mem_read (entry_wire e h) 83 32 = ule_image_hash e"
    using len unfolding w by (simp add: buffer_simps field_le)
qed

lemma entry_of_wire_iff:
  "entry_of_wire b = Some (e, p) \<longleftrightarrow>
     115 \<le> length b \<and> get_u16 b 0 = ULOG_VERSION \<and> unat (b ! 19) \<le> 31 \<and>
     e = zero_entry\<lparr>ule_seq := get_u64 b 2, ule_status := ucast (b ! 10), ule_timestamp := get_u64 b 11,
           ule_fw_version := mem_write (mem_set 0 32) 0 (mem_read b 20 (unat (b ! 19))),
           ule_image_hash := mem_read b 83 32\<rparr> \<and>
     p = mem_read b 51 32"
  by (auto simp: entry_of_wire_def ulog_entry_decode_def Let_def zero_entry_def not_less not_le)

lemma decode_entry_of_wire:
  "ulog_entry_decode (Some b) (Some e0) (Some p0) =
     (case entry_of_wire b of
        Some (e, p) \<Rightarrow> (ALP_OK, Some e, Some p)
      | None \<Rightarrow> (fst (ulog_entry_decode (Some b) (Some e0) (Some p0)), Some e0, Some p0))"
  by (auto simp: entry_of_wire_def ulog_entry_decode_def Let_def)

lemma decode_status:
  "fst (ulog_entry_decode (Some b) (Some e0) (Some p0)) = ALP_OK \<longleftrightarrow> entry_of_wire b \<noteq> None"
  by (auto simp: entry_of_wire_def ulog_entry_decode_def Let_def)

lemma entry_of_wire_entry_wire:
  assumes "length h = 32" "entry_wf e" "entry_encodable e"
  shows "entry_of_wire (entry_wire e h) = Some (entry_norm e, h)"
proof -
  let ?v = "takeWhile (\<lambda>c. c \<noteq> 0) (ule_fw_version e)" and ?w = "entry_wire e h"
  have wf: "length (ule_image_hash e) = 32" "length (ule_fw_version e) = 32"
    using assms by (auto simp: entry_wf_def)
  note lay = entry_wire_layout [OF assms(1) wf assms(3)]
  have vb: "?w ! 19 = of_nat (length ?v)" "?w ! 10 = ucast (ule_status e)"
    using lay by (simp_all add: nth_conv_mem_read)
  have "unat (?w ! 19) = length ?v" using lay(1) by (simp add: vb unat_of_nat)
  moreover have "ucast (ucast (ule_status e) :: u8) = ule_status e"
  proof -
    have "unat (ule_status e) \<le> 3"
      using assms(3) by (simp add: entry_encodable_def word_le_nat_alt)
    then show ?thesis by (simp add: word_unat_eq_iff unsigned_ucast_eq unsigned_take_bit_eq take_bit_nat_eq_self)
  qed
  moreover have "mem_write (mem_set 0 32) 0 ?v = ?v @ replicate (32 - length ?v) 0"
    by (simp add: mem_write_def mem_set_def)
  ultimately show ?thesis
    using lay vb by (simp add: entry_of_wire_iff field_le entry_norm_def Let_def zero_entry_def)
qed

lemma meta_roundtrip:
  assumes "length (um_head_hash m) = 32"
  shows "meta_of_wire (meta_wire m) = Some m" "length (meta_wire m) = 46"
   "ulog_meta_encode (Some m) (Some out) = (ALP_OK, Some (meta_wire m))"
  using assms
  by (simp_all add: meta_of_wire_def meta_wire_def ulog_meta_encode_def ulog_meta_decode_def Let_def
     field_le buffer_simps)

lemma meta_decode_not_None [simp]: "ulog_meta_decode (Some b) (Some m) \<noteq> (rc, None)"
  by (simp add: ulog_meta_decode_def)

section \<open>Facts about keys\<close>

lemma dec_val_Nil [simp]: "dec_val [] = 0"
  by (simp add: dec_val_def)

lemma dec_val_snoc [simp]: "dec_val (s @ [c]) = dec_val s * 10 + (of_char c - 48)"
  by (simp add: dec_val_def)

lemma of_char_digit [simp]: "d < 10 \<Longrightarrow> of_char (char_of (48 + d :: nat)) = (48 + d :: nat)"
  by simp

lemma unat_mod_10 [simp]: "unat ((v :: u64) mod 10) = unat v mod 10"
  by (simp add: unat_mod)

lemma unat_div_10 [simp]: "unat ((v :: u64) div 10) = unat v div 10"
  by (simp add: unat_div)

lemma word_div_10_eq_0: "(v :: u64) div 10 = 0 \<longleftrightarrow> unat v < 10"
  by (simp add: word_unat_eq_iff div_eq_0_iff)

lemma kbuf_digits_val:
  "n < 20 \<Longrightarrow> unat v < 10 ^ (20 - n) \<Longrightarrow> dec_val (rev (kbuf_digits v n)) = unat v"
proof (induction v n rule: kbuf_digits.induct)
  case (1 v n)
  show ?case
  proof (cases "v div 10 \<noteq> 0 \<and> n + 1 < 20")
    case True
    have "(10::nat) ^ (20 - n) = 10 ^ (20 - (n + 1)) * 10"
      using True by (metis Suc_diff_Suc Suc_eq_plus1 Suc_lessD power_Suc2)
    then have "unat (v div 10) < 10 ^ (20 - (n + 1))"
      using "1.prems" by (simp add: less_mult_imp_div_less)
    then have "dec_val (rev (kbuf_digits (v div 10) (n + 1))) = unat v div 10"
      using "1.IH" True by simp
    then show ?thesis using True by (simp add: kbuf_digits.simps [of v n])
  next
    case False
    then have "unat v < 10"
    proof (cases "n + 1 < 20")
      case True
      with False show ?thesis by (simp add: word_div_10_eq_0)
    next
      case False
      then have "20 - n = 1" using "1.prems" by simp
      then show ?thesis using "1.prems" by simp
    qed
    then show ?thesis using False by (auto simp: kbuf_digits.simps [of v n])
  qed
qed

lemma kbuf_digits_length:
  "unat v < 10 ^ k \<Longrightarrow> 1 \<le> k \<Longrightarrow> length (kbuf_digits v n) \<le> k"
proof (induction v n arbitrary: k rule: kbuf_digits.induct)
  case (1 v n)
  show ?case
  proof (cases "v div 10 \<noteq> 0 \<and> n + 1 < 20")
    case True
    then have "\<not> unat v < 10" by (simp add: word_div_10_eq_0)
    then have "k \<noteq> 1" using "1.prems" by auto
    then obtain j where k: "k = Suc j" "1 \<le> j" using "1.prems" by (cases k) auto
    then have "unat (v div 10) < 10 ^ j" using "1.prems" by (simp add: less_mult_imp_div_less)
    then show ?thesis using "1.IH" True k by (simp add: kbuf_digits.simps [of v n])
  next
    case False
    then show ?thesis using "1.prems" by (auto simp: kbuf_digits.simps [of v n])
  qed
qed

lemma kbuf_digits_chars: "c \<in> set (kbuf_digits v n) \<Longrightarrow> 48 \<le> (of_char c :: nat) \<and> of_char c \<le> (57 :: nat)"
proof (induction v n rule: kbuf_digits.induct)
  case (1 v n)
  have "unat v mod 10 < 10" by simp
  then have d: "of_char (char_of (48 + unat v mod 10)) = (48 + unat v mod 10 :: nat)" by (rule of_char_digit)
  from "1.prems" have "c = char_of (48 + unat v mod 10) \<or>
      (v div 10 \<noteq> 0 \<and> n + 1 < 20 \<and> c \<in> set (kbuf_digits (v div 10) (n + 1)))"
    by (auto simp: kbuf_digits.simps [of v n] split: if_splits)
  then show ?case using "1.IH" d by (auto simp del: of_char_of)
qed

lemma kbuf_digits_nonempty [simp]: "kbuf_digits v n \<noteq> []"
  by (simp add: kbuf_digits.simps [of v n])

lemma SEQ_MAX_digits: "seq \<le> ULOG_SEQ_MAX \<longleftrightarrow> unat seq < 10 ^ 18"
  by (simp add: ULOG_SEQ_MAX_def word_le_nat_alt) arith

lemma ulog_key_eq:
  "seq \<le> ULOG_SEQ_MAX \<Longrightarrow> ulog_key seq = ''ulog.'' @ rev (kbuf_digits seq 0)"
  using kbuf_digits_length [of seq 18 0] by (simp add: kbuf_def Let_def SEQ_MAX_digits)

lemma dec_val_digits: "dec_val (rev (kbuf_digits seq 0)) = unat seq"
proof -
  have "unat seq < 2 ^ 64" using unsigned_less [of seq] by simp
  then show ?thesis by (intro kbuf_digits_val) simp_all
qed

lemma ulog_key_eqD:
  assumes "a \<le> ULOG_SEQ_MAX" "b \<le> ULOG_SEQ_MAX" "ulog_key a = ulog_key b"
  shows "a = b"
proof -
  have "rev (kbuf_digits a 0) = rev (kbuf_digits b 0)" using assms by (simp add: ulog_key_eq)
  then have "unat a = unat b" by (metis dec_val_digits)
  then show ?thesis by (simp add: word_unat_eq_iff)
qed

lemma ulog_key_prefix: "\<exists>d ds. ulog_key seq = ''ulog.'' @ d # ds \<and> 48 \<le> (of_char d :: nat) \<and> of_char d \<le> (57::nat) \<and> set (d#ds) \<subseteq> set (kbuf_digits seq 0) \<and> length ds < 18"
proof -
  let ?t = "take 18 (rev (kbuf_digits seq 0))"
  have "?t \<noteq> []" by simp
  then obtain d ds where t: "?t = d # ds" by (cases ?t) auto
  have "set ?t \<subseteq> set (kbuf_digits seq 0)" using set_take_subset [of 18 "rev (kbuf_digits seq 0)"] by simp
  moreover have "length ?t \<le> 18" by simp
  ultimately show ?thesis using t kbuf_digits_chars [of d seq 0]
    by (intro exI [of _ d] exI [of _ ds]) (auto simp: kbuf_def Let_def)
qed

lemma ulog_key_neq_meta [simp]: "ulog_key seq \<noteq> META_KEY" "META_KEY \<noteq> ulog_key seq"
  using ulog_key_prefix [of seq] by (auto simp: numeral_eq_Suc)

lemma encode_refuses:
  assumes "entry_wf e" "\<not> entry_encodable e"
  shows "ulog_entry_encode (Some e) (Some h) (Some out) = (ALP_ERR_INVAL, Some out)"
proof (cases "0 \<in> set (ule_fw_version e)")
  case True
  then show ?thesis
    using assms by (auto simp: entry_wf_def entry_encodable_def ulog_entry_encode_def Let_def not_le)
next
  case False
  then have "\<forall>c \<in> set (ule_fw_version e). c \<noteq> 0" by auto
  then have "length (takeWhile (\<lambda>c. c \<noteq> 0) (ule_fw_version e)) = length (ule_fw_version e)"
    by (rule arg_cong [where f = length, OF takeWhile_eq_all_conv [THEN iffD2]])
  with assms(1) have "bounded_len (ule_fw_version e) 32 = 32"
    by (simp add: bounded_len_eq entry_wf_def)
  then show ?thesis by (simp add: ulog_entry_encode_def Let_def)
qed

section \<open>Properties\<close>

text \<open>
  C25. Entry round trip: a well-formed entry is accepted exactly when its version string
  is NUL-terminated within 32 bytes and its status is one of the four enumerators; an
  accepted entry decodes to the same sequence number, timestamp, status and image hash,
  the version string (zero-padded after its NUL) and the chaining hash it was encoded
  with; a refused one leaves the output buffer untouched.
\<close>

theorem ulog_entry_roundtrip:
  assumes "entry_wf e" and "length h = 32"
  shows "(entry_encodable e \<longrightarrow>
      (\<exists>w. ulog_entry_encode (Some e) (Some h) (Some out) = (ALP_OK, Some w) \<and> length w = ULOG_ENTRY_WIRE_LEN \<and>
        ulog_entry_decode (Some w) (Some e0) (Some p0) = (ALP_OK, Some (entry_norm e), Some h))) \<and>
    (\<not> entry_encodable e \<longrightarrow>
      ulog_entry_encode (Some e) (Some h) (Some out) = (ALP_ERR_INVAL, Some out))"
proof (intro conjI impI)
  assume enc: "entry_encodable e"
  have wf: "length (ule_image_hash e) = 32" "length (ule_fw_version e) = 32"
    using assms(1) by (auto simp: entry_wf_def)
  have "ulog_entry_decode (Some (entry_wire e h)) (Some e0) (Some p0) = (ALP_OK, Some (entry_norm e), Some h)"
    using decode_entry_of_wire [of "entry_wire e h" e0 p0] entry_of_wire_entry_wire [OF assms(2,1) enc]
    by simp
  then show "\<exists>w. ulog_entry_encode (Some e) (Some h) (Some out) = (ALP_OK, Some w) \<and>
      length w = ULOG_ENTRY_WIRE_LEN \<and>
      ulog_entry_decode (Some w) (Some e0) (Some p0) = (ALP_OK, Some (entry_norm e), Some h)"
    using entry_wire_layout(2,3) [OF assms(2) wf enc] by blast
next
  assume "\<not> entry_encodable e"
  then show "ulog_entry_encode (Some e) (Some h) (Some out) = (ALP_ERR_INVAL, Some out)"
    using encode_refuses assms(1) by blast
qed

definition sample_entry :: update_log_entry where
  "sample_entry = \<lparr>ule_seq = 0, ule_fw_version = [49, 46, 50] @ replicate 29 0,
     ule_image_hash = replicate 32 7, ule_status = 3, ule_timestamp = 1700000000\<rparr>"

theorem ulog_entry_roundtrip_witness:
  "entry_wf sample_entry \<and> entry_encodable sample_entry \<and>
   (\<exists>w. ulog_entry_encode (Some sample_entry) (Some (replicate 32 0)) (Some []) = (ALP_OK, Some w) \<and>
      ulog_entry_decode (Some w) (Some zero_entry) (Some []) = (ALP_OK, Some sample_entry, Some (replicate 32 0)))"
proof -
  have wf: "entry_wf sample_entry" by (simp add: entry_wf_def sample_entry_def)
  have en: "entry_encodable sample_entry" by (simp add: entry_encodable_def sample_entry_def)
  have nm: "entry_norm sample_entry = sample_entry"
    by (simp add: entry_norm_def sample_entry_def)
  show ?thesis
    using ulog_entry_roundtrip [OF wf, of "replicate 32 0" "[]" zero_entry "[]"] wf en nm by auto
qed

text \<open>
  The key bound is exact.  The store keys are injective over the sequence numbers the engine
  assigns and disjoint from the metadata key, so no append can overwrite another entry or the
  metadata, and the decimal digits read back as the sequence number; the next number,
  \<open>ULOG_SEQ_MAX + 1\<close>, which recovery and verification render once the log is full, no longer fits
  the 24-byte key buffer and gives the key of an existing entry.
\<close>

theorem ulog_key_bound:
  assumes "a \<le> ULOG_SEQ_MAX" and "b \<le> ULOG_SEQ_MAX"
  shows "(kbuf 24 a = kbuf 24 b \<longleftrightarrow> a = b) \<and> kbuf 24 a \<noteq> ''ulog.meta'' \<and>
    take 5 (kbuf 24 a) = ''ulog.'' \<and> dec_val (drop 5 (kbuf 24 a)) = unat a \<and>
    (\<exists>c \<le> ULOG_SEQ_MAX. kbuf 24 (ULOG_SEQ_MAX + 1) = kbuf 24 c)"
proof -
  have "kbuf 24 (ULOG_SEQ_MAX + 1) = kbuf 24 100000000000000000" unfolding ULOG_SEQ_MAX_def by code_simp
  moreover have "100000000000000000 \<le> ULOG_SEQ_MAX" by (simp add: ULOG_SEQ_MAX_def)
  ultimately show ?thesis using ulog_key_eqD [OF assms] ulog_key_eq [OF assms(1)] by (auto simp: dec_val_digits)
qed

theorem ulog_key_bound_witness:
  "(41 :: u64) \<le> ULOG_SEQ_MAX \<and> ULOG_SEQ_MAX \<le> ULOG_SEQ_MAX \<and> kbuf 24 41 \<noteq> kbuf 24 ULOG_SEQ_MAX \<and>
   dec_val (drop 5 (kbuf 24 41)) = 41"
proof -
  have h: "(41 :: u64) \<le> ULOG_SEQ_MAX" "41 \<noteq> ULOG_SEQ_MAX" by (simp_all add: ULOG_SEQ_MAX_def)
  show ?thesis using ulog_key_bound [OF h(1), of ULOG_SEQ_MAX] h by simp
qed

end
