(* ===== verification/Ulog_Engine.thy ===== *)
theory Ulog_Engine
  imports Ulog_Codec
begin

text \<open>
  The update-log engine (\<^verbatim>\<open>src/update_log/engine.c\<close>, lines 353--833) over the three seams of
  \<^verbatim>\<open>src/update_log/store.h\<close>: a keyed blob store, a monotonic counter and an optional
  external rollback anchor.  A seam is a record of functions on a world \<open>'w\<close>, the way the
  code passes tables of function pointers with a context; a NULL argument is \<open>None\<close>.

  The engine lock is left out of these definitions: every entry point runs its whole body
  between \<open>ulog_engine_lock\<close> and \<open>ulog_engine_unlock\<close> on every path, and the theory
  \<open>Engine_Lock\<close> shows that calls bracketed that way are serialised.

  The laws a store and counter promise are the locale \<open>ulog_seams\<close> (theory \<open>Ulog_Contract\<close>);
  this theory holds the operations only.
\<close>

section \<open>The seams\<close>

record 'w secure_store_if =
  st_put :: "string \<Rightarrow> bytes \<Rightarrow> 'w \<Rightarrow> alp_status \<times> 'w"
  st_get :: "string \<Rightarrow> nat \<Rightarrow> 'w \<Rightarrow> alp_status \<times> bytes \<times> 'w"
  st_erase :: "string \<Rightarrow> 'w \<Rightarrow> alp_status \<times> 'w"

record 'w monotonic_counter_if =
  ct_read :: "u32 \<Rightarrow> 'w \<Rightarrow> alp_status \<times> u64 \<times> 'w"
  ct_increment :: "u32 \<Rightarrow> 'w \<Rightarrow> alp_status \<times> u64 \<times> 'w"

record 'w counter_anchor_if =
  an_read :: "('w \<Rightarrow> alp_status \<times> u64 \<times> 'w) option"
  an_advance :: "(u64 \<Rightarrow> 'w \<Rightarrow> alp_status \<times> 'w) option"

datatype update_log_verdict =
    ALP_UPDATE_LOG_VERIFY_OK
  | ALP_UPDATE_LOG_VERIFY_CHAIN_BROKEN
  | ALP_UPDATE_LOG_VERIFY_TRUNCATED
  | ALP_UPDATE_LOG_VERIFY_ROLLED_BACK

section \<open>Recovery\<close>

text \<open>The hash entry \<open>seq\<close> must chain from, recomputed from the stored entry \<open>seq - 1\<close>.\<close>

definition ulog_prev_hash_of_predecessor ::
  "'w secure_store_if \<Rightarrow> u64 \<Rightarrow> 'w \<Rightarrow> alp_status \<times> bytes \<times> 'w" where
  "ulog_prev_hash_of_predecessor store seq w =
     (if seq = 0 then (ALP_OK, mem_set 0 32, w)
      else
        (let (rc, pwire, w) = st_get store (ulog_key (seq - 1)) ULOG_ENTRY_WIRE_LEN w
         in if rc \<noteq> ALP_OK then (rc, mem_set 0 32, w)
            else (ALP_OK, ulog_sha256 pwire, w)))"

text \<open>The metadata record the code writes once the entry \<open>wire\<close> at \<open>hw\<close> is committed.\<close>

definition meta_after :: "u64 \<Rightarrow> bytes \<Rightarrow> bytes" where
  "meta_after hw wire =
     the (snd (ulog_meta_encode (Some \<lparr>um_count = hw + 1, um_head_hash = ulog_sha256 wire\<rparr>)
                                (Some (mem_set 0 ULOG_META_WIRE_LEN))))"

text \<open>The second half of recovery, with an entry \<open>wire\<close> found at the counter value: validate
  that it chains from the entry below it, then bring metadata and counter level.\<close>

definition recover_entry ::
  "'w secure_store_if \<Rightarrow> 'w monotonic_counter_if \<Rightarrow> u64 \<Rightarrow> bytes \<Rightarrow> 'w \<Rightarrow> alp_status \<times> 'w" where
  "recover_entry store ctr hw wire w =
     (case entry_of_wire wire of
        None \<Rightarrow> (ALP_OK, w)
      | Some (e, got_prev) \<Rightarrow>
          if ule_seq e \<noteq> hw then (ALP_OK, w) else
          let (rc, expect_prev, w) = ulog_prev_hash_of_predecessor store hw w in
          if rc = ALP_ERR_NOT_FOUND then (ALP_OK, w) else
          if rc \<noteq> ALP_OK then (rc, w) else
          if got_prev \<noteq> expect_prev then (ALP_OK, w) else
          let (rc, w) = st_put store META_KEY (meta_after hw wire) w in
          if rc \<noteq> ALP_OK then (rc, w) else
          let (rc, newhw, w) = ct_increment ctr 0 w in (rc, w))"

definition ulog_recover ::
  "'w secure_store_if \<Rightarrow> 'w monotonic_counter_if \<Rightarrow> 'w \<Rightarrow> alp_status \<times> 'w" where
  "ulog_recover store ctr w =
     (let (rc, hw, w) = ct_read ctr 0 w in
      if rc \<noteq> ALP_OK then (rc, w) else
      if hw = - 1 then (ALP_ERR_NOMEM, w) else
      let (rc, wire, w) = st_get store (ulog_key hw) ULOG_ENTRY_WIRE_LEN w in
      if rc = ALP_ERR_NOT_FOUND then (ALP_OK, w) else
      if rc \<noteq> ALP_OK then (rc, w)
      else recover_entry store ctr hw wire w)"

section \<open>The rollback anchor\<close>

definition ulog_anchor_valid :: "'w counter_anchor_if option \<Rightarrow> bool" where
  "ulog_anchor_valid anchor \<longleftrightarrow>
     (case anchor of None \<Rightarrow> True | Some a \<Rightarrow> an_read a \<noteq> None \<and> an_advance a \<noteq> None)"

definition ulog_sync_anchor ::
  "'w monotonic_counter_if \<Rightarrow> 'w counter_anchor_if option \<Rightarrow> 'w \<Rightarrow> alp_status \<times> bool \<times> 'w" where
  "ulog_sync_anchor ctr anchor w =
     (case anchor of
        None \<Rightarrow> (ALP_OK, False, w)
      | Some a \<Rightarrow>
          let (rc, hw, w) = ct_read ctr 0 w in
          if rc \<noteq> ALP_OK then (rc, False, w) else
          let (rc, floor, w) = the (an_read a) w in
          if rc \<noteq> ALP_OK then (rc, False, w) else
          if floor > hw then (ALP_OK, True, w) else
          if floor < hw then (let (rc, w) = the (an_advance a) hw w in (rc, False, w))
          else (ALP_OK, False, w))"

section \<open>Append\<close>

text \<open>Recovery, anchor sync, the rollback refusal and the sequence bound: the counter
  value the new entry gets.\<close>

definition append_prologue ::
  "'w secure_store_if \<Rightarrow> 'w monotonic_counter_if \<Rightarrow> 'w counter_anchor_if option \<Rightarrow> 'w \<Rightarrow>
   alp_status \<times> u64 \<times> 'w" where
  "append_prologue store ctr anchor w =
     (let (rc, w) = ulog_recover store ctr w;
          (rc, rolled_back, w) = (if rc = ALP_OK then ulog_sync_anchor ctr anchor w else (rc, False, w));
          rc = (if rc = ALP_OK \<and> rolled_back then ALP_ERR_IO else rc) in
      if rc \<noteq> ALP_OK then (rc, 0, w) else
      let (rc, hw, w) = ct_read ctr 0 w in
      if rc \<noteq> ALP_OK then (rc, 0, w) else
      if hw > ULOG_SEQ_MAX then (ALP_ERR_NOMEM, hw, w)
      else (ALP_OK, hw, w))"

text \<open>The independently derived chaining hash, and the metadata cache required to agree
  with it (\<^verbatim>\<open>hw > 0\<close>).\<close>

definition append_prev ::
  "'w secure_store_if \<Rightarrow> u64 \<Rightarrow> 'w \<Rightarrow> alp_status \<times> bytes \<times> 'w" where
  "append_prev store hw w =
     (let (rc, prev, w) = ulog_prev_hash_of_predecessor store hw w in
      if rc \<noteq> ALP_OK then ((if rc = ALP_ERR_NOT_FOUND then ALP_ERR_IO else rc), prev, w) else
      if hw = 0 then (ALP_OK, prev, w) else
      let (rc, metabuf, w) = st_get store META_KEY ULOG_META_WIRE_LEN w in
      if rc \<noteq> ALP_OK then ((if rc = ALP_ERR_NOT_FOUND then ALP_ERR_IO else rc), prev, w) else
      (case ulog_meta_decode (Some metabuf) (Some \<lparr>um_count = 0, um_head_hash = []\<rparr>) of
         (ALP_OK, Some m) \<Rightarrow>
           if um_count m \<noteq> hw \<or> um_head_hash m \<noteq> prev then (ALP_ERR_IO, prev, w)
           else (ALP_OK, prev, w)
       | (rc, _) \<Rightarrow> (rc, prev, w)))"

text \<open>The three durable mutations and the anchor advance, in the order the code makes them.\<close>

definition append_commit ::
  "'w secure_store_if \<Rightarrow> 'w monotonic_counter_if \<Rightarrow> 'w counter_anchor_if option \<Rightarrow>
   u64 \<Rightarrow> bytes \<Rightarrow> 'w \<Rightarrow> alp_status \<times> 'w" where
  "append_commit store ctr anchor hw wire w =
     (let (rc, w) = st_put store (ulog_key hw) wire w in
      if rc \<noteq> ALP_OK then (rc, w) else
      let (rc, w) = st_put store META_KEY (meta_after hw wire) w in
      if rc \<noteq> ALP_OK then (rc, w) else
      let (rc, newhw, w) = ct_increment ctr 0 w in
      (case anchor of
         Some a \<Rightarrow> if rc = ALP_OK then the (an_advance a) (hw + 1) w else (rc, w)
       | None \<Rightarrow> (rc, w)))"

text \<open>The append proper, at the sequence number \<open>hw\<close>.\<close>

definition append_entry ::
  "'w secure_store_if \<Rightarrow> 'w monotonic_counter_if \<Rightarrow> 'w counter_anchor_if option \<Rightarrow>
   u64 \<Rightarrow> update_log_entry \<Rightarrow> 'w \<Rightarrow> alp_status \<times> 'w" where
  "append_entry store ctr anchor hw entry w =
     (let (rc, prev, w) = append_prev store hw w in
      if rc \<noteq> ALP_OK then (rc, w) else
      let (rc, wire) = ulog_entry_encode (Some (entry\<lparr>ule_seq := hw\<rparr>)) (Some prev)
                         (Some (mem_set 0 ULOG_ENTRY_WIRE_LEN)) in
      if rc \<noteq> ALP_OK then (rc, w)
      else append_commit store ctr anchor hw (the wire) w)"

definition ulog_engine_append_anchored ::
  "'w secure_store_if option \<Rightarrow> 'w monotonic_counter_if option \<Rightarrow> 'w counter_anchor_if option \<Rightarrow>
   update_log_entry option \<Rightarrow> 'w \<Rightarrow> alp_status \<times> 'w" where
  "ulog_engine_append_anchored store ctr anchor entry w =
     (case (store, ctr, entry) of
        (Some store, Some ctr, Some entry) \<Rightarrow>
          if \<not> ulog_anchor_valid anchor then (ALP_ERR_INVAL, w) else
          let (rc, hw, w) = append_prologue store ctr anchor w in
          if rc \<noteq> ALP_OK then (rc, w)
          else append_entry store ctr anchor hw entry w
      | _ \<Rightarrow> (ALP_ERR_INVAL, w))"

definition ulog_engine_append ::
  "'w secure_store_if option \<Rightarrow> 'w monotonic_counter_if option \<Rightarrow> update_log_entry option \<Rightarrow> 'w \<Rightarrow>
   alp_status \<times> 'w" where
  "ulog_engine_append store ctr entry w = ulog_engine_append_anchored store ctr None entry w"

section \<open>Verify\<close>

text \<open>What a stretch of the verify body decides: leave with an I/O error, leave with a
  verdict and a \<open>bad_seq\<close>, or go on.\<close>

datatype 'a walk =
    Walk_Err alp_status
  | Walk_Verdict update_log_verdict u64
  | Walk_Next 'a

text \<open>The metadata check: \<^verbatim>\<open>m\<close> stays zero for an empty log.\<close>

definition verify_meta :: "'w secure_store_if \<Rightarrow> u64 \<Rightarrow> 'w \<Rightarrow> ulog_meta walk \<times> 'w" where
  "verify_meta store hw w =
     (if hw = 0 then (Walk_Next \<lparr>um_count = 0, um_head_hash = mem_set 0 32\<rparr>, w)
      else
        let (rc, metabuf, w) = st_get store META_KEY ULOG_META_WIRE_LEN w in
        if rc = ALP_ERR_NOT_FOUND then (Walk_Verdict ALP_UPDATE_LOG_VERIFY_ROLLED_BACK 0, w) else
        if rc \<noteq> ALP_OK then (Walk_Err ALP_ERR_IO, w) else
        (case meta_of_wire metabuf of
           None \<Rightarrow> (Walk_Err ALP_ERR_IO, w)
         | Some m \<Rightarrow>
             if um_count m \<noteq> hw then (Walk_Verdict ALP_UPDATE_LOG_VERIFY_ROLLED_BACK 0, w)
             else (Walk_Next m, w)))"

text \<open>The chain walk \<^verbatim>\<open>for (i = 0; i < hw; i++)\<close>, carrying \<open>prev\<close> and \<open>cur_hash\<close>.\<close>

function verify_walk ::
  "'w secure_store_if \<Rightarrow> u64 \<Rightarrow> u64 \<Rightarrow> bytes \<Rightarrow> bytes \<Rightarrow> 'w \<Rightarrow> bytes walk \<times> 'w" where
  "verify_walk store hw i prev cur_hash w =
     (if \<not> i < hw then (Walk_Next cur_hash, w)
      else
        let (rc, wire, w) = st_get store (ulog_key i) ULOG_ENTRY_WIRE_LEN w in
        if rc = ALP_ERR_NOT_FOUND then (Walk_Verdict ALP_UPDATE_LOG_VERIFY_TRUNCATED i, w) else
        if rc \<noteq> ALP_OK then (Walk_Err ALP_ERR_IO, w) else
        (case entry_of_wire wire of
           None \<Rightarrow> (Walk_Verdict ALP_UPDATE_LOG_VERIFY_CHAIN_BROKEN i, w)
         | Some (e, got_prev) \<Rightarrow>
             if ule_seq e \<noteq> i \<or> got_prev \<noteq> prev
             then (Walk_Verdict ALP_UPDATE_LOG_VERIFY_CHAIN_BROKEN i, w)
             else verify_walk store hw (i + 1) (ulog_sha256 wire) (ulog_sha256 wire) w))"
  by pat_completeness auto
termination
proof (relation "measure (\<lambda>(store, hw, i, prev, cur_hash, w). unat hw - unat i)", goal_cases)
  case 1
  show ?case by simp
next
  case (2 store hw i)
  then have "unat i < unat hw" by (simp add: word_less_nat_alt)
  moreover have "unat hw < 2 ^ 64" using unsigned_less [of hw] by simp
  ultimately have "unat (i + 1) = unat i + 1" by (simp add: unat_word_ariths)
  then show ?case using \<open>unat i < unat hw\<close> by simp
qed

declare verify_walk.simps [simp del]

text \<open>The look at the frontier slot \<open>hw\<close>, which the walk never reads.\<close>

definition verify_frontier ::
  "'w secure_store_if \<Rightarrow> u64 \<Rightarrow> bytes \<Rightarrow> 'w \<Rightarrow> unit walk \<times> 'w" where
  "verify_frontier store hw cur_hash w =
     (let (rc, wire, w) = st_get store (ulog_key hw) ULOG_ENTRY_WIRE_LEN w in
      if rc \<noteq> ALP_OK \<and> rc \<noteq> ALP_ERR_NOT_FOUND then (Walk_Err ALP_ERR_IO, w) else
      if rc = ALP_OK then
        (case entry_of_wire wire of
           Some (e, frontier_prev) \<Rightarrow>
             if ule_seq e = hw \<and> frontier_prev = cur_hash
             then (Walk_Verdict ALP_UPDATE_LOG_VERIFY_ROLLED_BACK 0, w)
             else (Walk_Verdict ALP_UPDATE_LOG_VERIFY_CHAIN_BROKEN hw, w)
         | None \<Rightarrow> (Walk_Verdict ALP_UPDATE_LOG_VERIFY_CHAIN_BROKEN hw, w))
      else (Walk_Next (), w))"

text \<open>The checks of \<open>verify\<close> from the metadata to the frontier, in order: the verdict and
  \<open>bad_seq\<close> the code has stored when it jumps to its exit label, or \<open>Walk_Next\<close> when it
  falls through to it with \<open>VERIFY_OK\<close>.\<close>

definition verify_body ::
  "'w secure_store_if \<Rightarrow> u64 \<Rightarrow> 'w \<Rightarrow> unit walk \<times> 'w" where
  "verify_body store hw w =
     (case verify_meta store hw w of
        (Walk_Err rc, w) \<Rightarrow> (Walk_Err rc, w)
      | (Walk_Verdict v bad, w) \<Rightarrow> (Walk_Verdict v bad, w)
      | (Walk_Next m, w) \<Rightarrow>
          (case verify_walk store hw 0 (mem_set 0 32) (mem_set 0 32) w of
             (Walk_Err rc, w) \<Rightarrow> (Walk_Err rc, w)
           | (Walk_Verdict v bad, w) \<Rightarrow> (Walk_Verdict v bad, w)
           | (Walk_Next cur_hash, w) \<Rightarrow>
               if hw > 0 \<and> cur_hash \<noteq> um_head_hash m
               then (Walk_Verdict ALP_UPDATE_LOG_VERIFY_CHAIN_BROKEN (hw - 1), w)
               else
                 verify_frontier store hw cur_hash w))"

text \<open>An output pointer is passed as an option (\<open>None\<close> for NULL) holding what it points to,
  and returned with what it points to afterwards: \<open>bad_seq_out\<close> is zeroed once the
  arguments are accepted, \<open>verdict_out\<close> written only with a verdict.\<close>

definition ulog_engine_verify_anchored ::
  "'w secure_store_if option \<Rightarrow> 'w monotonic_counter_if option \<Rightarrow> 'w counter_anchor_if option \<Rightarrow>
   update_log_verdict option \<Rightarrow> u64 option \<Rightarrow> 'w \<Rightarrow>
   alp_status \<times> update_log_verdict option \<times> u64 option \<times> 'w" where
  "ulog_engine_verify_anchored store ctr anchor verdict_out bad_seq_out w =
     (case (store, ctr, verdict_out) of
        (Some store, Some ctr, Some v0) \<Rightarrow>
          if \<not> ulog_anchor_valid anchor then (ALP_ERR_INVAL, verdict_out, bad_seq_out, w) else
          let bad = (\<lambda>seq. map_option (\<lambda>_. seq) bad_seq_out);
              (rc, w) = ulog_recover store ctr w;
              (rc, rolled_back, w) = (if rc = ALP_OK then ulog_sync_anchor ctr anchor w else (rc, False, w)) in
          if rc = ALP_OK \<and> rolled_back then (ALP_OK, Some ALP_UPDATE_LOG_VERIFY_ROLLED_BACK, bad 0, w) else
          if rc \<noteq> ALP_OK then (rc, verdict_out, bad 0, w) else
          let (rc, hw, w) = ct_read ctr 0 w in
          if rc \<noteq> ALP_OK then (ALP_ERR_IO, verdict_out, bad 0, w) else
          (case verify_body store hw w of
             (Walk_Err rc, w) \<Rightarrow> (rc, verdict_out, bad 0, w)
           | (Walk_Verdict v seq, w) \<Rightarrow> (ALP_OK, Some v, bad seq, w)
           | (Walk_Next _, w) \<Rightarrow> (ALP_OK, Some ALP_UPDATE_LOG_VERIFY_OK, bad 0, w))
      | _ \<Rightarrow> (ALP_ERR_INVAL, verdict_out, bad_seq_out, w))"

definition ulog_engine_verify ::
  "'w secure_store_if option \<Rightarrow> 'w monotonic_counter_if option \<Rightarrow>
   update_log_verdict option \<Rightarrow> u64 option \<Rightarrow> 'w \<Rightarrow>
   alp_status \<times> update_log_verdict option \<times> u64 option \<times> 'w" where
  "ulog_engine_verify store ctr verdict_out bad_seq_out w =
     ulog_engine_verify_anchored store ctr None verdict_out bad_seq_out w"

section \<open>Count and get\<close>

definition ulog_engine_count ::
  "'w secure_store_if option \<Rightarrow> 'w monotonic_counter_if option \<Rightarrow> u64 option \<Rightarrow> 'w \<Rightarrow>
   alp_status \<times> u64 option \<times> 'w" where
  "ulog_engine_count store ctr count_out w =
     (case (store, ctr, count_out) of
        (Some store, Some ctr, Some _) \<Rightarrow>
          let (rc, w) = ulog_recover store ctr w in
          if rc \<noteq> ALP_OK then (rc, count_out, w) else
          let (rc, v, w) = ct_read ctr 0 w in
          (rc, (if rc = ALP_OK then Some v else count_out), w)
      | _ \<Rightarrow> (ALP_ERR_INVAL, count_out, w))"

definition ulog_engine_get ::
  "'w secure_store_if option \<Rightarrow> u64 \<Rightarrow> update_log_entry option \<Rightarrow> 'w \<Rightarrow>
   alp_status \<times> update_log_entry option \<times> 'w" where
  "ulog_engine_get store seq e_out w =
     (case (store, e_out) of
        (Some store, Some _) \<Rightarrow>
          let (rc, wire, w) = st_get store (ulog_key seq) ULOG_ENTRY_WIRE_LEN w in
          if rc = ALP_OK then
            (let (rc, e, _) = ulog_entry_decode (Some wire) e_out (Some (mem_set 0 32)) in (rc, e, w))
          else (rc, e_out, w)
      | _ \<Rightarrow> (ALP_ERR_INVAL, e_out, w))"

end
