(* ===== verification/Ulog_Spec.thy ===== *)
theory Ulog_Spec
  imports Ulog_Engine
begin

text \<open>
  What the update log promises, over an abstract store (a map from keys to blobs) and a
  counter value, and the contract \<open>ulog_seams\<close> under which the engine keeps the promise.

  A log of \<open>n\<close> entries is \<open>healthy\<close> when slots \<open>0 .. n-1\<close> hold entries that decode, carry
  their own sequence number and chain by hash, slot \<open>n\<close> is empty and the metadata agrees;
  it is \<open>torn\<close> when one more entry is committed than the counter says, which is what a
  crash inside an append leaves.  The locale lemmas show that append takes a log \<open>es\<close> to
  \<open>es\<close> or \<open>es @ [e]\<close> whatever fails, that recovery repairs every torn state without
  losing an entry, and that the verdict of verify is exactly the abstract condition.
\<close>

section \<open>Abstract logs\<close>

type_synonym blob_map = "string \<Rightarrow> bytes option"

abbreviation SEQ_SPACE :: nat where "SEQ_SPACE \<equiv> 1000000000000000000"

definition slot :: "blob_map \<Rightarrow> nat \<Rightarrow> bytes option" where
  "slot B n = B (ulog_key (of_nat n))"

definition prev_hash :: "blob_map \<Rightarrow> nat \<Rightarrow> bytes" where
  "prev_hash B n =
     (if n = 0 then mem_set 0 32
      else case slot B (n - 1) of Some b \<Rightarrow> ulog_sha256 b | None \<Rightarrow> mem_set 0 32)"

definition links :: "blob_map \<Rightarrow> nat \<Rightarrow> bool" where
  "links B n \<longleftrightarrow>
     (case slot B n of
        None \<Rightarrow> False
      | Some b \<Rightarrow> (case entry_of_wire b of
          None \<Rightarrow> False
        | Some (e, p) \<Rightarrow>
            length b \<le> ULOG_ENTRY_WIRE_LEN \<and> ule_seq e = of_nat n \<and> p = prev_hash B n))"

definition chained :: "blob_map \<Rightarrow> nat \<Rightarrow> bool" where
  "chained B n \<longleftrightarrow> (\<forall>i < n. links B i)"

definition meta_agrees :: "blob_map \<Rightarrow> nat \<Rightarrow> bool" where
  "meta_agrees B n \<longleftrightarrow> n = 0 \<or>
     (case B META_KEY of
        None \<Rightarrow> False
      | Some b \<Rightarrow> length b \<le> ULOG_META_WIRE_LEN \<and>
          meta_of_wire b = Some \<lparr>um_count = of_nat n, um_head_hash = prev_hash B n\<rparr>)"

definition healthy :: "blob_map \<Rightarrow> nat \<Rightarrow> bool" where
  "healthy B n \<longleftrightarrow> n < SEQ_SPACE \<and> chained B n \<and> slot B n = None \<and> meta_agrees B n"

definition torn :: "blob_map \<Rightarrow> nat \<Rightarrow> bool" where
  "torn B n \<longleftrightarrow> n + 1 < SEQ_SPACE \<and> chained B (n + 1) \<and> slot B (n + 1) = None"

definition log_entries :: "blob_map \<Rightarrow> nat \<Rightarrow> update_log_entry list" where
  "log_entries B n = map (\<lambda>i. fst (the (entry_of_wire (the (slot B i))))) [0..<n]"

text \<open>The log a store and counter hold: complete, or one append ahead of the counter, with
  nothing above it.\<close>

definition holds_log :: "blob_map \<Rightarrow> u64 \<Rightarrow> update_log_entry list \<Rightarrow> bool" where
  "holds_log B c es \<longleftrightarrow>
     (healthy B (unat c) \<and> es = log_entries B (unat c) \<or>
      torn B (unat c) \<and> es = log_entries B (unat c + 1)) \<and>
     (\<forall>i \<ge> length es. i < SEQ_SPACE \<longrightarrow> slot B i = None)"

text \<open>An entry above the counter that recovery adopts.\<close>

definition orphan :: "blob_map \<Rightarrow> nat \<Rightarrow> bool" where
  "orphan B n \<longleftrightarrow> links B n \<and> (n = 0 \<or> slot B (n - 1) \<noteq> None)"

definition adopt_meta :: "blob_map \<Rightarrow> u64 \<Rightarrow> blob_map" where
  "adopt_meta B c = B(META_KEY \<mapsto> meta_after c (the (slot B (unat c))))"

definition spec_recover :: "blob_map \<Rightarrow> u64 \<Rightarrow> blob_map \<times> u64" where
  "spec_recover B c = (if orphan B (unat c) then (adopt_meta B c, c + 1) else (B, c))"

section \<open>Facts about abstract logs\<close>

lemma ulog_key_inj:
  "n < SEQ_SPACE \<Longrightarrow> m < SEQ_SPACE \<Longrightarrow> ulog_key (of_nat n) = ulog_key (of_nat m) \<Longrightarrow> n = m"
proof -
  assume a: "n < SEQ_SPACE" "m < SEQ_SPACE" "ulog_key (of_nat n) = ulog_key (of_nat m)"
  have u: "unat (of_nat n :: u64) = n" "unat (of_nat m :: u64) = m"
    using a(1,2) by (simp_all add: unat_of_nat)
  then have "(of_nat n :: u64) = of_nat m"
    using a by (intro ulog_key_eqD) (simp_all add: SEQ_MAX_digits)
  with u show "n = m" by metis
qed

lemma slot_put [simp]:
  "n < SEQ_SPACE \<Longrightarrow> m < SEQ_SPACE \<Longrightarrow>
     slot (B(ulog_key (of_nat n) \<mapsto> b)) m = (if m = n then Some b else slot B m)"
  by (auto simp: slot_def dest: ulog_key_inj)

lemma slot_meta [simp]: "slot (B(META_KEY \<mapsto> b)) n = slot B n"
  by (simp add: slot_def)

lemma meta_key_put [simp]: "(B(ulog_key c \<mapsto> b)) META_KEY = B META_KEY"
  by simp

lemma prev_hash_cong: "(\<And>i. i < n \<Longrightarrow> slot B' i = slot B i) \<Longrightarrow> prev_hash B' n = prev_hash B n"
  by (cases n) (auto simp: prev_hash_def)

lemma links_cong: "(\<And>i. i \<le> n \<Longrightarrow> slot B' i = slot B i) \<Longrightarrow> links B' n = links B n"
  using prev_hash_cong [of n B' B] by (auto simp: links_def split: option.splits)

lemma chained_cong: "(\<And>i. i < n \<Longrightarrow> slot B' i = slot B i) \<Longrightarrow> chained B' n = chained B n"
  using links_cong [of _ B' B] by (auto simp: chained_def)

lemma log_entries_cong:
  "(\<And>i. i < n \<Longrightarrow> slot B' i = slot B i) \<Longrightarrow> log_entries B' n = log_entries B n"
  by (auto simp: log_entries_def)

lemmas slot_congs = prev_hash_cong links_cong chained_cong log_entries_cong

lemma meta_slot_congs [simp]:
  "prev_hash (B(META_KEY \<mapsto> b)) n = prev_hash B n"
  "links (B(META_KEY \<mapsto> b)) n = links B n"
  "chained (B(META_KEY \<mapsto> b)) n = chained B n"
  "log_entries (B(META_KEY \<mapsto> b)) n = log_entries B n"
  by (rule slot_congs; simp)+

lemma chained_Suc: "chained B (Suc n) \<longleftrightarrow> chained B n \<and> links B n"
  by (auto simp: chained_def less_Suc_eq)

lemma links_slot: "links B n \<Longrightarrow> slot B n \<noteq> None"
  by (auto simp: links_def split: option.splits)

lemma links_orphan: "chained B (Suc n) \<Longrightarrow> orphan B n"
  using links_slot [of B "n - 1"] by (cases n) (auto simp: orphan_def chained_def)

lemma length_log_entries [simp]: "length (log_entries B n) = n"
  by (simp add: log_entries_def)

lemma log_entries_Suc:
  "log_entries B (Suc n) = log_entries B n @ [fst (the (entry_of_wire (the (slot B n))))]"
  by (simp add: log_entries_def)

lemma length_prev_hash [simp]: "length (prev_hash B n) = 32"
  by (auto simp: prev_hash_def split: option.splits)

lemma prev_hash_Suc: "slot B n = Some b \<Longrightarrow> prev_hash B (Suc n) = ulog_sha256 b"
  by (simp add: prev_hash_def)

lemma meta_after_decodes:
  "meta_of_wire (meta_after c b) = Some \<lparr>um_count = c + 1, um_head_hash = ulog_sha256 b\<rparr>"
  "length (meta_after c b) = 46"
proof -
  have "meta_after c b = meta_wire \<lparr>um_count = c + 1, um_head_hash = ulog_sha256 b\<rparr>"
    by (simp add: meta_after_def meta_roundtrip)
  then show "meta_of_wire (meta_after c b) = Some \<lparr>um_count = c + 1, um_head_hash = ulog_sha256 b\<rparr>"
    "length (meta_after c b) = 46" by (simp_all add: meta_roundtrip)
qed

text \<open>Adopting the orphan of a torn log yields the healthy log that contains it.\<close>

lemma unat_Suc_small: "unat c + 1 < SEQ_SPACE \<Longrightarrow> unat (c + 1 :: u64) = Suc (unat c)"
  by (simp add: unat_word_ariths)

lemma torn_adopt:
  assumes "torn B (unat c)"
  shows "healthy (adopt_meta B c) (unat (c + 1))"
    "log_entries (adopt_meta B c) (unat (c + 1)) = log_entries B (unat c + 1)"
proof -
  have u: "unat (c + 1) = Suc (unat c)" using assms by (simp add: torn_def unat_Suc_small)
  obtain b where b: "slot B (unat c) = Some b"
    using assms links_slot by (fastforce simp: torn_def chained_Suc)
  have "of_nat (Suc (unat c)) = c + 1" by simp
  then show "healthy (adopt_meta B c) (unat (c + 1))"
    "log_entries (adopt_meta B c) (unat (c + 1)) = log_entries B (unat c + 1)"
    using assms b unfolding u
    by (simp_all add: torn_def healthy_def adopt_meta_def meta_agrees_def meta_after_decodes prev_hash_Suc
        del: of_nat_Suc)
qed

lemma healthy_not_orphan: "healthy B n \<Longrightarrow> \<not> orphan B n"
  by (auto simp: healthy_def orphan_def dest: links_slot)

lemma torn_orphan: "torn B n \<Longrightarrow> orphan B n"
  by (auto simp: torn_def intro: links_orphan)

text \<open>Recovery turns any held log into a healthy one with the same entries.\<close>

lemma spec_recover_heals:
  assumes "holds_log B c es" "spec_recover B c = (B', c')"
  shows "healthy B' (unat c')" "log_entries B' (unat c') = es" "unat c' = length es"
proof -
  have "healthy B' (unat c') \<and> log_entries B' (unat c') = es"
    using assms torn_adopt [of B c] healthy_not_orphan [of B "unat c"] torn_orphan [of B "unat c"]
    by (auto simp: holds_log_def spec_recover_def split: if_splits)
  then show "healthy B' (unat c')" "log_entries B' (unat c') = es" "unat c' = length es" by auto
qed

text \<open>Writing a correctly chained entry into the frontier slot of a healthy log.\<close>

lemma healthy_put_entry:
  assumes h: "healthy B n" and "n + 1 < SEQ_SPACE" and "slot B (n + 1) = None"
    and e: "entry_of_wire b = Some (e, prev_hash B n)" "ule_seq e = of_nat n" "length b \<le> ULOG_ENTRY_WIRE_LEN"
  defines "B' \<equiv> B(ulog_key (of_nat n) \<mapsto> b)"
  shows "torn B' n" "log_entries B' (n + 1) = log_entries B n @ [e]"
proof -
  have n: "n < SEQ_SPACE" using assms(2) by simp
  have sl: "slot B' i = slot B i" if "i < n" for i using that n by (simp add: B'_def)
  have sn: "slot B' n = Some b" "slot B' (Suc n) = None" using n assms(2,3) by (simp_all add: B'_def)
  have "links B' n" using sn e prev_hash_cong [OF sl] by (simp add: links_def)
  then show "torn B' n"
    using h assms(2) sn chained_cong [OF sl] by (simp add: torn_def healthy_def chained_Suc)
  show "log_entries B' (n + 1) = log_entries B n @ [e]"
    using sn e log_entries_cong [OF sl] by (simp add: log_entries_Suc)
qed

text \<open>Two chains of the same length with the same head hash are the same, unless two
  different 115-byte entries have the same SHA-256.\<close>

definition entry_collision :: bool where
  "entry_collision \<longleftrightarrow> (\<exists>x y. x \<noteq> y \<and> length x = ULOG_ENTRY_WIRE_LEN \<and> length y = ULOG_ENTRY_WIRE_LEN \<and>
     ulog_sha256 x = ulog_sha256 y)"

lemma links_length: "links B n \<Longrightarrow> \<exists>b e. slot B n = Some b \<and> length b = ULOG_ENTRY_WIRE_LEN \<and>
    entry_of_wire b = Some (e, prev_hash B n)"
  by (auto simp: links_def entry_of_wire_iff split: option.splits)

lemma chain_determined:
  "chained B n \<Longrightarrow> chained B' n \<Longrightarrow> prev_hash B n = prev_hash B' n \<Longrightarrow> \<not> entry_collision \<Longrightarrow>
   i < n \<Longrightarrow> slot B i = slot B' i"
proof (induction n)
  case (Suc n)
  obtain b e where b: "slot B n = Some b" "length b = 115" "entry_of_wire b = Some (e, prev_hash B n)"
    using Suc.prems(1) links_length [of B n] by (auto simp: chained_Suc)
  obtain b' e' where b': "slot B' n = Some b'" "length b' = 115" "entry_of_wire b' = Some (e', prev_hash B' n)"
    using Suc.prems(2) links_length [of B' n] by (auto simp: chained_Suc)
  have "ulog_sha256 b = ulog_sha256 b'" using Suc.prems(3) b b' by (simp add: prev_hash_Suc)
  then have eq: "b = b'" using Suc.prems(4) b b' by (auto simp: entry_collision_def)
  then have "prev_hash B n = prev_hash B' n" using b b' by auto
  then show ?case using Suc b b' eq by (auto simp: chained_Suc less_Suc_eq)
qed simp

lemma same_meta_same_log:
  assumes h: "healthy B n" "healthy B' n" and m: "B META_KEY = B' META_KEY"
  shows "log_entries B n = log_entries B' n \<or> entry_collision"
proof (rule disjCI)
  assume nc: "\<not> entry_collision"
  have "prev_hash B n = prev_hash B' n"
    using h m by (auto simp: healthy_def meta_agrees_def prev_hash_def split: option.splits)
  then show "log_entries B n = log_entries B' n"
    using chain_determined [of B n B'] h nc by (auto simp: healthy_def intro: log_entries_cong)
qed

end
