(* ===== verification/Ulog_Contract.thy ===== *)
theory Ulog_Contract
  imports Ulog_Spec
begin

text \<open>
  The contract between the engine and its seams, as the locale \<open>ulog_seams\<close>, and what the
  engine guarantees under it; \<open>ulog_seams_live\<close> adds that the seams do not fail while there
  is room.  Tiers interpret the locales on their own store and counter.

  A failing \<open>put\<close> or \<open>increment\<close> may or may not have taken effect: the laws allow both, so
  the outcomes of a failing call cover the states a crash at that point leaves.
\<close>

section \<open>The contract\<close>

lemma SEQ_MAX_less: "c \<le> ULOG_SEQ_MAX \<Longrightarrow> c < - 1"
  by (erule le_less_trans) (simp add: ULOG_SEQ_MAX_def)

lemma SEQ_MAX_less_Suc: "c \<le> ULOG_SEQ_MAX \<Longrightarrow> c < c + 1"
  by (simp add: word_less_nat_alt unat_word_ariths SEQ_MAX_digits)

definition engine_key :: "string \<Rightarrow> bool" where
  "engine_key k \<longleftrightarrow> k = META_KEY \<or> (\<exists>c. k = ulog_key c)"

lemma engine_key_simps [simp]: "engine_key META_KEY" "engine_key (ulog_key c)"
  by (auto simp: engine_key_def)

text \<open>What an interrupted or completed recovery can leave.\<close>

definition recover_outcome :: "blob_map \<Rightarrow> u64 \<Rightarrow> blob_map \<Rightarrow> u64 \<Rightarrow> bool" where
  "recover_outcome B c B' c' \<longleftrightarrow>
     B' = B \<and> c' = c \<or> orphan B (unat c) \<and> B' = adopt_meta B c \<and>
       (c' = c \<or> c \<noteq> - 1 \<and> c' = c + 1)"

text \<open>The states an append that reached its commit point can leave.\<close>

definition commit_outcome :: "blob_map \<Rightarrow> u64 \<Rightarrow> bytes \<Rightarrow> blob_map \<Rightarrow> u64 \<Rightarrow> bool" where
  "commit_outcome B c wire B' c' \<longleftrightarrow>
     (let B1 = B(ulog_key c \<mapsto> wire); B2 = B1(META_KEY \<mapsto> meta_after c wire)
      in (B' = B \<or> B' = B1 \<or> B' = B2) \<and> c' = c \<or> B' = B2 \<and> c' = c + 1)"

lemma recover_outcome_holds:
  assumes h: "holds_log B c es" and "recover_outcome B c B' c'"
  shows "holds_log B' c' es"
proof -
  consider "B' = B" "c' = c" | "orphan B (unat c)" "B' = adopt_meta B c" "c' = c"
    | "orphan B (unat c)" "B' = adopt_meta B c" "c' = c + 1"
    using assms(2) by (auto simp: recover_outcome_def)
  then show ?thesis
  proof cases
    case 1
    then show ?thesis using h by simp
  next
    case 2
    then have "torn B (unat c)" using h healthy_not_orphan by (auto simp: holds_log_def)
    then show ?thesis using h 2 healthy_not_orphan
      by (auto simp: holds_log_def torn_def adopt_meta_def)
  next
    case 3
    then have "spec_recover B c = (B', c')" by (simp add: spec_recover_def)
    from spec_recover_heals [OF h this] show ?thesis
      using h 3 by (auto simp: holds_log_def adopt_meta_def)
  qed
qed

lemma holds_log_nth:
  assumes "holds_log B c es" "k < length es"
  shows "\<exists>b. slot B k = Some b \<and> entry_of_wire b = Some (es ! k, prev_hash B k) \<and> ule_seq (es ! k) = of_nat k"
proof -
  obtain n where n: "es = log_entries B n" "chained B n"
    using assms(1) by (auto simp: holds_log_def healthy_def torn_def)
  then have "links B k" "es ! k = fst (the (entry_of_wire (the (slot B k))))"
    using assms(2) by (auto simp: chained_def log_entries_def)
  then show ?thesis by (auto simp: links_def split: option.splits)
qed

text \<open>Every state an append can be interrupted in holds the old log or the extended one.\<close>

lemma commit_outcome_holds:
  assumes h: "holds_log B c es" "healthy B (unat c)" "unat c + 1 < SEQ_SPACE"
    and e: "entry_of_wire wire = Some (e, prev_hash B (unat c))" "ule_seq e = c" "length wire \<le> ULOG_ENTRY_WIRE_LEN"
    and out: "commit_outcome B c wire B' c'"
  shows "holds_log B' c' es \<or> holds_log B' c' (es @ [e])" "c' = c + 1 \<Longrightarrow> holds_log B' c' (es @ [e])"
proof -
  let ?n = "unat c"
  let ?B1 = "B(ulog_key c \<mapsto> wire)" and ?B2 = "B(ulog_key c \<mapsto> wire, META_KEY \<mapsto> meta_after c wire)"
  have "\<not> torn B ?n" using h(2) healthy_not_orphan torn_orphan by blast
  then have es: "es = log_entries B ?n" and free: "\<forall>i \<ge> ?n. i < SEQ_SPACE \<longrightarrow> slot B i = None"
    using h(1) by (auto simp: holds_log_def)
  have t: "torn ?B1 ?n" "log_entries ?B1 (?n + 1) = es @ [e]"
    using healthy_put_entry [OF h(2,3) _ e(1)] free h(3) e(2,3) es by auto
  have free': "\<forall>i \<ge> ?n + 1. i < SEQ_SPACE \<longrightarrow> slot ?B1 i = None"
    using free h(3) slot_put [of ?n _ B wire] by auto
  have B1: "holds_log ?B1 c (es @ [e])" using t free' es by (auto simp: holds_log_def)
  have "slot ?B1 ?n = Some wire" using h(3) slot_put [of ?n ?n B wire] by simp
  then have B2: "?B2 = adopt_meta ?B1 c" by (simp add: adopt_meta_def)
  have o: "orphan ?B1 ?n" using t torn_orphan by blast
  have "c \<noteq> - 1" using SEQ_MAX_less [of c] h(3) by (auto simp: SEQ_MAX_digits)
  then have "recover_outcome ?B1 c ?B2 c" "recover_outcome ?B1 c ?B2 (c + 1)"
    unfolding B2 using o by (simp_all add: recover_outcome_def)
  then have "holds_log ?B2 c (es @ [e])" "holds_log ?B2 (c + 1) (es @ [e])"
    by (simp_all only: recover_outcome_holds [OF B1])
  then show "holds_log B' c' es \<or> holds_log B' c' (es @ [e])" "c' = c + 1 \<Longrightarrow> holds_log B' c' (es @ [e])"
    using out h(1) B1 by (auto simp: commit_outcome_def Let_def)
qed

lemma less_Suc_word: "(c :: 'a::len word) \<noteq> - 1 \<Longrightarrow> c < c + 1"
proof -
  assume "c \<noteq> - 1"
  then have "c + 1 \<noteq> 0" by (metis add_eq_0_iff2)
  then show ?thesis by (simp add: word_less_nat_alt unatSuc add.commute)
qed

lemma recover_outcome_mono: "recover_outcome B c B' c' \<Longrightarrow> c \<le> c'"
  using less_Suc_word [of c] by (auto simp: recover_outcome_def)

text \<open>What each verdict says of the store and counter after recovery.\<close>

definition meta_counts :: "blob_map \<Rightarrow> nat \<Rightarrow> bool" where
  "meta_counts B n \<longleftrightarrow> n = 0 \<or>
     (case B META_KEY of None \<Rightarrow> False
      | Some b \<Rightarrow> (case meta_of_wire b of None \<Rightarrow> False | Some m \<Rightarrow>
           length b \<le> ULOG_META_WIRE_LEN \<and> um_count m = of_nat n))"

fun verdict_spec :: "blob_map \<Rightarrow> nat \<Rightarrow> update_log_verdict \<Rightarrow> nat \<Rightarrow> bool" where
  "verdict_spec B n ALP_UPDATE_LOG_VERIFY_OK k \<longleftrightarrow>
     chained B n \<and> meta_agrees B n \<and> slot B n = None \<and> k = 0"
| "verdict_spec B n ALP_UPDATE_LOG_VERIFY_TRUNCATED k \<longleftrightarrow>
     meta_counts B n \<and> k < n \<and> chained B k \<and> slot B k = None"
| "verdict_spec B n ALP_UPDATE_LOG_VERIFY_CHAIN_BROKEN k \<longleftrightarrow>
     meta_counts B n \<and> chained B k \<and>
     (k \<le> n \<and> slot B k \<noteq> None \<and> \<not> links B k \<and> (k = n \<longrightarrow> meta_agrees B n) \<or>
      k + 1 = n \<and> chained B n \<and> \<not> meta_agrees B n)"
| "verdict_spec B n ALP_UPDATE_LOG_VERIFY_ROLLED_BACK k \<longleftrightarrow>
     k = 0 \<and> (\<not> meta_counts B n \<or> meta_agrees B n \<and> chained B (n + 1))"

text \<open>What the stretches of verify establish of the store.\<close>

fun meta_post :: "blob_map \<Rightarrow> u64 \<Rightarrow> ulog_meta walk \<Rightarrow> bool" where
  "meta_post B hw (Walk_Err rc) \<longleftrightarrow> rc \<noteq> ALP_OK"
| "meta_post B hw (Walk_Verdict v k) \<longleftrightarrow>
     v = ALP_UPDATE_LOG_VERIFY_ROLLED_BACK \<and> k = 0 \<and> \<not> meta_counts B (unat hw)"
| "meta_post B hw (Walk_Next m) \<longleftrightarrow> meta_counts B (unat hw) \<and>
     (hw \<noteq> 0 \<longrightarrow> (um_head_hash m = prev_hash B (unat hw) \<longleftrightarrow> meta_agrees B (unat hw)))"

fun walk_post :: "blob_map \<Rightarrow> u64 \<Rightarrow> bytes walk \<Rightarrow> bool" where
  "walk_post B hw (Walk_Err rc) \<longleftrightarrow> rc \<noteq> ALP_OK"
| "walk_post B hw (Walk_Verdict v k) \<longleftrightarrow> unat k < unat hw \<and> chained B (unat k) \<and>
     (v = ALP_UPDATE_LOG_VERIFY_TRUNCATED \<and> slot B (unat k) = None \<or>
      v = ALP_UPDATE_LOG_VERIFY_CHAIN_BROKEN \<and> slot B (unat k) \<noteq> None \<and> \<not> links B (unat k))"
| "walk_post B hw (Walk_Next cur) \<longleftrightarrow> chained B (unat hw) \<and> cur = prev_hash B (unat hw)"

fun frontier_post :: "blob_map \<Rightarrow> u64 \<Rightarrow> unit walk \<Rightarrow> bool" where
  "frontier_post B hw (Walk_Err rc) \<longleftrightarrow> rc \<noteq> ALP_OK"
| "frontier_post B hw (Walk_Verdict v k) \<longleftrightarrow>
     v = ALP_UPDATE_LOG_VERIFY_ROLLED_BACK \<and> k = 0 \<and> chained B (unat hw + 1) \<or>
     v = ALP_UPDATE_LOG_VERIFY_CHAIN_BROKEN \<and> k = hw \<and> slot B (unat hw) \<noteq> None \<and> \<not> links B (unat hw)"
| "frontier_post B hw (Walk_Next u) \<longleftrightarrow> slot B (unat hw) = None"

fun body_post :: "blob_map \<Rightarrow> u64 \<Rightarrow> unit walk \<Rightarrow> bool" where
  "body_post B hw (Walk_Err rc) \<longleftrightarrow> rc \<noteq> ALP_OK"
| "body_post B hw (Walk_Verdict v k) \<longleftrightarrow> verdict_spec B (unat hw) v (unat k)"
| "body_post B hw (Walk_Next u) \<longleftrightarrow> verdict_spec B (unat hw) ALP_UPDATE_LOG_VERIFY_OK 0"

locale ulog_seams =
  fixes store :: "'w secure_store_if"
    and ctr :: "'w monotonic_counter_if"
    and anchor :: "'w counter_anchor_if option"
    and inv :: "'w \<Rightarrow> bool"
    and blobs :: "'w \<Rightarrow> blob_map"
    and cval :: "'w \<Rightarrow> u64"
    and floor :: "'w \<Rightarrow> u64"
  assumes anchor_valid: "ulog_anchor_valid anchor"
    and get_law: "inv w \<Longrightarrow> engine_key k \<Longrightarrow> st_get store k cap w = (rc, b, w') \<Longrightarrow>
      inv w' \<and> blobs w' = blobs w \<and> cval w' = cval w \<and> floor w' = floor w \<and>
      (rc = ALP_OK \<longrightarrow> blobs w k = Some b \<and> length b \<le> cap) \<and>
      (rc = ALP_ERR_NOT_FOUND \<longrightarrow> blobs w k = None)"
    and put_law: "inv w \<Longrightarrow> engine_key k \<Longrightarrow> 0 < length b \<and> length b \<le> ULOG_ENTRY_WIRE_LEN \<Longrightarrow>
      st_put store k b w = (rc, w') \<Longrightarrow>
      inv w' \<and> cval w' = cval w \<and> floor w' = floor w \<and>
      (blobs w' = (blobs w)(k \<mapsto> b) \<or> rc \<noteq> ALP_OK \<and> blobs w' = blobs w)"
    and read_law: "inv w \<Longrightarrow> ct_read ctr 0 w = (rc, v, w') \<Longrightarrow>
      inv w' \<and> blobs w' = blobs w \<and> cval w' = cval w \<and> floor w' = floor w \<and>
      (rc = ALP_OK \<longrightarrow> v = cval w)"
    and inc_law: "inv w \<Longrightarrow> cval w < - 1 \<Longrightarrow> ct_increment ctr 0 w = (rc, v, w') \<Longrightarrow>
      inv w' \<and> blobs w' = blobs w \<and> floor w' = floor w \<and>
      (cval w' = cval w + 1 \<or> rc \<noteq> ALP_OK \<and> cval w' = cval w)"
    and floor_law: "anchor = Some a \<Longrightarrow> an_read a = Some rd \<Longrightarrow> inv w \<Longrightarrow> rd w = (rc, v, w') \<Longrightarrow>
      inv w' \<and> blobs w' = blobs w \<and> cval w' = cval w \<and> floor w' = floor w \<and>
      (rc = ALP_OK \<longrightarrow> v = floor w)"
    and advance_law: "anchor = Some a \<Longrightarrow> an_advance a = Some adv \<Longrightarrow> inv w \<Longrightarrow> adv n w = (rc, w') \<Longrightarrow>
      inv w' \<and> blobs w' = blobs w \<and> cval w' = cval w \<and>
      (floor w' = max (floor w) n \<or> rc \<noteq> ALP_OK \<and> floor w' = floor w)"
begin

lemma prev_hash_law:
  assumes "inv w" "ulog_prev_hash_of_predecessor store c w = (rc, p, w')"
  shows "inv w' \<and> blobs w' = blobs w \<and> cval w' = cval w \<and> floor w' = floor w \<and>
    (rc = ALP_OK \<longrightarrow> p = prev_hash (blobs w) (unat c) \<and> (c = 0 \<or> slot (blobs w) (unat c - 1) \<noteq> None)) \<and>
    (rc = ALP_ERR_NOT_FOUND \<longrightarrow> c \<noteq> 0 \<and> slot (blobs w) (unat c - 1) = None)"
proof (cases "c = 0")
  case True
  then show ?thesis using assms by (auto simp: ulog_prev_hash_of_predecessor_def prev_hash_def)
next
  case False
  then have "1 \<le> unat c" by (simp add: Suc_leI unat_gt_0)
  then have k: "of_nat (unat c - 1) = c - 1" by (simp add: of_nat_diff)
  obtain rc1 b w1 where g: "st_get store (ulog_key (c - 1)) ULOG_ENTRY_WIRE_LEN w = (rc1, b, w1)"
    by (metis prod_cases3)
  from get_law [OF assms(1) _ g] show ?thesis
    using assms(2) False \<open>1 \<le> unat c\<close> g
    by (auto simp: ulog_prev_hash_of_predecessor_def prev_hash_def slot_def k unat_eq_zero
        split: if_splits)
qed

abbreviation recover_post :: "'w \<Rightarrow> alp_status \<Rightarrow> 'w \<Rightarrow> bool" where
  "recover_post w rc w' \<equiv> inv w' \<and> floor w' = floor w \<and>
     recover_outcome (blobs w) (cval w) (blobs w') (cval w') \<and>
     (rc = ALP_OK \<longrightarrow> (blobs w', cval w') = spec_recover (blobs w) (cval w) \<and> cval w \<noteq> - 1)"

lemma recover_unchanged:
  "inv w' \<Longrightarrow> blobs w' = blobs w \<Longrightarrow> cval w' = cval w \<Longrightarrow> floor w' = floor w \<Longrightarrow>
   (rc = ALP_OK \<Longrightarrow> \<not> orphan (blobs w) (unat (cval w)) \<and> cval w \<noteq> - 1) \<Longrightarrow> recover_post w rc w'"
  by (simp add: recover_outcome_def spec_recover_def)

lemma recover_entry_law:
  assumes i: "inv w" and c: "cval w \<noteq> - 1" and sb: "slot (blobs w) (unat (cval w)) = Some b"
    and len: "length b \<le> ULOG_ENTRY_WIRE_LEN" and r: "recover_entry store ctr (cval w) b w = (rc, w')"
  shows "recover_post w rc w'"
proof (cases "\<exists>e q. entry_of_wire b = Some (e, q) \<and> ule_seq e = cval w")
  case False
  then have "w' = w" "\<not> links (blobs w) (unat (cval w))"
    using r sb by (auto simp: links_def recover_entry_def split: if_splits option.splits)
  with i c show ?thesis by (intro recover_unchanged) (auto simp: orphan_def)
next
  case True
  let ?c = "cval w" and ?B = "blobs w"
  from True obtain e q where e: "entry_of_wire b = Some (e, q)" "ule_seq e = ?c" by auto
  obtain rc3 p w3 where s3: "ulog_prev_hash_of_predecessor store ?c w = (rc3, p, w3)" by (metis prod_cases3)
  note l3 = prev_hash_law [OF i s3]
  have orph: "orphan ?B (unat ?c) \<longleftrightarrow> q = prev_hash ?B (unat ?c) \<and> (?c = 0 \<or> slot ?B (unat ?c - 1) \<noteq> None)"
    using sb e len by (auto simp: orphan_def links_def unat_eq_zero)
  show ?thesis
  proof (cases "rc3 = ALP_OK \<and> q = p")
    case False
    then have "w' = w3" "rc = ALP_OK \<Longrightarrow> \<not> orphan ?B (unat ?c)"
      using r e s3 l3 orph by (auto simp: recover_entry_def split: if_splits)
    with l3 c show ?thesis by (intro recover_unchanged) auto
  next
    case True
    then have o: "orphan ?B (unat ?c)" using orph l3 by auto
    obtain rc4 w4 where s4: "st_put store META_KEY (meta_after ?c b) w3 = (rc4, w4)" by fastforce
    have l4: "inv w4" "cval w4 = ?c" "floor w4 = floor w"
      "blobs w4 = adopt_meta ?B ?c \<or> rc4 \<noteq> ALP_OK \<and> blobs w4 = ?B"
      using put_law [OF _ _ _ s4] l3 sb by (auto simp: meta_after_decodes adopt_meta_def)
    obtain rc5 n w5 where s5: "ct_increment ctr 0 w4 = (rc5, n, w5)" by (metis prod_cases3)
    have l5: "inv w5" "blobs w5 = blobs w4" "floor w5 = floor w"
      "cval w5 = ?c + 1 \<or> rc5 \<noteq> ALP_OK \<and> cval w5 = ?c"
      using inc_law [OF l4(1) _ s5] l4 c by (auto simp: word_order.not_eq_extremum)
    have "rc = (if rc4 = ALP_OK then rc5 else rc4)" "w' = (if rc4 = ALP_OK then w5 else w4)"
      using r e s3 True s4 s5 by (auto simp: recover_entry_def split: if_splits)
    then show ?thesis using l4 l5 o c by (auto simp: recover_outcome_def spec_recover_def)
  qed
qed

lemma recover_law:
  assumes i: "inv w" and r: "ulog_recover store ctr w = (rc, w')"
  shows "recover_post w rc w'"
proof -
  obtain rc1 v w1 where s1: "ct_read ctr 0 w = (rc1, v, w1)" by (metis prod_cases3)
  note l1 = read_law [OF i s1]
  obtain rc2 b w2 where s2: "st_get store (ulog_key (cval w)) ULOG_ENTRY_WIRE_LEN w1 = (rc2, b, w2)"
    by (metis prod_cases3)
  have l2: "inv w2" "blobs w2 = blobs w" "cval w2 = cval w" "floor w2 = floor w"
    "rc2 = ALP_OK \<Longrightarrow> slot (blobs w) (unat (cval w)) = Some b \<and> length b \<le> ULOG_ENTRY_WIRE_LEN"
    "rc2 = ALP_ERR_NOT_FOUND \<Longrightarrow> slot (blobs w) (unat (cval w)) = None"
    using get_law [OF _ _ s2] l1 by (auto simp: slot_def)
  show ?thesis
  proof (cases "rc1 = ALP_OK \<and> cval w \<noteq> - 1 \<and> rc2 = ALP_OK")
    case False
    then have "(w' = w1 \<and> rc \<noteq> ALP_OK) \<or> (w' = w2 \<and> cval w \<noteq> - 1 \<and> (rc = ALP_OK \<longrightarrow> rc2 = ALP_ERR_NOT_FOUND))"
      using r s1 s2 l1 by (auto simp: ulog_recover_def split: if_splits)
    with l1 l2 show ?thesis by (intro recover_unchanged) (auto simp: orphan_def dest: links_slot)
  next
    case True
    then have "recover_entry store ctr (cval w2) b w2 = (rc, w')"
      using r s1 s2 l1 l2 by (auto simp: ulog_recover_def)
    from recover_entry_law [OF l2(1) _ _ _ this] show ?thesis using True l2 by auto
  qed
qed

lemma sync_law:
  assumes i: "inv w" and r: "ulog_sync_anchor ctr anchor w = (rc, rb, w')"
  shows "inv w' \<and> blobs w' = blobs w \<and> cval w' = cval w \<and>
    (floor w' = floor w \<or> floor w < cval w \<and> floor w' = cval w) \<and>
    (rc = ALP_OK \<longrightarrow> rb = (anchor \<noteq> None \<and> cval w < floor w) \<and>
      (rb \<longrightarrow> floor w' = floor w) \<and> (\<not> rb \<longrightarrow> anchor = None \<or> floor w' = cval w))"
proof (cases anchor)
  case None
  then show ?thesis using assms by (auto simp: ulog_sync_anchor_def)
next
  case (Some a)
  then obtain rd adv where a: "an_read a = Some rd" "an_advance a = Some adv"
    using anchor_valid by (auto simp: ulog_anchor_valid_def)
  obtain rc1 v w1 where s1: "ct_read ctr 0 w = (rc1, v, w1)" by (metis prod_cases3)
  note l1 = read_law [OF i s1]
  obtain rc2 f w2 where s2: "rd w1 = (rc2, f, w2)" by (metis prod_cases3)
  note l2 = floor_law [OF Some a(1) _ s2]
  obtain rc3 w3 where s3: "adv (cval w) w2 = (rc3, w3)" by fastforce
  note l3 = advance_law [OF Some a(2) _ s3]
  show ?thesis
    using r l1 l2 l3 s3 by (auto simp: ulog_sync_anchor_def Some a s1 s2 max_def split: if_splits)
qed

lemma prologue_law:
  assumes i: "inv w" and r: "append_prologue store ctr anchor w = (rc, hw, w')"
  shows "inv w' \<and> recover_outcome (blobs w) (cval w) (blobs w') (cval w') \<and>
    (floor w' = floor w \<or> floor w < cval w' \<and> floor w' = cval w') \<and>
    (rc = ALP_OK \<longrightarrow> (blobs w', cval w') = spec_recover (blobs w) (cval w) \<and> hw = cval w' \<and>
       hw \<le> ULOG_SEQ_MAX \<and> (anchor \<noteq> None \<longrightarrow> floor w' = cval w'))"
proof -
  obtain rc1 w1 where s1: "ulog_recover store ctr w = (rc1, w1)" by fastforce
  note l1 = recover_law [OF i s1]
  obtain rc2 rb w2 where s2: "ulog_sync_anchor ctr anchor w1 = (rc2, rb, w2)" by (metis prod_cases3)
  have l2: "inv w2" "blobs w2 = blobs w1" "cval w2 = cval w1"
    "floor w2 = floor w \<or> floor w < cval w1 \<and> floor w2 = cval w1"
    "rc2 = ALP_OK \<Longrightarrow> \<not> rb \<Longrightarrow> anchor = None \<or> floor w2 = cval w1"
    using sync_law [OF _ s2] l1 by auto
  obtain rc3 v w3 where s3: "ct_read ctr 0 w2 = (rc3, v, w3)" by (metis prod_cases3)
  note l3 = read_law [OF l2(1) s3]
  have rc_ok: "rc = ALP_OK \<Longrightarrow> rc1 = ALP_OK \<and> rc2 = ALP_OK \<and> \<not> rb \<and> rc3 = ALP_OK \<and> hw = v \<and> hw \<le> ULOG_SEQ_MAX"
    and w': "w' = w1 \<or> w' = w2 \<or> w' = w3" and wok: "rc = ALP_OK \<Longrightarrow> w' = w3"
    using r s1 s2 s3 by (auto simp: append_prologue_def split: if_splits)
  have abs3: "inv w3" "blobs w3 = blobs w1" "cval w3 = cval w1" "floor w3 = floor w2"
    "rc3 = ALP_OK \<Longrightarrow> v = cval w1" using l3 l2 by auto
  have "inv w' \<and> blobs w' = blobs w1 \<and> cval w' = cval w1 \<and>
      (floor w' = floor w \<or> floor w < cval w1 \<and> floor w' = cval w1)"
    using w' l1 l2 abs3 by auto
  moreover have "rc = ALP_OK \<longrightarrow> hw = cval w' \<and> hw \<le> ULOG_SEQ_MAX \<and> (anchor \<noteq> None \<longrightarrow> floor w' = cval w')"
    using rc_ok wok abs3 l2 by auto
  ultimately show ?thesis using l1 rc_ok by auto
qed

lemma append_prev_law:
  assumes i: "inv w" and r: "append_prev store hw w = (rc, p, w')"
  shows "inv w' \<and> blobs w' = blobs w \<and> cval w' = cval w \<and> floor w' = floor w \<and>
    (rc = ALP_OK \<longrightarrow> p = prev_hash (blobs w) (unat hw) \<and> meta_agrees (blobs w) (unat hw))"
proof -
  obtain rc1 q w1 where s1: "ulog_prev_hash_of_predecessor store hw w = (rc1, q, w1)" by (metis prod_cases3)
  note l1 = prev_hash_law [OF i s1]
  obtain rc2 b w2 where s2: "st_get store META_KEY ULOG_META_WIRE_LEN w1 = (rc2, b, w2)" by (metis prod_cases3)
  have l2: "inv w2" "blobs w2 = blobs w" "cval w2 = cval w" "floor w2 = floor w"
    "rc2 = ALP_OK \<Longrightarrow> blobs w META_KEY = Some b \<and> length b \<le> ULOG_META_WIRE_LEN"
    using get_law [OF _ _ s2] l1 by auto
  have eff: "w' = w1 \<or> w' = w2" "p = q"
    using r s1 s2 by (auto simp: append_prev_def split: if_splits prod.splits alp_status.splits option.splits)
  have ok: "rc1 = ALP_OK \<and> (hw \<noteq> 0 \<longrightarrow> rc2 = ALP_OK \<and> (\<exists>m. meta_of_wire b = Some m \<and> um_count m = hw \<and> um_head_hash m = q))"
    if "rc = ALP_OK"
    using r s1 s2 that
    by (auto simp: append_prev_def meta_of_wire_def split: if_splits prod.splits alp_status.splits option.splits)
  have "meta_agrees (blobs w) (unat hw)" if "rc = ALP_OK"
  proof (cases "hw = 0")
    case False
    with ok [OF that] obtain m where m: "meta_of_wire b = Some m" "um_count m = hw" "um_head_hash m = q"
      and "rc2 = ALP_OK" "rc1 = ALP_OK" by auto
    then have "m = \<lparr>um_count = hw, um_head_hash = prev_hash (blobs w) (unat hw)\<rparr>"
      using l1 by (cases m) auto
    then show ?thesis using l2(5) \<open>rc2 = ALP_OK\<close> m by (simp add: meta_agrees_def)
  qed (simp add: meta_agrees_def)
  then show ?thesis using eff l1 l2 ok by auto
qed

lemma commit_law:
  assumes i: "inv w" and c: "hw = cval w" "cval w < - 1" and l: "0 < length wire \<and> length wire \<le> ULOG_ENTRY_WIRE_LEN"
    and r: "append_commit store ctr anchor hw wire w = (rc, w')"
  shows "inv w' \<and> commit_outcome (blobs w) (cval w) wire (blobs w') (cval w') \<and>
    (floor w' = floor w \<or> cval w' = cval w + 1 \<and> floor w' = max (floor w) (cval w + 1)) \<and>
    (rc = ALP_OK \<longrightarrow> cval w' = cval w + 1 \<and> (anchor \<noteq> None \<longrightarrow> floor w' = max (floor w) (cval w + 1)))"
proof -
  let ?B1 = "(blobs w)(ulog_key hw \<mapsto> wire)"
  let ?B2 = "?B1(META_KEY \<mapsto> meta_after hw wire)"
  obtain rc1 w1 where s1: "st_put store (ulog_key hw) wire w = (rc1, w1)" by fastforce
  note l1 = put_law [OF i _ l s1, simplified]
  obtain rc2 w2 where s2: "st_put store META_KEY (meta_after hw wire) w1 = (rc2, w2)" by fastforce
  have l2: "inv w2" "cval w2 = cval w" "floor w2 = floor w"
    "blobs w2 = (blobs w1)(META_KEY \<mapsto> meta_after hw wire) \<or> rc2 \<noteq> ALP_OK \<and> blobs w2 = blobs w1"
    using put_law [OF _ _ _ s2] l1 by (auto simp: meta_after_decodes)
  obtain rc3 v w3 where s3: "ct_increment ctr 0 w2 = (rc3, v, w3)" by (metis prod_cases3)
  have l3: "inv w3" "blobs w3 = blobs w2" "floor w3 = floor w"
    "cval w3 = cval w + 1 \<or> rc3 \<noteq> ALP_OK \<and> cval w3 = cval w"
    using inc_law [OF l2(1) _ s3] l2 c by auto
  have b1: "rc1 = ALP_OK \<Longrightarrow> blobs w1 = ?B1" "rc1 = ALP_OK \<Longrightarrow> rc2 = ALP_OK \<Longrightarrow> blobs w2 = ?B2"
    using l1 l2 by auto
  show ?thesis
  proof (cases "rc1 = ALP_OK \<and> rc2 = ALP_OK")
    case False
    then have "(w' = w1 \<and> rc1 \<noteq> ALP_OK \<or> w' = w2 \<and> rc1 = ALP_OK) \<and> rc \<noteq> ALP_OK"
      using r s1 s2 by (auto simp: append_commit_def split: if_splits)
    then show ?thesis using l1 l2 b1(1) c by (auto simp: commit_outcome_def)
  next
    case True
    show ?thesis
    proof (cases anchor)
      case None
      then have "w' = w3" "rc = rc3" using r True s1 s2 s3 by (auto simp: append_commit_def)
      then show ?thesis using l3 b1 True c None by (auto simp: commit_outcome_def)
    next
      case (Some a)
      then obtain adv where a: "an_advance a = Some adv" using anchor_valid by (auto simp: ulog_anchor_valid_def)
      obtain rc4 w4 where s4: "adv (hw + 1) w3 = (rc4, w4)" by fastforce
      note l4 = advance_law [OF Some a l3(1) s4]
      have "w' = (if rc3 = ALP_OK then w4 else w3)" "rc = (if rc3 = ALP_OK then rc4 else rc3)"
        using r True s1 s2 s3 s4 Some a by (auto simp: append_commit_def split: if_splits)
      then show ?thesis using l3 l4 b1 True c by (auto simp: commit_outcome_def)
    qed
  qed
qed

text \<open>The committed entry: the caller's, with the sequence number the engine assigns and its
  version string as it reads back.\<close>

lemma append_entry_law:
  assumes i: "inv w" and wf: "entry_wf entry" and c: "cval w \<le> ULOG_SEQ_MAX"
    and r: "append_entry store ctr anchor (cval w) entry w = (rc, w')"
  defines "e \<equiv> entry\<lparr>ule_seq := cval w\<rparr>" and "p \<equiv> prev_hash (blobs w) (unat (cval w))"
  shows "inv w' \<and>
    (blobs w' = blobs w \<and> cval w' = cval w \<or>
     entry_encodable entry \<and> commit_outcome (blobs w) (cval w) (entry_wire e p) (blobs w') (cval w')) \<and>
    (floor w' = floor w \<or> cval w' = cval w + 1 \<and> floor w' = max (floor w) (cval w + 1)) \<and>
    (rc = ALP_OK \<longrightarrow> entry_encodable entry \<and> meta_agrees (blobs w) (unat (cval w)) \<and> cval w' = cval w + 1 \<and>
       (anchor \<noteq> None \<longrightarrow> floor w' = max (floor w) (cval w + 1)))"
proof -
  have wf': "entry_wf e" "entry_encodable e = entry_encodable entry" "length p = 32"
    using wf by (simp_all add: e_def p_def entry_wf_def entry_encodable_def)
  obtain rc2 p' w2 where s2: "append_prev store (cval w) w = (rc2, p', w2)" by (metis prod_cases3)
  have l2: "inv w2" "blobs w2 = blobs w" "cval w2 = cval w" "floor w2 = floor w"
    "rc2 = ALP_OK \<Longrightarrow> p' = p \<and> meta_agrees (blobs w) (unat (cval w))"
    using append_prev_law [OF i s2] by (auto simp: p_def)
  show ?thesis
  proof (cases "rc2 = ALP_OK \<and> entry_encodable entry")
    case False
    then have "w' = w2" "rc \<noteq> ALP_OK"
      using r s2 wf' encode_refuses [OF wf'(1)] by (auto simp: append_entry_def e_def split: if_splits)
    then show ?thesis using l2 by auto
  next
    case True
    then have p': "p' = p" using l2 by blast
    have lay: "ulog_entry_encode (Some e) (Some p) (Some (mem_set 0 115)) = (ALP_OK, Some (entry_wire e p))"
      "length (entry_wire e p) = 115"
      using entry_wire_layout [of p e] wf' True by (auto simp: entry_wf_def)
    then have cm: "append_commit store ctr anchor (cval w2) (entry_wire e p) w2 = (rc, w')"
      using r s2 True p' l2 by (simp add: append_entry_def e_def [symmetric])
    have "cval w2 < - 1" using SEQ_MAX_less [OF c] l2 by simp
    from commit_law [OF l2(1) refl this _ cm] show ?thesis
      using l2 lay True by auto
  qed
qed

lemma append_law:
  assumes i: "inv w" and h: "holds_log (blobs w) (cval w) es" and room: "length es + 1 < SEQ_SPACE"
    and wf: "entry_wf entry"
    and r: "ulog_engine_append_anchored (Some store) (Some ctr) anchor (Some entry) w = (rc, w')"
  defines "es' \<equiv> es @ [entry_norm (entry\<lparr>ule_seq := of_nat (length es)\<rparr>)]"
  shows "inv w' \<and> (holds_log (blobs w') (cval w') es \<or> entry_encodable entry \<and> holds_log (blobs w') (cval w') es') \<and>
    (rc = ALP_OK \<longrightarrow> entry_encodable entry \<and> cval w' = of_nat (length es') \<and>
       holds_log (blobs w') (cval w') es' \<and> (anchor \<noteq> None \<longrightarrow> floor w' = cval w'))"
proof -
  obtain rc1 hw w1 where s1: "append_prologue store ctr anchor w = (rc1, hw, w1)" by (metis prod_cases3)
  note l1 = prologue_law [OF i s1]
  have out: "holds_log (blobs w1) (cval w1) es" using recover_outcome_holds [OF h] l1 by blast
  show ?thesis
  proof (cases "rc1 = ALP_OK")
    case False
    then have "w' = w1" "rc \<noteq> ALP_OK" using r s1 anchor_valid by (auto simp: ulog_engine_append_anchored_def)
    then show ?thesis using l1 out by auto
  next
    case True
    then have sp: "spec_recover (blobs w) (cval w) = (blobs w1, cval w1)" and hw: "hw = cval w1" "cval w1 \<le> ULOG_SEQ_MAX"
      and fl: "anchor \<noteq> None \<Longrightarrow> floor w1 = cval w1" using l1 by auto
    note H = spec_recover_heals [OF h sp]
    have ap: "append_entry store ctr anchor (cval w1) entry w1 = (rc, w')"
      using r s1 True hw anchor_valid by (simp add: ulog_engine_append_anchored_def)
    have i1: "inv w1" using l1 by blast
    have seq: "of_nat (length es) = cval w1" using arg_cong [OF H(3), of "of_nat :: nat \<Rightarrow> u64"] by simp
    let ?e = "entry\<lparr>ule_seq := cval w1\<rparr>" and ?p = "prev_hash (blobs w1) (unat (cval w1))"
    note l2 = append_entry_law [OF i1 wf hw(2) ap]
    have enc: "entry_of_wire (entry_wire ?e ?p) = Some (entry_norm ?e, ?p)" "length (entry_wire ?e ?p) \<le> 115"
      if "entry_encodable entry"
      using that wf entry_of_wire_entry_wire [of ?p ?e] entry_wire_layout(3) [of ?p ?e]
      by (simp_all add: entry_wf_def entry_encodable_def)
    have co: "(holds_log (blobs w') (cval w') es \<or> holds_log (blobs w') (cval w') es') \<and>
        (cval w' = cval w1 + 1 \<longrightarrow> holds_log (blobs w') (cval w') es')"
      if "entry_encodable entry" "commit_outcome (blobs w1) (cval w1) (entry_wire ?e ?p) (blobs w') (cval w')"
      using commit_outcome_holds [OF out H(1) _ enc(1) [OF that(1)] _ _ that(2)] enc(2) [OF that(1)] room H(3)
      by (auto simp: es'_def seq entry_norm_def)
    have nc: "cval w1 + 1 \<noteq> cval w1" "max (cval w1) (cval w1 + 1) = cval w1 + 1"
      using SEQ_MAX_less_Suc [OF hw(2)] by (simp_all add: max_def)
    show ?thesis using l2 co out seq fl nc by (auto simp: es'_def)
  qed
qed

lemma verify_meta_law:
  assumes i: "inv w" and r: "verify_meta store hw w = (res, w')"
  shows "inv w' \<and> blobs w' = blobs w \<and> cval w' = cval w \<and> floor w' = floor w \<and>
    meta_post (blobs w) hw res"
proof (cases "hw = 0")
  case True
  then show ?thesis using assms by (auto simp: verify_meta_def meta_counts_def)
next
  case False
  obtain rc b w2 where s2: "st_get store META_KEY ULOG_META_WIRE_LEN w = (rc, b, w2)" by (metis prod_cases3)
  have l2: "inv w2" "blobs w2 = blobs w" "cval w2 = cval w" "floor w2 = floor w"
    "rc = ALP_OK \<Longrightarrow> blobs w META_KEY = Some b \<and> length b \<le> ULOG_META_WIRE_LEN" "rc = ALP_ERR_NOT_FOUND \<Longrightarrow> blobs w META_KEY = None"
    using get_law [OF i _ s2] by auto
  have eq: "m = \<lparr>um_count = c, um_head_hash = h\<rparr> \<longleftrightarrow> um_count m = c \<and> um_head_hash m = h" for m :: ulog_meta and c h
    by (cases m) auto
  show ?thesis
    using r False l2 by (auto simp: verify_meta_def s2 meta_counts_def meta_agrees_def eq unat_eq_zero
        split: if_splits option.splits)
qed

lemma verify_walk_law:
  assumes "inv w" "verify_walk store hw i h h w = (res, w')"
    and "unat i \<le> unat hw" "chained (blobs w) (unat i)" "h = prev_hash (blobs w) (unat i)"
  shows "inv w' \<and> blobs w' = blobs w \<and> cval w' = cval w \<and> floor w' = floor w \<and>
    walk_post (blobs w) hw res"
  using assms
proof (induction "unat hw - unat i" arbitrary: i h w)
  case 0
  then have "\<not> i < hw" "unat i = unat hw" by (auto simp: word_less_nat_alt)
  then show ?case using 0 by (auto simp: verify_walk.simps [of store hw i])
next
  case (Suc d)
  then have less: "i < hw" "unat i < unat hw" by (auto simp: word_less_nat_alt)
  moreover have "unat hw < 2 ^ 64" using unsigned_less [of hw] by simp
  ultimately have i1: "unat (i + 1) = Suc (unat i)" by (simp add: unat_word_ariths)
  obtain rc b w1 where g: "st_get store (ulog_key i) ULOG_ENTRY_WIRE_LEN w = (rc, b, w1)" by (metis prod_cases3)
  have l: "inv w1" "blobs w1 = blobs w" "cval w1 = cval w" "floor w1 = floor w"
    "rc = ALP_OK \<Longrightarrow> slot (blobs w) (unat i) = Some b \<and> length b \<le> ULOG_ENTRY_WIRE_LEN"
    "rc = ALP_ERR_NOT_FOUND \<Longrightarrow> slot (blobs w) (unat i) = None"
    using get_law [OF Suc.prems(1) _ g] by (auto simp: slot_def)
  show ?case
  proof (cases "rc = ALP_OK \<and> links (blobs w) (unat i)")
    case True
    then have rec: "verify_walk store hw (i + 1) (ulog_sha256 b) (ulog_sha256 b) w1 = (res, w')"
      using Suc.prems(2,5) less l(5) g
      by (auto simp: verify_walk.simps [of store hw i] links_def split: if_splits option.splits)
    have nxt: "chained (blobs w1) (unat (i + 1))" "ulog_sha256 b = prev_hash (blobs w1) (unat (i + 1))"
      using True l Suc.prems(4) by (simp_all add: i1 chained_Suc prev_hash_Suc)
    have "d = unat hw - unat (i + 1)" "unat (i + 1) \<le> unat hw" using Suc.hyps(2) less i1 by simp_all
    from Suc.hyps(1) [OF this(1) l(1) rec this(2) nxt] show ?thesis unfolding l(2-4) .
  next
    case False
    then have "w' = w1" "res = Walk_Verdict ALP_UPDATE_LOG_VERIFY_TRUNCATED i \<and> rc = ALP_ERR_NOT_FOUND \<or>
        res = Walk_Verdict ALP_UPDATE_LOG_VERIFY_CHAIN_BROKEN i \<and> rc = ALP_OK \<or>
        res = Walk_Err ALP_ERR_IO"
      using Suc.prems(2,5) less l(5) g
      by (auto simp: verify_walk.simps [of store hw i] links_def split: if_splits option.splits)
    then show ?thesis using l False less Suc.prems(4) by auto
  qed
qed

lemma verify_frontier_law:
  assumes i: "inv w" and h: "h = prev_hash (blobs w) (unat hw)" and ch: "chained (blobs w) (unat hw)"
    and r: "verify_frontier store hw h w = (res, w')"
  shows "inv w' \<and> blobs w' = blobs w \<and> cval w' = cval w \<and> floor w' = floor w \<and>
    frontier_post (blobs w) hw res"
proof -
  obtain rc b w1 where g: "st_get store (ulog_key hw) ULOG_ENTRY_WIRE_LEN w = (rc, b, w1)" by (metis prod_cases3)
  have l: "inv w1" "blobs w1 = blobs w" "cval w1 = cval w" "floor w1 = floor w"
    "rc = ALP_OK \<Longrightarrow> slot (blobs w) (unat hw) = Some b \<and> length b \<le> ULOG_ENTRY_WIRE_LEN"
    "rc = ALP_ERR_NOT_FOUND \<Longrightarrow> slot (blobs w) (unat hw) = None"
    using get_law [OF i _ g] by (auto simp: slot_def)
  show ?thesis
    using r h ch l
    by (auto simp: verify_frontier_def g chained_Suc links_def split: if_splits option.splits)
qed

lemma verify_body_law:
  assumes i: "inv w" and r: "verify_body store hw w = (res, w')"
  shows "inv w' \<and> blobs w' = blobs w \<and> cval w' = cval w \<and> floor w' = floor w \<and>
    body_post (blobs w) hw res"
proof -
  obtain res1 w1 where s1: "verify_meta store hw w = (res1, w1)" by fastforce
  note l1 = verify_meta_law [OF i s1]
  show ?thesis
  proof (cases res1)
    case (Walk_Next m)
    obtain res2 w2 where s2: "verify_walk store hw 0 (mem_set 0 32) (mem_set 0 32) w1 = (res2, w2)" by fastforce
    have i1: "inv w1" "blobs w1 = blobs w" "cval w1 = cval w" "floor w1 = floor w" using l1 by auto
    have mc: "meta_counts (blobs w) (unat hw)"
      "hw \<noteq> 0 \<Longrightarrow> um_head_hash m = prev_hash (blobs w) (unat hw) \<longleftrightarrow> meta_agrees (blobs w) (unat hw)"
      using l1 Walk_Next by auto
    have l2: "inv w2 \<and> blobs w2 = blobs w \<and> cval w2 = cval w \<and> floor w2 = floor w \<and> walk_post (blobs w) hw res2"
      using verify_walk_law [OF i1(1) s2] i1 by (simp add: chained_def prev_hash_def)
    show ?thesis
    proof (cases res2)
      case w2: (Walk_Next cur)
      have c: "chained (blobs w) (unat hw)" "cur = prev_hash (blobs w) (unat hw)" using l2 w2 by auto
      have pred: "hw \<noteq> 0 \<Longrightarrow> unat (hw - 1) + 1 = unat hw \<and> chained (blobs w) (unat (hw - 1))"
        using c(1) by (auto simp: unat_minus_one unat_gt_0 chained_def)
      obtain res3 w3 where s3: "verify_frontier store hw cur w2 = (res3, w3)" by fastforce
      have l3: "inv w3 \<and> blobs w3 = blobs w \<and> cval w3 = cval w \<and> floor w3 = floor w \<and> frontier_post (blobs w) hw res3"
        using verify_frontier_law [OF _ _ _ s3] l2 c by auto
      have ag: "meta_agrees (blobs w) 0" by (simp add: meta_agrees_def)
      show ?thesis
      proof (cases "hw > 0 \<and> cur \<noteq> um_head_hash m")
        case True
        then have "w' = w2" "res = Walk_Verdict ALP_UPDATE_LOG_VERIFY_CHAIN_BROKEN (hw - 1)"
          using r s1 s2 s3 Walk_Next w2 by (auto simp: verify_body_def)
        then show ?thesis using l2 mc c pred True by (auto simp: word_gt_0)
      next
        case False
        then have "meta_agrees (blobs w) (unat hw)" using mc(2) c(2) ag by (cases "hw = 0") (auto simp: word_gt_0)
        moreover have "w' = w3" "res = res3" using False r s1 s2 s3 Walk_Next w2 by (auto simp: verify_body_def)
        ultimately show ?thesis using l3 mc c by (cases res3) auto
      qed
    qed (use r s1 s2 l2 Walk_Next mc in \<open>auto simp: verify_body_def\<close>)
  qed (use r s1 l1 in \<open>auto simp: verify_body_def\<close>)
qed

lemma verify_law:
  assumes i: "inv w"
    and r: "ulog_engine_verify_anchored (Some store) (Some ctr) anchor (Some v0) bad w = (rc, vo, bo, w')"
  shows "inv w' \<and> recover_outcome (blobs w) (cval w) (blobs w') (cval w') \<and>
    (floor w' = floor w \<or> floor w < cval w' \<and> floor w' = cval w') \<and>
    (if rc = ALP_OK then (blobs w', cval w') = spec_recover (blobs w) (cval w) \<and>
      (\<exists>v k. vo = Some v \<and> bo = map_option (\<lambda>_. k) bad \<and>
        (if anchor \<noteq> None \<and> cval w' < floor w then v = ALP_UPDATE_LOG_VERIFY_ROLLED_BACK \<and> k = 0
         else (anchor \<noteq> None \<longrightarrow> floor w' = cval w') \<and> verdict_spec (blobs w') (unat (cval w')) v (unat k)))
     else vo = Some v0)"
proof -
  obtain rc1 w1 where s1: "ulog_recover store ctr w = (rc1, w1)" by fastforce
  note l1 = recover_law [OF i s1]
  obtain rc2 rb w2 where s2: "ulog_sync_anchor ctr anchor w1 = (rc2, rb, w2)" by (metis prod_cases3)
  have l2: "inv w2" "blobs w2 = blobs w1" "cval w2 = cval w1"
    "floor w2 = floor w \<or> floor w < cval w1 \<and> floor w2 = cval w1"
    "rc2 = ALP_OK \<Longrightarrow> rb = (anchor \<noteq> None \<and> cval w1 < floor w)"
    "rc2 = ALP_OK \<Longrightarrow> \<not> rb \<Longrightarrow> anchor = None \<or> floor w2 = cval w1"
    using sync_law [OF _ s2] l1 by auto
  obtain rc3 v w3 where s3: "ct_read ctr 0 w2 = (rc3, v, w3)" by (metis prod_cases3)
  note l3 = read_law [OF l2(1) s3]
  obtain res w4 where s4: "verify_body store (cval w1) w3 = (res, w4)" by fastforce
  have l4: "inv w4" "blobs w4 = blobs w1" "cval w4 = cval w1" "floor w4 = floor w2"
    "body_post (blobs w1) (cval w1) res"
    using verify_body_law [OF _ s4] l3 l2 by auto
  note unf = ulog_engine_verify_anchored_def
  show ?thesis
  proof (cases "rc1 = ALP_OK \<and> rc2 = ALP_OK \<and> \<not> rb \<and> rc3 = ALP_OK")
    case True
    then have "w' = w4" "(rc, vo, bo) = (case res of Walk_Err rc \<Rightarrow> (rc, Some v0, map_option (\<lambda>_. 0) bad)
        | Walk_Verdict v k \<Rightarrow> (ALP_OK, Some v, map_option (\<lambda>_. k) bad)
        | Walk_Next u \<Rightarrow> (ALP_OK, Some ALP_UPDATE_LOG_VERIFY_OK, map_option (\<lambda>_. 0) bad))"
      using r s1 s2 s3 s4 l2 l3 anchor_valid by (auto simp: unf split: walk.splits)
    then show ?thesis using True l1 l2 l4 by (auto split: walk.splits)
  next
    case False
    then have "(w' = w1 \<or> w' = w2 \<or> w' = w3) \<and>
        (rc = ALP_OK \<and> w' = w2 \<and> rc1 = ALP_OK \<and> rc2 = ALP_OK \<and> rb \<and>
           vo = Some ALP_UPDATE_LOG_VERIFY_ROLLED_BACK \<and> bo = map_option (\<lambda>_. 0) bad \<or>
         rc \<noteq> ALP_OK \<and> vo = Some v0)"
      using r s1 s2 s3 anchor_valid by (auto simp: unf split: if_splits)
    then show ?thesis using l1 l2 l3 by auto
  qed
qed

lemma count_law:
  assumes i: "inv w" and r: "ulog_engine_count (Some store) (Some ctr) (Some n0) w = (rc, n, w')"
  shows "inv w' \<and> recover_outcome (blobs w) (cval w) (blobs w') (cval w') \<and>
    (if rc = ALP_OK then (blobs w', cval w') = spec_recover (blobs w) (cval w) \<and> n = Some (cval w')
     else n = Some n0)"
proof -
  obtain rc1 w1 where s1: "ulog_recover store ctr w = (rc1, w1)" by fastforce
  note l1 = recover_law [OF i s1]
  obtain rc2 v w2 where s2: "ct_read ctr 0 w1 = (rc2, v, w2)" by (metis prod_cases3)
  note l2 = read_law [OF _ s2]
  show ?thesis using r s1 s2 l1 l2 by (auto simp: ulog_engine_count_def split: if_splits)
qed

lemma get_entry_law:
  assumes i: "inv w" and h: "holds_log (blobs w) (cval w) es" and s: "seq \<le> ULOG_SEQ_MAX"
    and r: "ulog_engine_get (Some store) seq (Some e0) w = (rc, e, w')"
  shows "inv w' \<and> blobs w' = blobs w \<and> cval w' = cval w \<and>
    (rc = ALP_OK \<longrightarrow> unat seq < length es \<and> e = Some (es ! unat seq)) \<and>
    (rc = ALP_ERR_NOT_FOUND \<longrightarrow> length es \<le> unat seq \<and> e = Some e0)"
proof -
  obtain rc1 b w1 where g: "st_get store (ulog_key seq) ULOG_ENTRY_WIRE_LEN w = (rc1, b, w1)" by (metis prod_cases3)
  have l: "inv w1" "blobs w1 = blobs w" "cval w1 = cval w"
    "rc1 = ALP_OK \<Longrightarrow> slot (blobs w) (unat seq) = Some b" "rc1 = ALP_ERR_NOT_FOUND \<Longrightarrow> slot (blobs w) (unat seq) = None"
    using get_law [OF i _ g] by (auto simp: slot_def)
  have above: "length es \<le> unat seq \<Longrightarrow> slot (blobs w) (unat seq) = None"
    using h s by (auto simp: holds_log_def SEQ_MAX_digits)
  have below: "\<exists>b p. slot (blobs w) (unat seq) = Some b \<and> entry_of_wire b = Some (es ! unat seq, p)"
    if "unat seq < length es"
    using holds_log_nth [OF h that] by auto
  show ?thesis
  proof (cases "rc1 = ALP_OK")
    case True
    then have lt: "unat seq < length es" using above l(4) not_le by fastforce
    then obtain p where "entry_of_wire b = Some (es ! unat seq, p)" using below l(4) True by auto
    then have "rc = ALP_OK" "e = Some (es ! unat seq)" "w' = w1"
      using r g True decode_entry_of_wire [of b e0 "mem_set 0 32"] by (auto simp: ulog_engine_get_def)
    then show ?thesis using l lt by simp
  next
    case False
    then have "rc = rc1" "e = Some e0" "w' = w1" using r g by (auto simp: ulog_engine_get_def)
    then show ?thesis using l below False not_le by fastforce
  qed
qed

text \<open>The anchor never runs ahead of the committed count, whatever fails.\<close>


lemma append_keeps_floor:
  assumes i: "inv w" and wf: "entry_wf entry" and fl: "floor w \<le> cval w"
    and r: "ulog_engine_append_anchored (Some store) (Some ctr) anchor (Some entry) w = (rc, w')"
  shows "inv w' \<and> floor w' \<le> cval w'"
proof -
  obtain rc1 hw w1 where s1: "append_prologue store ctr anchor w = (rc1, hw, w1)" by (metis prod_cases3)
  note l1 = prologue_law [OF i s1]
  have f1: "floor w1 \<le> cval w1" using l1 fl recover_outcome_mono by (metis order_refl order_trans)
  show ?thesis
  proof (cases "rc1 = ALP_OK")
    case False
    then have "w' = w1" using r s1 anchor_valid by (auto simp: ulog_engine_append_anchored_def)
    then show ?thesis using l1 f1 by simp
  next
    case True
    then have hw: "hw = cval w1" "cval w1 \<le> ULOG_SEQ_MAX" and i1: "inv w1" using l1 by auto
    have "append_entry store ctr anchor (cval w1) entry w1 = (rc, w')"
      using r s1 True hw anchor_valid by (simp add: ulog_engine_append_anchored_def)
    note l2 = append_entry_law [OF i1 wf hw(2) this]
    show ?thesis using l2 f1 SEQ_MAX_less_Suc [OF hw(2)] by (auto simp: commit_outcome_def Let_def max_def)
  qed
qed

text \<open>A floor above the recovered count: append refuses and writes no entry.\<close>

lemma append_refuses_rollback:
  assumes i: "inv w" and c: "cval w \<noteq> - 1" and a: "anchor \<noteq> None"
    and fl: "snd (spec_recover (blobs w) (cval w)) < floor w"
    and r: "ulog_engine_append_anchored (Some store) (Some ctr) anchor (Some entry) w = (rc, w')"
  shows "inv w' \<and> rc \<noteq> ALP_OK \<and> floor w' = floor w \<and>
    recover_outcome (blobs w) (cval w) (blobs w') (cval w')"
proof -
  obtain rc1 hw w1 where s1: "append_prologue store ctr anchor w = (rc1, hw, w1)" by (metis prod_cases3)
  note l1 = prologue_law [OF i s1]
  have "recover_outcome (blobs w) (cval w) (fst (spec_recover (blobs w) (cval w))) (snd (spec_recover (blobs w) (cval w)))"
    using c by (simp add: recover_outcome_def spec_recover_def)
  then have "cval w \<le> snd (spec_recover (blobs w) (cval w))" by (rule recover_outcome_mono)
  then have "cval w1 \<le> snd (spec_recover (blobs w) (cval w))"
    using l1 by (auto simp: recover_outcome_def spec_recover_def split: if_splits)
  then have lt: "cval w1 < floor w" using fl by (rule le_less_trans)
  have "rc1 \<noteq> ALP_OK" using l1 a lt by (metis less_asym less_irrefl)
  then have "w' = w1" "rc \<noteq> ALP_OK" using r s1 anchor_valid by (auto simp: ulog_engine_append_anchored_def)
  then show ?thesis using l1 lt by (metis less_asym)
qed

end

end
