(* ===== verification/Ulog_Keys.thy ===== *)
theory Ulog_Keys
  imports Ulog_Contract
begin

text \<open>
  What a store sees in the engine's keys.  The persistent stores translate a key
  \<^verbatim>\<open>"ulog.<decimal>"\<close> into a number of their own; this theory reads the decimal of a rendered
  key: up to \<open>ULOG_SEQ_MAX\<close> it is the sequence number, and for the one sequence number the
  engine can render beyond that bound it has eighteen digits and is far above any identifier
  a store can hold.  The parsers of the stores are compared with these facts.
\<close>

definition digit_char :: "char \<Rightarrow> bool" where
  "digit_char c \<longleftrightarrow> 48 \<le> (of_char c :: nat) \<and> of_char c \<le> (57 :: nat)"

definition dec_from :: "nat \<Rightarrow> string \<Rightarrow> nat" where
  "dec_from n s = foldl (\<lambda>v c. v * 10 + (of_char c - 48)) n s"

lemma dec_from_simps [simp]:
  "dec_from n [] = n" "dec_from n (c # s) = dec_from (n * 10 + (of_char c - 48)) s"
  by (simp_all add: dec_from_def)

lemma dec_val_from: "dec_val s = dec_from 0 s"
  by (simp add: dec_val_def dec_from_def)

lemma dec_from_ge: "n \<le> dec_from n s"
proof (induction s arbitrary: n)
  case (Cons c s)
  have "n \<le> n * 10 + (of_char c - 48)" by simp
  also have "\<dots> \<le> dec_from (n * 10 + (of_char c - 48)) s" by (rule Cons.IH)
  finally show ?case by simp
qed simp

lemma kbuf_digits_length_exact:
  "10 ^ k \<le> unat v \<Longrightarrow> unat v < 10 ^ Suc k \<Longrightarrow> n + k < 20 \<Longrightarrow> length (kbuf_digits v n) = Suc k"
proof (induction k arbitrary: v n)
  case 0
  then show ?case by (simp add: kbuf_digits.simps [of v n] word_div_10_eq_0)
next
  case (Suc k)
  have "(10 :: nat) \<le> 10 ^ Suc k" by simp
  then have "v div 10 \<noteq> 0" using Suc.prems(1) unfolding word_div_10_eq_0 by linarith
  moreover have "10 ^ k \<le> unat (v div 10)" "unat (v div 10) < 10 ^ Suc k" using Suc.prems by simp_all
  ultimately show ?case using Suc.IH [of "v div 10" "Suc n"] Suc.prems(3)
    by (simp add: kbuf_digits.simps [of v n])
qed

lemma key_digits_large:
  assumes "ULOG_SEQ_MAX < c"
  shows "10 ^ 17 \<le> dec_val (take 18 (rev (kbuf_digits c 0)))" "dec_val (take 18 (rev (kbuf_digits c 0))) < 10 ^ 18"
proof -
  have c: "10 ^ 18 \<le> unat c" "unat c < 2 ^ 64"
    using assms SEQ_MAX_digits [of c] unsigned_less [of c, where 'a = nat] by (auto simp: not_le)
  have lt: "unat (c div 10) < 10 ^ 19" "unat (c div 10 div 10) < 10 ^ 18" using c(2) by simp_all
  have nz: "c div 10 \<noteq> 0" "c div 10 div 10 \<noteq> 0"
    using c(1) by (simp_all add: word_div_10_eq_0 not_less)
  have d: "kbuf_digits c 0 = hd (kbuf_digits c 0) # kbuf_digits (c div 10) 1"
    "kbuf_digits (c div 10) 1 = hd (kbuf_digits (c div 10) 1) # kbuf_digits (c div 10 div 10) 2"
    using nz by (simp_all add: kbuf_digits.simps [of c 0] kbuf_digits.simps [of "c div 10" "Suc 0"] numeral_2_eq_2)
  have "10 ^ 17 \<le> dec_val (take 18 (rev (kbuf_digits c 0))) \<and> dec_val (take 18 (rev (kbuf_digits c 0))) < 10 ^ 18"
  proof (cases "unat c < 10 ^ 19")
    case True
    have "length (kbuf_digits (c div 10) 1) = Suc 17"
      using True c by (intro kbuf_digits_length_exact) simp_all
    then have "take 18 (rev (kbuf_digits c 0)) = rev (kbuf_digits (c div 10) 1)"
      by (subst d(1)) simp
    then show ?thesis using kbuf_digits_val [of 1 "c div 10"] lt True c
      by (simp add: div_less_iff_less_mult less_eq_div_iff_mult_less_eq)
  next
    case False
    have "length (kbuf_digits (c div 10 div 10) 2) = Suc 17"
      using False c by (intro kbuf_digits_length_exact) simp_all
    then have "take 18 (rev (kbuf_digits c 0)) = rev (kbuf_digits (c div 10 div 10) 2)"
      by (subst d(1), subst d(2)) simp
    then show ?thesis using kbuf_digits_val [of 2 "c div 10 div 10"] lt False c
      by (simp add: div_less_iff_less_mult less_eq_div_iff_mult_less_eq)
  qed
  then show "10 ^ 17 \<le> dec_val (take 18 (rev (kbuf_digits c 0)))" "dec_val (take 18 (rev (kbuf_digits c 0))) < 10 ^ 18"
    by blast+
qed

text \<open>The decimal of a rendered key.\<close>

lemma ulog_key_number:
  obtains ds where "ulog_key c = ''ulog.'' @ ds" "ds \<noteq> []" "list_all digit_char ds"
    "dec_val ds < 10 ^ 18" "if c \<le> ULOG_SEQ_MAX then dec_val ds = unat c else 10 ^ 17 \<le> dec_val ds"
proof
  let ?ds = "take 18 (rev (kbuf_digits c 0))"
  show "ulog_key c = ''ulog.'' @ ?ds" by (simp add: kbuf_def Let_def)
  show "?ds \<noteq> []" by simp
  show "list_all digit_char ?ds"
    using kbuf_digits_chars [of _ c 0] by (auto simp: list_all_iff digit_char_def dest: in_set_takeD)
  have small: "?ds = rev (kbuf_digits c 0)" if "c \<le> ULOG_SEQ_MAX"
    using kbuf_digits_length [of c 18 0] that by (simp add: SEQ_MAX_digits)
  show "dec_val ?ds < 10 ^ 18" "if c \<le> ULOG_SEQ_MAX then dec_val ?ds = unat c else 10 ^ 17 \<le> dec_val ?ds"
    using key_digits_large [of c] small dec_val_digits [of c] SEQ_MAX_digits [of c] by (fastforce simp: not_le)+
qed

text \<open>A store key is the metadata key or the key of a number up to a bound below \<open>10 ^ 17\<close>.\<close>

lemma ulog_key_of_number:
  assumes "ulog_key c = ''ulog.'' @ ds" "dec_val ds < 10 ^ 17"
  shows "dec_val ds = unat c" "c \<le> ULOG_SEQ_MAX"
proof -
  obtain ds' where "ulog_key c = ''ulog.'' @ ds'"
    and "if c \<le> ULOG_SEQ_MAX then dec_val ds' = unat c else 10 ^ 17 \<le> dec_val ds'"
    by (rule ulog_key_number)
  moreover then have "ds' = ds" using assms(1) by simp
  ultimately show "dec_val ds = unat c" "c \<le> ULOG_SEQ_MAX" using assms(2) by (auto split: if_splits)
qed

end
