(* ===== verification/Nvs_Tier.thy ===== *)
theory Nvs_Tier
  imports Ulog_Keys
begin

text \<open>
  The software tier of the update log in its persistent build
  (\<^verbatim>\<open>src/backends/update_log/sw_tier.c\<close> with \<^verbatim>\<open>SW_TIER_NVS\<close>, lines 154--334 and the seams
  below them): the keyed store and the counter live in Zephyr NVS, mounted on first use.

  Zephyr's flash and NVS calls are the parameter \<open>nvs_api\<close>; what the tier relies on is the
  predicate \<open>nvs_contract\<close> (the NVS documentation: a write stores the whole record or leaves
  the old one, a read reports the length of the record and at most the requested bytes, an
  absent record is \<open>-ENOENT\<close>).  The tier's static variables are the record \<open>nvs_tier\<close>.
\<close>

section \<open>The NVS interface\<close>

abbreviation ENOENT :: int where "ENOENT \<equiv> 2"
abbreviation ENOSPC :: int where "ENOSPC \<equiv> 28"

record nvs_fs =
  fs_offset :: u32
  fs_sector_size :: u32
  fs_sector_count :: u16

record 'w nvs_api =
  device_is_ready :: "'w \<Rightarrow> bool"
  flash_get_page_info_by_offs :: "u32 \<Rightarrow> 'w \<Rightarrow> int \<times> nat"
  partition_offset :: u32
  partition_size :: nat
  nvs_mount :: "nvs_fs \<Rightarrow> 'w \<Rightarrow> int \<times> 'w"
  nvs_clear :: "nvs_fs \<Rightarrow> 'w \<Rightarrow> int \<times> 'w"
  nvs_calc_free_space :: "nvs_fs \<Rightarrow> 'w \<Rightarrow> int \<times> 'w"
  nvs_write :: "nvs_fs \<Rightarrow> u16 \<Rightarrow> bytes \<Rightarrow> 'w \<Rightarrow> int \<times> 'w"
  nvs_read :: "nvs_fs \<Rightarrow> u16 \<Rightarrow> nat \<Rightarrow> 'w \<Rightarrow> int \<times> bytes \<times> 'w"
  nvs_delete :: "nvs_fs \<Rightarrow> u16 \<Rightarrow> 'w \<Rightarrow> int \<times> 'w"

record 'w nvs_tier =
  g_nvs :: nvs_fs
  g_nvs_ok :: bool
  g_nvs_test_fail_mount :: bool
  nt_flash :: 'w

section \<open>The store\<close>

abbreviation SW_NVS_ID_COUNTER :: u16 where "SW_NVS_ID_COUNTER \<equiv> 0"
abbreviation SW_NVS_ID_META :: u16 where "SW_NVS_ID_META \<equiv> 1"
abbreviation SW_NVS_ID_ENTRY_BASE :: u16 where "SW_NVS_ID_ENTRY_BASE \<equiv> 0x10"

definition SW_NVS_ENTRY_MAX :: u64 where
  "SW_NVS_ENTRY_MAX = ucast (- 1 - SW_NVS_ID_ENTRY_BASE)"

definition SW_NVS_APPEND_WORST :: nat where
  "SW_NVS_APPEND_WORST = 2 * ULOG_ENTRY_WIRE_LEN + ULOG_META_WIRE_LEN + 8 + 3 * 8"

definition sw_nvs_ready :: "'w nvs_api \<Rightarrow> 'w nvs_tier \<Rightarrow> alp_status \<times> 'w nvs_tier" where
  "sw_nvs_ready api t =
     (if g_nvs_ok t then (ALP_OK, t) else
      if \<not> device_is_ready api (nt_flash t) then (ALP_ERR_NOT_READY, t) else
      let (err, page) = flash_get_page_info_by_offs api (partition_offset api) (nt_flash t) in
      if err \<noteq> 0 then (ALP_ERR_NOT_READY, t) else
      let fs = \<lparr>fs_offset = partition_offset api, fs_sector_size = of_nat page,
                 fs_sector_count = of_nat (partition_size api div page)\<rparr>;
          t = t\<lparr>g_nvs := fs\<rparr> in
      if g_nvs_test_fail_mount t then (ALP_ERR_NOT_READY, t) else
      let (err, w) = nvs_mount api fs (nt_flash t);
          t = t\<lparr>g_nvs_ok := (err = 0), nt_flash := w\<rparr> in
      (if g_nvs_ok t then ALP_OK else ALP_ERR_NOT_READY, t))"

fun sw_nvs_digits :: "string \<Rightarrow> u64 \<Rightarrow> alp_status + u64" where
  "sw_nvs_digits [] v = Inr v"
| "sw_nvs_digits (p # ps) v =
     (if (of_char p :: nat) < 48 \<or> (of_char p :: nat) > 57 then Inl ALP_ERR_INVAL else
      let v = v * 10 + of_nat (of_char p - 48) in
      if v > SW_NVS_ENTRY_MAX then Inl ALP_ERR_NOMEM else sw_nvs_digits ps v)"

definition sw_nvs_key_to_id :: "string \<Rightarrow> alp_status + u16" where
  "sw_nvs_key_to_id k =
     (if k = ''ulog.meta'' then Inr SW_NVS_ID_META else
      if take 5 k \<noteq> ''ulog.'' \<or> length k = 5 then Inl ALP_ERR_INVAL else
      (case sw_nvs_digits (drop 5 k) 0 of
         Inl rc \<Rightarrow> Inl rc
       | Inr v \<Rightarrow> Inr (ucast (ucast SW_NVS_ID_ENTRY_BASE + v))))"

text \<open>The body of \<open>sw_nvs_put\<close> once the id is known, then the operation.\<close>

definition sw_nvs_put :: "'w nvs_api \<Rightarrow> string \<Rightarrow> bytes \<Rightarrow> 'w nvs_tier \<Rightarrow> alp_status \<times> 'w nvs_tier" where
  "sw_nvs_put api k b t =
     (case sw_nvs_key_to_id k of
        Inl rc \<Rightarrow> (rc, t)
      | Inr nid \<Rightarrow>
          (let (gate, t) =
             (if nid \<ge> SW_NVS_ID_ENTRY_BASE then
                (let (free_b, w) = nvs_calc_free_space api (g_nvs t) (nt_flash t);
                     t = t\<lparr>nt_flash := w\<rparr> in
                 if free_b < 0 then (ALP_ERR_IO, t) else
                 if nat free_b < SW_NVS_APPEND_WORST then (ALP_ERR_NOMEM, t) else (ALP_OK, t))
              else (ALP_OK, t)) in
           if gate \<noteq> ALP_OK then (gate, t) else
           let (wr, w) = nvs_write api (g_nvs t) nid b (nt_flash t);
               t = t\<lparr>nt_flash := w\<rparr> in
           if wr < 0 then ((if wr = - ENOSPC then ALP_ERR_NOMEM else ALP_ERR_IO), t)
           else (ALP_OK, t)))"

definition sw_nvs_get ::
  "'w nvs_api \<Rightarrow> string \<Rightarrow> nat \<Rightarrow> 'w nvs_tier \<Rightarrow> alp_status \<times> bytes \<times> 'w nvs_tier" where
  "sw_nvs_get api k cap t =
     (case sw_nvs_key_to_id k of
        Inl rc \<Rightarrow> ((if rc = ALP_ERR_NOMEM then ALP_ERR_NOT_FOUND else rc), [], t)
      | Inr nid \<Rightarrow>
          (let (r, b, w) = nvs_read api (g_nvs t) nid cap (nt_flash t);
               t = t\<lparr>nt_flash := w\<rparr> in
           if r = - ENOENT then (ALP_ERR_NOT_FOUND, [], t) else
           if r < 0 then (ALP_ERR_IO, [], t) else
           if nat r > cap then (ALP_ERR_NOMEM, [], t)
           else (ALP_OK, b, t)))"

definition sw_nvs_erase :: "'w nvs_api \<Rightarrow> string \<Rightarrow> 'w nvs_tier \<Rightarrow> alp_status \<times> 'w nvs_tier" where
  "sw_nvs_erase api k t =
     (case sw_nvs_key_to_id k of
        Inl rc \<Rightarrow> ((if rc = ALP_ERR_NOMEM then ALP_ERR_NOT_FOUND else rc), t)
      | Inr nid \<Rightarrow>
          (let (err, w) = nvs_delete api (g_nvs t) nid (nt_flash t);
               t = t\<lparr>nt_flash := w\<rparr> in
           ((if err = - ENOENT then ALP_ERR_NOT_FOUND else if err = 0 then ALP_OK else ALP_ERR_IO), t)))"

definition sw_nvs_counter_read :: "'w nvs_api \<Rightarrow> 'w nvs_tier \<Rightarrow> alp_status \<times> u64 \<times> 'w nvs_tier" where
  "sw_nvs_counter_read api t =
     (let (r, b, w) = nvs_read api (g_nvs t) SW_NVS_ID_COUNTER 8 (nt_flash t);
          t = t\<lparr>nt_flash := w\<rparr> in
      if r = - ENOENT then (ALP_OK, 0, t) else
      if r < 0 \<or> nat r \<noteq> 8 then (ALP_ERR_IO, 0, t)
      else (ALP_OK, le_word 8 b, t))"

definition sw_nvs_counter_increment :: "'w nvs_api \<Rightarrow> 'w nvs_tier \<Rightarrow> alp_status \<times> u64 \<times> 'w nvs_tier" where
  "sw_nvs_counter_increment api t =
     (let (rc, val, t) = sw_nvs_counter_read api t in
      if rc \<noteq> ALP_OK then (rc, 0, t) else
      let val = val + 1;
          (wr, w) = nvs_write api (g_nvs t) SW_NVS_ID_COUNTER (le_bytes 8 val) (nt_flash t);
          t = t\<lparr>nt_flash := w\<rparr> in
      if wr < 0 then ((if wr = - ENOSPC then ALP_ERR_NOMEM else ALP_ERR_IO), 0, t)
      else (ALP_OK, val, t))"

section \<open>The seams\<close>

definition nvs_sw_put :: "'w nvs_api \<Rightarrow> string \<Rightarrow> bytes \<Rightarrow> 'w nvs_tier \<Rightarrow> alp_status \<times> 'w nvs_tier" where
  "nvs_sw_put api k b t =
     (let (rc, t) = sw_nvs_ready api t in if rc \<noteq> ALP_OK then (rc, t) else sw_nvs_put api k b t)"

definition nvs_sw_get ::
  "'w nvs_api \<Rightarrow> string \<Rightarrow> nat \<Rightarrow> 'w nvs_tier \<Rightarrow> alp_status \<times> bytes \<times> 'w nvs_tier" where
  "nvs_sw_get api k cap t =
     (let (rc, t) = sw_nvs_ready api t in if rc \<noteq> ALP_OK then (rc, [], t) else sw_nvs_get api k cap t)"

definition nvs_sw_erase :: "'w nvs_api \<Rightarrow> string \<Rightarrow> 'w nvs_tier \<Rightarrow> alp_status \<times> 'w nvs_tier" where
  "nvs_sw_erase api k t =
     (let (rc, t) = sw_nvs_ready api t in if rc \<noteq> ALP_OK then (rc, t) else sw_nvs_erase api k t)"

definition nvs_sw_cread :: "'w nvs_api \<Rightarrow> u32 \<Rightarrow> 'w nvs_tier \<Rightarrow> alp_status \<times> u64 \<times> 'w nvs_tier" where
  "nvs_sw_cread api cid t =
     (let (rc, t) = sw_nvs_ready api t in if rc \<noteq> ALP_OK then (rc, 0, t) else sw_nvs_counter_read api t)"

definition nvs_sw_cinc :: "'w nvs_api \<Rightarrow> u32 \<Rightarrow> 'w nvs_tier \<Rightarrow> alp_status \<times> u64 \<times> 'w nvs_tier" where
  "nvs_sw_cinc api cid t =
     (let (rc, t) = sw_nvs_ready api t in if rc \<noteq> ALP_OK then (rc, 0, t) else sw_nvs_counter_increment api t)"

definition nvs_store :: "'w nvs_api \<Rightarrow> 'w nvs_tier secure_store_if" where
  "nvs_store api = \<lparr>st_put = nvs_sw_put api, st_get = nvs_sw_get api, st_erase = nvs_sw_erase api\<rparr>"

definition nvs_ctr :: "'w nvs_api \<Rightarrow> 'w nvs_tier monotonic_counter_if" where
  "nvs_ctr api = \<lparr>ct_read = nvs_sw_cread api, ct_increment = nvs_sw_cinc api\<rparr>"

text \<open>The reboot emulation of the test build: drop what the tier holds in RAM, and with
  \<open>wipe\<close> clear the partition.\<close>

definition alp_ulog_sw_tier_test_reset :: "'w nvs_api \<Rightarrow> bool \<Rightarrow> 'w nvs_tier \<Rightarrow> 'w nvs_tier" where
  "alp_ulog_sw_tier_test_reset api wipe t =
     (let t = (if wipe \<and> g_nvs_ok t then t\<lparr>nt_flash := snd (nvs_clear api (g_nvs t) (nt_flash t))\<rparr> else t)
      in t\<lparr>g_nvs_ok := False, g_nvs_test_fail_mount := False\<rparr>)"

definition alp_ulog_sw_tier_test_fail_mount :: "bool \<Rightarrow> 'w nvs_tier \<Rightarrow> 'w nvs_tier" where
  "alp_ulog_sw_tier_test_fail_mount fail t = t\<lparr>g_nvs_test_fail_mount := fail, g_nvs_ok := False\<rparr>"

definition alp_ulog_sw_tier_test_corrupt_persisted_entry ::
  "'w nvs_api \<Rightarrow> u64 \<Rightarrow> nat \<Rightarrow> u8 \<Rightarrow> 'w nvs_tier \<Rightarrow> alp_status \<times> 'w nvs_tier" where
  "alp_ulog_sw_tier_test_corrupt_persisted_entry api seq off xor_mask t =
     (let (rc, t) = sw_nvs_ready api t in
      if rc \<noteq> ALP_OK then (ALP_ERR_IO, t) else
      if seq > SW_NVS_ENTRY_MAX \<or> off \<ge> ULOG_ENTRY_WIRE_LEN then (ALP_ERR_INVAL, t) else
      let nid = ucast (ucast SW_NVS_ID_ENTRY_BASE + seq);
          (len, buf, w) = nvs_read api (g_nvs t) nid ULOG_ENTRY_WIRE_LEN (nt_flash t);
          t = t\<lparr>nt_flash := w\<rparr> in
      if len = - ENOENT then (ALP_ERR_NOT_FOUND, t) else
      if len < 0 \<or> nat len \<noteq> ULOG_ENTRY_WIRE_LEN then (ALP_ERR_IO, t) else
      let (written, w) = nvs_write api (g_nvs t) nid (buf[off := buf ! off XOR xor_mask]) (nt_flash t);
          t = t\<lparr>nt_flash := w\<rparr> in
      ((if written < 0 then ALP_ERR_IO else ALP_OK), t))"

definition alp_ulog_sw_tier_test_delete_persisted_entry ::
  "'w nvs_api \<Rightarrow> u64 \<Rightarrow> 'w nvs_tier \<Rightarrow> alp_status \<times> 'w nvs_tier" where
  "alp_ulog_sw_tier_test_delete_persisted_entry api seq t =
     (let (rc, t) = sw_nvs_ready api t in
      if rc \<noteq> ALP_OK then (ALP_ERR_IO, t) else
      if seq > SW_NVS_ENTRY_MAX then (ALP_ERR_INVAL, t) else
      let nid = ucast (ucast SW_NVS_ID_ENTRY_BASE + seq);
          (err, w) = nvs_delete api (g_nvs t) nid (nt_flash t);
          t = t\<lparr>nt_flash := w\<rparr> in
      ((if err = - ENOENT then ALP_ERR_NOT_FOUND else if err = 0 then ALP_OK else ALP_ERR_IO), t))"

section \<open>The tier's operations in this build\<close>

definition nvs_sw_append :: "'w nvs_api \<Rightarrow> update_log_entry option \<Rightarrow> 'w nvs_tier \<Rightarrow> alp_status \<times> 'w nvs_tier" where
  "nvs_sw_append api e t = ulog_engine_append (Some (nvs_store api)) (Some (nvs_ctr api)) e t"

definition nvs_sw_verify ::
  "'w nvs_api \<Rightarrow> update_log_verdict option \<Rightarrow> u64 option \<Rightarrow> 'w nvs_tier \<Rightarrow>
   alp_status \<times> update_log_verdict option \<times> u64 option \<times> 'w nvs_tier" where
  "nvs_sw_verify api v bad t = ulog_engine_verify (Some (nvs_store api)) (Some (nvs_ctr api)) v bad t"

definition nvs_sw_count :: "'w nvs_api \<Rightarrow> u64 option \<Rightarrow> 'w nvs_tier \<Rightarrow> alp_status \<times> u64 option \<times> 'w nvs_tier" where
  "nvs_sw_count api n t = ulog_engine_count (Some (nvs_store api)) (Some (nvs_ctr api)) n t"

lemmas nvs_ops = nvs_sw_append_def nvs_sw_verify_def nvs_sw_count_def ulog_engine_append_def ulog_engine_verify_def

section \<open>What NVS promises\<close>

definition nvs_contract :: "('w \<Rightarrow> u16 \<Rightarrow> bytes option) \<Rightarrow> 'w nvs_api \<Rightarrow> bool" where
  "nvs_contract recs api \<longleftrightarrow>
     (\<forall>fs w err w'. nvs_mount api fs w = (err, w') \<longrightarrow> recs w' = recs w) \<and>
     (\<forall>fs w n w'. nvs_calc_free_space api fs w = (n, w') \<longrightarrow> recs w' = recs w) \<and>
     (\<forall>fs nid b w r w'. b \<noteq> [] \<and> nvs_write api fs nid b w = (r, w') \<longrightarrow>
        recs w' = (recs w)(nid \<mapsto> b) \<or> r < 0 \<and> recs w' = recs w) \<and>
     (\<forall>fs nid n w r b w'. nvs_read api fs nid n w = (r, b, w') \<longrightarrow>
        recs w' = recs w \<and> (r = - ENOENT \<longrightarrow> recs w nid = None) \<and>
        (0 \<le> r \<longrightarrow> (\<exists>a. recs w nid = Some a \<and> r = int (length a) \<and> b = take n a)))"

lemma nvs_contractD:
  assumes "nvs_contract recs api"
  shows nvs_mount_law: "nvs_mount api fs w = (err, w') \<Longrightarrow> recs w' = recs w"
    and nvs_free_law: "nvs_calc_free_space api fs w = (err, w') \<Longrightarrow> recs w' = recs w"
    and nvs_write_law: "b \<noteq> [] \<Longrightarrow> nvs_write api fs nid b w = (r, w') \<Longrightarrow>
      recs w' = (recs w)(nid \<mapsto> b) \<or> r < 0 \<and> recs w' = recs w"
    and nvs_read_law: "nvs_read api fs nid n w = (r, b, w') \<Longrightarrow>
      recs w' = recs w \<and> (r = - ENOENT \<longrightarrow> recs w nid = None) \<and>
      (0 \<le> r \<longrightarrow> (\<exists>a. recs w nid = Some a \<and> r = int (length a) \<and> b = take n a))"
  using assms unfolding nvs_contract_def by metis+

text \<open>The records as the engine sees them, and the counter.\<close>

definition nvs_blobs :: "(u16 \<Rightarrow> bytes option) \<Rightarrow> blob_map" where
  "nvs_blobs R k =
     (case sw_nvs_key_to_id k of
        Inl _ \<Rightarrow> None
      | Inr nid \<Rightarrow> if nid \<noteq> SW_NVS_ID_META \<and> k \<noteq> ulog_key (ucast (nid - SW_NVS_ID_ENTRY_BASE)) then None else R nid)"

definition nvs_cval :: "(u16 \<Rightarrow> bytes option) \<Rightarrow> u64" where
  "nvs_cval R = (case R SW_NVS_ID_COUNTER of None \<Rightarrow> 0 | Some b \<Rightarrow> le_word 8 b)"

section \<open>Keys and ids\<close>

lemma ENTRY_MAX_val: "SW_NVS_ENTRY_MAX = 65519"
  by (simp add: SW_NVS_ENTRY_MAX_def)

lemma ENTRY_MAX_unat: "v \<le> SW_NVS_ENTRY_MAX \<longleftrightarrow> unat v \<le> 65519"
  by (simp add: ENTRY_MAX_val word_le_nat_alt)

lemma sw_nvs_digits_value:
  "list_all digit_char ds \<Longrightarrow> v \<le> SW_NVS_ENTRY_MAX \<Longrightarrow>
   sw_nvs_digits ds v = (if dec_from (unat v) ds \<le> 65519 then Inr (of_nat (dec_from (unat v) ds)) else Inl ALP_ERR_NOMEM)"
proof (induction ds arbitrary: v)
  case Nil
  then show ?case by (simp add: ENTRY_MAX_unat)
next
  case (Cons c ds)
  let ?d = "of_char c - 48 :: nat"
  let ?v = "v * 10 + of_nat ?d :: u64"
  have c: "48 \<le> (of_char c :: nat)" "of_char c \<le> (57 :: nat)"
    using Cons.prems(1) by (auto simp: digit_char_def)
  have u: "unat ?v = unat v * 10 + ?d"
    using Cons.prems(2) c by (simp add: ENTRY_MAX_unat unat_word_ariths unat_of_nat del: of_nat_diff)
  have un: "sw_nvs_digits (c # ds) v = (if ?v > SW_NVS_ENTRY_MAX then Inl ALP_ERR_NOMEM else sw_nvs_digits ds ?v)"
    using c by (simp add: Let_def del: of_nat_diff)
  show ?case
  proof (cases "?v \<le> SW_NVS_ENTRY_MAX")
    case True
    have "sw_nvs_digits (c # ds) v = sw_nvs_digits ds ?v" by (simp only: un leD [OF True] if_False)
    then show ?thesis using Cons.IH [OF _ True] Cons.prems(1) unfolding u
      by (simp only: list.pred_inject(2) dec_from_simps simp_thms)
  next
    case False
    then have "\<not> dec_from (unat v * 10 + ?d) ds \<le> 65519"
      using dec_from_ge [of "unat v * 10 + ?d" ds] u unfolding ENTRY_MAX_unat by linarith
    then show ?thesis using False un by (simp add: not_le del: of_nat_diff)
  qed
qed

lemma sw_nvs_digits_bound: "sw_nvs_digits ds v = Inr s \<Longrightarrow> v \<le> SW_NVS_ENTRY_MAX \<Longrightarrow> s \<le> SW_NVS_ENTRY_MAX"
  by (induction ds arbitrary: v) (auto simp: Let_def not_less split: if_splits)

definition entry_id :: "u64 \<Rightarrow> u16" where
  "entry_id s = ucast (ucast SW_NVS_ID_ENTRY_BASE + s)"

lemma entry_id_facts:
  assumes "s \<le> SW_NVS_ENTRY_MAX"
  shows "unat (entry_id s) = 16 + unat s" "SW_NVS_ID_ENTRY_BASE \<le> entry_id s" "ucast (entry_id s - SW_NVS_ID_ENTRY_BASE) = s"
proof -
  have s: "unat s \<le> 65519" using assms by (simp add: ENTRY_MAX_unat)
  then show u: "unat (entry_id s) = 16 + unat s"
    by (simp add: entry_id_def unsigned_ucast_eq unat_word_ariths take_bit_nat_eq_self)
  then show le: "SW_NVS_ID_ENTRY_BASE \<le> entry_id s" by (simp add: word_le_nat_alt)
  have "unat (entry_id s - SW_NVS_ID_ENTRY_BASE) = unat s" using unat_sub [OF le] u by simp
  then show "ucast (entry_id s - SW_NVS_ID_ENTRY_BASE) = s"
    using s by (simp add: word_unat_eq_iff unsigned_ucast_eq take_bit_nat_eq_self)
qed

lemma id_for_meta [simp]: "sw_nvs_key_to_id META_KEY = Inr SW_NVS_ID_META"
  by (simp add: sw_nvs_key_to_id_def)

lemma id_for_entry:
  "sw_nvs_key_to_id (ulog_key c) = (if c \<le> SW_NVS_ENTRY_MAX then Inr (entry_id c) else Inl ALP_ERR_NOMEM)"
proof -
  obtain ds where k: "ulog_key c = ''ulog.'' @ ds" "ds \<noteq> []" "list_all digit_char ds" "dec_val ds < 10 ^ 18"
    and v: "if c \<le> ULOG_SEQ_MAX then dec_val ds = unat c else 10 ^ 17 \<le> dec_val ds"
    by (rule ulog_key_number)
  have d: "sw_nvs_digits ds 0 = (if dec_val ds \<le> 65519 then Inr (of_nat (dec_val ds)) else Inl ALP_ERR_NOMEM)"
    using sw_nvs_digits_value [of ds 0] k(3) by (simp add: dec_val_from)
  have "(dec_val ds \<le> 65519) = (c \<le> SW_NVS_ENTRY_MAX) \<and> (c \<le> SW_NVS_ENTRY_MAX \<longrightarrow> of_nat (dec_val ds) = c)"
  proof (cases "c \<le> ULOG_SEQ_MAX")
    case True
    then show ?thesis using v by (simp add: ENTRY_MAX_unat)
  next
    case False
    then have "10 ^ 18 \<le> unat c" by (simp add: SEQ_MAX_digits)
    then show ?thesis using v False by (simp add: ENTRY_MAX_unat)
  qed
  then show ?thesis using d k(1,2) by (auto simp: sw_nvs_key_to_id_def entry_id_def)
qed

lemma id_for_key_cases:
  assumes "sw_nvs_key_to_id k = Inr nid"
  shows "k = META_KEY \<and> nid = SW_NVS_ID_META \<or> k \<noteq> META_KEY \<and> 16 \<le> unat nid"
proof (cases "k = META_KEY")
  case False
  then obtain s where "sw_nvs_digits (drop 5 k) 0 = Inr s" "nid = entry_id s"
    using assms by (auto simp: sw_nvs_key_to_id_def entry_id_def split: if_splits sum.splits)
  then show ?thesis using sw_nvs_digits_bound [of "drop 5 k" 0 s] entry_id_facts(1) False by simp
qed (use assms in simp)

lemma nvs_blobs_simps [simp]:
  "nvs_blobs R META_KEY = R SW_NVS_ID_META"
  "nvs_blobs R (ulog_key c) = (if c \<le> SW_NVS_ENTRY_MAX then R (entry_id c) else None)"
  by (simp_all add: nvs_blobs_def id_for_entry entry_id_facts)

lemma nvs_blobs_upd:
  assumes "sw_nvs_key_to_id k = Inr nid" "engine_key k"
  shows "nvs_blobs (R(nid \<mapsto> b)) = (nvs_blobs R)(k \<mapsto> b)"
proof
  fix k'
  have k: "nid \<noteq> SW_NVS_ID_META \<longrightarrow> k = ulog_key (ucast (nid - SW_NVS_ID_ENTRY_BASE))"
    using assms by (auto simp: engine_key_def id_for_entry entry_id_facts split: if_splits)
  have other: "nvs_blobs (R(nid \<mapsto> b)) k' = nvs_blobs R k'" if "k' \<noteq> k"
    using that k id_for_key_cases [OF assms(1)] id_for_key_cases [of k']
    by (auto simp: nvs_blobs_def split: sum.splits)
  show "nvs_blobs (R(nid \<mapsto> b)) k' = ((nvs_blobs R)(k \<mapsto> b)) k'"
    using other assms k by (cases "k' = k") (auto simp: nvs_blobs_def)
qed

lemma nvs_blobs_counter [simp]: "nvs_blobs (R(SW_NVS_ID_COUNTER \<mapsto> b)) = nvs_blobs R"
proof
  fix k
  show "nvs_blobs (R(SW_NVS_ID_COUNTER \<mapsto> b)) k = nvs_blobs R k"
    by (auto simp: nvs_blobs_def split: sum.splits dest!: id_for_key_cases)
qed

lemma nvs_cval_simps [simp]:
  "nvs_cval (R(SW_NVS_ID_COUNTER \<mapsto> le_bytes 8 v)) = v"
  "sw_nvs_key_to_id k = Inr nid \<Longrightarrow> nvs_cval (R(nid \<mapsto> b)) = nvs_cval R"
  using id_for_key_cases [of k nid] by (auto simp: nvs_cval_def le_word_bytes)

section \<open>The tier meets the engine's contract\<close>

lemma sw_nvs_ready_law:
  assumes "nvs_contract recs api" "sw_nvs_ready api t = (rc, t')"
  shows "recs (nt_flash t') = recs (nt_flash t)"
  using assms nvs_mount_law [OF assms(1)]
  by (auto simp: sw_nvs_ready_def Let_def split: if_splits prod.splits)

lemma nvs_put_law:
  assumes c: "nvs_contract recs api" and k: "engine_key k" and b: "b \<noteq> []"
    and r: "nvs_sw_put api k b t = (rc, t')"
  shows "nvs_cval (recs (nt_flash t')) = nvs_cval (recs (nt_flash t)) \<and>
    (nvs_blobs (recs (nt_flash t')) = (nvs_blobs (recs (nt_flash t)))(k \<mapsto> b) \<or>
     rc \<noteq> ALP_OK \<and> nvs_blobs (recs (nt_flash t')) = nvs_blobs (recs (nt_flash t)))"
proof -
  obtain rc1 t1 where s1: "sw_nvs_ready api t = (rc1, t1)" by fastforce
  have l1: "recs (nt_flash t1) = recs (nt_flash t)" using sw_nvs_ready_law [OF c s1] .
  show ?thesis
  proof (cases "rc1 = ALP_OK")
    case False
    then show ?thesis using r s1 l1 by (auto simp: nvs_sw_put_def)
  next
    case True
    then have p: "sw_nvs_put api k b t1 = (rc, t')" using r s1 by (simp add: nvs_sw_put_def)
    show ?thesis
    proof (cases "sw_nvs_key_to_id k")
      case (Inl e)
      then have "e \<noteq> ALP_OK" using k by (auto simp: engine_key_def id_for_entry split: if_splits)
      then show ?thesis using p Inl l1 by (simp add: sw_nvs_put_def)
    next
      case (Inr nid)
      obtain fb w2 where s2: "nvs_calc_free_space api (g_nvs t1) (nt_flash t1) = (fb, w2)" by fastforce
      have l2: "recs w2 = recs (nt_flash t)" using nvs_free_law [OF c s2] l1 by simp
      define w3 where "w3 = (if nid \<ge> SW_NVS_ID_ENTRY_BASE then w2 else nt_flash t1)"
      obtain wr w4 where s3: "nvs_write api (g_nvs t1) nid b w3 = (wr, w4)" by fastforce
      have "rc \<noteq> ALP_OK \<and> nt_flash t' = w3 \<or> nt_flash t' = w4 \<and> (rc = ALP_OK \<longrightarrow> 0 \<le> wr)"
        using p Inr s2 s3 by (auto simp: w3_def sw_nvs_put_def Let_def split: if_splits)
      moreover have "recs w3 = recs (nt_flash t)" using l1 l2 by (simp add: w3_def)
      ultimately show ?thesis
        using nvs_write_law [OF c b s3] nvs_blobs_upd [OF Inr k] Inr by auto
    qed
  qed
qed

lemma nvs_get_law:
  assumes c: "nvs_contract recs api" and k: "engine_key k" and r: "nvs_sw_get api k cap t = (rc, b, t')"
  shows "recs (nt_flash t') = recs (nt_flash t) \<and>
    (rc = ALP_OK \<longrightarrow> nvs_blobs (recs (nt_flash t)) k = Some b \<and> length b \<le> cap) \<and>
    (rc = ALP_ERR_NOT_FOUND \<longrightarrow> nvs_blobs (recs (nt_flash t)) k = None)"
proof -
  obtain rc1 t1 where s1: "sw_nvs_ready api t = (rc1, t1)" by fastforce
  have l1: "recs (nt_flash t1) = recs (nt_flash t)" using sw_nvs_ready_law [OF c s1] .
  have rcs: "rc1 = ALP_OK \<or> rc1 = ALP_ERR_NOT_READY"
    using s1 by (auto simp: sw_nvs_ready_def Let_def split: if_splits prod.splits)
  have p: "rc1 = ALP_OK \<Longrightarrow> sw_nvs_get api k cap t1 = (rc, b, t')" "rc1 \<noteq> ALP_OK \<Longrightarrow> rc = rc1 \<and> t' = t1"
    using r s1 by (auto simp: nvs_sw_get_def)
  show ?thesis
  proof (cases "rc1 = ALP_OK")
    case True
    show ?thesis
    proof (cases "sw_nvs_key_to_id k")
      case (Inl e)
      then have "e = ALP_ERR_NOMEM" using k by (auto simp: engine_key_def id_for_entry split: if_splits)
      then show ?thesis using p(1) [OF True] Inl l1 by (auto simp: sw_nvs_get_def nvs_blobs_def)
    next
      case (Inr nid)
      have bl: "nvs_blobs R k = R nid" for R
        using Inr k by (auto simp: nvs_blobs_def engine_key_def id_for_entry entry_id_facts split: if_splits)
      obtain rd d w2 where s2: "nvs_read api (g_nvs t1) nid cap (nt_flash t1) = (rd, d, w2)" by (metis prod_cases3)
      note l2 = nvs_read_law [OF c s2]
      show ?thesis using p(1) [OF True] Inr s2 l1 l2
        by (auto simp: sw_nvs_get_def Let_def bl split: if_splits)
    qed
  qed (use p(2) l1 rcs in auto)
qed

lemma nvs_counter_read_law:
  assumes c: "nvs_contract recs api" and r: "sw_nvs_counter_read api t = (rc, v, t')"
  shows "recs (nt_flash t') = recs (nt_flash t) \<and> (rc = ALP_OK \<longrightarrow> v = nvs_cval (recs (nt_flash t)))"
proof -
  obtain rd d w2 where s2: "nvs_read api (g_nvs t) SW_NVS_ID_COUNTER 8 (nt_flash t) = (rd, d, w2)" by (metis prod_cases3)
  show ?thesis using r s2 nvs_read_law [OF c s2]
    by (auto simp: sw_nvs_counter_read_def Let_def nvs_cval_def split: if_splits)
qed

lemma nvs_cread_law:
  assumes c: "nvs_contract recs api" and r: "nvs_sw_cread api cid t = (rc, v, t')"
  shows "recs (nt_flash t') = recs (nt_flash t) \<and> (rc = ALP_OK \<longrightarrow> v = nvs_cval (recs (nt_flash t)))"
proof -
  obtain rc1 t1 where s1: "sw_nvs_ready api t = (rc1, t1)" by fastforce
  show ?thesis using r s1 sw_nvs_ready_law [OF c s1] nvs_counter_read_law [OF c, of t1 rc v t']
    by (auto simp: nvs_sw_cread_def split: if_splits)
qed

lemma nvs_cinc_law:
  assumes c: "nvs_contract recs api" and r: "nvs_sw_cinc api cid t = (rc, v, t')"
  shows "nvs_blobs (recs (nt_flash t')) = nvs_blobs (recs (nt_flash t)) \<and>
    (nvs_cval (recs (nt_flash t')) = nvs_cval (recs (nt_flash t)) + 1 \<or>
     rc \<noteq> ALP_OK \<and> nvs_cval (recs (nt_flash t')) = nvs_cval (recs (nt_flash t)))"
proof -
  obtain rc1 t1 where s1: "sw_nvs_ready api t = (rc1, t1)" by fastforce
  have l1: "recs (nt_flash t1) = recs (nt_flash t)" using sw_nvs_ready_law [OF c s1] .
  obtain rc2 n t2 where s2: "sw_nvs_counter_read api t1 = (rc2, n, t2)" by (metis prod_cases3)
  have l2: "recs (nt_flash t2) = recs (nt_flash t)" "rc2 = ALP_OK \<Longrightarrow> n = nvs_cval (recs (nt_flash t))"
    using nvs_counter_read_law [OF c s2] l1 by auto
  obtain wr w3 where s3: "nvs_write api (g_nvs t2) SW_NVS_ID_COUNTER (le_bytes 8 (n + 1)) (nt_flash t2) = (wr, w3)" by fastforce
  have "le_bytes 8 (n + 1) \<noteq> []" by (simp add: le_bytes_def)
  note l3 = nvs_write_law [OF c this s3]
  consider "rc1 = ALP_OK" "rc2 = ALP_OK" | "rc \<noteq> ALP_OK" "t' = t1 \<or> t' = t2"
    using r s1 s2 by (auto simp: nvs_sw_cinc_def sw_nvs_counter_increment_def split: if_splits)
  then show ?thesis
  proof cases
    case 1
    then have "nt_flash t' = w3" "rc = ALP_OK \<longrightarrow> 0 \<le> wr"
      using r s1 s2 s3 by (auto simp: nvs_sw_cinc_def sw_nvs_counter_increment_def Let_def not_less split: if_splits)
    then show ?thesis using l3 l2 1 by auto
  next
    case 2
    then show ?thesis using l1 l2 by auto
  qed
qed

lemma nvs_seams:
  assumes "nvs_contract recs api"
  shows "ulog_seams (nvs_store api) (nvs_ctr api) None (\<lambda>_. True)
    (\<lambda>t. nvs_blobs (recs (nt_flash t))) (\<lambda>t. nvs_cval (recs (nt_flash t))) (\<lambda>_. 0)"
proof (unfold_locales, goal_cases)
  case (2 w k cap rc b w')
  then show ?case using nvs_get_law [OF assms, of k cap w rc b w'] by (simp add: nvs_store_def)
next
  case (3 w k b rc w')
  then show ?case using nvs_put_law [OF assms, of k b w rc w'] by (simp add: nvs_store_def)
next
  case (4 w rc v w')
  then show ?case using nvs_cread_law [OF assms, of 0 w rc v w'] by (simp add: nvs_ctr_def)
next
  case (5 w rc v w')
  then show ?case using nvs_cinc_law [OF assms, of 0 w rc v w'] by (simp add: nvs_ctr_def)
qed (simp_all add: ulog_anchor_valid_def)

text \<open>An implementation that meets the NVS contract: a map with a byte budget per record.\<close>

type_synonym nvs_mem = "(u16 \<Rightarrow> bytes option) \<times> nat"

definition mem_nvs :: "nvs_mem nvs_api" where
  "mem_nvs = \<lparr>device_is_ready = (\<lambda>_. True), flash_get_page_info_by_offs = (\<lambda>_ _. (0, 4096)),
     partition_offset = 0, partition_size = 16384,
     nvs_mount = (\<lambda>_ w. (0, w)), nvs_clear = (\<lambda>_ (R, n). (0, (\<lambda>_. None, n))),
     nvs_calc_free_space = (\<lambda>_ (R, n). (int n, (R, n))),
     nvs_write = (\<lambda>_ nid b (R, n). if n < length b + 8 then (- ENOSPC, (R, n))
       else (int (length b), (R(nid := (if b = [] then None else Some b)), n - (length b + 8)))),
     nvs_read = (\<lambda>_ nid k (R, n). case R nid of None \<Rightarrow> (- ENOENT, [], (R, n))
       | Some a \<Rightarrow> (int (length a), take k a, (R, n))),
     nvs_delete = (\<lambda>_ nid (R, n). case R nid of None \<Rightarrow> (- ENOENT, (R, n)) | Some a \<Rightarrow> (0, (R(nid := None), n)))\<rparr>"

lemma mem_nvs_contract: "nvs_contract fst mem_nvs"
  by (auto simp: nvs_contract_def mem_nvs_def split: option.splits if_splits)

definition nvs_boot :: "'w \<Rightarrow> 'w nvs_tier" where
  "nvs_boot w = \<lparr>g_nvs = \<lparr>fs_offset = 0, fs_sector_size = 0, fs_sector_count = 0\<rparr>, g_nvs_ok = False,
     g_nvs_test_fail_mount = False, nt_flash = w\<rparr>"

section \<open>Properties\<close>

text \<open>
  C29. The persistent log survives.  From a flash holding the log \<open>es\<close>, an append leaves,
  whatever it returns, a flash holding \<open>es\<close> or \<open>es\<close> followed by the entry; if it returned
  \<open>ALP_OK\<close> the entry is there.  After a reboot (all RAM state dropped) the flash still holds
  that log, and a count that succeeds reports its length.
\<close>

theorem nvs_append_survives_reboot:
  assumes "nvs_contract recs api"
    and "holds_log (nvs_blobs (recs (nt_flash t))) (nvs_cval (recs (nt_flash t))) es"
    and "length es + 1 < SEQ_SPACE" and "entry_wf e" and "nvs_sw_append api (Some e) t = (rc, t')"
  defines "t2 \<equiv> alp_ulog_sw_tier_test_reset api False t'"
  shows "\<exists>es'. (es' = es \<or> es' = es @ [entry_norm (e\<lparr>ule_seq := of_nat (length es)\<rparr>)]) \<and>
    (rc = ALP_OK \<longrightarrow> es' = es @ [entry_norm (e\<lparr>ule_seq := of_nat (length es)\<rparr>)]) \<and>
    holds_log (nvs_blobs (recs (nt_flash t2))) (nvs_cval (recs (nt_flash t2))) es' \<and>
    (\<forall>n t3. nvs_sw_count api (Some n0) t2 = (ALP_OK, n, t3) \<longrightarrow> n = Some (of_nat (length es')))"
proof -
  have fl: "nt_flash t2 = nt_flash t'" by (simp add: t2_def alp_ulog_sw_tier_test_reset_def)
  from ulog_seams.append_law [OF nvs_seams [OF assms(1)] _ assms(2-4), of rc t'] assms(5)
  obtain es' where es': "es' = es \<or> es' = es @ [entry_norm (e\<lparr>ule_seq := of_nat (length es)\<rparr>)]"
    "rc = ALP_OK \<longrightarrow> es' = es @ [entry_norm (e\<lparr>ule_seq := of_nat (length es)\<rparr>)]"
    and h: "holds_log (nvs_blobs (recs (nt_flash t2))) (nvs_cval (recs (nt_flash t2))) es'"
    unfolding fl by (auto simp: nvs_ops)
  have "n = Some (of_nat (length es'))" if c: "nvs_sw_count api (Some n0) t2 = (ALP_OK, n, t3)" for n t3
  proof -
    have L: "spec_recover (nvs_blobs (recs (nt_flash t2))) (nvs_cval (recs (nt_flash t2))) =
        (nvs_blobs (recs (nt_flash t3)), nvs_cval (recs (nt_flash t3)))" "n = Some (nvs_cval (recs (nt_flash t3)))"
      using ulog_seams.count_law [OF nvs_seams [OF assms(1)] TrueI, of n0 t2 ALP_OK n t3] c by (simp_all add: nvs_ops)
    then show ?thesis
      using arg_cong [OF spec_recover_heals(3) [OF h L(1)], of "of_nat :: nat \<Rightarrow> u64"] by simp
  qed
  then show ?thesis using es' h by blast
qed

lemma nvs_empty_holds: "holds_log (nvs_blobs (\<lambda>_. None)) (nvs_cval (\<lambda>_. None)) []"
  by (auto simp: holds_log_def healthy_def chained_def slot_def meta_agrees_def log_entries_def nvs_cval_def)

theorem nvs_append_survives_reboot_witness:
  "\<exists>rc t' es'. nvs_sw_append mem_nvs (Some zero_entry) (nvs_boot (\<lambda>_. None, 4096)) = (rc, t') \<and>
     (es' = [] \<or> es' = [entry_norm (zero_entry\<lparr>ule_seq := 0\<rparr>)]) \<and>
     holds_log (nvs_blobs (fst (nt_flash (alp_ulog_sw_tier_test_reset mem_nvs False t'))))
       (nvs_cval (fst (nt_flash (alp_ulog_sw_tier_test_reset mem_nvs False t')))) es'"
proof -
  obtain rc t' where r: "nvs_sw_append mem_nvs (Some zero_entry) (nvs_boot (\<lambda>_. None, 4096)) = (rc, t')"
    by (metis surj_pair)
  have "holds_log (nvs_blobs (fst (nt_flash (nvs_boot (\<lambda>_. None, 4096)))))
      (nvs_cval (fst (nt_flash (nvs_boot (\<lambda>_. None, 4096))))) []"
    using nvs_empty_holds by (simp add: nvs_boot_def)
  moreover have "entry_wf zero_entry" by (simp add: entry_wf_def zero_entry_def)
  ultimately show ?thesis
    using nvs_append_survives_reboot [OF mem_nvs_contract, of "nvs_boot (\<lambda>_. None, 4096)" "[]" zero_entry rc t' 0] r
    by auto
qed

text \<open>
  A full persistent log stays readable and is never overwritten.  With the counter past the
  last NVS id, count returns the counter, and the write of an entry under that sequence number,
  or under any while less than the worst-case transaction is free, answers \<open>ALP_ERR_NOMEM\<close>
  without writing a record.
\<close>

theorem nvs_full_log_readable:
  assumes "nvs_contract recs api" and "g_nvs_ok t"
  shows "(\<forall>hw t1. nvs_sw_cread api 0 t = (ALP_OK, hw, t1) \<and> SW_NVS_ENTRY_MAX < hw \<and> hw \<noteq> - 1 \<longrightarrow>
      ulog_recover (nvs_store api) (nvs_ctr api) t = (ALP_OK, t1)) \<and>
    (SW_NVS_ENTRY_MAX < seq \<longrightarrow> nvs_sw_put api (ulog_key seq) b t = (ALP_ERR_NOMEM, t)) \<and>
    (\<forall>n w. seq \<le> SW_NVS_ENTRY_MAX \<and> nvs_calc_free_space api (g_nvs t) (nt_flash t) = (int n, w) \<and> n < SW_NVS_APPEND_WORST \<longrightarrow>
      nvs_sw_put api (ulog_key seq) b t = (ALP_ERR_NOMEM, t\<lparr>nt_flash := w\<rparr>) \<and> recs w = recs (nt_flash t))"
proof (intro conjI allI impI)
  fix hw t1
  assume a: "nvs_sw_cread api 0 t = (ALP_OK, hw, t1) \<and> SW_NVS_ENTRY_MAX < hw \<and> hw \<noteq> - 1"
  have "g_nvs_ok t1"
    using a assms(2) by (auto simp: nvs_sw_cread_def sw_nvs_ready_def sw_nvs_counter_read_def Let_def split: if_splits prod.splits)
  then have "nvs_sw_get api (ulog_key hw) cap t1 = (ALP_ERR_NOT_FOUND, [], t1)" for cap
    using a by (auto simp: nvs_sw_get_def sw_nvs_ready_def sw_nvs_get_def id_for_entry dest: leD)
  then show "ulog_recover (nvs_store api) (nvs_ctr api) t = (ALP_OK, t1)"
    using a by (simp add: ulog_recover_def nvs_store_def nvs_ctr_def)
next
  assume "SW_NVS_ENTRY_MAX < seq"
  then show "nvs_sw_put api (ulog_key seq) b t = (ALP_ERR_NOMEM, t)"
    using assms(2) by (auto simp: nvs_sw_put_def sw_nvs_ready_def sw_nvs_put_def id_for_entry dest: leD)
next
  fix n w
  assume a: "seq \<le> SW_NVS_ENTRY_MAX \<and> nvs_calc_free_space api (g_nvs t) (nt_flash t) = (int n, w) \<and> n < SW_NVS_APPEND_WORST"
  then show "nvs_sw_put api (ulog_key seq) b t = (ALP_ERR_NOMEM, t\<lparr>nt_flash := w\<rparr>)"
    using assms(2) entry_id_facts(2) [of seq] by (simp add: nvs_sw_put_def sw_nvs_ready_def sw_nvs_put_def id_for_entry)
  show "recs w = recs (nt_flash t)" using nvs_free_law [OF assms(1)] a by blast
qed

theorem nvs_full_log_readable_witness:
  "nvs_sw_put mem_nvs (ulog_key 5) [1, 2] ((nvs_boot (\<lambda>_. None, 100))\<lparr>g_nvs_ok := True\<rparr>) =
     (ALP_ERR_NOMEM, (nvs_boot (\<lambda>_. None, 100))\<lparr>g_nvs_ok := True\<rparr>)"
proof -
  let ?t = "(nvs_boot (\<lambda>_. None, 100))\<lparr>g_nvs_ok := True\<rparr> :: nvs_mem nvs_tier"
  have "nvs_calc_free_space mem_nvs (g_nvs ?t) (nt_flash ?t) = (int 100, (\<lambda>_. None, 100))"
    by (simp add: mem_nvs_def nvs_boot_def)
  moreover have "(5 :: u64) \<le> SW_NVS_ENTRY_MAX" "100 < SW_NVS_APPEND_WORST"
    by (simp_all add: ENTRY_MAX_val SW_NVS_APPEND_WORST_def)
  ultimately have "nvs_sw_put mem_nvs (ulog_key 5) [1, 2] ?t = (ALP_ERR_NOMEM, ?t\<lparr>nt_flash := (\<lambda>_. None, 100)\<rparr>)"
    using nvs_full_log_readable [OF mem_nvs_contract, of ?t 5 "[1, 2]"] by fastforce
  then show ?thesis by (simp add: nvs_boot_def)
qed

end
