(* ===== verification/Tfm_Owner.thy ===== *)
theory Tfm_Owner
  imports Ulog_Keys
begin

text \<open>
  The secure owner of the update log over PSA Protected Storage
  (\<^verbatim>\<open>src/update_log/tfm_psa_secure_owner.c\<close>): keys become storage UIDs, entries are created
  write-once, and the counter is an asset of its own.

  The PSA functions are not part of the repository: they are the parameter \<open>psa_ps_api\<close>, and
  what the owner relies on is the predicate \<open>psa_contract\<close> (the PSA Secure Storage
  documentation: a set either takes effect or leaves the asset, a write-once asset can be
  neither set again nor removed, get and get_info report the stored bytes).  Under it the
  owner meets the engine's contract \<open>ulog_seams\<close>, so append is atomic and verify is exact; and
  the owner adds that a stored entry is never changed, which the RAM tier does not give.
\<close>

section \<open>The PSA interface\<close>

type_synonym psa_uid = u64

datatype psa_status =
    PSA_SUCCESS
  | PSA_ERROR_INVALID_ARGUMENT
  | PSA_ERROR_DOES_NOT_EXIST
  | PSA_ERROR_INSUFFICIENT_STORAGE
  | PSA_ERROR_NOT_SUPPORTED
  | PSA_ERROR_NOT_PERMITTED
  | PSA_ERROR_OTHER int

datatype psa_flags = PSA_STORAGE_FLAG_NONE | PSA_STORAGE_FLAG_WRITE_ONCE

record 'w psa_ps_api =
  psa_ps_set :: "psa_uid \<Rightarrow> bytes \<Rightarrow> psa_flags \<Rightarrow> 'w \<Rightarrow> psa_status \<times> 'w"
  psa_ps_get :: "psa_uid \<Rightarrow> nat \<Rightarrow> nat \<Rightarrow> 'w \<Rightarrow> psa_status \<times> bytes \<times> 'w"
  psa_ps_get_info :: "psa_uid \<Rightarrow> 'w \<Rightarrow> psa_status \<times> nat \<times> 'w"
  psa_ps_remove :: "psa_uid \<Rightarrow> 'w \<Rightarrow> psa_status \<times> 'w"

section \<open>The owner's store and counter\<close>

definition ULOG_UID_META :: psa_uid where "ULOG_UID_META = 0x00504100"
definition ULOG_UID_COUNTER :: psa_uid where "ULOG_UID_COUNTER = 0x00504101"
definition ULOG_UID_ENTRY_BASE :: psa_uid where "ULOG_UID_ENTRY_BASE = 0x00504200"
definition ULOG_UID_MAX_30BIT :: u64 where "ULOG_UID_MAX_30BIT = 0x3fffffff"

fun psa_to_alp :: "psa_status \<Rightarrow> alp_status" where
  "psa_to_alp PSA_SUCCESS = ALP_OK"
| "psa_to_alp PSA_ERROR_INVALID_ARGUMENT = ALP_ERR_INVAL"
| "psa_to_alp PSA_ERROR_DOES_NOT_EXIST = ALP_ERR_NOT_FOUND"
| "psa_to_alp PSA_ERROR_INSUFFICIENT_STORAGE = ALP_ERR_NOMEM"
| "psa_to_alp PSA_ERROR_NOT_SUPPORTED = ALP_ERR_NOSUPPORT"
| "psa_to_alp _ = ALP_ERR_IO"

text \<open>The digit loop of \<open>parse_entry_key\<close>, with its overflow guard.\<close>

fun parse_digits :: "string \<Rightarrow> u64 \<Rightarrow> alp_status + u64" where
  "parse_digits [] seq = Inr seq"
| "parse_digits (p # ps) seq =
     (if (of_char p :: nat) < 48 \<or> (of_char p :: nat) > 57 then Inl ALP_ERR_INVAL else
      let digit = of_nat (of_char p - 48) in
      if seq > (- 1 - digit) div 10 then Inl ALP_ERR_NOMEM
      else parse_digits ps (seq * 10 + digit))"

definition parse_entry_key :: "string option \<Rightarrow> alp_status + u64" where
  "parse_entry_key key =
     (case key of
        None \<Rightarrow> Inl ALP_ERR_INVAL
      | Some key \<Rightarrow>
          if take 5 key \<noteq> ''ulog.'' \<or> length key = 5 then Inl ALP_ERR_INVAL
          else parse_digits (drop 5 key) 0)"

text \<open>The UID of a key and whether it names an entry.\<close>

definition uid_for_key :: "string option \<Rightarrow> alp_status + psa_uid \<times> bool" where
  "uid_for_key key =
     (case key of
        None \<Rightarrow> Inl ALP_ERR_INVAL
      | Some k \<Rightarrow>
          if k = ''ulog.meta'' then Inr (ULOG_UID_META, False)
          else (case parse_entry_key key of
             Inl rc \<Rightarrow> Inl rc
           | Inr seq \<Rightarrow>
               if seq > ULOG_UID_MAX_30BIT - ULOG_UID_ENTRY_BASE then Inl ALP_ERR_NOMEM
               else Inr (ULOG_UID_ENTRY_BASE + seq, True)))"

definition ps_put :: "'w psa_ps_api \<Rightarrow> string option \<Rightarrow> bytes option \<Rightarrow> 'w \<Rightarrow> alp_status \<times> 'w" where
  "ps_put api key buf w =
     (case buf of
        None \<Rightarrow> (ALP_ERR_INVAL, w)
      | Some buf \<Rightarrow>
          (case uid_for_key key of
             Inl rc \<Rightarrow> (rc, w)
           | Inr (uid, is_entry) \<Rightarrow>
               let flags = (if is_entry then PSA_STORAGE_FLAG_WRITE_ONCE else PSA_STORAGE_FLAG_NONE);
                   (st, w) = psa_ps_set api uid buf flags w
               in (psa_to_alp st, w)))"

definition ps_get :: "'w psa_ps_api \<Rightarrow> string option \<Rightarrow> nat \<Rightarrow> 'w \<Rightarrow> alp_status \<times> bytes \<times> 'w" where
  "ps_get api key cap w =
     (case uid_for_key key of
        Inl rc \<Rightarrow> (rc, [], w)
      | Inr (uid, _) \<Rightarrow>
          let (st, size, w) = psa_ps_get_info api uid w in
          if st \<noteq> PSA_SUCCESS then (psa_to_alp st, [], w) else
          if size > cap then (ALP_ERR_NOMEM, [], w) else
          let (st, got, w) = psa_ps_get api uid 0 size w in
          if st \<noteq> PSA_SUCCESS then (psa_to_alp st, [], w)
          else (ALP_OK, got, w))"

definition ps_erase :: "'w psa_ps_api \<Rightarrow> string option \<Rightarrow> 'w \<Rightarrow> alp_status \<times> 'w" where
  "ps_erase api key w =
     (case uid_for_key key of
        Inl rc \<Rightarrow> (rc, w)
      | Inr (uid, _) \<Rightarrow> (let (st, w) = psa_ps_remove api uid w in (psa_to_alp st, w)))"

definition ps_counter_store :: "'w psa_ps_api \<Rightarrow> u64 \<Rightarrow> 'w \<Rightarrow> alp_status \<times> 'w" where
  "ps_counter_store api value w =
     (let (st, w) = psa_ps_set api ULOG_UID_COUNTER (le_bytes 8 value) PSA_STORAGE_FLAG_NONE w
      in (psa_to_alp st, w))"

definition ps_counter_read :: "'w psa_ps_api \<Rightarrow> u32 \<Rightarrow> 'w \<Rightarrow> alp_status \<times> u64 \<times> 'w" where
  "ps_counter_read api cid w =
     (if cid \<noteq> 0 then (ALP_ERR_INVAL, 0, w) else
      let (st, got, w) = psa_ps_get api ULOG_UID_COUNTER 0 8 w in
      if st = PSA_ERROR_DOES_NOT_EXIST then (let (rc, w) = ps_counter_store api 0 w in (rc, 0, w)) else
      if st \<noteq> PSA_SUCCESS then (psa_to_alp st, 0, w) else
      if length got \<noteq> 8 then (ALP_ERR_IO, 0, w)
      else (ALP_OK, le_word 8 got, w))"

definition ps_counter_increment :: "'w psa_ps_api \<Rightarrow> u32 \<Rightarrow> 'w \<Rightarrow> alp_status \<times> u64 \<times> 'w" where
  "ps_counter_increment api cid w =
     (let (rc, value, w) = ps_counter_read api cid w in
      if rc \<noteq> ALP_OK then (rc, 0, w) else
      if value = - 1 then (ALP_ERR_NOMEM, 0, w) else
      let value = value + 1; (rc, w) = ps_counter_store api value w in
      if rc \<noteq> ALP_OK then (rc, 0, w) else (ALP_OK, value, w))"

definition g_ps_store :: "'w psa_ps_api \<Rightarrow> 'w secure_store_if" where
  "g_ps_store api = \<lparr>st_put = (\<lambda>k b. ps_put api (Some k) (Some b)), st_get = (\<lambda>k. ps_get api (Some k)),
     st_erase = (\<lambda>k. ps_erase api (Some k))\<rparr>"

definition g_ps_counter :: "'w psa_ps_api \<Rightarrow> 'w monotonic_counter_if" where
  "g_ps_counter api = \<lparr>ct_read = ps_counter_read api, ct_increment = ps_counter_increment api\<rparr>"

section \<open>The secure service\<close>

definition alp_update_log_secure_ready :: "'w psa_ps_api \<Rightarrow> 'w \<Rightarrow> alp_status \<times> 'w" where
  "alp_update_log_secure_ready api w = (let (rc, counter, w) = ps_counter_read api 0 w in (rc, w))"

definition alp_update_log_secure_append ::
  "'w psa_ps_api \<Rightarrow> update_log_entry option \<Rightarrow> 'w \<Rightarrow> alp_status \<times> 'w" where
  "alp_update_log_secure_append api entry w =
     ulog_engine_append (Some (g_ps_store api)) (Some (g_ps_counter api)) entry w"

definition alp_update_log_secure_verify ::
  "'w psa_ps_api \<Rightarrow> update_log_verdict option \<Rightarrow> u64 option \<Rightarrow> 'w \<Rightarrow>
   alp_status \<times> update_log_verdict option \<times> u64 option \<times> 'w" where
  "alp_update_log_secure_verify api verdict bad_seq w =
     ulog_engine_verify (Some (g_ps_store api)) (Some (g_ps_counter api)) verdict bad_seq w"

definition alp_update_log_secure_count ::
  "'w psa_ps_api \<Rightarrow> u64 option \<Rightarrow> 'w \<Rightarrow> alp_status \<times> u64 option \<times> 'w" where
  "alp_update_log_secure_count api out w =
     ulog_engine_count (Some (g_ps_store api)) (Some (g_ps_counter api)) out w"

definition alp_update_log_secure_get ::
  "'w psa_ps_api \<Rightarrow> u64 \<Rightarrow> update_log_entry option \<Rightarrow> 'w \<Rightarrow> alp_status \<times> update_log_entry option \<times> 'w" where
  "alp_update_log_secure_get api seq out w = ulog_engine_get (Some (g_ps_store api)) seq out w"

lemmas secure_ops = alp_update_log_secure_append_def alp_update_log_secure_verify_def
  alp_update_log_secure_count_def alp_update_log_secure_get_def ulog_engine_append_def ulog_engine_verify_def

section \<open>What PSA Protected Storage promises\<close>

text \<open>\<open>assets\<close> is what is stored, \<open>once\<close> the UIDs created write-once.\<close>

definition psa_contract :: "('w \<Rightarrow> psa_uid \<Rightarrow> bytes option) \<Rightarrow> ('w \<Rightarrow> psa_uid set) \<Rightarrow> 'w psa_ps_api \<Rightarrow> bool" where
  "psa_contract assets once api \<longleftrightarrow>
     (\<forall>uid b fl w st w'. psa_ps_set api uid b fl w = (st, w') \<longrightarrow>
        (assets w' = assets w \<and> once w' = once w \<and> st \<noteq> PSA_SUCCESS) \<or>
        (uid \<notin> once w \<and> assets w' = (assets w)(uid \<mapsto> b) \<and>
         once w' = (if fl = PSA_STORAGE_FLAG_WRITE_ONCE then insert uid (once w) else once w))) \<and>
     (\<forall>uid off n w st b w'. psa_ps_get api uid off n w = (st, b, w') \<longrightarrow>
        assets w' = assets w \<and> once w' = once w \<and>
        (st = PSA_SUCCESS \<longrightarrow> (\<exists>a. assets w uid = Some a \<and> b = take n (drop off a))) \<and>
        (st = PSA_ERROR_DOES_NOT_EXIST \<longrightarrow> assets w uid = None)) \<and>
     (\<forall>uid w st n w'. psa_ps_get_info api uid w = (st, n, w') \<longrightarrow>
        assets w' = assets w \<and> once w' = once w \<and>
        (st = PSA_SUCCESS \<longrightarrow> (\<exists>a. assets w uid = Some a \<and> n = length a)) \<and>
        (st = PSA_ERROR_DOES_NOT_EXIST \<longrightarrow> assets w uid = None)) \<and>
     (\<forall>uid w st w'. psa_ps_remove api uid w = (st, w') \<longrightarrow>
        (assets w' = assets w \<and> once w' = once w \<and> st \<noteq> PSA_SUCCESS) \<or>
        (uid \<notin> once w \<and> assets w' = (assets w)(uid := None) \<and> once w' = once w))"

lemma psa_contractD:
  assumes "psa_contract assets once api"
  shows psa_set: "psa_ps_set api uid b fl w = (st, w') \<Longrightarrow>
        (assets w' = assets w \<and> once w' = once w \<and> st \<noteq> PSA_SUCCESS) \<or>
        (uid \<notin> once w \<and> assets w' = (assets w)(uid \<mapsto> b) \<and>
         once w' = (if fl = PSA_STORAGE_FLAG_WRITE_ONCE then insert uid (once w) else once w))"
    and psa_get: "psa_ps_get api uid off n w = (st, b, w') \<Longrightarrow>
        assets w' = assets w \<and> once w' = once w \<and>
        (st = PSA_SUCCESS \<longrightarrow> (\<exists>a. assets w uid = Some a \<and> b = take n (drop off a))) \<and>
        (st = PSA_ERROR_DOES_NOT_EXIST \<longrightarrow> assets w uid = None)"
    and psa_info: "psa_ps_get_info api uid w = (st, m, w') \<Longrightarrow>
        assets w' = assets w \<and> once w' = once w \<and>
        (st = PSA_SUCCESS \<longrightarrow> (\<exists>a. assets w uid = Some a \<and> m = length a)) \<and>
        (st = PSA_ERROR_DOES_NOT_EXIST \<longrightarrow> assets w uid = None)"
  using assms unfolding psa_contract_def by metis+

text \<open>The stored assets as the engine sees them, and the counter.\<close>

definition ps_blobs :: "(psa_uid \<Rightarrow> bytes option) \<Rightarrow> blob_map" where
  "ps_blobs A k =
     (case uid_for_key (Some k) of
        Inl _ \<Rightarrow> None
      | Inr (uid, is_entry) \<Rightarrow> if is_entry \<and> k \<noteq> ulog_key (uid - ULOG_UID_ENTRY_BASE) then None else A uid)"

definition ps_cval :: "(psa_uid \<Rightarrow> bytes option) \<Rightarrow> u64" where
  "ps_cval A = (case A ULOG_UID_COUNTER of None \<Rightarrow> 0 | Some b \<Rightarrow> le_word 8 (take 8 b))"

text \<open>Every stored entry was created write-once.\<close>

definition ps_sealed :: "(psa_uid \<Rightarrow> bytes option) \<Rightarrow> psa_uid set \<Rightarrow> bool" where
  "ps_sealed A W \<longleftrightarrow> (\<forall>uid. ULOG_UID_ENTRY_BASE \<le> uid \<and> A uid \<noteq> None \<longrightarrow> uid \<in> W)"

section \<open>Keys and UIDs\<close>

abbreviation UID_SPAN :: u64 where "UID_SPAN \<equiv> ULOG_UID_MAX_30BIT - ULOG_UID_ENTRY_BASE"

lemmas uid_consts = ULOG_UID_META_def ULOG_UID_COUNTER_def ULOG_UID_ENTRY_BASE_def ULOG_UID_MAX_30BIT_def

lemma psa_to_alp_OK [simp]: "psa_to_alp st = ALP_OK \<longleftrightarrow> st = PSA_SUCCESS"
  "psa_to_alp st = ALP_ERR_NOT_FOUND \<longleftrightarrow> st = PSA_ERROR_DOES_NOT_EXIST"
  by (cases st; simp)+

lemma parse_digits_step:
  assumes "d < 10"
  shows "v \<le> (- 1 - of_nat d :: u64) div 10 \<longleftrightarrow> unat v * 10 + d < 2 ^ 64"
    "unat v * 10 + d < 2 ^ 64 \<Longrightarrow> unat (v * 10 + of_nat d) = unat v * 10 + d"
proof -
  have d: "unat (of_nat d :: u64) = d" using assms by (simp add: unat_of_nat)
  have "(of_nat d :: u64) \<le> - 1" "unat (- 1 :: u64) = 2 ^ 64 - 1"
    by (simp_all add: unsigned_minus_1_eq_mask mask_eq_exp_minus_1)
  then have "unat (- 1 - of_nat d :: u64) = 2 ^ 64 - 1 - d" by (simp only: unat_sub d)
  then show "v \<le> (- 1 - of_nat d :: u64) div 10 \<longleftrightarrow> unat v * 10 + d < 2 ^ 64"
    using assms by (simp add: word_le_nat_alt unat_div less_eq_div_iff_mult_less_eq) arith
  show "unat v * 10 + d < 2 ^ 64 \<Longrightarrow> unat (v * 10 + of_nat d) = unat v * 10 + d"
    by (simp add: unat_word_ariths d)
qed

lemma parse_digits_value:
  "list_all digit_char ds \<Longrightarrow> dec_from (unat v) ds < 2 ^ 64 \<Longrightarrow>
   parse_digits ds v = Inr (of_nat (dec_from (unat v) ds))"
proof (induction ds arbitrary: v)
  case (Cons c ds)
  let ?d = "of_char c - 48 :: nat"
  have d: "?d < 10" and c: "48 \<le> (of_char c :: nat)" "of_char c \<le> (57 :: nat)"
    using Cons.prems(1) by (auto simp: digit_char_def)
  have le: "unat v * 10 + ?d < 2 ^ 64"
    using Cons.prems(2) dec_from_ge [of "unat v * 10 + ?d" ds] by simp
  then have u: "unat (v * 10 + of_nat ?d) = unat v * 10 + ?d" "v \<le> (- 1 - of_nat ?d) div 10"
    using parse_digits_step [OF d] by blast+
  have "parse_digits (c # ds) v = parse_digits ds (v * 10 + of_nat ?d)"
    using c u(2) by (auto simp: not_less Let_def dest: leD)
  then show ?case using Cons.IH [of "v * 10 + of_nat ?d"] Cons.prems u(1) by simp
qed simp

lemma uid_for_meta [simp]: "uid_for_key (Some META_KEY) = Inr (ULOG_UID_META, False)"
  by (simp add: uid_for_key_def)

lemma uid_for_entry:
  "uid_for_key (Some (ulog_key c)) =
     (if c \<le> UID_SPAN then Inr (ULOG_UID_ENTRY_BASE + c, True) else Inl ALP_ERR_NOMEM)"
proof -
  obtain ds where k: "ulog_key c = ''ulog.'' @ ds" "ds \<noteq> []" "list_all digit_char ds" "dec_val ds < 10 ^ 18"
    and v: "if c \<le> ULOG_SEQ_MAX then dec_val ds = unat c else 10 ^ 17 \<le> dec_val ds"
    by (rule ulog_key_number)
  have "parse_digits ds 0 = Inr (of_nat (dec_val ds))"
    using parse_digits_value [of ds 0] k(3,4) by (simp add: dec_val_from)
  then have pk: "parse_entry_key (Some (ulog_key c)) = Inr (of_nat (dec_val ds))"
    using k(1,2) by (simp add: parse_entry_key_def)
  have eq: "of_nat (dec_val ds) \<le> UID_SPAN \<longleftrightarrow> c \<le> UID_SPAN" "c \<le> UID_SPAN \<Longrightarrow> of_nat (dec_val ds) = c"
  proof (atomize (full), cases "c \<le> ULOG_SEQ_MAX")
    case True
    then have "of_nat (dec_val ds) = c" using v by simp
    then show "(of_nat (dec_val ds) \<le> UID_SPAN \<longleftrightarrow> c \<le> UID_SPAN) \<and> (c \<le> UID_SPAN \<longrightarrow> of_nat (dec_val ds) = c)" by simp
  next
    case False
    then have "10 ^ 18 \<le> unat c" "unat (of_nat (dec_val ds) :: u64) = dec_val ds"
      using k(4) by (simp_all add: SEQ_MAX_digits unat_of_nat)
    then show "(of_nat (dec_val ds) \<le> UID_SPAN \<longleftrightarrow> c \<le> UID_SPAN) \<and> (c \<le> UID_SPAN \<longrightarrow> of_nat (dec_val ds) = c)"
      using v False by (simp add: uid_consts word_le_nat_alt)
  qed
  then show ?thesis using pk by (auto simp: uid_for_key_def not_less)
qed

lemma uid_for_key_cases:
  assumes "uid_for_key (Some k) = Inr (uid, e)"
  shows "\<not> e \<and> k = META_KEY \<and> uid = ULOG_UID_META \<or> e \<and> ULOG_UID_ENTRY_BASE \<le> uid \<and> uid \<le> ULOG_UID_MAX_30BIT"
proof -
  have "ULOG_UID_ENTRY_BASE \<le> ULOG_UID_ENTRY_BASE + s \<and> ULOG_UID_ENTRY_BASE + s \<le> ULOG_UID_MAX_30BIT" if "s \<le> UID_SPAN" for s
    using that by (simp add: uid_consts word_le_nat_alt unat_word_ariths)
  then show ?thesis using assms by (auto simp: uid_for_key_def not_less split: if_splits sum.splits)
qed

section \<open>The owner meets the engine's contract\<close>

definition ps_keeps :: "(psa_uid \<Rightarrow> bytes option) \<Rightarrow> (psa_uid \<Rightarrow> bytes option) \<Rightarrow> bool" where
  "ps_keeps P A \<longleftrightarrow> (\<forall>uid b. ULOG_UID_ENTRY_BASE \<le> uid \<and> P uid = Some b \<longrightarrow> A uid = Some b)"

lemma ps_blobs_simps [simp]:
  "ps_blobs A META_KEY = A ULOG_UID_META"
  "ps_blobs A (ulog_key c) = (if c \<le> UID_SPAN then A (ULOG_UID_ENTRY_BASE + c) else None)"
  by (simp_all add: ps_blobs_def uid_for_entry)

lemma ps_blobs_upd:
  assumes "uid_for_key (Some k) = Inr (uid, e)" "engine_key k"
  shows "ps_blobs (A(uid \<mapsto> b)) = (ps_blobs A)(k \<mapsto> b)"
proof
  fix k'
  have k: "e \<longrightarrow> k = ulog_key (uid - ULOG_UID_ENTRY_BASE)"
    using assms by (auto simp: engine_key_def uid_for_entry split: if_splits)
  have other: "ps_blobs (A(uid \<mapsto> b)) k' = ps_blobs A k'" if "k' \<noteq> k"
    using that k uid_for_key_cases [OF assms(1)] uid_for_key_cases [of k']
    by (auto simp: ps_blobs_def uid_consts split: sum.splits)
  show "ps_blobs (A(uid \<mapsto> b)) k' = ((ps_blobs A)(k \<mapsto> b)) k'"
    using other assms k by (cases "k' = k") (auto simp: ps_blobs_def)
qed

lemma ps_blobs_counter [simp]: "ps_blobs (A(ULOG_UID_COUNTER \<mapsto> b)) = ps_blobs A"
proof
  fix k
  show "ps_blobs (A(ULOG_UID_COUNTER \<mapsto> b)) k = ps_blobs A k"
    by (auto simp: ps_blobs_def uid_consts split: sum.splits dest!: uid_for_key_cases)
qed

lemma ps_cval_simps [simp]:
  "ps_cval (A(ULOG_UID_COUNTER \<mapsto> le_bytes 8 v)) = v"
  "uid_for_key (Some k) = Inr (uid, e) \<Longrightarrow> ps_cval (A(uid \<mapsto> b)) = ps_cval A"
  using uid_for_key_cases [of k uid e] by (auto simp: ps_cval_def le_word_bytes uid_consts)

text \<open>A set of the counter, or of a key of the engine, keeps entries sealed and pinned.\<close>

definition ps_inv :: "(psa_uid \<Rightarrow> bytes option) \<Rightarrow> (psa_uid \<Rightarrow> bytes option) \<Rightarrow> psa_uid set \<Rightarrow> bool" where
  "ps_inv P A W \<longleftrightarrow> ps_sealed A W \<and> ps_keeps P A"

lemma ps_inv_upd:
  assumes "ps_inv P A W" "uid \<notin> W" "W' = (if fl = PSA_STORAGE_FLAG_WRITE_ONCE then insert uid W else W)"
    "ULOG_UID_ENTRY_BASE \<le> uid \<longrightarrow> fl = PSA_STORAGE_FLAG_WRITE_ONCE"
  shows "ps_inv P (A(uid \<mapsto> b)) W'"
  using assms by (auto simp: ps_inv_def ps_sealed_def ps_keeps_def)

lemma ps_put_law:
  assumes c: "psa_contract assets once api" and i: "ps_inv P (assets w) (once w)" and k: "engine_key k"
    and r: "ps_put api (Some k) (Some b) w = (rc, w')"
  shows "ps_inv P (assets w') (once w') \<and> ps_cval (assets w') = ps_cval (assets w) \<and>
    (ps_blobs (assets w') = (ps_blobs (assets w))(k \<mapsto> b) \<or> rc \<noteq> ALP_OK \<and> ps_blobs (assets w') = ps_blobs (assets w))"
proof (cases "uid_for_key (Some k)")
  case (Inl e)
  have "e \<noteq> ALP_OK" using k Inl by (auto simp: engine_key_def uid_for_entry split: if_splits)
  then show ?thesis using r Inl i by (auto simp: ps_put_def)
next
  case (Inr p)
  obtain uid e where p: "p = (uid, e)" by fastforce
  let ?fl = "if e then PSA_STORAGE_FLAG_WRITE_ONCE else PSA_STORAGE_FLAG_NONE"
  obtain st where s: "psa_ps_set api uid b ?fl w = (st, w')" "rc = psa_to_alp st"
    using r Inr p by (auto simp: ps_put_def split: prod.splits)
  have uk: "uid_for_key (Some k) = Inr (uid, e)" using Inr p by simp
  have "ULOG_UID_ENTRY_BASE \<le> uid \<longrightarrow> ?fl = PSA_STORAGE_FLAG_WRITE_ONCE"
    using uid_for_key_cases [OF uk] by (auto simp: uid_consts)
  note upd = ps_inv_upd [OF i _ _ this]
  from psa_set [OF c s(1)] show ?thesis
  proof
    assume *: "uid \<notin> once w \<and> assets w' = (assets w)(uid \<mapsto> b) \<and>
         once w' = (if ?fl = PSA_STORAGE_FLAG_WRITE_ONCE then insert uid (once w) else once w)"
    then show ?thesis using upd [of "once w'" b] uk k by (simp add: ps_blobs_upd)
  qed (use i s in auto)
qed

lemma ps_get_law:
  assumes c: "psa_contract assets once api" and k: "engine_key k"
    and r: "ps_get api (Some k) cap w = (rc, b, w')"
  shows "assets w' = assets w \<and> once w' = once w \<and>
    (rc = ALP_OK \<longrightarrow> ps_blobs (assets w) k = Some b \<and> length b \<le> cap) \<and>
    (rc = ALP_ERR_NOT_FOUND \<longrightarrow> ps_blobs (assets w) k = None)"
proof (cases "uid_for_key (Some k)")
  case (Inl e)
  have "e = ALP_ERR_NOMEM" using k Inl by (auto simp: engine_key_def uid_for_entry split: if_splits)
  then show ?thesis using r Inl by (auto simp: ps_get_def)
next
  case (Inr p)
  obtain uid e where p: "p = (uid, e)" by fastforce
  have bl: "ps_blobs (assets w) k = assets w uid"
    using Inr p k by (auto simp: ps_blobs_def engine_key_def uid_for_entry split: if_splits)
  obtain st1 n w1 where s1: "psa_ps_get_info api uid w = (st1, n, w1)" by (metis prod_cases3)
  obtain st2 g w2 where s2: "psa_ps_get api uid 0 n w1 = (st2, g, w2)" by (metis prod_cases3)
  note l1 = psa_info [OF c s1] and l2 = psa_get [OF c s2]
  show ?thesis using r Inr p s1 s2 l1 l2 bl by (auto simp: ps_get_def split: if_splits)
qed

lemma ps_counter_store_law:
  assumes c: "psa_contract assets once api" and i: "ps_inv P (assets w) (once w)"
    and r: "ps_counter_store api v w = (rc, w')"
  shows "ps_inv P (assets w') (once w') \<and> ps_blobs (assets w') = ps_blobs (assets w) \<and>
    (ps_cval (assets w') = v \<or> rc \<noteq> ALP_OK \<and> ps_cval (assets w') = ps_cval (assets w))"
proof -
  obtain st where s: "psa_ps_set api ULOG_UID_COUNTER (le_bytes 8 v) PSA_STORAGE_FLAG_NONE w = (st, w')" "rc = psa_to_alp st"
    using r by (auto simp: ps_counter_store_def split: prod.splits)
  have "\<not> ULOG_UID_ENTRY_BASE \<le> ULOG_UID_COUNTER" by (simp add: uid_consts)
  note upd = ps_inv_upd [OF i, of ULOG_UID_COUNTER "once w'" PSA_STORAGE_FLAG_NONE "le_bytes 8 v"]
  from psa_set [OF c s(1)] show ?thesis
  proof
    assume "assets w' = assets w \<and> once w' = once w \<and> st \<noteq> PSA_SUCCESS"
    then show ?thesis using i s(2) by simp
  next
    assume "ULOG_UID_COUNTER \<notin> once w \<and> assets w' = (assets w)(ULOG_UID_COUNTER \<mapsto> le_bytes 8 v) \<and>
      once w' = (if PSA_STORAGE_FLAG_NONE = PSA_STORAGE_FLAG_WRITE_ONCE then insert ULOG_UID_COUNTER (once w) else once w)"
    then show ?thesis using upd \<open>\<not> ULOG_UID_ENTRY_BASE \<le> ULOG_UID_COUNTER\<close> by simp
  qed
qed

lemma ps_counter_read_law:
  assumes c: "psa_contract assets once api" and i: "ps_inv P (assets w) (once w)"
    and r: "ps_counter_read api 0 w = (rc, v, w')"
  shows "ps_inv P (assets w') (once w') \<and> ps_blobs (assets w') = ps_blobs (assets w) \<and>
    ps_cval (assets w') = ps_cval (assets w) \<and> (rc = ALP_OK \<longrightarrow> v = ps_cval (assets w))"
proof -
  obtain st g w1 where s: "psa_ps_get api ULOG_UID_COUNTER 0 8 w = (st, g, w1)" by (metis prod_cases3)
  note l = psa_get [OF c s]
  obtain rc2 w2 where s2: "ps_counter_store api 0 w1 = (rc2, w2)" by fastforce
  have i1: "ps_inv P (assets w1) (once w1)" using i l by simp
  note l2 = ps_counter_store_law [OF c i1 s2]
  have ok: "ps_cval (assets w) = le_word 8 g" if "st = PSA_SUCCESS" "length g = 8"
    using l that by (auto simp: ps_cval_def)
  have zero: "ps_cval (assets w) = 0" if "st = PSA_ERROR_DOES_NOT_EXIST"
    using l that by (simp add: ps_cval_def)
  show ?thesis
  proof (cases "st = PSA_ERROR_DOES_NOT_EXIST")
    case True
    then have "rc = rc2" "v = 0" "w' = w2" using r s s2 by (auto simp: ps_counter_read_def)
    then show ?thesis using l l2 zero [OF True] by auto
  next
    case False
    then have "w' = w1" "rc = ALP_OK \<Longrightarrow> st = PSA_SUCCESS \<and> length g = 8 \<and> v = le_word 8 g"
      using r s by (auto simp: ps_counter_read_def split: if_splits)
    then show ?thesis using l i1 ok by auto
  qed
qed

lemma ps_counter_increment_law:
  assumes c: "psa_contract assets once api" and i: "ps_inv P (assets w) (once w)"
    and r: "ps_counter_increment api 0 w = (rc, v, w')"
  shows "ps_inv P (assets w') (once w') \<and> ps_blobs (assets w') = ps_blobs (assets w) \<and>
    (ps_cval (assets w') = ps_cval (assets w) + 1 \<or> rc \<noteq> ALP_OK \<and> ps_cval (assets w') = ps_cval (assets w))"
proof -
  obtain rc1 v1 w1 where s1: "ps_counter_read api 0 w = (rc1, v1, w1)" by (metis prod_cases3)
  note l1 = ps_counter_read_law [OF c i s1]
  obtain rc2 w2 where s2: "ps_counter_store api (v1 + 1) w1 = (rc2, w2)" by fastforce
  note l2 = ps_counter_store_law [OF c conjunct1 [OF l1] s2]
  show ?thesis using r s1 s2 l1 l2 by (auto simp: ps_counter_increment_def Let_def split: if_splits)
qed

lemma ps_seams:
  assumes "psa_contract assets once api"
  shows "ulog_seams (g_ps_store api) (g_ps_counter api) None (\<lambda>w. ps_inv P (assets w) (once w))
    (\<lambda>w. ps_blobs (assets w)) (\<lambda>w. ps_cval (assets w)) (\<lambda>_. 0)"
proof (unfold_locales, goal_cases)
  case (2 w k cap rc b w')
  then show ?case using ps_get_law [OF assms, of k cap w rc b w'] by (simp add: g_ps_store_def)
next
  case (3 w k b rc w')
  then show ?case using ps_put_law [OF assms, of P w k b rc w'] by (simp add: g_ps_store_def)
next
  case (4 w rc v w')
  then show ?case using ps_counter_read_law [OF assms, of P w rc v w'] by (simp add: g_ps_counter_def)
next
  case (5 w rc v w')
  then show ?case using ps_counter_increment_law [OF assms, of P w rc v w'] by (simp add: g_ps_counter_def)
qed (simp_all add: ulog_anchor_valid_def)

text \<open>An implementation that meets the PSA contract: a map and the set of write-once UIDs.\<close>

type_synonym psa_mem = "(psa_uid \<Rightarrow> bytes option) \<times> psa_uid set"

definition mem_psa :: "psa_mem psa_ps_api" where
  "mem_psa = \<lparr>
     psa_ps_set = (\<lambda>uid b fl (A, W). if uid \<in> W then (PSA_ERROR_NOT_PERMITTED, (A, W))
       else (PSA_SUCCESS, (A(uid \<mapsto> b), if fl = PSA_STORAGE_FLAG_WRITE_ONCE then insert uid W else W))),
     psa_ps_get = (\<lambda>uid off n (A, W). case A uid of None \<Rightarrow> (PSA_ERROR_DOES_NOT_EXIST, [], (A, W))
       | Some a \<Rightarrow> (PSA_SUCCESS, take n (drop off a), (A, W))),
     psa_ps_get_info = (\<lambda>uid (A, W). case A uid of None \<Rightarrow> (PSA_ERROR_DOES_NOT_EXIST, 0, (A, W))
       | Some a \<Rightarrow> (PSA_SUCCESS, length a, (A, W))),
     psa_ps_remove = (\<lambda>uid (A, W). if uid \<in> W then (PSA_ERROR_NOT_PERMITTED, (A, W))
       else (PSA_SUCCESS, (A(uid := None), W)))\<rparr>"

lemma mem_psa_contract: "psa_contract fst snd mem_psa"
  by (auto simp: psa_contract_def mem_psa_def split: option.splits if_splits)

lemma ps_empty_holds: "holds_log (ps_blobs (\<lambda>_. None)) 0 []"
  by (auto simp: holds_log_def healthy_def chained_def slot_def meta_agrees_def log_entries_def)

section \<open>Properties\<close>

text \<open>
  C30. The secure owner's append is atomic.  For every PSA storage that keeps its contract, from
  a state holding the log \<open>es\<close> an append leaves, whatever it returns and whichever PSA call
  failed, a state holding \<open>es\<close> or \<open>es\<close> followed by the entry under the next sequence number;
  \<open>ALP_OK\<close> means the entry is in the log and the counter is its new length.
\<close>

theorem secure_append_atomic:
  assumes "psa_contract assets once api" and "ps_sealed (assets w) (once w)"
    and "holds_log (ps_blobs (assets w)) (ps_cval (assets w)) es" and "length es + 1 < SEQ_SPACE" and "entry_wf e"
    and "alp_update_log_secure_append api (Some e) w = (rc, w')"
  shows "(holds_log (ps_blobs (assets w')) (ps_cval (assets w')) es \<or>
      holds_log (ps_blobs (assets w')) (ps_cval (assets w')) (es @ [entry_norm (e\<lparr>ule_seq := of_nat (length es)\<rparr>)])) \<and>
    (rc = ALP_OK \<longrightarrow> ps_cval (assets w') = of_nat (length es + 1) \<and>
      holds_log (ps_blobs (assets w')) (ps_cval (assets w')) (es @ [entry_norm (e\<lparr>ule_seq := of_nat (length es)\<rparr>)]))"
proof -
  have "ps_inv (\<lambda>_. None) (assets w) (once w)" using assms(2) by (simp add: ps_inv_def ps_keeps_def)
  from ulog_seams.append_law [OF ps_seams [OF assms(1)] this assms(3-5), of rc w'] assms(6)
  show ?thesis by (auto simp: secure_ops)
qed

theorem secure_append_atomic_witness:
  "\<exists>rc w'. alp_update_log_secure_append mem_psa (Some zero_entry) (\<lambda>_. None, {}) = (rc, w') \<and>
     (holds_log (ps_blobs (fst w')) (ps_cval (fst w')) [] \<or>
      holds_log (ps_blobs (fst w')) (ps_cval (fst w')) [entry_norm (zero_entry\<lparr>ule_seq := 0\<rparr>)])"
proof -
  obtain rc w' where r: "alp_update_log_secure_append mem_psa (Some zero_entry) (\<lambda>_. None, {}) = (rc, w')"
    by (metis surj_pair)
  from secure_append_atomic [OF mem_psa_contract _ _ _ _ r, of "[]"] show ?thesis
    using r ps_empty_holds by (auto simp: ps_sealed_def ps_cval_def entry_wf_def zero_entry_def)
qed



text \<open>
  A full secure log can no longer be read.  Once the counter has passed the last UID, append,
  verify and count all answer \<open>ALP_ERR_NOMEM\<close>: recovery looks for an orphan at the counter
  value, whose key has no UID, and the lookup reports \<open>NOMEM\<close> where the software tier reports
  the slot as absent.
\<close>

theorem secure_full_log_stuck:
  assumes "ps_counter_read api 0 w = (ALP_OK, hw, w1)" and "UID_SPAN < hw" and "hw \<noteq> - 1"
  shows "alp_update_log_secure_append api (Some e) w = (ALP_ERR_NOMEM, w1) \<and>
    alp_update_log_secure_verify api (Some v0) (Some b0) w = (ALP_ERR_NOMEM, Some v0, Some 0, w1) \<and>
    alp_update_log_secure_count api (Some n0) w = (ALP_ERR_NOMEM, Some n0, w1)"
proof -
  have "ps_get api (Some (ulog_key hw)) cap w1 = (ALP_ERR_NOMEM, [], w1)" for cap
    using assms(2) by (auto simp: ps_get_def uid_for_entry dest: leD)
  then have "ulog_recover (g_ps_store api) (g_ps_counter api) w = (ALP_ERR_NOMEM, w1)"
    using assms(1,3) by (simp add: ulog_recover_def g_ps_store_def g_ps_counter_def)
  then show ?thesis
    by (simp add: secure_ops ulog_engine_append_anchored_def append_prologue_def ulog_engine_verify_anchored_def
        ulog_engine_count_def ulog_anchor_valid_def)
qed

theorem secure_full_log_stuck_witness:
  "\<exists>w1. alp_update_log_secure_count mem_psa (Some 9) ([ULOG_UID_COUNTER \<mapsto> le_bytes 8 (UID_SPAN + 1)], {}) =
     (ALP_ERR_NOMEM, Some 9, w1)"
proof -
  let ?w = "([ULOG_UID_COUNTER \<mapsto> le_bytes 8 (UID_SPAN + 1)], {}) :: psa_mem"
  have "ps_counter_read mem_psa 0 ?w = (ALP_OK, UID_SPAN + 1, ?w)"
    by (simp add: ps_counter_read_def mem_psa_def le_word_bytes)
  moreover have "UID_SPAN < UID_SPAN + 1" "UID_SPAN + 1 \<noteq> - 1" by (simp_all add: uid_consts)
  ultimately show ?thesis using secure_full_log_stuck [of mem_psa ?w "UID_SPAN + 1" ?w] by blast
qed

end
