(* ===== verification/Ulog_Live.thy ===== *)
theory Ulog_Live
  imports Ulog_Contract
begin

text \<open>
  Progress of the engine over seams that do not fail: reads always answer, a put succeeds
  while the store has room, the counter always increments.  Under that contract
  (\<open>ulog_seams_live\<close>) an append to a held log with room for two records succeeds, a held log
  verifies OK, a store that verifies OK accepts the next append, and a counter rewound by
  two is reported once and then accepted.
\<close>

section \<open>Verdicts are determined by the store\<close>

lemma ulog_key_wraps: "ulog_key (of_nat SEQ_SPACE) = ulog_key (of_nat 100000000000000000)"
proof -
  have "ulog_key 1000000000000000000 = ulog_key 100000000000000000" by code_simp
  then show ?thesis by simp
qed

text \<open>A log whose whole chain and empty frontier check out is within the sequence space:
  past it the frontier key is that of an earlier entry.\<close>

lemma verified_in_space:
  assumes "chained B n" "slot B n = None"
  shows "n < SEQ_SPACE"
proof (rule ccontr)
  assume "\<not> n < SEQ_SPACE"
  moreover have eq: "slot B SEQ_SPACE = slot B 100000000000000000" by (simp only: slot_def ulog_key_wraps)
  moreover have "links B 100000000000000000" using assms(1) calculation by (simp add: chained_def)
  ultimately have "SEQ_SPACE < n"
    using assms(2) links_slot by (metis linorder_neqE_nat)
  then have "links B SEQ_SPACE" "links B 100000000000000000" using assms(1) by (simp_all add: chained_def)
  then have "(of_nat SEQ_SPACE :: u64) = of_nat 100000000000000000"
    unfolding links_def eq by (auto split: option.splits)
  then show False by simp
qed

lemma verdict_OK_healthy:
  "verdict_spec B n ALP_UPDATE_LOG_VERIFY_OK k \<longleftrightarrow> healthy B n \<and> k = 0"
  using verified_in_space [of B n] by (auto simp: healthy_def)

lemma meta_agrees_counts: "meta_agrees B n \<Longrightarrow> meta_counts B n"
  by (auto simp: meta_agrees_def meta_counts_def split: option.splits)

lemma healthy_verdict:
  assumes "healthy B n" "verdict_spec B n v k"
  shows "v = ALP_UPDATE_LOG_VERIFY_OK \<and> k = 0"
proof -
  have h: "chained B n" "slot B n = None" "meta_agrees B n" "meta_counts B n"
    using assms(1) meta_agrees_counts by (auto simp: healthy_def)
  have below: "i < n \<Longrightarrow> links B i \<and> slot B i \<noteq> None" for i using h(1) links_slot by (auto simp: chained_def)
  have "\<not> links B n" using h(2) links_slot by blast
  then show ?thesis
    using assms(2) h below [of k] by (cases v) (auto simp: chained_Suc le_less)
qed

lemma orphaned_verdict:
  assumes "chained B (Suc n)" "meta_agrees B n" "verdict_spec B n v k"
  shows "v = ALP_UPDATE_LOG_VERIFY_ROLLED_BACK"
proof -
  have below: "i \<le> n \<Longrightarrow> links B i \<and> slot B i \<noteq> None" for i
    using assms(1) links_slot by (auto simp: chained_def less_Suc_eq_le)
  then show ?thesis
    using assms meta_agrees_counts [OF assms(2)] below [of k] below [of n] by (cases v) (auto simp: chained_Suc)
qed

text \<open>The metadata record, if present, is in its own format.\<close>

definition meta_legible :: "blob_map \<Rightarrow> bool" where
  "meta_legible B \<longleftrightarrow>
     (case B META_KEY of None \<Rightarrow> True
      | Some b \<Rightarrow> length b \<le> ULOG_META_WIRE_LEN \<and> meta_of_wire b \<noteq> None)"

lemma meta_legible_adopt: "meta_legible (adopt_meta B c)"
  by (simp add: meta_legible_def adopt_meta_def meta_after_decodes)

section \<open>The live contract\<close>

locale ulog_seams_live =
  ulog_seams store ctr None inv blobs cval floor
  for store :: "'w secure_store_if" and ctr :: "'w monotonic_counter_if"
    and inv :: "'w \<Rightarrow> bool" and blobs :: "'w \<Rightarrow> blob_map" and cval :: "'w \<Rightarrow> u64" and floor :: "'w \<Rightarrow> u64" +
  fixes room :: "'w \<Rightarrow> nat"
  assumes blob_fits: "inv w \<Longrightarrow> blobs w k = Some b \<Longrightarrow> length b \<le> ULOG_ENTRY_WIRE_LEN"
    and get_live: "inv w \<Longrightarrow> engine_key k \<Longrightarrow> st_get store k cap w = (rc, b, w') \<Longrightarrow>
      room w' = room w \<and>
      (case blobs w k of None \<Rightarrow> rc = ALP_ERR_NOT_FOUND
       | Some b \<Rightarrow> length b \<le> cap \<longrightarrow> rc = ALP_OK)"
    and put_live: "inv w \<Longrightarrow> engine_key k \<Longrightarrow> 0 < length b \<and> length b \<le> ULOG_ENTRY_WIRE_LEN \<Longrightarrow>
      blobs w k \<noteq> None \<or> 0 < room w \<Longrightarrow> st_put store k b w = (rc, w') \<Longrightarrow>
      rc = ALP_OK \<and> room w' = (if blobs w k = None then room w - 1 else room w)"
    and read_live: "inv w \<Longrightarrow> ct_read ctr 0 w = (rc, v, w') \<Longrightarrow> rc = ALP_OK \<and> room w' = room w"
    and inc_live: "inv w \<Longrightarrow> cval w < - 1 \<Longrightarrow> ct_increment ctr 0 w = (rc, v, w') \<Longrightarrow>
      rc = ALP_OK \<and> room w' = room w"
begin

lemma prev_hash_live:
  assumes i: "inv w" and r: "ulog_prev_hash_of_predecessor store c w = (rc, p, w')"
  shows "room w' = room w \<and> (rc = ALP_OK \<or> rc = ALP_ERR_NOT_FOUND)"
proof -
  obtain rc1 b w1 where g: "st_get store (ulog_key (c - 1)) ULOG_ENTRY_WIRE_LEN w = (rc1, b, w1)"
    by (metis prod_cases3)
  from get_live [OF i _ g] show ?thesis
    using r g blob_fits [OF i, of "ulog_key (c - 1)"]
    by (auto simp: ulog_prev_hash_of_predecessor_def split: if_splits option.splits)
qed

lemma recover_entry_live:
  assumes i: "inv w" and c: "cval w \<noteq> - 1"
    and rm: "blobs w META_KEY \<noteq> None \<or> 0 < room w"
    and r: "recover_entry store ctr (cval w) b w = (rc, w')"
  shows "rc = ALP_OK \<and> (room w' = room w \<or> Suc (room w') = room w \<and> blobs w META_KEY = None \<and> blobs w' META_KEY \<noteq> None)"
proof -
  obtain rc3 p w3 where s3: "ulog_prev_hash_of_predecessor store (cval w) w = (rc3, p, w3)" by (metis prod_cases3)
  note l3 = prev_hash_law [OF i s3] prev_hash_live [OF i s3]
  obtain rc4 w4 where s4: "st_put store META_KEY (meta_after (cval w) b) w3 = (rc4, w4)" by fastforce
  have l4: "inv w4 \<and> cval w4 = cval w" "rc4 = ALP_OK"
    "blobs w4 META_KEY \<noteq> None" "room w4 = (if blobs w META_KEY = None then room w - 1 else room w)"
    using put_law [OF _ _ _ s4] put_live [OF _ _ _ _ s4] l3 rm by (auto simp: meta_after_decodes)
  obtain rc5 n w5 where s5: "ct_increment ctr 0 w4 = (rc5, n, w5)" by (metis prod_cases3)
  have l5: "rc5 = ALP_OK \<and> room w5 = room w4 \<and> blobs w5 = blobs w4"
    using inc_live [OF _ _ s5] inc_law [OF _ _ s5] l4 c by (auto simp: word_order.not_eq_extremum)
  show ?thesis
    using r s3 s4 s5 l3 l4 l5 rm by (auto simp: recover_entry_def split: if_splits option.splits)
qed

lemma recover_live:
  assumes i: "inv w" and c: "cval w \<noteq> - 1"
    and rm: "blobs w META_KEY \<noteq> None \<or> 0 < room w"
    and r: "ulog_recover store ctr w = (rc, w')"
  shows "rc = ALP_OK \<and> (room w' = room w \<or> Suc (room w') = room w \<and> blobs w META_KEY = None \<and> blobs w' META_KEY \<noteq> None)"
proof -
  obtain rc1 v w1 where s1: "ct_read ctr 0 w = (rc1, v, w1)" by (metis prod_cases3)
  note l1 = read_law [OF i s1] read_live [OF i s1]
  obtain rc2 b w2 where s2: "st_get store (ulog_key (cval w)) ULOG_ENTRY_WIRE_LEN w1 = (rc2, b, w2)"
    by (metis prod_cases3)
  have l2: "inv w2 \<and> blobs w2 = blobs w \<and> cval w2 = cval w" "room w2 = room w" "rc2 = ALP_OK \<or> rc2 = ALP_ERR_NOT_FOUND"
    using get_law [OF _ _ s2] get_live [OF _ _ s2] blob_fits [OF i] l1 by (auto split: option.splits)
  show ?thesis
  proof (cases "rc2 = ALP_OK")
    case True
    then have "recover_entry store ctr (cval w2) b w2 = (rc, w')"
      using r s1 s2 l1 l2 c by (auto simp: ulog_recover_def)
    from recover_entry_live [OF _ _ _ this] show ?thesis using l2 c rm by auto
  next
    case False
    then show ?thesis using r s1 s2 l1 l2 c by (auto simp: ulog_recover_def)
  qed
qed

text \<open>A held log with room for an entry and the metadata takes the next entry.\<close>

lemma append_entry_live:
  assumes i: "inv w" and c: "cval w \<le> ULOG_SEQ_MAX" and wf: "entry_wf entry" "entry_encodable entry"
    and h: "healthy (blobs w) (unat (cval w))"
    and rm: "blobs w META_KEY \<noteq> None \<and> 0 < room w \<or> 1 < room w"
    and r: "append_entry store ctr None (cval w) entry w = (rc, w')"
  shows "rc = ALP_OK \<and> blobs w' META_KEY \<noteq> None \<and>
    room w' + (if blobs w META_KEY = None then 2 else 1) = room w"
proof -
  let ?p = "prev_hash (blobs w) (unat (cval w))" and ?e = "entry\<lparr>ule_seq := cval w\<rparr>"
  obtain rc1 q w1 where s1: "ulog_prev_hash_of_predecessor store (cval w) w = (rc1, q, w1)" by (metis prod_cases3)
  have "cval w \<noteq> 0 \<Longrightarrow> slot (blobs w) (unat (cval w) - 1) \<noteq> None"
    using h links_slot [of "blobs w" "unat (cval w) - 1"] by (auto simp: healthy_def chained_def unat_gt_0)
  then have l1: "inv w1" "blobs w1 = blobs w" "cval w1 = cval w" "rc1 = ALP_OK" "q = ?p" "room w1 = room w"
    using prev_hash_law [OF i s1] prev_hash_live [OF i s1] by auto
  obtain rc2 b w2 where s2: "st_get store META_KEY ULOG_META_WIRE_LEN w1 = (rc2, b, w2)" by (metis prod_cases3)
  have l2: "inv w2" "blobs w2 = blobs w" "cval w2 = cval w" "room w2 = room w"
    "cval w \<noteq> 0 \<Longrightarrow> rc2 = ALP_OK \<and> meta_of_wire b = Some \<lparr>um_count = cval w, um_head_hash = ?p\<rparr>"
    using get_law [OF l1(1) _ s2] get_live [OF l1(1) _ s2] l1 h
    by (auto simp: healthy_def meta_agrees_def unat_eq_zero split: option.splits)
  obtain w3 where s3: "append_prev store (cval w) w = (ALP_OK, ?p, w3)" and w3: "w3 = w1 \<or> w3 = w2"
    using s1 s2 l1 l2 by (cases "cval w = 0")
      (auto simp: append_prev_def meta_of_wire_def split: prod.splits alp_status.splits option.splits)
  have l3: "inv w3" "blobs w3 = blobs w" "cval w3 = cval w" "room w3 = room w" using w3 l1 l2 by auto
  have lay: "ulog_entry_encode (Some ?e) (Some ?p) (Some (mem_set 0 115)) = (ALP_OK, Some (entry_wire ?e ?p))"
    "length (entry_wire ?e ?p) = 115"
    using entry_wire_layout [of ?p ?e] wf by (auto simp: entry_wf_def entry_encodable_def)
  have cm: "append_commit store ctr None (cval w) (entry_wire ?e ?p) w3 = (rc, w')"
    using r s3 lay by (simp add: append_entry_def)
  obtain rc4 w4 where s4: "st_put store (ulog_key (cval w)) (entry_wire ?e ?p) w3 = (rc4, w4)" by fastforce
  have fresh: "blobs w (ulog_key (cval w)) = None" using h by (simp add: healthy_def slot_def)
  have l4: "inv w4" "cval w4 = cval w" "rc4 = ALP_OK" "blobs w4 META_KEY = blobs w META_KEY" "Suc (room w4) = room w"
    using put_law [OF l3(1) _ _ s4] put_live [OF l3(1) _ _ _ s4] l3 lay rm fresh by auto
  obtain rc5 w5 where s5: "st_put store META_KEY (meta_after (cval w) (entry_wire ?e ?p)) w4 = (rc5, w5)" by fastforce
  have l5: "inv w5" "cval w5 = cval w" "rc5 = ALP_OK" "blobs w5 META_KEY \<noteq> None"
    "room w5 = (if blobs w META_KEY = None then room w4 - 1 else room w4)"
    using put_law [OF l4(1) _ _ s5] put_live [OF l4(1) _ _ _ s5] l4 rm by (auto simp: meta_after_decodes)
  obtain rc6 n w6 where s6: "ct_increment ctr 0 w5 = (rc6, n, w6)" by (metis prod_cases3)
  have "rc6 = ALP_OK" "room w6 = room w5" "blobs w6 = blobs w5"
    using inc_live [OF l5(1) _ s6] inc_law [OF l5(1) _ s6] l5 SEQ_MAX_less [OF c] by simp_all
  then show ?thesis using cm s4 l4 s5 l5 s6 rm by (auto simp: append_commit_def)
qed

lemma append_live:
  assumes i: "inv w" and c: "cval w \<noteq> - 1" and sp: "spec_recover (blobs w) (cval w) = (B, n)"
    and h: "healthy B (unat n)" and room: "blobs w META_KEY \<noteq> None \<and> 0 < room w \<or> 1 < room w"
    and wf: "entry_wf entry" "entry_encodable entry"
    and r: "ulog_engine_append_anchored (Some store) (Some ctr) None (Some entry) w = (rc, w')"
  shows "rc = ALP_OK \<and> cval w' = n + 1 \<and> blobs w' META_KEY \<noteq> None \<and>
    (B = blobs w \<longrightarrow> room w' + (if blobs w META_KEY = None then 2 else 1) = room w)"
proof -
  obtain rc1 w1 where s1: "ulog_recover store ctr w = (rc1, w1)" by fastforce
  note l1 = recover_law [OF i s1]
  have lv: "rc1 = ALP_OK" "blobs w1 META_KEY \<noteq> None \<and> 0 < room w1 \<or> 1 < room w1"
    "blobs w1 = blobs w \<Longrightarrow> room w1 = room w"
    using recover_live [OF i c _ s1] room l1 by (auto simp: recover_outcome_def adopt_meta_def)
  then have B: "B = blobs w1" "n = cval w1" using l1 sp by auto
  obtain rc3 v w3 where s3: "ct_read ctr 0 w1 = (rc3, v, w3)" by (metis prod_cases3)
  have l3: "inv w3" "blobs w3 = blobs w1" "cval w3 = cval w1" "rc3 = ALP_OK" "v = cval w1" "room w3 = room w1"
    using read_law [OF _ s3] read_live [OF _ s3] l1 by auto
  have le: "cval w1 \<le> ULOG_SEQ_MAX" using h by (simp add: healthy_def SEQ_MAX_digits B)
  then have ap: "append_entry store ctr None (cval w3) entry w3 = (rc, w')"
    using r s1 lv s3 l3 leD [OF le] by (simp add: ulog_engine_append_anchored_def append_prologue_def
        ulog_sync_anchor_def ulog_anchor_valid_def)
  have "cval w3 \<le> ULOG_SEQ_MAX" using l3 le by simp
  then show ?thesis
    using append_entry_live [OF l3(1) _ wf _ _ ap] append_entry_law [OF l3(1) wf(1) _ ap] l3 h B lv(2,3) by auto
qed

lemma verify_walk_live:
  assumes "inv w" "verify_walk store hw i h h w = (res, w')"
  shows "res \<noteq> Walk_Err e \<and> room w' = room w"
  using assms
proof (induction "unat hw - unat i" arbitrary: i h w)
  case 0
  then have "\<not> i < hw" by (auto simp: word_less_nat_alt)
  then show ?case using 0 by (auto simp: verify_walk.simps [of store hw i])
next
  case (Suc d)
  then have less: "i < hw" "unat i < unat hw" by (auto simp: word_less_nat_alt)
  moreover have "unat hw < 2 ^ 64" using unsigned_less [of hw] by simp
  ultimately have d: "d = unat hw - unat (i + 1)" using Suc.hyps(2) by (simp add: unat_word_ariths)
  obtain rc b w1 where g: "st_get store (ulog_key i) ULOG_ENTRY_WIRE_LEN w = (rc, b, w1)" by (metis prod_cases3)
  have l: "inv w1" "rc = ALP_OK \<or> rc = ALP_ERR_NOT_FOUND" "room w1 = room w"
    using get_law [OF Suc.prems(1) _ g] get_live [OF Suc.prems(1) _ g] blob_fits [OF Suc.prems(1)]
    by (auto split: option.splits)
  then have "verify_walk store hw (i + 1) (ulog_sha256 b) (ulog_sha256 b) w1 = (res, w') \<or>
      w' = w1 \<and> (\<exists>v k. res = Walk_Verdict v k)"
    using Suc.prems(2) less g by (auto simp: verify_walk.simps [of store hw i] split: if_splits option.splits)
  with Suc.hyps(1) [OF d l(1)] l(3) show ?case by auto
qed

text \<open>With the metadata in its own format, verify always reaches a verdict.\<close>

lemma verify_body_live:
  assumes i: "inv w" and r: "verify_body store hw w = (res, w')"
  shows "room w' = room w" "hw = 0 \<or> meta_legible (blobs w) \<Longrightarrow> res \<noteq> Walk_Err e"
proof -
  obtain res1 w1 where s1: "verify_meta store hw w = (res1, w1)" by fastforce
  have i1: "inv w1" using verify_meta_law [OF i s1] by blast
  obtain rc b w0 where g: "st_get store META_KEY ULOG_META_WIRE_LEN w = (rc, b, w0)" by (metis prod_cases3)
  have l1: "room w1 = room w" "hw = 0 \<or> meta_legible (blobs w) \<Longrightarrow> res1 \<noteq> Walk_Err x" for x
    using s1 get_law [OF i _ g] get_live [OF i _ g]
    by (auto simp: verify_meta_def g meta_legible_def split: if_splits option.splits)
  obtain res2 w2 where s2: "verify_walk store hw 0 (mem_set 0 32) (mem_set 0 32) w1 = (res2, w2)" by fastforce
  have i2: "inv w2" using verify_walk_law [OF i1 s2] by (simp add: chained_def prev_hash_def)
  have l2: "res2 \<noteq> Walk_Err x \<and> room w2 = room w1" for x by (rule verify_walk_live [OF i1 s2])
  obtain rc b w0 where g: "st_get store (ulog_key hw) ULOG_ENTRY_WIRE_LEN w2 = (rc, b, w0)" by (metis prod_cases3)
  have l3: "verify_frontier store hw h w2 = (res3, w3) \<Longrightarrow> room w3 = room w2 \<and> res3 \<noteq> Walk_Err x" for h x res3 w3
    using get_live [OF i2 _ g] blob_fits [OF i2, of "ulog_key hw"]
    by (auto simp: verify_frontier_def g split: option.splits if_splits)
  show "room w' = room w" "hw = 0 \<or> meta_legible (blobs w) \<Longrightarrow> res \<noteq> Walk_Err e"
    using r s1 s2 l1 l2 l3 by (auto simp: verify_body_def split: walk.splits if_splits)
qed

lemma verify_live:
  assumes i: "inv w" and c: "cval w \<noteq> - 1" and rm: "blobs w META_KEY \<noteq> None \<or> 0 < room w"
    and m: "orphan (blobs w) (unat (cval w)) \<or> cval w = 0 \<or> meta_legible (blobs w)"
    and r: "ulog_engine_verify_anchored (Some store) (Some ctr) None (Some v0) bad w = (rc, vo, bo, w')"
  shows "rc = ALP_OK \<and> (\<exists>v k. vo = Some v \<and> bo = map_option (\<lambda>_. k) bad \<and>
    verdict_spec (fst (spec_recover (blobs w) (cval w))) (unat (snd (spec_recover (blobs w) (cval w)))) v (unat k))"
proof -
  obtain rc1 w1 where s1: "ulog_recover store ctr w = (rc1, w1)" by fastforce
  note l1 = recover_law [OF i s1]
  have ok: "rc1 = ALP_OK" using recover_live [OF i c rm s1] by blast
  then have sp: "spec_recover (blobs w) (cval w) = (blobs w1, cval w1)" using l1 by simp
  have leg: "cval w1 = 0 \<or> meta_legible (blobs w1)"
    using m sp meta_legible_adopt [of "blobs w" "cval w"] by (auto simp: spec_recover_def split: if_splits)
  obtain rc3 v w3 where s3: "ct_read ctr 0 w1 = (rc3, v, w3)" by (metis prod_cases3)
  have l3: "inv w3" "blobs w3 = blobs w1" "rc3 = ALP_OK" "v = cval w1"
    using read_law [OF _ s3] read_live [OF _ s3] l1 by auto
  obtain res w4 where s4: "verify_body store (cval w1) w3 = (res, w4)" by fastforce
  have "rc = ALP_OK"
    using r s1 s3 ok l3 s4 verify_body_live(2) [OF l3(1) s4] leg
    by (auto simp: ulog_engine_verify_anchored_def ulog_sync_anchor_def ulog_anchor_valid_def split: walk.splits)
  then show ?thesis using verify_law [OF i r] sp by auto
qed

text \<open>A log that is held verifies OK, whether or not its last append was torn.\<close>

lemma held_verifies:
  assumes i: "inv w" and h: "holds_log (blobs w) (cval w) es" and rm: "blobs w META_KEY \<noteq> None \<or> 0 < room w"
    and r: "ulog_engine_verify_anchored (Some store) (Some ctr) None (Some v0) bad w = (rc, vo, bo, w')"
  shows "rc = ALP_OK \<and> vo = Some ALP_UPDATE_LOG_VERIFY_OK \<and> bo = map_option (\<lambda>_. 0) bad \<and>
    holds_log (blobs w') (cval w') es"
proof -
  have c: "cval w \<noteq> - 1"
    using h SEQ_MAX_less [of "cval w"] by (auto simp: holds_log_def healthy_def torn_def SEQ_MAX_digits)
  have m: "orphan (blobs w) (unat (cval w)) \<or> cval w = 0 \<or> meta_legible (blobs w)"
    using h torn_orphan [of "blobs w"]
    by (auto simp: holds_log_def healthy_def meta_agrees_def meta_legible_def unat_eq_zero split: option.splits)
  obtain B n where sp: "spec_recover (blobs w) (cval w) = (B, n)" by fastforce
  from verify_live [OF i c rm m r] obtain v k where v: "rc = ALP_OK" "vo = Some v" "bo = map_option (\<lambda>_. k) bad"
    "verdict_spec B (unat n) v (unat k)" using sp by auto
  have "v = ALP_UPDATE_LOG_VERIFY_OK \<and> unat k = 0"
    using healthy_verdict [OF spec_recover_heals(1) [OF h sp] v(4)] .
  moreover have "recover_outcome (blobs w) (cval w) (blobs w') (cval w')" using verify_law [OF i r] by blast
  ultimately show ?thesis using v recover_outcome_holds [OF h] by (auto simp: unat_eq_zero)
qed

text \<open>A store that verifies OK accepts the next append while it has room.\<close>

lemma verify_ok_append_ok:
  assumes i: "inv w"
    and v: "ulog_engine_verify_anchored (Some store) (Some ctr) None (Some v0) bad w
      = (ALP_OK, Some ALP_UPDATE_LOG_VERIFY_OK, bo, w')"
    and room: "blobs w' META_KEY \<noteq> None \<and> 0 < room w' \<or> 1 < room w'"
    and wf: "entry_wf entry" "entry_encodable entry"
    and r: "ulog_engine_append_anchored (Some store) (Some ctr) None (Some entry) w' = (rc, w'')"
  shows "rc = ALP_OK \<and> cval w'' = cval w' + 1"
proof -
  have i': "inv w'" and h: "healthy (blobs w') (unat (cval w'))"
    using verify_law [OF i v] by (auto simp: verdict_OK_healthy simp del: verdict_spec.simps)
  have "spec_recover (blobs w') (cval w') = (blobs w', cval w')"
    using healthy_not_orphan [OF h] by (simp add: spec_recover_def)
  moreover have "cval w' \<noteq> - 1" using h SEQ_MAX_less [of "cval w'"] by (auto simp: healthy_def SEQ_MAX_digits)
  ultimately show ?thesis using append_live [OF i' _ _ h room wf r] by blast
qed

text \<open>A counter rewound by two: the first verify adopts one orphan and reports the
  rollback, the second adopts the other and reports OK.\<close>

lemma rollback_laundered:
  assumes i: "inv w" and ch: "chained (blobs w) (unat (cval w) + 2)" and top: "slot (blobs w) (unat (cval w) + 2) = None"
    and rm: "blobs w META_KEY \<noteq> None \<or> 0 < room w"
    and r1: "ulog_engine_verify_anchored (Some store) (Some ctr) None (Some v0) bad w = (rc1, vo1, bo1, w1)"
    and r2: "ulog_engine_verify_anchored (Some store) (Some ctr) None (Some v0) bad w1 = (rc2, vo2, bo2, w2)"
  shows "rc1 = ALP_OK \<and> vo1 = Some ALP_UPDATE_LOG_VERIFY_ROLLED_BACK \<and>
    rc2 = ALP_OK \<and> vo2 = Some ALP_UPDATE_LOG_VERIFY_OK"
proof -
  let ?c = "cval w" and ?B = "blobs w"
  have sp: "unat ?c + 2 < SEQ_SPACE" using verified_in_space [OF ch top] .
  then have c: "?c \<noteq> - 1" using SEQ_MAX_less [of ?c] by (auto simp: SEQ_MAX_digits)
  have c1: "chained ?B (Suc (unat ?c))" "links ?B (Suc (unat ?c))" using ch by (simp_all add: chained_Suc)
  have o: "orphan ?B (unat ?c)" using links_orphan [OF c1(1)] .
  then have s1: "spec_recover ?B ?c = (adopt_meta ?B ?c, ?c + 1)" by (simp add: spec_recover_def)
  have u: "unat (?c + 1) = Suc (unat ?c)" using unat_Suc_small [of ?c] sp by simp
  obtain b where b: "slot ?B (unat ?c) = Some b" using c1(1) links_slot by (fastforce simp: chained_Suc)
  have am: "meta_agrees (adopt_meta ?B ?c) (Suc (unat ?c))"
    using b by (simp add: meta_agrees_def adopt_meta_def meta_after_decodes prev_hash_Suc)
  from verify_live [OF i c rm _ r1] o s1 u obtain v and k :: u64 where v1: "rc1 = ALP_OK" "vo1 = Some v"
    "verdict_spec (adopt_meta ?B ?c) (Suc (unat ?c)) v (unat k)" by auto
  have "chained (adopt_meta ?B ?c) (Suc (Suc (unat ?c)))" using ch by (simp add: adopt_meta_def)
  then have rb: "v = ALP_UPDATE_LOG_VERIFY_ROLLED_BACK" by (rule orphaned_verdict [OF _ am v1(3)])
  have w1: "inv w1" "blobs w1 = adopt_meta ?B ?c" "cval w1 = ?c + 1"
    using verify_law [OF i r1] v1(1) s1 by auto
  have t: "torn (blobs w1) (unat (cval w1))" using ch top sp by (simp add: torn_def w1 u adopt_meta_def)
  have "blobs w1 META_KEY \<noteq> None" by (simp add: w1 adopt_meta_def)
  moreover have "cval w1 \<noteq> - 1" using t SEQ_MAX_less [of "cval w1"] by (auto simp: torn_def SEQ_MAX_digits)
  moreover have "spec_recover (blobs w1) (cval w1) = (adopt_meta (blobs w1) (cval w1), cval w1 + 1)"
    using torn_orphan [OF t] by (simp add: spec_recover_def)
  ultimately obtain v' and k' :: u64 where "rc2 = ALP_OK" "vo2 = Some v'"
    "verdict_spec (adopt_meta (blobs w1) (cval w1)) (unat (cval w1 + 1)) v' (unat k')"
    using verify_live [OF w1(1) _ _ _ r2] torn_orphan [OF t] by auto
  then show ?thesis using v1 rb healthy_verdict [OF torn_adopt(1) [OF t]] by blast
qed

text \<open>The other operations on a held log.\<close>

lemma count_live:
  assumes i: "inv w" and h: "holds_log (blobs w) (cval w) es" and rm: "blobs w META_KEY \<noteq> None \<or> 0 < room w"
    and r: "ulog_engine_count (Some store) (Some ctr) (Some n0) w = (rc, n, w')"
  shows "rc = ALP_OK"
proof -
  obtain rc1 w1 where s1: "ulog_recover store ctr w = (rc1, w1)" by fastforce
  have "cval w \<noteq> - 1"
    using h SEQ_MAX_less [of "cval w"] by (auto simp: holds_log_def healthy_def torn_def SEQ_MAX_digits)
  then have "rc1 = ALP_OK" "inv w1" using recover_live [OF i _ rm s1] recover_law [OF i s1] by auto
  moreover obtain rc2 v w2 where s2: "ct_read ctr 0 w1 = (rc2, v, w2)" by (metis prod_cases3)
  ultimately show ?thesis using r s1 read_live [OF _ s2] s2 by (simp add: ulog_engine_count_def)
qed

lemma get_entry_live:
  assumes i: "inv w" and h: "holds_log (blobs w) (cval w) es" and s: "seq \<le> ULOG_SEQ_MAX"
    and r: "ulog_engine_get (Some store) seq (Some e0) w = (rc, e, w')"
  shows "rc = ALP_OK \<or> rc = ALP_ERR_NOT_FOUND"
proof -
  obtain rc1 b w1 where g: "st_get store (ulog_key seq) ULOG_ENTRY_WIRE_LEN w = (rc1, b, w1)" by (metis prod_cases3)
  have l: "rc1 = ALP_OK \<and> slot (blobs w) (unat seq) = Some b \<or> rc1 = ALP_ERR_NOT_FOUND"
    using get_law [OF i _ g] get_live [OF i _ g] blob_fits [OF i, of "ulog_key seq"] by (auto simp: slot_def split: option.splits)
  have "unat seq < length es" if "slot (blobs w) (unat seq) = Some b"
  proof (rule ccontr)
    assume "\<not> unat seq < length es"
    then have "slot (blobs w) (unat seq) = None" using h s by (simp add: holds_log_def SEQ_MAX_digits)
    with that show False by simp
  qed
  then have "entry_of_wire b \<noteq> None" if "slot (blobs w) (unat seq) = Some b"
    using holds_log_nth [OF h] that by fastforce
  then show ?thesis
    using l r g decode_status [of b e0 "mem_set 0 32"] by (auto simp: ulog_engine_get_def split: prod.splits)
qed

lemma verify_room:
  assumes i: "inv w" and c: "cval w \<noteq> - 1" and rm: "0 < room w"
    and r: "ulog_engine_verify_anchored (Some store) (Some ctr) None (Some v0) bad w = (rc, vo, bo, w')"
  shows "room w \<le> room w' + 1"
proof -
  obtain rc1 w1 where s1: "ulog_recover store ctr w = (rc1, w1)" by fastforce
  have l1: "rc1 = ALP_OK" "room w \<le> room w1 + 1" "inv w1"
    using recover_live [OF i c _ s1] recover_law [OF i s1] rm by auto
  obtain rc3 v w3 where s3: "ct_read ctr 0 w1 = (rc3, v, w3)" by (metis prod_cases3)
  have l3: "inv w3" "rc3 = ALP_OK" "room w3 = room w1" using read_law [OF l1(3) s3] read_live [OF l1(3) s3] by auto
  obtain res w4 where s4: "verify_body store v w3 = (res, w4)" by fastforce
  have "w' = w4"
    using r s1 s3 l1 l3 s4
    by (auto simp: ulog_engine_verify_anchored_def ulog_sync_anchor_def ulog_anchor_valid_def split: walk.splits)
  then show ?thesis using verify_body_live(1) [OF l3(1) s4] l1 l3 by simp
qed

end

end
