(* ===== verification/Sw_Tier.thy ===== *)
theory Sw_Tier
  imports Ulog_Live
begin

text \<open>
  The software tier of the update log in its RAM build
  (\<^verbatim>\<open>src/backends/update_log/sw_tier.c\<close>, lines 72--143 and 340--508): thirty-two slots of a
  24-byte key and a 115-byte blob, and an in-process counter.  The store functions take
  and return the static \<open>g_sw\<close>.

  The tier is shown to meet the contracts \<open>ulog_seams\<close> and \<open>ulog_seams_live\<close>, so every
  guarantee of the engine holds of it: the properties at the end state them of \<open>sw_append\<close>,
  \<open>sw_verify\<close>, \<open>sw_count\<close> and \<open>sw_get_e\<close>.
\<close>

section \<open>The RAM store\<close>

abbreviation SW_SLOTS :: nat where "SW_SLOTS \<equiv> 32"
abbreviation SW_BLOB :: nat where "SW_BLOB \<equiv> ULOG_ENTRY_WIRE_LEN"

record sw_slot =
  sl_key :: string
  sl_buf :: bytes
  sl_len :: nat
  sl_used :: bool

record sw_state =
  sw_s :: "sw_slot list"
  sw_counter :: u64

definition sw_zero :: sw_state where
  "sw_zero = \<lparr>sw_s = replicate SW_SLOTS
     \<lparr>sl_key = '''', sl_buf = mem_set 0 SW_BLOB, sl_len = 0, sl_used = False\<rparr>, sw_counter = 0\<rparr>"

text \<open>The scan for a used slot with the key, and the scan for a free slot.\<close>

fun sw_find :: "sw_slot list \<Rightarrow> string \<Rightarrow> nat option" where
  "sw_find [] key = None"
| "sw_find (x # xs) key = (if sl_used x \<and> sl_key x = key then Some 0 else map_option Suc (sw_find xs key))"

fun sw_find_free :: "sw_slot list \<Rightarrow> nat option" where
  "sw_find_free [] = None"
| "sw_find_free (x # xs) = (if \<not> sl_used x then Some 0 else map_option Suc (sw_find_free xs))"

text \<open>The slot write: \<open>strncpy\<close> keeps at most 23 characters of the key.\<close>

definition sw_write_slot :: "nat \<Rightarrow> string \<Rightarrow> bytes \<Rightarrow> 'a sw_state_scheme \<Rightarrow> 'a sw_state_scheme" where
  "sw_write_slot i k b st =
     (let x = sw_s st ! i
      in st\<lparr>sw_s := (sw_s st)[i := x\<lparr>sl_used := True, sl_key := take 23 k,
                                   sl_buf := mem_write (sl_buf x) 0 b, sl_len := length b\<rparr>]\<rparr>)"

definition sw_ram_put :: "string \<Rightarrow> bytes \<Rightarrow> 'a sw_state_scheme \<Rightarrow> alp_status \<times> 'a sw_state_scheme" where
  "sw_ram_put k b st =
     (if length b > SW_BLOB then (ALP_ERR_NOMEM, st) else
      case sw_find (sw_s st) k of
        Some i \<Rightarrow> (ALP_OK, sw_write_slot i k b st)
      | None \<Rightarrow>
          (case sw_find_free (sw_s st) of
             None \<Rightarrow> (ALP_ERR_NOMEM, st)
           | Some i \<Rightarrow> (ALP_OK, sw_write_slot i k b st)))"

definition sw_ram_get :: "string \<Rightarrow> nat \<Rightarrow> 'a sw_state_scheme \<Rightarrow> alp_status \<times> bytes \<times> 'a sw_state_scheme" where
  "sw_ram_get k cap st =
     (case sw_find (sw_s st) k of
        None \<Rightarrow> (ALP_ERR_NOT_FOUND, [], st)
      | Some i \<Rightarrow>
          (let x = sw_s st ! i
           in if sl_len x > cap then (ALP_ERR_NOMEM, [], st)
              else (ALP_OK, take (sl_len x) (sl_buf x), st)))"

definition sw_ram_erase :: "string \<Rightarrow> 'a sw_state_scheme \<Rightarrow> alp_status \<times> 'a sw_state_scheme" where
  "sw_ram_erase k st =
     (case sw_find (sw_s st) k of
        None \<Rightarrow> (ALP_ERR_NOT_FOUND, st)
      | Some i \<Rightarrow> (ALP_OK, st\<lparr>sw_s := (sw_s st)[i := (sw_s st ! i)\<lparr>sl_used := False\<rparr>]\<rparr>))"

definition sw_cread :: "u32 \<Rightarrow> 'a sw_state_scheme \<Rightarrow> alp_status \<times> u64 \<times> 'a sw_state_scheme" where
  "sw_cread cid st = (ALP_OK, sw_counter st, st)"

definition sw_cinc :: "u32 \<Rightarrow> 'a sw_state_scheme \<Rightarrow> alp_status \<times> u64 \<times> 'a sw_state_scheme" where
  "sw_cinc cid st = (let st = st\<lparr>sw_counter := sw_counter st + 1\<rparr> in (ALP_OK, sw_counter st, st))"

definition g_store :: "'a sw_state_scheme secure_store_if" where
  "g_store = \<lparr>st_put = sw_ram_put, st_get = sw_ram_get, st_erase = sw_ram_erase\<rparr>"

definition g_ctr :: "'a sw_state_scheme monotonic_counter_if" where
  "g_ctr = \<lparr>ct_read = sw_cread, ct_increment = sw_cinc\<rparr>"

section \<open>The tier's operations\<close>

definition sw_append :: "update_log_entry option \<Rightarrow> 'a sw_state_scheme \<Rightarrow> alp_status \<times> 'a sw_state_scheme" where
  "sw_append e st = ulog_engine_append (Some g_store) (Some g_ctr) e st"

definition sw_verify ::
  "update_log_verdict option \<Rightarrow> u64 option \<Rightarrow> 'a sw_state_scheme \<Rightarrow>
   alp_status \<times> update_log_verdict option \<times> u64 option \<times> 'a sw_state_scheme" where
  "sw_verify v bad st = ulog_engine_verify (Some g_store) (Some g_ctr) v bad st"

definition sw_count :: "u64 option \<Rightarrow> 'a sw_state_scheme \<Rightarrow> alp_status \<times> u64 option \<times> 'a sw_state_scheme" where
  "sw_count n st = ulog_engine_count (Some g_store) (Some g_ctr) n st"

definition sw_get_e ::
  "u64 \<Rightarrow> update_log_entry option \<Rightarrow> 'a sw_state_scheme \<Rightarrow>
   alp_status \<times> update_log_entry option \<times> 'a sw_state_scheme" where
  "sw_get_e seq e st = ulog_engine_get (Some g_store) seq e st"

section \<open>Abstraction of the slots\<close>

definition ram_blobs :: "'a sw_state_scheme \<Rightarrow> blob_map" where
  "ram_blobs st k =
     map_option (\<lambda>i. take (sl_len (sw_s st ! i)) (sl_buf (sw_s st ! i))) (sw_find (sw_s st) k)"

definition slot_wf :: "sw_slot \<Rightarrow> bool" where
  "slot_wf x \<longleftrightarrow> length (sl_buf x) = SW_BLOB \<and> sl_len x \<le> SW_BLOB"

definition ram_inv :: "'a sw_state_scheme \<Rightarrow> bool" where
  "ram_inv st \<longleftrightarrow> length (sw_s st) = SW_SLOTS \<and> list_all slot_wf (sw_s st)"

definition ram_room :: "'a sw_state_scheme \<Rightarrow> nat" where
  "ram_room st = length (filter (\<lambda>x. \<not> sl_used x) (sw_s st))"

lemma sw_find_Some:
  "sw_find xs k = Some i \<Longrightarrow> i < length xs \<and> sl_used (xs ! i) \<and> sl_key (xs ! i) = k"
  by (induction xs arbitrary: i) (auto split: if_splits)

lemma sw_find_free_Some: "sw_find_free xs = Some i \<Longrightarrow> i < length xs \<and> \<not> sl_used (xs ! i)"
  by (induction xs arbitrary: i) (auto split: if_splits)

lemma sw_find_free_None: "sw_find_free xs = None \<longleftrightarrow> filter (\<lambda>x. \<not> sl_used x) xs = []"
  by (induction xs) auto

lemma sw_find_update_other:
  "i < length xs \<Longrightarrow> \<not> (sl_used (xs ! i) \<and> sl_key (xs ! i) = k) \<Longrightarrow> \<not> (sl_used x \<and> sl_key x = k) \<Longrightarrow>
   sw_find (xs[i := x]) k = sw_find xs k"
  by (induction xs arbitrary: i) (auto split: nat.splits)

lemma sw_find_update_same:
  "sl_used x \<and> sl_key x = k \<Longrightarrow> sw_find xs k = Some i \<or> sw_find xs k = None \<and> i < length xs \<Longrightarrow>
   sw_find (xs[i := x]) k = Some i"
  by (induction xs arbitrary: i) (auto split: nat.splits if_splits)

lemma filter_update_length:
  "i < length xs \<Longrightarrow> P x = P (xs ! i) \<Longrightarrow> length (filter P (xs[i := x])) = length (filter P xs)"
  "i < length xs \<Longrightarrow> \<not> P x \<Longrightarrow> P (xs ! i) \<Longrightarrow> length (filter P (xs[i := x])) = length (filter P xs) - 1"
proof -
  show "i < length xs \<Longrightarrow> P x = P (xs ! i) \<Longrightarrow> length (filter P (xs[i := x])) = length (filter P xs)"
    by (induction xs arbitrary: i) (auto split: nat.splits)
  have "i < length xs \<Longrightarrow> \<not> P x \<Longrightarrow> P (xs ! i) \<Longrightarrow> Suc (length (filter P (xs[i := x]))) = length (filter P xs)"
    by (induction xs arbitrary: i) (auto split: nat.splits)
  then show "i < length xs \<Longrightarrow> \<not> P x \<Longrightarrow> P (xs ! i) \<Longrightarrow> length (filter P (xs[i := x])) = length (filter P xs) - 1"
    by fastforce
qed

text \<open>Writing a slot that holds the key, or a free one when none does, is a map update.\<close>

lemma sw_write_slot_law:
  assumes inv: "ram_inv st" and k: "length k \<le> 23" and b: "length b \<le> SW_BLOB"
    and i: "sw_find (sw_s st) k = Some i \<or> sw_find (sw_s st) k = None \<and> sw_find_free (sw_s st) = Some i"
  defines "st' \<equiv> sw_write_slot i k b st"
  shows "ram_inv st'" "ram_blobs st' = (ram_blobs st)(k \<mapsto> b)" "sw_counter st' = sw_counter st"
    "ram_room st' = (if ram_blobs st k = None then ram_room st - 1 else ram_room st)"
    "sw_state.more st' = sw_state.more st"
proof -
  let ?xs = "sw_s st"
  let ?x = "(?xs ! i)\<lparr>sl_used := True, sl_key := take 23 k, sl_buf := mem_write (sl_buf (?xs ! i)) 0 b, sl_len := length b\<rparr>"
  have il: "i < length ?xs" using i sw_find_Some sw_find_free_Some by blast
  have xs': "sw_s st' = ?xs[i := ?x]" by (simp add: st'_def sw_write_slot_def Let_def)
  have wf: "slot_wf (?xs ! i)" using inv il by (auto simp: ram_inv_def list_all_length)
  then have "slot_wf ?x" using b by (simp add: slot_wf_def)
  then show "ram_inv st'"
    using inv il by (auto simp: ram_inv_def xs' list_all_length nth_list_update)
  have new: "sw_find (sw_s st') k = Some i"
    unfolding xs' using i k il by (intro sw_find_update_same) auto
  have old: "sw_find (sw_s st') k' = sw_find ?xs k'" if "k' \<noteq> k" for k'
    unfolding xs' using that i k il sw_find_Some [of ?xs k i] sw_find_free_Some [of ?xs i]
    by (intro sw_find_update_other) auto
  have "take (length b) (mem_write (sl_buf (?xs ! i)) 0 b) = b"
    using b by (simp add: mem_write_def)
  then have "ram_blobs st' k = Some b" using new il by (simp add: ram_blobs_def xs')
  moreover have "ram_blobs st' k' = ram_blobs st k'" if "k' \<noteq> k" for k'
    using old [OF that] sw_find_Some [of ?xs k'] i that sw_find_Some [of ?xs k i] sw_find_free_Some [of ?xs i]
    by (cases "sw_find ?xs k'") (auto simp: ram_blobs_def xs' nth_list_update)
  ultimately show "ram_blobs st' = (ram_blobs st)(k \<mapsto> b)" by auto
  show "sw_counter st' = sw_counter st" "sw_state.more st' = sw_state.more st"
    by (simp_all add: st'_def sw_write_slot_def Let_def)
  show "ram_room st' = (if ram_blobs st k = None then ram_room st - 1 else ram_room st)"
    using i sw_find_Some [of ?xs k i] sw_find_free_Some [of ?xs i] filter_update_length [of i ?xs "\<lambda>x. \<not> sl_used x" ?x] il
    by (auto simp: ram_room_def ram_blobs_def xs')
qed

lemma engine_key_length: "engine_key k \<Longrightarrow> length k \<le> 23"
proof -
  have "length (ulog_key c) \<le> 23" for c using ulog_key_prefix [of c] by auto
  then show "engine_key k \<Longrightarrow> length k \<le> 23" by (auto simp: engine_key_def)
qed

lemma ram_put_law:
  assumes inv: "ram_inv st" and k: "engine_key k" and b: "length b \<le> SW_BLOB" and r: "sw_ram_put k b st = (rc, st')"
  shows "ram_inv st'" "sw_counter st' = sw_counter st" "sw_state.more st' = sw_state.more st"
    "ram_blobs st' = (ram_blobs st)(k \<mapsto> b) \<or> rc \<noteq> ALP_OK \<and> ram_blobs st' = ram_blobs st"
    "ram_blobs st k \<noteq> None \<or> 0 < ram_room st \<Longrightarrow>
      rc = ALP_OK \<and> ram_room st' = (if ram_blobs st k = None then ram_room st - 1 else ram_room st)"
proof -
  consider i where "sw_find (sw_s st) k = Some i \<or> sw_find (sw_s st) k = None \<and> sw_find_free (sw_s st) = Some i"
      "rc = ALP_OK" "st' = sw_write_slot i k b st"
    | "rc = ALP_ERR_NOMEM" "st' = st" "sw_find (sw_s st) k = None" "sw_find_free (sw_s st) = None"
    using r b by (auto simp: sw_ram_put_def split: option.splits if_splits)
  then have "ram_inv st' \<and> sw_counter st' = sw_counter st \<and> sw_state.more st' = sw_state.more st \<and>
    (ram_blobs st' = (ram_blobs st)(k \<mapsto> b) \<or> rc \<noteq> ALP_OK \<and> ram_blobs st' = ram_blobs st) \<and>
    (ram_blobs st k \<noteq> None \<or> 0 < ram_room st \<longrightarrow>
      rc = ALP_OK \<and> ram_room st' = (if ram_blobs st k = None then ram_room st - 1 else ram_room st))"
  proof cases
    case (1 i)
    then show ?thesis using sw_write_slot_law [OF inv engine_key_length [OF k] b 1(1)] by simp
  next
    case 2
    then show ?thesis using inv by (simp add: ram_room_def ram_blobs_def sw_find_free_None)
  qed
  then show "ram_inv st'" "sw_counter st' = sw_counter st" "sw_state.more st' = sw_state.more st"
    "ram_blobs st' = (ram_blobs st)(k \<mapsto> b) \<or> rc \<noteq> ALP_OK \<and> ram_blobs st' = ram_blobs st"
    "ram_blobs st k \<noteq> None \<or> 0 < ram_room st \<Longrightarrow>
      rc = ALP_OK \<and> ram_room st' = (if ram_blobs st k = None then ram_room st - 1 else ram_room st)"
    by blast+
qed

lemma ram_get_law:
  assumes "ram_inv st"
  shows "sw_ram_get k cap st =
    (case ram_blobs st k of None \<Rightarrow> (ALP_ERR_NOT_FOUND, [], st)
     | Some b \<Rightarrow> if length b > cap then (ALP_ERR_NOMEM, [], st) else (ALP_OK, b, st))"
proof (cases "sw_find (sw_s st) k")
  case (Some i)
  then have "slot_wf (sw_s st ! i)" using assms sw_find_Some [OF Some] by (auto simp: ram_inv_def list_all_length)
  then show ?thesis using Some by (simp add: sw_ram_get_def ram_blobs_def slot_wf_def Let_def min_def)
qed (simp add: sw_ram_get_def ram_blobs_def)

lemma ram_blob_fits: "ram_inv st \<Longrightarrow> ram_blobs st k = Some b \<Longrightarrow> length b \<le> SW_BLOB"
  using sw_find_Some [of "sw_s st" k] by (auto simp: ram_blobs_def ram_inv_def list_all_length slot_wf_def)

interpretation ram: ulog_seams_live g_store g_ctr ram_inv ram_blobs sw_counter "\<lambda>_. 0" ram_room
proof (unfold_locales, goal_cases)
  case (2 w k cap rc b w')
  then show ?case by (auto simp: g_store_def ram_get_law split: option.splits if_splits)
next
  case (3 w k b rc w')
  then show ?case using ram_put_law [of w k b rc w'] by (auto simp: g_store_def)
next
  case (8 w k b)
  then show ?case by (rule ram_blob_fits)
next
  case (9 w k cap rc b w')
  then show ?case by (auto simp: g_store_def ram_get_law split: option.splits if_splits)
next
  case (10 w k b rc w')
  then show ?case using ram_put_law(5) [of w k b rc w'] by (simp add: g_store_def)
qed (auto simp: ulog_anchor_valid_def g_ctr_def sw_cread_def sw_cinc_def Let_def ram_inv_def ram_blobs_def ram_room_def)

section \<open>Running the tier\<close>

text \<open>Appending a list of entries in order, keeping the statuses.\<close>

fun sw_append_all :: "update_log_entry list \<Rightarrow> 'a sw_state_scheme \<Rightarrow> alp_status list \<times> 'a sw_state_scheme" where
  "sw_append_all [] st = ([], st)"
| "sw_append_all (e # es) st =
     (let (rc, st) = sw_append (Some e) st; (rcs, st) = sw_append_all es st in (rc # rcs, st))"

text \<open>The log that results: sequence numbers assigned in order from \<open>n\<close>.\<close>

fun numbered :: "nat \<Rightarrow> update_log_entry list \<Rightarrow> update_log_entry list" where
  "numbered n [] = []"
| "numbered n (e # es) = entry_norm (e\<lparr>ule_seq := of_nat n\<rparr>) # numbered (Suc n) es"

lemma length_numbered [simp]: "length (numbered n es) = length es"
  by (induction es arbitrary: n) auto

lemmas sw_ops = sw_append_def sw_verify_def sw_count_def sw_get_e_def
  ulog_engine_append_def ulog_engine_verify_def

text \<open>What the tier keeps: a log of \<open>es\<close> using its metadata slot and one slot per entry.\<close>

definition ram_log :: "'a sw_state_scheme \<Rightarrow> update_log_entry list \<Rightarrow> bool" where
  "ram_log st es \<longleftrightarrow> ram_inv st \<and> healthy (ram_blobs st) (unat (sw_counter st)) \<and>
     holds_log (ram_blobs st) (sw_counter st) es \<and>
     ram_room st = 32 - (if es = [] then 0 else length es + 1) \<and>
     (ram_blobs st META_KEY = None \<longleftrightarrow> es = [])"

lemma ram_log_length:
  assumes "ram_log st es"
  shows "unat (sw_counter st) = length es" "es = log_entries (ram_blobs st) (length es)"
proof -
  have h: "holds_log (ram_blobs st) (sw_counter st) es"
    and "\<not> orphan (ram_blobs st) (unat (sw_counter st))"
    using assms healthy_not_orphan by (auto simp: ram_log_def)
  then have "spec_recover (ram_blobs st) (sw_counter st) = (ram_blobs st, sw_counter st)"
    by (simp add: spec_recover_def)
  from spec_recover_heals [OF h this]
  show "unat (sw_counter st) = length es" "es = log_entries (ram_blobs st) (length es)" by auto
qed

lemma sw_zero_log [simp]: "ram_log (sw_state.extend sw_zero m) []"
proof -
  have "sw_find (replicate n \<lparr>sl_key = [], sl_buf = mem_set 0 SW_BLOB, sl_len = 0, sl_used = False\<rparr>) k = None" for n k
    by (induction n) auto
  then have "ram_blobs (sw_state.extend sw_zero m) = (\<lambda>_. None)"
    by (auto simp: ram_blobs_def sw_zero_def sw_state.extend_def)
  then show ?thesis
    by (auto simp: ram_log_def holds_log_def healthy_def chained_def slot_def meta_agrees_def log_entries_def
        ram_inv_def slot_wf_def list_all_length ram_room_def sw_zero_def sw_state.extend_def)
qed

lemma sw_zero_log' [simp]: "ram_log sw_zero []"
  using sw_zero_log [of "()"] by (simp add: sw_state.extend_def sw_zero_def)

text \<open>One append on a log with a free slot.\<close>

lemma ram_append_step:
  assumes l: "ram_log st es" and n: "length es < 31" and wf: "entry_wf e" "entry_encodable e"
    and r: "sw_append (Some e) st = (rc, st')"
  shows "rc = ALP_OK \<and> ram_log st' (es @ [entry_norm (e\<lparr>ule_seq := of_nat (length es)\<rparr>)])"
proof -
  have r': "ulog_engine_append_anchored (Some g_store) (Some g_ctr) None (Some e) st = (rc, st')"
    using r by (simp add: sw_ops)
  have inv: "ram_inv st" and h: "healthy (ram_blobs st) (unat (sw_counter st))"
    and hl: "holds_log (ram_blobs st) (sw_counter st) es" using l by (auto simp: ram_log_def)
  have c: "unat (sw_counter st) = length es" using ram_log_length [OF l] by blast
  have sp: "spec_recover (ram_blobs st) (sw_counter st) = (ram_blobs st, sw_counter st)"
    using healthy_not_orphan [OF h] by (simp add: spec_recover_def)
  have c1: "sw_counter st \<noteq> - 1" using h SEQ_MAX_less [of "sw_counter st"] by (auto simp: healthy_def SEQ_MAX_digits)
  have room: "ram_blobs st META_KEY \<noteq> None \<and> 0 < ram_room st \<or> 1 < ram_room st"
    using l n by (auto simp: ram_log_def split: if_splits)
  note A = ram.append_live [OF inv c1 sp h room wf r']
  note B = ram.append_law [OF inv hl _ wf(1) r']
  let ?es' = "es @ [entry_norm (e\<lparr>ule_seq := of_nat (length es)\<rparr>)]"
  have B': "ram_inv st'" "sw_counter st' = of_nat (length ?es')" "holds_log (ram_blobs st') (sw_counter st') ?es'"
    using A B n by auto
  have "unat (sw_counter st') = length ?es'" using B'(2) n by (simp add: unat_of_nat del: of_nat_Suc)
  then have "healthy (ram_blobs st') (unat (sw_counter st'))"
    using B'(3) by (auto simp: holds_log_def dest: arg_cong [where f = length])
  moreover have "ram_room st' = 32 - (length ?es' + 1)" "ram_blobs st' META_KEY \<noteq> None"
    using A l n by (auto simp: ram_log_def split: if_splits)
  ultimately show ?thesis using conjunct1 [OF A] B'(1,3) by (simp add: ram_log_def)
qed

lemma ram_append_all:
  "ram_log st es \<Longrightarrow> length es + length es' \<le> 31 \<Longrightarrow> \<forall>e \<in> set es'. entry_wf e \<and> entry_encodable e \<Longrightarrow>
   sw_append_all es' st = (rcs, st') \<Longrightarrow>
   rcs = replicate (length es') ALP_OK \<and> ram_log st' (es @ numbered (length es) es')"
proof (induction es' arbitrary: es st rcs)
  case (Cons e es')
  obtain rc st1 where s1: "sw_append (Some e) st = (rc, st1)" by fastforce
  obtain rcs' where rs: "sw_append_all es' st1 = (rcs', st')" "rcs = rc # rcs'"
    using Cons.prems(4) s1 by (auto split: prod.splits)
  have st: "rc = ALP_OK" "ram_log st1 (es @ [entry_norm (e\<lparr>ule_seq := of_nat (length es)\<rparr>)])"
    using ram_append_step [OF Cons.prems(1) _ _ _ s1] Cons.prems(2,3) by auto
  show ?case using Cons.IH [OF st(2) _ _ rs(1)] Cons.prems(2,3) st(1) rs(2) by simp
qed simp

section \<open>Properties\<close>

text \<open>
  C1. Append is atomic.  From any state holding the log \<open>es\<close> (complete, or left torn by an
  interrupted append), an append of a well-formed entry leaves, whatever it returns, a state
  holding \<open>es\<close> or \<open>es\<close> followed by that entry under the next sequence number; an \<open>ALP_OK\<close>
  means the entry is there and the counter is its new length.
\<close>

theorem sw_append_atomic:
  assumes "ram_inv st" and "holds_log (ram_blobs st) (sw_counter st) es" and "length es + 1 < SEQ_SPACE"
    and "entry_wf e" and "sw_append (Some e) st = (rc, st')"
  shows "ram_inv st' \<and>
    (holds_log (ram_blobs st') (sw_counter st') es \<or>
     holds_log (ram_blobs st') (sw_counter st') (es @ [entry_norm (e\<lparr>ule_seq := of_nat (length es)\<rparr>)])) \<and>
    (rc = ALP_OK \<longrightarrow> sw_counter st' = of_nat (length es + 1) \<and>
     holds_log (ram_blobs st') (sw_counter st') (es @ [entry_norm (e\<lparr>ule_seq := of_nat (length es)\<rparr>)]))"
  using ram.append_law [OF assms(1-4)] assms(5) by (auto simp: sw_ops)

text \<open>A store one append ahead of its counter, as a crash before the metadata write leaves it.\<close>

definition torn_sample :: sw_state where
  "torn_sample = (snd (sw_append (Some sample_entry) sw_zero))\<lparr>sw_counter := 0\<rparr>"

lemma sample_ok [simp]: "entry_wf sample_entry" "entry_encodable sample_entry"
  by (simp_all add: entry_wf_def entry_encodable_def sample_entry_def)

lemma sample_run: "ram_log (snd (sw_append_all (replicate n sample_entry) sw_zero)) (numbered 0 (replicate n sample_entry))"
  if "n \<le> 31"
  using ram_append_all [of sw_zero "[]" "replicate n sample_entry"] that
  by (auto simp: prod_eq_iff set_replicate_conv_if)

lemma rewind_blobs: "ram_blobs (st\<lparr>sw_counter := c\<rparr>) = ram_blobs st" "ram_inv (st\<lparr>sw_counter := c\<rparr>) = ram_inv st"
    "ram_room (st\<lparr>sw_counter := c\<rparr>) = ram_room st"
  by (auto simp: ram_blobs_def ram_inv_def ram_room_def)

lemma torn_sample_holds: "ram_inv torn_sample" "holds_log (ram_blobs torn_sample) (sw_counter torn_sample) (numbered 0 [sample_entry])"
  "torn (ram_blobs torn_sample) 0" "0 < ram_room torn_sample"
proof -
  let ?st = "snd (sw_append (Some sample_entry) sw_zero)" and ?es = "numbered 0 [sample_entry]"
  have l: "ram_log ?st ?es" using sample_run [of 1] by (simp add: split_beta)
  have "unat (sw_counter ?st) = 1" "?es = log_entries (ram_blobs ?st) 1" using ram_log_length [OF l] by auto
  then have "torn (ram_blobs ?st) 0" "?es = log_entries (ram_blobs ?st) 1" using l by (auto simp: torn_def ram_log_def healthy_def)
  then show "ram_inv torn_sample" "holds_log (ram_blobs torn_sample) (sw_counter torn_sample) (numbered 0 [sample_entry])"
    "torn (ram_blobs torn_sample) 0" "0 < ram_room torn_sample"
    using l by (auto simp: torn_sample_def rewind_blobs ram_log_def holds_log_def)
qed

theorem sw_append_atomic_witness:
  "\<exists>rc st'. sw_append (Some sample_entry) torn_sample = (rc, st') \<and> torn (ram_blobs torn_sample) 0 \<and>
    (holds_log (ram_blobs st') (sw_counter st') (numbered 0 [sample_entry]) \<or>
     holds_log (ram_blobs st') (sw_counter st') (numbered 0 [sample_entry] @
       [entry_norm (sample_entry\<lparr>ule_seq := 1\<rparr>)]))"
proof -
  obtain rc st' where r: "sw_append (Some sample_entry) torn_sample = (rc, st')" by fastforce
  from sw_append_atomic [OF torn_sample_holds(1,2) _ _ r] show ?thesis using torn_sample_holds(3) r by auto
qed

text \<open>
  C18. A run of appends.  Starting from the zeroed store, up to 31 well-formed entries are all
  accepted, and the log then holds exactly those entries, in order, numbered from 0.
\<close>

theorem sw_append_all_accepted:
  assumes "length es \<le> 31" and "\<forall>e \<in> set es. entry_wf e \<and> entry_encodable e"
    and "sw_append_all es sw_zero = (rcs, st)"
  shows "rcs = replicate (length es) ALP_OK \<and> sw_counter st = of_nat (length es) \<and>
    holds_log (ram_blobs st) (sw_counter st) (numbered 0 es) \<and>
    healthy (ram_blobs st) (length es)"
proof -
  have l: "rcs = replicate (length es) ALP_OK" "ram_log st (numbered 0 es)"
    using ram_append_all [of sw_zero "[]" es rcs st] assms by auto
  then have u: "unat (sw_counter st) = length es" using ram_log_length(1) [OF l(2)] by simp
  moreover have "sw_counter st = of_nat (length es)" using arg_cong [OF u, of "of_nat :: nat \<Rightarrow> u64"] by simp
  ultimately show ?thesis using l by (simp add: ram_log_def)
qed

theorem sw_append_all_accepted_witness:
  "fst (sw_append_all [sample_entry, sample_entry] sw_zero) = [ALP_OK, ALP_OK] \<and>
   sw_counter (snd (sw_append_all [sample_entry, sample_entry] sw_zero)) = 2"
  using sw_append_all_accepted [of "[sample_entry, sample_entry]"
      "fst (sw_append_all [sample_entry, sample_entry] sw_zero)"
      "snd (sw_append_all [sample_entry, sample_entry] sw_zero)"] by simp

text \<open>
  C2. The verdict of verify is exact.  When verify returns \<open>ALP_OK\<close> it has repaired at most one
  torn append (\<open>spec_recover\<close>) and its verdict and bad sequence number say what
  \<open>verdict_spec\<close> says of the store and counter it leaves: \<open>OK\<close> precisely when the log is
  healthy, \<open>TRUNCATED\<close> the first missing slot, \<open>CHAIN_BROKEN\<close> the first entry that does not
  link, the frontier squatter or a head hash that disagrees, \<open>ROLLED_BACK\<close> a metadata count
  that disagrees or a second orphan.
\<close>

theorem sw_verify_verdict:
  assumes "ram_inv st" and "sw_verify (Some v0) (Some b0) st = (ALP_OK, vo, bo, st')"
  shows "ram_inv st' \<and> (ram_blobs st', sw_counter st') = spec_recover (ram_blobs st) (sw_counter st) \<and>
    (\<exists>v k. vo = Some v \<and> bo = Some k \<and> verdict_spec (ram_blobs st') (unat (sw_counter st')) v (unat k) \<and>
      (v = ALP_UPDATE_LOG_VERIFY_OK \<longleftrightarrow> healthy (ram_blobs st') (unat (sw_counter st'))))"
proof -
  from ram.verify_law [OF assms(1), of v0 "Some b0" ALP_OK vo bo st'] assms(2)
  obtain v k where v: "vo = Some v" "bo = Some k" "ram_inv st'"
    "(ram_blobs st', sw_counter st') = spec_recover (ram_blobs st) (sw_counter st)"
    "verdict_spec (ram_blobs st') (unat (sw_counter st')) v (unat k)"
    by (auto simp: sw_ops)
  then have "v = ALP_UPDATE_LOG_VERIFY_OK \<longleftrightarrow> healthy (ram_blobs st') (unat (sw_counter st'))"
    using healthy_verdict verdict_OK_healthy by blast
  then show ?thesis using v by blast
qed

text \<open>Verify returns \<open>ALP_OK\<close> on every held log of the tier, so the statuses below are real.\<close>

lemma ram_verify_held:
  assumes "ram_inv st" "holds_log (ram_blobs st) (sw_counter st) es" "ram_blobs st META_KEY \<noteq> None \<or> 0 < ram_room st"
  shows "\<exists>st'. sw_verify (Some v0) bad st = (ALP_OK, Some ALP_UPDATE_LOG_VERIFY_OK, map_option (\<lambda>_. 0) bad, st') \<and>
    ram_inv st' \<and> holds_log (ram_blobs st') (sw_counter st') es"
proof -
  obtain rc vo bo st' where r: "sw_verify (Some v0) bad st = (rc, vo, bo, st')" by (metis prod_cases4)
  then show ?thesis
    using ram.held_verifies [OF assms, of v0 bad rc vo bo st'] ram.verify_law [OF assms(1), of v0 bad rc vo bo st']
    by (auto simp: sw_ops)
qed

lemma ram_count_held:
  assumes "ram_inv st" "holds_log (ram_blobs st) (sw_counter st) es" "ram_blobs st META_KEY \<noteq> None \<or> 0 < ram_room st"
  shows "\<exists>st'. sw_count (Some n0) st = (ALP_OK, Some (of_nat (length es)), st') \<and>
      holds_log (ram_blobs st') (sw_counter st') es"
proof -
  obtain rc n st' where r: "sw_count (Some n0) st = (rc, n, st')" by (metis prod_cases3)
  have C: "rc = ALP_OK" using ram.count_live [OF assms, of n0 rc n st'] r by (simp add: sw_ops)
  have L: "recover_outcome (ram_blobs st) (sw_counter st) (ram_blobs st') (sw_counter st')"
    "spec_recover (ram_blobs st) (sw_counter st) = (ram_blobs st', sw_counter st')" "n = Some (sw_counter st')"
    using ram.count_law [OF assms(1), of n0 rc n st'] r C by (simp_all add: sw_ops)
  have "sw_counter st' = of_nat (length es)"
    using arg_cong [OF spec_recover_heals(3) [OF assms(2) L(2)], of "of_nat :: nat \<Rightarrow> u64"] by simp
  then show ?thesis using r C L recover_outcome_holds [OF assms(2) L(1)] by simp
qed

theorem sw_verify_verdict_witness:
  "\<exists>st'. sw_verify (Some ALP_UPDATE_LOG_VERIFY_ROLLED_BACK) (Some 7) torn_sample
       = (ALP_OK, Some ALP_UPDATE_LOG_VERIFY_OK, Some 0, st') \<and>
     healthy (ram_blobs st') (unat (sw_counter st'))"
proof -
  obtain st' where r: "sw_verify (Some ALP_UPDATE_LOG_VERIFY_ROLLED_BACK) (Some 7) torn_sample
       = (ALP_OK, Some ALP_UPDATE_LOG_VERIFY_OK, Some 0, st')"
    using ram_verify_held [OF torn_sample_holds(1,2) disjI2 [OF torn_sample_holds(4)],
        of ALP_UPDATE_LOG_VERIFY_ROLLED_BACK "Some 7"] by auto
  from sw_verify_verdict [OF torn_sample_holds(1) r] show ?thesis using r by blast
qed

text \<open>
  Recovery loses nothing.  On a store holding the log \<open>es\<close>, torn or not, verify reports
  \<open>OK\<close> and count reports the length of \<open>es\<close>; both leave a store holding \<open>es\<close>.
\<close>

theorem sw_recovers_held_log:
  assumes "ram_inv st" and "holds_log (ram_blobs st) (sw_counter st) es"
    and "ram_blobs st META_KEY \<noteq> None \<or> 0 < ram_room st"
  shows "(\<exists>st'. sw_verify (Some v0) bad st = (ALP_OK, Some ALP_UPDATE_LOG_VERIFY_OK, map_option (\<lambda>_. 0) bad, st') \<and>
      holds_log (ram_blobs st') (sw_counter st') es) \<and>
    (\<exists>st'. sw_count (Some n0) st = (ALP_OK, Some (of_nat (length es)), st') \<and>
      holds_log (ram_blobs st') (sw_counter st') es)"
  using ram_verify_held [OF assms, of v0 bad] ram_count_held [OF assms, of n0] by blast

theorem sw_recovers_held_log_witness:
  "\<exists>st'. sw_count (Some 9) torn_sample = (ALP_OK, Some 1, st') \<and> sw_counter torn_sample = 0"
  using sw_recovers_held_log [OF torn_sample_holds(1,2) disjI2 [OF torn_sample_holds(4)], of _ _ 9]
  by (auto simp: torn_sample_def)

text \<open>
  Reading back.  On a store holding \<open>es\<close>, getting sequence number \<open>seq\<close> returns the
  \<open>seq\<close>-th entry when there is one and \<open>ALP_ERR_NOT_FOUND\<close>, with the caller's buffer
  untouched, when there is none.
\<close>

theorem sw_get_reads_log:
  assumes "ram_inv st" and "holds_log (ram_blobs st) (sw_counter st) es" and "seq \<le> ULOG_SEQ_MAX"
  shows "\<exists>st'. sw_get_e seq (Some e0) st =
    (if unat seq < length es then (ALP_OK, Some (es ! unat seq), st') else (ALP_ERR_NOT_FOUND, Some e0, st'))"
proof -
  obtain rc e st' where r: "sw_get_e seq (Some e0) st = (rc, e, st')" by (metis prod_cases3)
  have "rc = ALP_OK \<or> rc = ALP_ERR_NOT_FOUND"
    using ram.get_entry_live [OF assms, of e0 rc e st'] r by (simp add: sw_ops)
  then show ?thesis using ram.get_entry_law [OF assms, of e0 rc e st'] r by (auto simp: sw_ops)
qed

theorem sw_get_reads_log_witness:
  "fst (snd (sw_get_e 0 (Some zero_entry) torn_sample)) = Some sample_entry \<and>
   fst (sw_get_e 1 (Some zero_entry) torn_sample) = ALP_ERR_NOT_FOUND"
proof -
  have "numbered 0 [sample_entry] = [sample_entry]"
    by (simp add: sample_entry_def entry_norm_def)
  then show ?thesis
    using sw_get_reads_log [OF torn_sample_holds(1,2), of 0 zero_entry]
      sw_get_reads_log [OF torn_sample_holds(1,2), of 1 zero_entry]
    by (auto simp: ULOG_SEQ_MAX_def)
qed

text \<open>
  \<open>OK\<close> means progress.  After a verify that reports \<open>OK\<close>, an append of an encodable
  entry succeeds as long as the store has a free slot for it (two when the metadata record
  does not exist yet).
\<close>

theorem sw_verify_ok_append_ok:
  assumes "ram_inv st" and "sw_verify (Some v0) bad st = (ALP_OK, Some ALP_UPDATE_LOG_VERIFY_OK, bo, st')"
    and "ram_blobs st' META_KEY \<noteq> None \<and> 0 < ram_room st' \<or> 1 < ram_room st'"
    and "entry_wf e" and "entry_encodable e"
  shows "\<exists>st''. sw_append (Some e) st' = (ALP_OK, st'') \<and> sw_counter st'' = sw_counter st' + 1"
proof -
  obtain rc st'' where r: "sw_append (Some e) st' = (rc, st'')" by fastforce
  have v: "ulog_engine_verify_anchored (Some g_store) (Some g_ctr) None (Some v0) bad st
      = (ALP_OK, Some ALP_UPDATE_LOG_VERIFY_OK, bo, st')" using assms(2) by (simp add: sw_ops)
  have a: "ulog_engine_append_anchored (Some g_store) (Some g_ctr) None (Some e) st' = (rc, st'')"
    using r by (simp add: sw_ops)
  show ?thesis
    using ram.verify_ok_append_ok [OF assms(1) v assms(3-5) a] r by auto
qed

theorem sw_verify_ok_append_ok_witness:
  "\<exists>st''. sw_append (Some sample_entry) (snd (snd (snd (sw_verify (Some ALP_UPDATE_LOG_VERIFY_OK) None sw_zero))))
      = (ALP_OK, st'')"
proof -
  have z: "ram_inv sw_zero" "holds_log (ram_blobs sw_zero) (sw_counter sw_zero) []" "ram_room sw_zero = 32"
    using sw_zero_log' by (auto simp: ram_log_def simp del: sw_zero_log')
  obtain st' where v: "sw_verify (Some ALP_UPDATE_LOG_VERIFY_OK) None sw_zero
      = (ALP_OK, Some ALP_UPDATE_LOG_VERIFY_OK, None, st')"
    using ram_verify_held [OF z(1,2), of ALP_UPDATE_LOG_VERIFY_OK None] z(3) by auto
  have "ram_room sw_zero \<le> ram_room st' + 1"
    using ram.verify_room [OF z(1), of ALP_UPDATE_LOG_VERIFY_OK None] z v by (simp add: sw_ops sw_zero_def)
  then have "1 < ram_room st'" using z by simp
  then show ?thesis using sw_verify_ok_append_ok [OF z(1) v _ sample_ok] v by auto
qed

text \<open>
  C21. A rollback by two is reported once and then laundered.  With the counter two behind a
  valid chain, the first verify reports \<open>ROLLED_BACK\<close>, and the very next one, with nothing
  else done in between, reports \<open>OK\<close>: each call adopts one orphan.
\<close>

theorem sw_rollback_laundered:
  assumes "ram_inv st" and "chained (ram_blobs st) (unat (sw_counter st) + 2)"
    and "slot (ram_blobs st) (unat (sw_counter st) + 2) = None" and "ram_blobs st META_KEY \<noteq> None"
  shows "\<exists>b1 st1 b2 st2.
    sw_verify (Some v0) bad st = (ALP_OK, Some ALP_UPDATE_LOG_VERIFY_ROLLED_BACK, b1, st1) \<and>
    sw_verify (Some v0) bad st1 = (ALP_OK, Some ALP_UPDATE_LOG_VERIFY_OK, b2, st2)"
proof -
  obtain rc1 v1 b1 st1 where r1: "sw_verify (Some v0) bad st = (rc1, v1, b1, st1)" by (metis prod_cases4)
  obtain rc2 v2 b2 st2 where r2: "sw_verify (Some v0) bad st1 = (rc2, v2, b2, st2)" by (metis prod_cases4)
  show ?thesis
    using ram.rollback_laundered [OF assms(1-3), of v0 bad rc1 v1 b1 st1 rc2 v2 b2 st2] assms(4) r1 r2
    by (simp add: sw_ops)
qed

text \<open>Two appends, then the counter set back to zero.\<close>

definition rewound_sample :: sw_state where
  "rewound_sample = (snd (sw_append_all [sample_entry, sample_entry] sw_zero))\<lparr>sw_counter := 0\<rparr>"

theorem sw_rollback_laundered_witness:
  "\<exists>b1 st1 b2 st2.
    sw_verify (Some ALP_UPDATE_LOG_VERIFY_OK) None rewound_sample = (ALP_OK, Some ALP_UPDATE_LOG_VERIFY_ROLLED_BACK, b1, st1) \<and>
    sw_verify (Some ALP_UPDATE_LOG_VERIFY_OK) None st1 = (ALP_OK, Some ALP_UPDATE_LOG_VERIFY_OK, b2, st2)"
proof -
  let ?st = "snd (sw_append_all [sample_entry, sample_entry] sw_zero)"
  have l: "ram_log ?st (numbered 0 [sample_entry, sample_entry])" using sample_run [of 2] by (simp add: numeral_2_eq_2)
  have "unat (sw_counter ?st) = 2" using ram_log_length(1) [OF l] by simp
  then have "ram_inv ?st" "chained (ram_blobs ?st) 2" "slot (ram_blobs ?st) 2 = None" "ram_blobs ?st META_KEY \<noteq> None"
    using l by (auto simp: ram_log_def healthy_def)
  then show ?thesis
    using sw_rollback_laundered [of rewound_sample ALP_UPDATE_LOG_VERIFY_OK None]
    by (simp add: rewound_sample_def rewind_blobs numeral_2_eq_2 del: sw_append_all.simps)
qed



section \<open>An external anchor over the RAM tier\<close>

text \<open>
  The engine's optional rollback anchor has no implementation in the tree, so it stays a
  parameter: an anchor that keeps its floor \<open>fl\<close> outside the tier (in the state's extension),
  whose read reports the floor, and whose advance only ever raises it.
\<close>

definition anchor_contract :: "('a \<Rightarrow> u64) \<Rightarrow> 'a sw_state_scheme counter_anchor_if \<Rightarrow> bool" where
  "anchor_contract fl a \<longleftrightarrow> (\<exists>rd adv. an_read a = Some rd \<and> an_advance a = Some adv \<and>
     (\<forall>st rc v st'. rd st = (rc, v, st') \<longrightarrow>
        sw_s st' = sw_s st \<and> sw_counter st' = sw_counter st \<and> fl (sw_state.more st') = fl (sw_state.more st) \<and>
        (rc = ALP_OK \<longrightarrow> v = fl (sw_state.more st))) \<and>
     (\<forall>n st rc st'. adv n st = (rc, st') \<longrightarrow>
        sw_s st' = sw_s st \<and> sw_counter st' = sw_counter st \<and>
        (fl (sw_state.more st') = max (fl (sw_state.more st)) n \<or>
         rc \<noteq> ALP_OK \<and> fl (sw_state.more st') = fl (sw_state.more st))))"

lemma ram_same: "sw_s st' = sw_s st \<Longrightarrow> ram_inv st' = ram_inv st \<and> ram_blobs st' = ram_blobs st"
  by (auto simp: ram_inv_def ram_blobs_def)

lemma ram_anchored:
  assumes "anchor_contract fl a"
  shows "ulog_seams g_store g_ctr (Some a) ram_inv ram_blobs sw_counter (\<lambda>st. fl (sw_state.more st))"
proof (unfold_locales, goal_cases)
  case 1
  then show ?case using assms by (auto simp: anchor_contract_def ulog_anchor_valid_def)
next
  case (2 w k cap rc b w')
  then show ?case by (auto simp: g_store_def ram_get_law split: option.splits if_splits)
next
  case (3 w k b rc w')
  then show ?case using ram_put_law [of w k b rc w'] by (auto simp: g_store_def)
next
  case (4 w rc v w')
  then show ?case by (auto simp: g_ctr_def sw_cread_def)
next
  case (5 w rc v w')
  then show ?case by (auto simp: g_ctr_def sw_cinc_def Let_def ram_inv_def ram_blobs_def)
next
  case (6 b rd w rc v w')
  then have "sw_s w' = sw_s w \<and> sw_counter w' = sw_counter w \<and> fl (sw_state.more w') = fl (sw_state.more w) \<and>
      (rc = ALP_OK \<longrightarrow> v = fl (sw_state.more w))"
    using assms by (auto simp: anchor_contract_def)
  then show ?case using 6 ram_same [of w' w] by simp
next
  case (7 b adv w n rc w')
  then have "sw_s w' = sw_s w \<and> sw_counter w' = sw_counter w \<and>
      (fl (sw_state.more w') = max (fl (sw_state.more w)) n \<or> rc \<noteq> ALP_OK \<and> fl (sw_state.more w') = fl (sw_state.more w))"
    using assms by (clarsimp simp: anchor_contract_def)
  then show ?case using 7 ram_same [of w' w] by auto
qed

text \<open>
  C20. The anchor never overtakes the log.  If the external floor is at most the committed
  count, it still is after an anchored append, whatever that append returns; after an
  \<open>ALP_OK\<close> on a held log it equals the new count.
\<close>

theorem anchored_append_floor:
  assumes "anchor_contract fl a" and "ram_inv st" and "entry_wf e"
    and "ulog_engine_append_anchored (Some g_store) (Some g_ctr) (Some a) (Some e) st = (rc, st')"
    and "fl (sw_state.more st) \<le> sw_counter st"
  shows "fl (sw_state.more st') \<le> sw_counter st' \<and>
    (rc = ALP_OK \<and> holds_log (ram_blobs st) (sw_counter st) es \<and> length es + 1 < SEQ_SPACE \<longrightarrow>
       fl (sw_state.more st') = sw_counter st' \<and> sw_counter st' = of_nat (length es + 1))"
  using ulog_seams.append_keeps_floor [OF ram_anchored [OF assms(1)] assms(2,3,5,4)]
    ulog_seams.append_law [OF ram_anchored [OF assms(1)] assms(2) _ _ assms(3,4), of es] by auto

text \<open>
  A rewound store is refused.  When the external floor exceeds the count the store
  recovers to, an anchored append fails and writes no entry: the store is as it was, or
  repaired by the one adoption recovery makes, and the floor is not moved.
\<close>

theorem anchored_append_refuses_rollback:
  assumes "anchor_contract fl a" and "ram_inv st" and "sw_counter st \<noteq> - 1"
    and "snd (spec_recover (ram_blobs st) (sw_counter st)) < fl (sw_state.more st)"
    and "ulog_engine_append_anchored (Some g_store) (Some g_ctr) (Some a) (Some e) st = (rc, st')"
  shows "rc \<noteq> ALP_OK \<and> fl (sw_state.more st') = fl (sw_state.more st) \<and>
    recover_outcome (ram_blobs st) (sw_counter st) (ram_blobs st') (sw_counter st')"
  using ulog_seams.append_refuses_rollback [OF ram_anchored [OF assms(1)] assms(2,3) _ assms(4,5)] by simp

text \<open>An anchor that meets the contract: a cell beside the tier.\<close>

definition cell_anchor :: "u64 sw_state_scheme counter_anchor_if" where
  "cell_anchor = \<lparr>an_read = Some (\<lambda>st. (ALP_OK, sw_state.more st, st)),
     an_advance = Some (\<lambda>n st. (ALP_OK, sw_state.more_update (\<lambda>m. max m n) st))\<rparr>"

definition zero_with :: "u64 \<Rightarrow> u64 sw_state_scheme" where
  "zero_with m = sw_state.extend sw_zero m"

lemma cell_anchor_ok: "anchor_contract (\<lambda>m. m) cell_anchor"
  by (auto simp: anchor_contract_def cell_anchor_def)

lemma zero_with_facts: "ram_log (zero_with m) []" "sw_counter (zero_with m) = 0" "sw_state.more (zero_with m) = m"
  by (simp_all add: zero_with_def) (simp_all add: sw_state.extend_def sw_zero_def)

theorem anchored_append_floor_witness:
  "\<exists>rc st'. ulog_engine_append_anchored (Some g_store) (Some g_ctr) (Some cell_anchor) (Some sample_entry) (zero_with 0)
      = (rc, st') \<and> sw_state.more st' \<le> sw_counter st'"
proof -
  obtain rc st' where r: "ulog_engine_append_anchored (Some g_store) (Some g_ctr) (Some cell_anchor)
      (Some sample_entry) (zero_with 0) = (rc, st')" by fastforce
  from anchored_append_floor [OF cell_anchor_ok _ _ r] show ?thesis
    using r zero_with_facts [of 0] by (auto simp: ram_log_def)
qed

theorem anchored_append_refuses_rollback_witness:
  "\<exists>rc st'. ulog_engine_append_anchored (Some g_store) (Some g_ctr) (Some cell_anchor) (Some sample_entry) (zero_with 5)
      = (rc, st') \<and> rc \<noteq> ALP_OK \<and> sw_state.more st' = 5"
proof -
  obtain rc st' where r: "ulog_engine_append_anchored (Some g_store) (Some g_ctr) (Some cell_anchor)
      (Some sample_entry) (zero_with 5) = (rc, st')" by fastforce
  have "\<not> orphan (ram_blobs (zero_with 5)) 0"
    using zero_with_facts [of 5] healthy_not_orphan by (auto simp: ram_log_def)
  then have "spec_recover (ram_blobs (zero_with 5)) (sw_counter (zero_with 5)) = (ram_blobs (zero_with 5), 0)"
    by (simp add: spec_recover_def zero_with_facts)
  with anchored_append_refuses_rollback [OF cell_anchor_ok _ _ _ r] show ?thesis
    using r zero_with_facts [of 5] by (auto simp: ram_log_def)
qed

end
