(* ===== verification/Backend_Registry.thy ===== *)
theory Backend_Registry
  imports Alp_Prelude "HOL-Library.List_Lexorder" "HOL-Library.Char_ord" "HOL-Library.Product_Lexorder"
begin

text \<open>
  The backend selector (\<^verbatim>\<open>src/backend.c\<close>, with the types of \<^verbatim>\<open>include/alp/backend.h\<close>).  The linker
  lays the registered backends out in one array per class; here a memory gives the backend
  at each address and a class range is an address interval, so that the pointer comparison
  \<^verbatim>\<open>be == prev\<close> is kept.  \<^verbatim>\<open>strcmp\<close> is the lexicographic order on strings.

  The tiebreaker is shown to be the strict order of a rank, an instance of \<open>linorder\<close>; the
  selector returns a candidate of the greatest rank below the previous one, so its choice
  does not depend on link order, and walking it visits every rank once, in descending
  order, and ends.  The locale \<open>ranked_selector\<close> is that contract, which the dispatchers'
  fall-through loops rely on.
\<close>

section \<open>Backends and ranges\<close>

record 'o alp_backend =
  be_silicon_ref :: "string option"
  be_vendor :: "string option"
  be_base_caps :: u32
  be_base_class_flags :: u32
  be_priority :: u8
  be_ops :: "'o option"

type_synonym 'o backend_memory = "nat \<Rightarrow> 'o alp_backend"

record backend_class_range =
  cr_class_name :: string
  cr_start :: nat
  cr_stop :: nat

section \<open>The selector\<close>

definition is_wildcard :: "'o alp_backend \<Rightarrow> bool" where
  "is_wildcard be \<longleftrightarrow> be_silicon_ref be = Some ''*''"

definition candidate_beats_best :: "'o alp_backend \<Rightarrow> 'o alp_backend \<Rightarrow> bool" where
  "candidate_beats_best cand best =
     (if be_priority cand \<noteq> be_priority best then be_priority cand > be_priority best
      else if is_wildcard cand \<noteq> is_wildcard best then \<not> is_wildcard cand
      else case be_vendor cand of
             None \<Rightarrow> False
           | Some vc \<Rightarrow> (case be_vendor best of None \<Rightarrow> True | Some vb \<Rightarrow> vc < vb))"

text \<open>The loop body of \<open>select_in_range\<close>, and the loop from \<open>be\<close> to \<open>stop\<close>.\<close>

definition select_step ::
  "'o backend_memory \<Rightarrow> string option \<Rightarrow> nat option \<Rightarrow> nat option \<Rightarrow> nat \<Rightarrow> nat option" where
  "select_step mem silicon_ref prev best be =
     (let wild = is_wildcard (mem be);
          exact = (be_silicon_ref (mem be) \<noteq> None \<and> silicon_ref \<noteq> None \<and> be_silicon_ref (mem be) = silicon_ref)
      in if \<not> wild \<and> \<not> exact then best
         else if (case prev of None \<Rightarrow> False | Some p \<Rightarrow> be = p \<or> \<not> candidate_beats_best (mem p) (mem be)) then best
         else (case best of
                 None \<Rightarrow> Some be
               | Some b \<Rightarrow> if candidate_beats_best (mem be) (mem b) then Some be else best))"

definition select_in_range ::
  "'o backend_memory \<Rightarrow> nat \<Rightarrow> nat \<Rightarrow> string option \<Rightarrow> nat option \<Rightarrow> nat option" where
  "select_in_range mem start stop silicon_ref prev =
     foldl (select_step mem silicon_ref prev) None [start..<stop]"

fun find_class :: "backend_class_range list \<Rightarrow> string \<Rightarrow> backend_class_range option" where
  "find_class [] class_name = None"
| "find_class (c # cs) class_name = (if cr_class_name c = class_name then Some c else find_class cs class_name)"

definition alp_backend_select_next ::
  "'o backend_memory \<Rightarrow> backend_class_range list \<Rightarrow> string option \<Rightarrow> string option \<Rightarrow> nat option \<Rightarrow> nat option" where
  "alp_backend_select_next mem classes class_name silicon_ref prev =
     (case class_name of
        None \<Rightarrow> None
      | Some cn \<Rightarrow>
          if silicon_ref = None then None
          else (case find_class classes cn of
                  None \<Rightarrow> None
                | Some c \<Rightarrow> select_in_range mem (cr_start c) (cr_stop c) silicon_ref prev))"

definition alp_backend_select ::
  "'o backend_memory \<Rightarrow> backend_class_range list \<Rightarrow> string option \<Rightarrow> string option \<Rightarrow> nat option" where
  "alp_backend_select mem classes class_name silicon_ref =
     alp_backend_select_next mem classes class_name silicon_ref None"

definition alp_backend_count :: "backend_class_range list \<Rightarrow> string option \<Rightarrow> nat" where
  "alp_backend_count classes class_name =
     (case class_name of
        None \<Rightarrow> 0
      | Some cn \<Rightarrow> (case find_class classes cn of None \<Rightarrow> 0 | Some c \<Rightarrow> cr_stop c - cr_start c))"

section \<open>Ranks\<close>

text \<open>A vendor ranks by its string, the smaller the better, a missing vendor worst.\<close>

datatype vendor_rank = Vendor_Rank "string option"

fun vendor_less :: "vendor_rank \<Rightarrow> vendor_rank \<Rightarrow> bool" where
  "vendor_less (Vendor_Rank (Some v)) (Vendor_Rank (Some v')) = (v' < v)"
| "vendor_less (Vendor_Rank None) (Vendor_Rank (Some v')) = True"
| "vendor_less _ (Vendor_Rank None) = False"

instantiation vendor_rank :: linorder
begin

definition less_vendor_rank :: "vendor_rank \<Rightarrow> vendor_rank \<Rightarrow> bool" where
  "less_vendor_rank r s \<longleftrightarrow> vendor_less r s"

definition less_eq_vendor_rank :: "vendor_rank \<Rightarrow> vendor_rank \<Rightarrow> bool" where
  "less_eq_vendor_rank r s \<longleftrightarrow> r = s \<or> vendor_less r s"

instance
proof
  have irr: "\<not> vendor_less v v" for v
  proof (cases v)
    case (Vendor_Rank x)
    then show ?thesis by (cases x) auto
  qed
  have tr: "vendor_less u v \<Longrightarrow> vendor_less v x \<Longrightarrow> vendor_less u x" for u v x
    by (auto elim!: vendor_less.elims)
  have tot: "u = v \<or> vendor_less u v \<or> vendor_less v u" for u v
  proof (cases u; cases v)
    fix a b
    assume "u = Vendor_Rank a" "v = Vendor_Rank b"
    then show ?thesis by (cases a; cases b) auto
  qed
  fix r s t :: vendor_rank
  show "(r < s) = (r \<le> s \<and> \<not> s \<le> r)"
    using irr tr by (auto simp: less_eq_vendor_rank_def less_vendor_rank_def)
  show "r \<le> r" by (simp add: less_eq_vendor_rank_def)
  show "r \<le> s \<Longrightarrow> s \<le> t \<Longrightarrow> r \<le> t" using tr by (auto simp: less_eq_vendor_rank_def)
  show "r \<le> s \<Longrightarrow> s \<le> r \<Longrightarrow> r = s" using irr tr by (auto simp: less_eq_vendor_rank_def)
  show "r \<le> s \<or> s \<le> r" using tot [of r s] by (auto simp: less_eq_vendor_rank_def)
qed

end

text \<open>Priority, then an exact silicon match over the wildcard, then the vendor.\<close>

type_synonym backend_rank = "u8 \<times> bool \<times> vendor_rank"

definition rank_of :: "'o alp_backend \<Rightarrow> backend_rank" where
  "rank_of be = (be_priority be, \<not> is_wildcard be, Vendor_Rank (be_vendor be))"

lemma beats_iff_rank: "candidate_beats_best cand best \<longleftrightarrow> rank_of best < rank_of cand"
proof -
  have "Vendor_Rank a < Vendor_Rank b \<longleftrightarrow>
      (case b of None \<Rightarrow> False | Some vc \<Rightarrow> (case a of None \<Rightarrow> True | Some vb \<Rightarrow> vc < vb))" for a b
    by (cases a; cases b) (auto simp: less_vendor_rank_def)
  then show ?thesis
    by (simp add: candidate_beats_best_def rank_of_def less_prod_simp) (auto simp: less_le)
qed

text \<open>The candidates of a range: those that pass the silicon filter.\<close>

definition candidates :: "'o backend_memory \<Rightarrow> nat \<Rightarrow> nat \<Rightarrow> string option \<Rightarrow> nat set" where
  "candidates mem start stop silicon_ref =
     {be \<in> {start..<stop}. is_wildcard (mem be) \<or>
        be_silicon_ref (mem be) \<noteq> None \<and> be_silicon_ref (mem be) = silicon_ref}"

definition below :: "'o backend_memory \<Rightarrow> nat option \<Rightarrow> nat \<Rightarrow> bool" where
  "below mem prev be \<longleftrightarrow> (case prev of None \<Rightarrow> True | Some p \<Rightarrow> rank_of (mem be) < rank_of (mem p))"

text \<open>After the loop, \<open>best\<close> is a greatest candidate below \<open>prev\<close> among those seen.\<close>

definition best_of :: "'o backend_memory \<Rightarrow> nat set \<Rightarrow> nat option \<Rightarrow> bool" where
  "best_of mem C best \<longleftrightarrow>
     (case best of None \<Rightarrow> C = {} | Some b \<Rightarrow> b \<in> C \<and> (\<forall>c \<in> C. rank_of (mem c) \<le> rank_of (mem b)))"

lemma select_step_best:
  assumes "best_of mem {c \<in> candidates mem start n silicon_ref. below mem prev c} best" "start \<le> n"
  shows "best_of mem {c \<in> candidates mem start (Suc n) silicon_ref. below mem prev c}
           (select_step mem silicon_ref prev best n)"
proof -
  let ?new = "(is_wildcard (mem n) \<or> be_silicon_ref (mem n) \<noteq> None \<and> be_silicon_ref (mem n) = silicon_ref) \<and> below mem prev n"
  have C: "{c \<in> candidates mem start (Suc n) silicon_ref. below mem prev c} =
      (if ?new then insert n {c \<in> candidates mem start n silicon_ref. below mem prev c}
       else {c \<in> candidates mem start n silicon_ref. below mem prev c})"
    using assms(2) by (auto simp: candidates_def less_Suc_eq)
  have step: "select_step mem silicon_ref prev best n =
      (if ?new then (case best of None \<Rightarrow> Some n
         | Some b \<Rightarrow> if rank_of (mem b) < rank_of (mem n) then Some n else best) else best)"
    by (auto simp: select_step_def below_def beats_iff_rank Let_def split: option.splits)
  show ?thesis
    using assms(1) unfolding C step
    by (auto simp: best_of_def not_less intro: less_imp_le order_trans split: option.splits if_splits)
qed

lemma select_in_range_best:
  "best_of mem {c \<in> candidates mem start stop silicon_ref. below mem prev c}
     (select_in_range mem start stop silicon_ref prev)"
proof (induction stop)
  case 0
  then show ?case by (simp add: select_in_range_def best_of_def candidates_def)
next
  case (Suc n)
  show ?case
  proof (cases "start \<le> n")
    case True
    then show ?thesis using select_step_best [OF Suc True] by (simp add: select_in_range_def)
  next
    case False
    then show ?thesis by (simp add: select_in_range_def best_of_def candidates_def)
  qed
qed

section \<open>The contract of a ranked selector\<close>

text \<open>The walk a dispatcher makes with a selector, at most \<open>n\<close> steps: the candidates in the
  order they are tried.\<close>

fun ranked_walk :: "('p option \<Rightarrow> 'p option) \<Rightarrow> nat \<Rightarrow> 'p option \<Rightarrow> 'p list" where
  "ranked_walk select 0 prev = []"
| "ranked_walk select (Suc n) prev = (case select prev of None \<Rightarrow> [] | Some p \<Rightarrow> p # ranked_walk select n (Some p))"

text \<open>What is left to try after \<open>prev\<close>.\<close>

definition ranked_remaining :: "'p set \<Rightarrow> ('p \<Rightarrow> 'r::linorder) \<Rightarrow> 'p option \<Rightarrow> 'p set" where
  "ranked_remaining cands rank prev = {c \<in> cands. \<forall>q. prev = Some q \<longrightarrow> rank c < rank q}"

locale ranked_selector =
  fixes select_next :: "'p option \<Rightarrow> 'p option"
    and cands :: "'p set"
    and rank :: "'p \<Rightarrow> 'r::linorder"
  assumes finite_cands: "finite cands"
    and next_Some: "select_next prev = Some p \<Longrightarrow>
      p \<in> cands \<and> (\<forall>q. prev = Some q \<longrightarrow> rank p < rank q) \<and>
      (\<forall>c \<in> cands. (\<forall>q. prev = Some q \<longrightarrow> rank c < rank q) \<longrightarrow> rank c \<le> rank p)"
    and next_None: "select_next prev = None \<Longrightarrow> c \<in> cands \<Longrightarrow> \<exists>q. prev = Some q \<and> \<not> rank c < rank q"
begin

abbreviation remaining :: "'p option \<Rightarrow> 'p set" where
  "remaining \<equiv> ranked_remaining cands rank"

lemmas remaining_def = ranked_remaining_def

lemma remaining_next:
  assumes "select_next prev = Some p"
  shows "remaining (Some p) \<subset> remaining prev"
    and "card (remaining (Some p)) < card (remaining prev)"
    and "rank ` remaining prev = insert (rank p) (rank ` remaining (Some p))"
proof -
  have p: "p \<in> cands" "\<And>q. prev = Some q \<Longrightarrow> rank p < rank q" "\<And>c. c \<in> remaining prev \<Longrightarrow> rank c \<le> rank p"
    using next_Some [OF assms] by (auto simp: remaining_def)
  show sub: "remaining (Some p) \<subset> remaining prev"
    using p(1,2) by (auto simp: remaining_def intro: less_trans)
  have "finite (remaining prev)" using finite_cands by (simp add: remaining_def)
  then show "card (remaining (Some p)) < card (remaining prev)" using sub by (rule psubset_card_mono)
  have "c \<in> remaining prev \<Longrightarrow> rank c = rank p \<or> c \<in> remaining (Some p)" for c
    using p(3) by (fastforce simp: remaining_def)
  moreover have "p \<in> remaining prev" using p by (simp add: remaining_def)
  ultimately show "rank ` remaining prev = insert (rank p) (rank ` remaining (Some p))"
    using sub by (auto simp: image_iff)
qed

lemma walk_ranks:
  "card (remaining prev) \<le> n \<Longrightarrow> rank ` set (ranked_walk select_next n prev) = rank ` remaining prev"
proof (induction n arbitrary: prev)
  case 0
  then show ?case using finite_cands by (simp add: remaining_def)
next
  case (Suc n)
  show ?case
  proof (cases "select_next prev")
    case None
    then have "remaining prev = {}" using next_None [OF None] by (auto simp: remaining_def)
    then show ?thesis using None by simp
  next
    case (Some p)
    then have "card (remaining (Some p)) \<le> n" using remaining_next(2) [OF Some] Suc.prems by simp
    then show ?thesis using Suc.IH Some remaining_next(3) [OF Some] by simp
  qed
qed

lemma walk_below:
  "p \<in> set (ranked_walk select_next n prev) \<Longrightarrow> p \<in> cands \<and> (\<forall>q. prev = Some q \<longrightarrow> rank p < rank q)"
proof (induction n arbitrary: prev)
  case (Suc n)
  obtain p0 where p0: "select_next prev = Some p0" "p = p0 \<or> p \<in> set (ranked_walk select_next n (Some p0))"
    using Suc.prems by (cases "select_next prev") auto
  then show ?case using Suc.IH [of "Some p0"] next_Some [OF p0(1)] by (auto intro: less_trans)
qed simp

lemma walk_descending: "sorted_wrt (>) (map rank (ranked_walk select_next n prev))"
  by (induction n arbitrary: prev) (auto split: option.splits dest: walk_below)

lemma walk_complete:
  "rank ` set (ranked_walk select_next (card cands) None) = rank ` cands"
  using walk_ranks [of None "card cands"] by (simp add: remaining_def)

end

interpretation registry: ranked_selector
  "select_in_range mem start stop silicon_ref" "candidates mem start stop silicon_ref" "\<lambda>be. rank_of (mem be)"
  for mem :: "'o backend_memory" and start stop :: nat and silicon_ref :: "string option"
proof
  show "finite (candidates mem start stop silicon_ref)" by (simp add: candidates_def)
next
  fix prev p
  assume "select_in_range mem start stop silicon_ref prev = Some p"
  then show "p \<in> candidates mem start stop silicon_ref \<and> (\<forall>q. prev = Some q \<longrightarrow> rank_of (mem p) < rank_of (mem q)) \<and>
      (\<forall>c \<in> candidates mem start stop silicon_ref.
         (\<forall>q. prev = Some q \<longrightarrow> rank_of (mem c) < rank_of (mem q)) \<longrightarrow> rank_of (mem c) \<le> rank_of (mem p))"
    using select_in_range_best [of mem start stop silicon_ref prev]
    by (auto simp: best_of_def below_def split: option.splits)
next
  fix prev c
  assume "select_in_range mem start stop silicon_ref prev = None" "c \<in> candidates mem start stop silicon_ref"
  then show "\<exists>q. prev = Some q \<and> \<not> rank_of (mem c) < rank_of (mem q)"
    using select_in_range_best [of mem start stop silicon_ref prev]
    by (auto simp: best_of_def below_def split: option.splits)
qed

section \<open>Properties\<close>

text \<open>
  C6. The selector picks the best candidate.  For a registered class it returns NULL
  precisely when no backend of the class matches the silicon below the rank of \<open>prev\<close>, and
  otherwise a matching one, ranked strictly below \<open>prev\<close>, that no other such candidate
  outranks.
\<close>

theorem select_next_best:
  fixes mem :: "'o backend_memory" and prev :: "nat option" and soc :: string
  assumes "find_class classes cn = Some c"
  defines "C \<equiv> {be \<in> candidates mem (cr_start c) (cr_stop c) (Some soc). below mem prev be}"
  shows "case alp_backend_select_next mem classes (Some cn) (Some soc) prev of
      None \<Rightarrow> C = {}
    | Some b \<Rightarrow> b \<in> C \<and> (\<forall>be \<in> C. \<not> candidate_beats_best (mem be) (mem b))"
  using select_in_range_best [of mem "cr_start c" "cr_stop c" "Some soc" prev] assms(1)
  by (auto simp: alp_backend_select_next_def C_def best_of_def beats_iff_rank not_less split: option.splits)

definition sample_backends :: "unit backend_memory" where
  "sample_backends a =
     (if a = 0 then \<lparr>be_silicon_ref = Some ''*'', be_vendor = Some ''sw_tier'', be_base_caps = 0,
        be_base_class_flags = 0, be_priority = 10, be_ops = Some ()\<rparr>
      else \<lparr>be_silicon_ref = Some ''e7'', be_vendor = Some ''tfm'', be_base_caps = 0,
        be_base_class_flags = 0, be_priority = 100, be_ops = Some ()\<rparr>)"

definition sample_classes :: "backend_class_range list" where
  "sample_classes = [\<lparr>cr_class_name = ''update_log'', cr_start = 0, cr_stop = 2\<rparr>]"

theorem select_next_best_witness:
  "alp_backend_select_next sample_backends sample_classes (Some ''update_log'') (Some ''e7'') (Some 1) = Some 0 \<and>
   0 \<in> candidates sample_backends 0 2 (Some ''e7'')"
proof -
  have "alp_backend_select_next sample_backends sample_classes (Some ''update_log'') (Some ''e7'') (Some 1) = Some 0"
    by (simp add: alp_backend_select_next_def sample_classes_def select_in_range_def select_step_def sample_backends_def
        candidate_beats_best_def is_wildcard_def upt_rec)
  then show ?thesis
    using select_next_best [of sample_classes "''update_log''"
        "\<lparr>cr_class_name = ''update_log'', cr_start = 0, cr_stop = 2\<rparr>" sample_backends "''e7''" "Some 1"]
    by (simp add: sample_classes_def)
qed

text \<open>
  Selection does not depend on link order.  Two layouts of a class whose candidates have
  the same ranks select backends of the same rank; when the ranks tell the backends apart,
  that is the same registration.
\<close>

theorem select_link_order_independent:
  assumes "rank_of ` mem ` candidates mem s1 t1 (Some soc) = rank_of ` mem' ` candidates mem' s2 t2 (Some soc)"
  shows "map_option (\<lambda>b. rank_of (mem b)) (select_in_range mem s1 t1 (Some soc) None) =
    map_option (\<lambda>b. rank_of (mem' b)) (select_in_range mem' s2 t2 (Some soc) None)"
proof -
  have top: "map_option (\<lambda>b. rank_of (m b)) (select_in_range m s t (Some soc) None) =
      (let R = rank_of ` m ` candidates m s t (Some soc) in if R = {} then None else Some (Max R))"
    for m :: "'o backend_memory" and s t
  proof (cases "select_in_range m s t (Some soc) None")
    case None
    then show ?thesis using select_in_range_best [of m s t "Some soc" None] by (simp add: best_of_def below_def)
  next
    case (Some b)
    then have "b \<in> candidates m s t (Some soc)" "\<And>c. c \<in> candidates m s t (Some soc) \<Longrightarrow> rank_of (m c) \<le> rank_of (m b)"
      using select_in_range_best [of m s t "Some soc" None] by (simp_all add: best_of_def below_def)
    moreover have "finite (candidates m s t (Some soc))" by (simp add: candidates_def)
    ultimately have "Max (rank_of ` m ` candidates m s t (Some soc)) = rank_of (m b)"
      by (intro Max_eqI) auto
    then show ?thesis using Some \<open>b \<in> _\<close> by auto
  qed
  show ?thesis unfolding top assms ..
qed

definition swapped_backends :: "unit backend_memory" where
  "swapped_backends a = sample_backends (1 - a)"

theorem select_link_order_independent_witness:
  "map_option (\<lambda>b. rank_of (sample_backends b)) (select_in_range sample_backends 0 2 (Some ''e7'') None) =
   map_option (\<lambda>b. rank_of (swapped_backends b)) (select_in_range swapped_backends 0 2 (Some ''e7'') None)"
proof (rule select_link_order_independent)
  have "candidates sample_backends 0 2 (Some ''e7'') = {0, 1}" "candidates swapped_backends 0 2 (Some ''e7'') = {0, 1}"
    by (auto simp: candidates_def sample_backends_def swapped_backends_def is_wildcard_def)
  then show "rank_of ` sample_backends ` candidates sample_backends 0 2 (Some ''e7'') =
    rank_of ` swapped_backends ` candidates swapped_backends 0 2 (Some ''e7'')"
    by (auto simp: swapped_backends_def)
qed


end
