(* ===== verification/Slot_Claim.thy ===== *)
theory Slot_Claim
  imports Alp_Prelude
begin

text \<open>
  The handle guard every class dispatcher is built on (\<^verbatim>\<open>src/common/alp_slot_claim.h\<close> and
  \<^verbatim>\<open>src/common/alp_slot_claim.c\<close>): the atomic claim of a pool slot, the lifecycle byte, the
  counted entry into an operation, the close that waits for the operations inside to leave,
  and the self-close that is deferred to the operation's own wrapper.

  The functions are given first as what one thread's call does to the fields it is passed.
  Then a handle is put under concurrent use: threads step through the same atomic accesses
  in any interleaving (\<open>hstep\<close>), with at most \<open>N\<close> threads, and the safety of the guard is an
  invariant of the reachable states.  The pooled dispatchers zero the slot, counter
  included, when they claim it (\<open>zeroing\<close>); the update-log singleton does not.  The guard is
  shown safe without the zeroing and unsafe with it.
\<close>

section \<open>The functions, one call at a time\<close>

abbreviation ALP_HANDLE_LC_UNOPENED :: u8 where "ALP_HANDLE_LC_UNOPENED \<equiv> 0"
abbreviation ALP_HANDLE_LC_OPEN :: u8 where "ALP_HANDLE_LC_OPEN \<equiv> 1"
abbreviation ALP_HANDLE_LC_CLOSING :: u8 where "ALP_HANDLE_LC_CLOSING \<equiv> 2"

definition alp_slot_try_claim :: "bool \<Rightarrow> bool \<times> bool" where
  "alp_slot_try_claim in_use = (if \<not> in_use then (True, True) else (False, in_use))"

definition alp_slot_is_claimed :: "bool \<Rightarrow> bool" where
  "alp_slot_is_claimed in_use = in_use"

definition alp_slot_release :: "bool \<Rightarrow> bool" where
  "alp_slot_release in_use = False"

definition alp_lifecycle_cas :: "u8 \<Rightarrow> u8 \<Rightarrow> u8 \<Rightarrow> bool \<times> u8" where
  "alp_lifecycle_cas state from to = (if state = from then (True, to) else (False, state))"

definition alp_lifecycle_get :: "u8 \<Rightarrow> u8" where
  "alp_lifecycle_get state = state"

definition alp_lifecycle_set :: "u8 \<Rightarrow> u8 \<Rightarrow> u8" where
  "alp_lifecycle_set state v = v"

definition alp_handle_op_enter :: "u8 \<Rightarrow> u32 \<Rightarrow> bool \<times> u32" where
  "alp_handle_op_enter lifecycle active_ops =
     (let active_ops = active_ops + 1
      in if alp_lifecycle_get lifecycle = ALP_HANDLE_LC_OPEN then (True, active_ops)
         else (False, active_ops - 1))"

definition alp_handle_op_leave :: "u32 \<Rightarrow> u32" where
  "alp_handle_op_leave active_ops = active_ops - 1"

text \<open>The drain: \<open>None\<close> is a wait that only another thread's leave can end.\<close>

definition alp_handle_drain_blocking :: "u32 \<Rightarrow> unit option" where
  "alp_handle_drain_blocking active_ops = (if active_ops \<noteq> 0 then None else Some ())"

definition alp_handle_begin_close_blocking :: "u8 \<Rightarrow> u32 \<Rightarrow> (bool \<times> u8) option" where
  "alp_handle_begin_close_blocking lifecycle active_ops =
     (case alp_lifecycle_cas lifecycle ALP_HANDLE_LC_OPEN ALP_HANDLE_LC_CLOSING of
        (False, lifecycle) \<Rightarrow> Some (False, lifecycle)
      | (True, lifecycle) \<Rightarrow> map_option (\<lambda>_. (True, lifecycle)) (alp_handle_drain_blocking active_ops))"

datatype alp_handle_close_mode = ALP_HANDLE_CLOSE_NOW | ALP_HANDLE_CLOSE_DEFERRED

text \<open>The callback marker: thread tokens are nonzero words, zero means none.\<close>

definition alp_handle_cb_enter :: "u64 \<Rightarrow> u64 \<Rightarrow> bool \<Rightarrow> bool \<times> u64 \<times> bool" where
  "alp_handle_cb_enter self cb_thread cb_active =
     (if cb_active then (False, cb_thread, cb_active) else (True, self, True))"

definition alp_handle_cb_leave :: "u64 \<Rightarrow> bool \<Rightarrow> bool \<Rightarrow> u64 \<times> bool" where
  "alp_handle_cb_leave cb_thread cb_active owned =
     (if \<not> owned then (cb_thread, cb_active) else (0, False))"

definition alp_handle_begin_close_selfaware ::
  "u64 \<Rightarrow> u8 \<Rightarrow> u32 \<Rightarrow> bool \<Rightarrow> u64 \<Rightarrow> alp_handle_close_mode \<Rightarrow> bool \<Rightarrow>
   (bool \<times> u8 \<times> alp_handle_close_mode \<times> bool) option" where
  "alp_handle_begin_close_selfaware self lifecycle active_ops cb_active cb_thread mode close_pending =
     (case alp_lifecycle_cas lifecycle ALP_HANDLE_LC_OPEN ALP_HANDLE_LC_CLOSING of
        (False, lifecycle) \<Rightarrow> Some (False, lifecycle, mode, close_pending)
      | (True, lifecycle) \<Rightarrow>
          if cb_active \<and> cb_thread = self then Some (True, lifecycle, ALP_HANDLE_CLOSE_DEFERRED, True)
          else map_option (\<lambda>_. (True, lifecycle, ALP_HANDLE_CLOSE_NOW, close_pending))
                 (alp_handle_drain_blocking active_ops))"

definition alp_handle_take_deferred_close :: "bool \<Rightarrow> bool \<times> bool" where
  "alp_handle_take_deferred_close close_pending = (close_pending, False)"

section \<open>A handle under concurrent use\<close>

text \<open>Where a thread is in its call on the handle, between two atomic accesses.\<close>

datatype hpc =
    Idle
  | Enter_Counted       \<comment> \<open>\<open>op_enter\<close>: counted, lifecycle not read yet\<close>
  | Enter_Refused       \<comment> \<open>\<open>op_enter\<close>: read a lifecycle other than OPEN, count not backed out yet\<close>
  | In_Op               \<comment> \<open>inside the backend operation\<close>
  | Close_Draining      \<comment> \<open>won OPEN to CLOSING, waiting for the count\<close>
  | Close_Tearing       \<comment> \<open>drained, inside the backend's close\<close>
  | Close_Releasing     \<comment> \<open>lifecycle set UNOPENED, slot not released yet\<close>
  | Open_Claimed        \<comment> \<open>claimed the slot, fields not initialised yet\<close>
  | Open_Initialised    \<comment> \<open>fields initialised, not published as OPEN yet\<close>

record hstate =
  hs_lifecycle :: u8
  hs_active_ops :: u32
  hs_in_use :: bool
  hs_pc :: "nat \<Rightarrow> hpc"

definition hs_init :: hstate where
  "hs_init = \<lparr>hs_lifecycle = ALP_HANDLE_LC_UNOPENED, hs_active_ops = 0, hs_in_use = False, hs_pc = (\<lambda>_. Idle)\<rparr>"

abbreviation goto :: "nat \<Rightarrow> hpc \<Rightarrow> hstate \<Rightarrow> hstate" where
  "goto t p s \<equiv> s\<lparr>hs_pc := (hs_pc s)(t := p)\<rparr>"

text \<open>One atomic access of one thread \<open>t < N\<close>.\<close>

inductive hstep :: "bool \<Rightarrow> nat \<Rightarrow> hstate \<Rightarrow> hstate \<Rightarrow> bool" for zeroing :: bool and N :: nat where
  enter_count: "t < N \<Longrightarrow> hs_pc s t = Idle \<Longrightarrow>
    hstep zeroing N s (goto t Enter_Counted (s\<lparr>hs_active_ops := hs_active_ops s + 1\<rparr>))"
| enter_open: "t < N \<Longrightarrow> hs_pc s t = Enter_Counted \<Longrightarrow> alp_lifecycle_get (hs_lifecycle s) = ALP_HANDLE_LC_OPEN \<Longrightarrow>
    hstep zeroing N s (goto t In_Op s)"
| enter_not_open: "t < N \<Longrightarrow> hs_pc s t = Enter_Counted \<Longrightarrow> alp_lifecycle_get (hs_lifecycle s) \<noteq> ALP_HANDLE_LC_OPEN \<Longrightarrow>
    hstep zeroing N s (goto t Enter_Refused s)"
| enter_backout: "t < N \<Longrightarrow> hs_pc s t = Enter_Refused \<Longrightarrow>
    hstep zeroing N s (goto t Idle (s\<lparr>hs_active_ops := hs_active_ops s - 1\<rparr>))"
| leave: "t < N \<Longrightarrow> hs_pc s t = In_Op \<Longrightarrow>
    hstep zeroing N s (goto t Idle (s\<lparr>hs_active_ops := alp_handle_op_leave (hs_active_ops s)\<rparr>))"
| close_cas: "t < N \<Longrightarrow> hs_pc s t = Idle \<Longrightarrow>
    alp_lifecycle_cas (hs_lifecycle s) ALP_HANDLE_LC_OPEN ALP_HANDLE_LC_CLOSING = (True, lc) \<Longrightarrow>
    hstep zeroing N s (goto t Close_Draining (s\<lparr>hs_lifecycle := lc\<rparr>))"
| close_drained: "t < N \<Longrightarrow> hs_pc s t = Close_Draining \<Longrightarrow>
    alp_handle_drain_blocking (hs_active_ops s) = Some () \<Longrightarrow>
    hstep zeroing N s (goto t Close_Tearing s)"
| close_unopened: "t < N \<Longrightarrow> hs_pc s t = Close_Tearing \<Longrightarrow>
    hstep zeroing N s (goto t Close_Releasing
      (s\<lparr>hs_lifecycle := alp_lifecycle_set (hs_lifecycle s) ALP_HANDLE_LC_UNOPENED\<rparr>))"
| close_release: "t < N \<Longrightarrow> hs_pc s t = Close_Releasing \<Longrightarrow>
    hstep zeroing N s (goto t Idle (s\<lparr>hs_in_use := alp_slot_release (hs_in_use s)\<rparr>))"
| open_claim: "t < N \<Longrightarrow> hs_pc s t = Idle \<Longrightarrow> alp_slot_try_claim (hs_in_use s) = (True, u) \<Longrightarrow>
    hstep zeroing N s (goto t Open_Claimed (s\<lparr>hs_in_use := u\<rparr>))"
| open_init: "t < N \<Longrightarrow> hs_pc s t = Open_Claimed \<Longrightarrow>
    hstep zeroing N s (goto t Open_Initialised
      (s\<lparr>hs_lifecycle := ALP_HANDLE_LC_UNOPENED,
         hs_active_ops := (if zeroing then 0 else hs_active_ops s)\<rparr>))"
| open_publish: "t < N \<Longrightarrow> hs_pc s t = Open_Initialised \<Longrightarrow>
    hstep zeroing N s (goto t Idle (s\<lparr>hs_lifecycle := alp_lifecycle_set (hs_lifecycle s) ALP_HANDLE_LC_OPEN\<rparr>))"

inductive hreach :: "bool \<Rightarrow> nat \<Rightarrow> hstate \<Rightarrow> bool" for zeroing :: bool and N :: nat where
  hreach_init: "hreach zeroing N hs_init"
| hreach_step: "hreach zeroing N s \<Longrightarrow> hstep zeroing N s s' \<Longrightarrow> hreach zeroing N s'"

section \<open>The invariant\<close>

definition counted :: "hpc \<Rightarrow> bool" where
  "counted p \<longleftrightarrow> p \<in> {Enter_Counted, Enter_Refused, In_Op}"

definition owner :: "hpc \<Rightarrow> bool" where
  "owner p \<longleftrightarrow> p \<in> {Close_Draining, Close_Tearing, Close_Releasing, Open_Claimed, Open_Initialised}"

definition past_drain :: "hpc \<Rightarrow> bool" where
  "past_drain p \<longleftrightarrow> p \<in> {Close_Tearing, Close_Releasing, Open_Claimed, Open_Initialised}"

definition lifecycle_of :: "hpc \<Rightarrow> u8" where
  "lifecycle_of p = (if p \<in> {Close_Draining, Close_Tearing} then ALP_HANDLE_LC_CLOSING else ALP_HANDLE_LC_UNOPENED)"

text \<open>The counter counts the threads between entry and leave.\<close>

definition agree :: "nat \<Rightarrow> u32 \<Rightarrow> (nat \<Rightarrow> hpc) \<Rightarrow> bool" where
  "agree N a f \<longleftrightarrow> unat a = card {t \<in> {..<N}. counted (f t)}"

text \<open>The thread that owns the slot's transition, if any, is unique and fixes the lifecycle;
  with no owner the slot is open or free; nobody is inside once the drain is past.\<close>

definition ownership :: "nat \<Rightarrow> u8 \<Rightarrow> bool \<Rightarrow> (nat \<Rightarrow> hpc) \<Rightarrow> bool" where
  "ownership N lc used f \<longleftrightarrow>
     (\<forall>t. N \<le> t \<longrightarrow> f t = Idle) \<and>
     (\<forall>t u. owner (f t) \<longrightarrow> owner (f u) \<longrightarrow> t = u) \<and>
     (\<forall>t. owner (f t) \<longrightarrow> used \<and> lc = lifecycle_of (f t)) \<and>
     ((\<forall>t. \<not> owner (f t)) \<longrightarrow> lc = (if used then ALP_HANDLE_LC_OPEN else ALP_HANDLE_LC_UNOPENED)) \<and>
     ((\<exists>t. past_drain (f t)) \<or> \<not> used \<longrightarrow> (\<forall>t. f t \<noteq> In_Op))"

definition hinv :: "nat \<Rightarrow> hstate \<Rightarrow> bool" where
  "hinv N s \<longleftrightarrow> ownership N (hs_lifecycle s) (hs_in_use s) (hs_pc s)"

lemma pc_classes [simp]:
  "\<not> counted Idle" "counted Enter_Counted" "counted Enter_Refused" "counted In_Op"
  "\<not> counted Close_Draining" "\<not> counted Close_Tearing" "\<not> counted Close_Releasing"
  "\<not> counted Open_Claimed" "\<not> counted Open_Initialised"
  "\<not> owner Idle" "\<not> owner Enter_Counted" "\<not> owner Enter_Refused" "\<not> owner In_Op"
  "owner Close_Draining" "owner Close_Tearing" "owner Close_Releasing" "owner Open_Claimed" "owner Open_Initialised"
  "\<not> past_drain Idle" "\<not> past_drain Enter_Counted" "\<not> past_drain Enter_Refused" "\<not> past_drain In_Op"
  "\<not> past_drain Close_Draining" "past_drain Close_Tearing" "past_drain Close_Releasing"
  "past_drain Open_Claimed" "past_drain Open_Initialised"
  by (auto simp: counted_def owner_def past_drain_def)

lemma past_drain_owner: "past_drain p \<Longrightarrow> owner p"
  by (auto simp: past_drain_def owner_def)

lemma lifecycle_of_simps [simp]:
  "lifecycle_of Close_Draining = ALP_HANDLE_LC_CLOSING" "lifecycle_of Close_Tearing = ALP_HANDLE_LC_CLOSING"
  "lifecycle_of Close_Releasing = ALP_HANDLE_LC_UNOPENED" "lifecycle_of Open_Claimed = ALP_HANDLE_LC_UNOPENED"
  "lifecycle_of Open_Initialised = ALP_HANDLE_LC_UNOPENED" "lifecycle_of p \<noteq> ALP_HANDLE_LC_OPEN"
  by (simp_all add: lifecycle_of_def)

lemmas guard_defs = alp_lifecycle_get_def alp_lifecycle_cas_def alp_lifecycle_set_def alp_handle_op_leave_def
  alp_slot_release_def alp_slot_try_claim_def alp_handle_drain_blocking_def

lemma counted_card_update:
  fixes f :: "nat \<Rightarrow> hpc"
  assumes "t < N"
  shows "card {u \<in> {..<N}. counted ((f(t := p)) u)} + (if counted (f t) then 1 else 0) =
    card {u \<in> {..<N}. counted (f u)} + (if counted p then 1 else 0)"
  by (rule card_fun_upd [OF assms])

lemma agree_same: "agree N a f \<Longrightarrow> t < N \<Longrightarrow> counted p = counted (f t) \<Longrightarrow> agree N a (f(t := p))"
  using counted_card_update [of t N f p] by (auto simp: agree_def)

lemma agree_enter:
  assumes "agree N a f" "t < N" "counted p" "\<not> counted (f t)" "N < 2 ^ 32"
  shows "agree N (a + 1) (f(t := p))"
proof -
  have "card {u \<in> {..<N}. counted ((f(t := p)) u)} = Suc (unat a)"
    using counted_card_update [OF assms(2), of f p] assms by (simp add: agree_def)
  moreover have "card {u \<in> {..<N}. counted ((f(t := p)) u)} \<le> card {..<N}" by (rule card_mono) auto
  ultimately show ?thesis using assms(5) by (simp add: agree_def unat_word_ariths)
qed

lemma agree_leave:
  assumes "agree N a f" "t < N" "\<not> counted p" "counted (f t)"
  shows "agree N (a - 1) (f(t := p))"
proof -
  have "Suc (card {u \<in> {..<N}. counted ((f(t := p)) u)}) = unat a"
    using counted_card_update [OF assms(2), of f p] assms by (simp add: agree_def)
  moreover from this have "a \<noteq> 0" by auto
  ultimately show ?thesis by (simp add: agree_def unat_minus_one)
qed

lemma agree_step:
  assumes "hstep False N s s'" "agree N (hs_active_ops s) (hs_pc s)" "N < 2 ^ 32"
  shows "agree N (hs_active_ops s') (hs_pc s')"
  using assms(1)
  by cases (use assms(2,3) in \<open>simp_all add: guard_defs agree_same agree_enter agree_leave\<close>)

lemma drained_none_inside:
  assumes "agree N 0 f" "ownership N lc used f"
  shows "f t \<noteq> In_Op"
proof
  assume t: "f t = In_Op"
  then have "t < N" using assms(2) by (force simp: ownership_def not_less [symmetric])
  moreover have "finite {t \<in> {..<N}. counted (f t)}" by simp
  then have "{t \<in> {..<N}. counted (f t)} = {}" using assms(1) by (simp add: agree_def)
  ultimately show False using t by auto
qed

text \<open>The four ways a step moves a thread with respect to ownership of the slot.\<close>

lemma own_stay:
  assumes o: "ownership N lc used f" and t: "t < N" "\<not> owner (f t)" "\<not> owner p"
    and p: "p = In_Op \<Longrightarrow> lc = ALP_HANDLE_LC_OPEN"
  shows "ownership N lc used (f(t := p))"
proof -
  have own: "owner ((f(t := p)) u) \<longleftrightarrow> owner (f u)" "past_drain ((f(t := p)) u) \<longleftrightarrow> past_drain (f u)" for u
    using t past_drain_owner by auto
  have lc: "owner (f u) \<Longrightarrow> lifecycle_of ((f(t := p)) u) = lifecycle_of (f u)" for u using t by auto
  have "(\<exists>u. past_drain (f u)) \<or> \<not> used \<Longrightarrow> lc \<noteq> ALP_HANDLE_LC_OPEN"
    using o past_drain_owner lifecycle_of_simps(6) by (fastforce simp: ownership_def)
  then have inside: "(\<exists>u. past_drain (f u)) \<or> \<not> used \<Longrightarrow> (f(t := p)) u \<noteq> In_Op" for u
    using o p unfolding ownership_def by auto
  have idle: "N \<le> u \<Longrightarrow> (f(t := p)) u = Idle" for u using o t(1) by (auto simp: ownership_def)
  show ?thesis
    unfolding ownership_def own
  proof (intro conjI allI impI)
    show "N \<le> u \<Longrightarrow> (f(t := p)) u = Idle" for u by (rule idle)
    show "(\<exists>u. past_drain (f u)) \<or> \<not> used \<Longrightarrow> (f(t := p)) u \<noteq> In_Op" for u by (rule inside)
    show "owner (f u) \<Longrightarrow> lc = lifecycle_of ((f(t := p)) u)" for u using o lc unfolding ownership_def by simp
  qed (use o in \<open>unfold ownership_def; blast\<close>)+
qed

lemma own_unique:
  assumes "ownership N lc used f" "owner (f t)"
  shows "owner (f u) \<longleftrightarrow> u = t" "used" "lc = lifecycle_of (f t)"
  using assms by (auto simp: ownership_def)

lemma own_move:
  assumes o: "ownership N lc used f" and t: "t < N" and only: "\<And>u. u \<noteq> t \<Longrightarrow> \<not> owner (f u)" and p: "owner p"
    and pd: "past_drain p \<Longrightarrow> \<forall>u. f u \<noteq> In_Op"
  shows "ownership N (lifecycle_of p) True (f(t := p))"
proof -
  have own: "owner ((f(t := p)) u) \<longleftrightarrow> u = t" for u using only p by auto
  have last: "past_drain ((f(t := p)) u) \<Longrightarrow> past_drain p" for u
    using past_drain_owner [of "f u"] only [of u] by (cases "u = t") auto
  have "p \<noteq> In_Op" using p by auto
  then have "\<forall>u. (f(t := p)) u \<noteq> In_Op" if "past_drain p" using pd [OF that] by simp
  then have "(\<exists>u. past_drain ((f(t := p)) u)) \<longrightarrow> (\<forall>u. (f(t := p)) u \<noteq> In_Op)" using last by blast
  moreover have "N \<le> u \<Longrightarrow> (f(t := p)) u = Idle" for u using o t by (auto simp: ownership_def)
  ultimately show ?thesis unfolding ownership_def own by simp
qed

lemma own_drop:
  assumes o: "ownership N lc used f" and t: "t < N" "owner (f t)" "past_drain (f t)"
  shows "ownership N ALP_HANDLE_LC_UNOPENED False (f(t := Idle))" "ownership N ALP_HANDLE_LC_OPEN True (f(t := Idle))"
proof -
  have own: "\<not> owner ((f(t := Idle)) u)" "\<not> past_drain ((f(t := Idle)) u)" for u
    using own_unique(1) [OF o t(2), of u] past_drain_owner by auto
  have "\<forall>u. f u \<noteq> In_Op" using o t(3) unfolding ownership_def by blast
  then show "ownership N ALP_HANDLE_LC_UNOPENED False (f(t := Idle))" "ownership N ALP_HANDLE_LC_OPEN True (f(t := Idle))"
    using o own unfolding ownership_def by auto
qed

lemma free_no_owner:
  assumes "ownership N lc used f"
  shows "lc = ALP_HANDLE_LC_OPEN \<Longrightarrow> \<not> owner (f u) \<and> used" "\<not> used \<Longrightarrow> \<not> owner (f u) \<and> f u \<noteq> In_Op"
  using assms lifecycle_of_simps(6) unfolding ownership_def by (fastforce split: if_splits)+

lemma past_drain_empty: "ownership N lc used f \<Longrightarrow> past_drain (f t) \<Longrightarrow> f u \<noteq> In_Op"
  unfolding ownership_def by blast

lemma hinv_step:
  assumes st: "hstep zeroing N s s'" and i: "hinv N s"
    and dr: "hs_active_ops s = 0 \<Longrightarrow> \<forall>t. hs_pc s t \<noteq> In_Op"
  shows "hinv N s'"
proof -
  have o: "ownership N (hs_lifecycle s) (hs_in_use s) (hs_pc s)" using i by (simp add: hinv_def)
  from st show ?thesis
  proof cases
    case (enter_open t)
    then show ?thesis using own_stay [OF o, of t In_Op] by (simp add: hinv_def guard_defs)
  next
    case (close_cas t lc)
    then have "ownership N (lifecycle_of Close_Draining) True ((hs_pc s)(t := Close_Draining))"
      using free_no_owner(1) [OF o] by (intro own_move [OF o]) (auto simp: guard_defs split: if_splits)
    then show ?thesis using close_cas free_no_owner(1) [OF o] by (auto simp: hinv_def guard_defs split: if_splits)
  next
    case (close_drained t)
    then have "ownership N (lifecycle_of Close_Tearing) True ((hs_pc s)(t := Close_Tearing))"
      using own_unique(1) [OF o, of t] dr by (intro own_move [OF o]) (auto simp: guard_defs split: if_splits)
    then show ?thesis using close_drained own_unique(2,3) [OF o, of t] by (auto simp: hinv_def)
  next
    case (close_unopened t)
    then have "ownership N (lifecycle_of Close_Releasing) True ((hs_pc s)(t := Close_Releasing))"
      using own_unique(1) [OF o, of t] past_drain_empty [OF o, of t] by (intro own_move [OF o]) auto
    then show ?thesis using close_unopened own_unique(2) [OF o, of t] by (auto simp: hinv_def guard_defs)
  next
    case (open_claim t u)
    then have "ownership N (lifecycle_of Open_Claimed) True ((hs_pc s)(t := Open_Claimed))"
      using free_no_owner(2) [OF o] by (intro own_move [OF o]) (auto simp: guard_defs split: if_splits)
    moreover have "hs_lifecycle s = ALP_HANDLE_LC_UNOPENED"
      using open_claim o free_no_owner(2) [OF o] by (auto simp: ownership_def guard_defs split: if_splits)
    ultimately show ?thesis using open_claim by (auto simp: hinv_def guard_defs split: if_splits)
  next
    case (open_init t)
    then have "ownership N (lifecycle_of Open_Initialised) True ((hs_pc s)(t := Open_Initialised))"
      using own_unique(1) [OF o, of t] past_drain_empty [OF o, of t] by (intro own_move [OF o]) auto
    then show ?thesis using open_init own_unique(2) [OF o, of t] by (auto simp: hinv_def)
  next
    case (close_release t)
    then show ?thesis using own_drop(1) [OF o, of t] own_unique(3) [OF o, of t] by (simp add: hinv_def guard_defs)
  next
    case (open_publish t)
    then show ?thesis using own_drop(2) [OF o, of t] own_unique(2) [OF o, of t] by (simp add: hinv_def guard_defs)
  qed (auto simp: hinv_def guard_defs intro!: own_stay [OF o])
qed

lemma hreach_invariant:
  assumes "hreach False N s" "N < 2 ^ 32"
  shows "hinv N s \<and> agree N (hs_active_ops s) (hs_pc s)"
  using assms(1)
proof induction
  case hreach_init
  then show ?case by (auto simp: hinv_def hs_init_def ownership_def agree_def past_drain_def)
next
  case (hreach_step s s')
  then have a: "agree N (hs_active_ops s) (hs_pc s)" and i: "hinv N s" by auto
  have "hs_active_ops s = 0 \<Longrightarrow> \<forall>t. hs_pc s t \<noteq> In_Op"
    using a i drained_none_inside by (metis hinv_def)
  then show ?case using hinv_step [OF hreach_step.hyps(2) i] agree_step [OF hreach_step.hyps(2) a assms(2)] by blast
qed

section \<open>Properties\<close>


text \<open>Runs, to exhibit reachable states: the next atomic access of a thread, where \<open>b\<close> chooses,
  for an idle thread, between an operation, a close and an open.\<close>

datatype hchoice = Do_Op | Do_Close | Do_Open

definition hnext :: "bool \<Rightarrow> nat \<Rightarrow> nat \<times> hchoice \<Rightarrow> hstate \<Rightarrow> hstate option" where
  "hnext zeroing N = (\<lambda>(t, b) s.
     if \<not> t < N then None else
     case hs_pc s t of
       Idle \<Rightarrow> (case b of
           Do_Op \<Rightarrow> Some (goto t Enter_Counted (s\<lparr>hs_active_ops := hs_active_ops s + 1\<rparr>))
         | Do_Close \<Rightarrow> if hs_lifecycle s = 1 then Some (goto t Close_Draining (s\<lparr>hs_lifecycle := 2\<rparr>)) else None
         | Do_Open \<Rightarrow> if hs_in_use s then None else Some (goto t Open_Claimed (s\<lparr>hs_in_use := True\<rparr>)))
     | Enter_Counted \<Rightarrow> Some (goto t (if hs_lifecycle s = 1 then In_Op else Enter_Refused) s)
     | Enter_Refused \<Rightarrow> Some (goto t Idle (s\<lparr>hs_active_ops := hs_active_ops s - 1\<rparr>))
     | In_Op \<Rightarrow> Some (goto t Idle (s\<lparr>hs_active_ops := hs_active_ops s - 1\<rparr>))
     | Close_Draining \<Rightarrow> if hs_active_ops s = 0 then Some (goto t Close_Tearing s) else None
     | Close_Tearing \<Rightarrow> Some (goto t Close_Releasing (s\<lparr>hs_lifecycle := 0\<rparr>))
     | Close_Releasing \<Rightarrow> Some (goto t Idle (s\<lparr>hs_in_use := False\<rparr>))
     | Open_Claimed \<Rightarrow> Some (goto t Open_Initialised
           (s\<lparr>hs_lifecycle := 0, hs_active_ops := (if zeroing then 0 else hs_active_ops s)\<rparr>))
     | Open_Initialised \<Rightarrow> Some (goto t Idle (s\<lparr>hs_lifecycle := 1\<rparr>)))"

fun hrun :: "bool \<Rightarrow> nat \<Rightarrow> (nat \<times> hchoice) list \<Rightarrow> hstate \<Rightarrow> hstate option" where
  "hrun zeroing N [] s = Some s"
| "hrun zeroing N (a # as) s = (case hnext zeroing N a s of None \<Rightarrow> None | Some s' \<Rightarrow> hrun zeroing N as s')"

lemma hnext_hstep:
  assumes "hnext zeroing N (t, b) s = Some s'"
  shows "hstep zeroing N s s'"
proof -
  have t: "t < N" using assms by (auto simp: hnext_def split: if_splits)
  note steps = hstep.intros [OF t, unfolded guard_defs, simplified]
  have init: "hs_pc s t = Open_Claimed \<Longrightarrow> hstep zeroing N s s'"
    using assms t open_init [of t N s zeroing] by (auto simp: hnext_def)
  show ?thesis
  proof (cases "hs_pc s t = Open_Claimed")
    case False
    then show ?thesis
      using assms t by (cases "hs_pc s t"; cases b) (auto simp: hnext_def split: if_splits intro: steps)
  qed (rule init)
qed

lemma hrun_hreach: "hreach zeroing N s \<Longrightarrow> hrun zeroing N as s = Some s' \<Longrightarrow> hreach zeroing N s'"
proof (induction as arbitrary: s)
  case (Cons a as)
  then obtain s1 where s1: "hnext zeroing N a s = Some s1" "hrun zeroing N as s1 = Some s'"
    by (auto split: option.splits)
  then have "hstep zeroing N s s1" using hnext_hstep by (cases a) simp
  with Cons.prems(1) have "hreach zeroing N s1" by (rule hreach_step)
  then show ?case using Cons.IH s1(2) by blast
qed simp


text \<open>
  C32. Zeroing the counter on reuse breaks the guard.  When the claim of a slot resets the
  counter, as the pooled dispatchers do, three threads reach a state in which one thread is
  inside a backend operation of the reopened handle while another is tearing that handle
  down: a thread counted before the reset enters uncounted after it.
\<close>

theorem zeroing_claim_breaks_guard:
  "\<exists>s. hreach True 3 s \<and> hs_pc s 0 = In_Op \<and> hs_pc s 1 = Close_Tearing \<and> hs_active_ops s = 0"
proof -
  let ?run = "[(1, Do_Open), (1, Do_Open), (1, Do_Open), (1, Do_Close), (1, Do_Close),
     (0, Do_Op), (1, Do_Close), (1, Do_Close), (2, Do_Open), (2, Do_Open), (2, Do_Open),
     (0, Do_Op), (1, Do_Close), (1, Do_Close)]"
  obtain s where s: "hrun True 3 ?run hs_init = Some s" "hs_pc s 0 = In_Op" "hs_pc s 1 = Close_Tearing" "hs_active_ops s = 0"
    by (simp add: hnext_def hs_init_def)
  then show ?thesis using hrun_hreach [OF hreach_init s(1)] by blast
qed

text \<open>
  One call at a time the guard is exact: an operation enters precisely when the handle
  is open and a refused entry leaves the counter as it was, entry followed by leave restores
  the counter, only an open handle can be closed, and a close from the handle's own callback
  never waits but is handed to the operation's wrapper, which takes it exactly once.
\<close>

theorem guard_calls_exact:
  "alp_handle_op_enter lc a = (lc = ALP_HANDLE_LC_OPEN, if lc = ALP_HANDLE_LC_OPEN then a + 1 else a) \<and>
   alp_handle_op_leave (snd (alp_handle_op_enter ALP_HANDLE_LC_OPEN a)) = a \<and>
   (alp_handle_begin_close_blocking lc a = None \<longleftrightarrow> lc = ALP_HANDLE_LC_OPEN \<and> a \<noteq> 0) \<and>
   (alp_handle_begin_close_blocking lc a = Some (True, lc') \<longleftrightarrow>
      lc = ALP_HANDLE_LC_OPEN \<and> a = 0 \<and> lc' = ALP_HANDLE_LC_CLOSING) \<and>
   (case alp_handle_cb_enter self th False of (owned, th', act) \<Rightarrow>
      owned \<and> alp_handle_begin_close_selfaware self ALP_HANDLE_LC_OPEN a act th' m p =
        Some (True, ALP_HANDLE_LC_CLOSING, ALP_HANDLE_CLOSE_DEFERRED, True) \<and>
      alp_handle_cb_leave th' act owned = (0, False)) \<and>
   fst (alp_handle_take_deferred_close True) \<and>
   \<not> fst (alp_handle_take_deferred_close (snd (alp_handle_take_deferred_close True)))"
  by (auto simp: alp_handle_op_enter_def alp_handle_op_leave_def alp_handle_begin_close_blocking_def
      alp_handle_drain_blocking_def alp_lifecycle_cas_def alp_lifecycle_get_def alp_handle_cb_enter_def
      alp_handle_cb_leave_def alp_handle_begin_close_selfaware_def alp_handle_take_deferred_close_def Let_def)

end
