(* ===== verification/Update_Log_Dispatch.thy ===== *)
theory Update_Log_Dispatch
  imports Sw_Tier Backend_Registry Slot_Claim
begin

text \<open>
  The public update-log API (\<^verbatim>\<open>src/update_log_dispatch.c\<close>, with the operation table of
  \<^verbatim>\<open>src/backends/update_log/update_log_ops.h\<close>): the election of a backend by a ranked walk with
  fall-through, and the operations on the singleton handle under the handle guard.

  One call at a time: an open that finds another thread's open or close in flight, and a
  close that finds operations inside, wait (\<open>None\<close>); the interleavings are the subject of
  \<open>Slot_Claim\<close>.  The backend's functions act on a world \<open>'w\<close>; the last-error cell of the
  calling thread is returned with the handle.
\<close>

section \<open>Backends and the handle\<close>

datatype update_log_assurance = ALP_UPDATE_LOG_SW_TAMPER_EVIDENT | ALP_UPDATE_LOG_HW_ENFORCED

record 'w update_log_ops =
  ulo_assurance :: update_log_assurance
  ulo_ready :: "('w \<Rightarrow> alp_status \<times> 'w) option"
  ulo_append :: "(update_log_entry option \<Rightarrow> 'w \<Rightarrow> alp_status \<times> 'w) option"
  ulo_verify :: "(update_log_verdict option \<Rightarrow> u64 option \<Rightarrow> 'w \<Rightarrow>
                   alp_status \<times> update_log_verdict option \<times> u64 option \<times> 'w) option"
  ulo_count :: "(u64 option \<Rightarrow> 'w \<Rightarrow> alp_status \<times> u64 option \<times> 'w) option"
  ulo_get :: "(u64 \<Rightarrow> update_log_entry option \<Rightarrow> 'w \<Rightarrow> alp_status \<times> update_log_entry option \<times> 'w) option"

record 'w update_log =
  ul_ops :: "'w update_log_ops option"
  ul_assurance :: update_log_assurance
  ul_lifecycle :: u8
  ul_active_ops :: u32

abbreviation UL_LC_OPENING :: u8 where "UL_LC_OPENING \<equiv> 3"

text \<open>The build: the registered backends, the silicon reference, whether the HW tier is required.\<close>

record 'w update_log_build =
  ub_mem :: "'w update_log_ops backend_memory"
  ub_classes :: "backend_class_range list"
  ub_soc :: string
  ub_require_hw :: bool

section \<open>The election\<close>

text \<open>The \<^verbatim>\<open>while (be != NULL)\<close> walk, with \<open>rc\<close> the last status seen; the fuel bounds the
  number of candidates tried, and running out of it is \<open>None\<close>.\<close>

fun elect_from ::
  "nat \<Rightarrow> 'w update_log_build \<Rightarrow> nat option \<Rightarrow> alp_status \<Rightarrow> 'w update_log \<Rightarrow> 'w \<Rightarrow>
   (alp_status \<times> 'w update_log \<times> 'w) option" where
  "elect_from fuel ub None rc log w = Some (rc, log, w)"
| "elect_from 0 ub (Some be) rc log w = None"
| "elect_from (Suc fuel) ub (Some be) rc log w =
     (let nxt = alp_backend_select_next (ub_mem ub) (ub_classes ub) (Some ''update_log'') (Some (ub_soc ub)) (Some be) in
      case be_ops (ub_mem ub be) of
        None \<Rightarrow> elect_from fuel ub nxt rc log w
      | Some ops \<Rightarrow>
          (let (rc, w) = (case ulo_ready ops of Some rd \<Rightarrow> rd w | None \<Rightarrow> (ALP_OK, w)) in
           if rc = ALP_OK then
             (if ub_require_hw ub \<and> ulo_assurance ops \<noteq> ALP_UPDATE_LOG_HW_ENFORCED
              then elect_from fuel ub nxt ALP_ERR_NOSUPPORT log w
              else Some (ALP_OK, log\<lparr>ul_ops := Some ops, ul_assurance := ulo_assurance ops\<rparr>, w))
           else if rc \<noteq> ALP_ERR_NOSUPPORT then Some (rc, log, w)
           else elect_from fuel ub nxt rc log w))"

definition elect_backend ::
  "nat \<Rightarrow> 'w update_log_build \<Rightarrow> 'w update_log \<Rightarrow> 'w \<Rightarrow> (alp_status \<times> 'w update_log \<times> 'w) option" where
  "elect_backend fuel ub log w =
     elect_from fuel ub (alp_backend_select (ub_mem ub) (ub_classes ub) (Some ''update_log'') (Some (ub_soc ub)))
       ALP_ERR_NOT_PRESENT_ON_THIS_SOC log w"

text \<open>\<open>alp_update_log_open\<close>: the handle (whether non-NULL), the thread's last error, the state.\<close>

definition alp_update_log_open ::
  "nat \<Rightarrow> 'w update_log_build \<Rightarrow> 'w update_log \<Rightarrow> 'w \<Rightarrow> (bool \<times> alp_status \<times> 'w update_log \<times> 'w) option" where
  "alp_update_log_open fuel ub log w =
     (let s = alp_lifecycle_get (ul_lifecycle log) in
      if s = ALP_HANDLE_LC_OPEN then Some (True, ALP_OK, log, w)
      else if s = ALP_HANDLE_LC_UNOPENED then
        (let log = log\<lparr>ul_lifecycle := snd (alp_lifecycle_cas (ul_lifecycle log) ALP_HANDLE_LC_UNOPENED UL_LC_OPENING)\<rparr> in
         case elect_backend fuel ub log w of
           None \<Rightarrow> None
         | Some (rc, log, w) \<Rightarrow>
             if rc = ALP_OK
             then Some (True, ALP_OK, log\<lparr>ul_lifecycle := alp_lifecycle_set (ul_lifecycle log) ALP_HANDLE_LC_OPEN\<rparr>, w)
             else Some (False, rc, log\<lparr>ul_lifecycle := alp_lifecycle_set (ul_lifecycle log) ALP_HANDLE_LC_UNOPENED\<rparr>, w))
      else None)"

section \<open>Operations on the handle\<close>

text \<open>The guarded call every operation makes: enter, run, leave.\<close>

definition guarded :: "'w update_log \<Rightarrow> 'r \<Rightarrow> ('w \<Rightarrow> 'r \<times> 'w) \<Rightarrow> 'w \<Rightarrow> 'r \<times> 'w update_log \<times> 'w" where
  "guarded log refused f w =
     (case alp_handle_op_enter (ul_lifecycle log) (ul_active_ops log) of
        (False, n) \<Rightarrow> (refused, log\<lparr>ul_active_ops := n\<rparr>, w)
      | (True, n) \<Rightarrow> (let (r, w) = f w in (r, log\<lparr>ul_active_ops := alp_handle_op_leave n\<rparr>, w)))"

definition alp_update_log_append ::
  "'w update_log option \<Rightarrow> update_log_entry option \<Rightarrow> 'w \<Rightarrow> alp_status \<times> 'w update_log option \<times> 'w" where
  "alp_update_log_append log entry w =
     (case (log, entry) of
        (Some log, Some entry) \<Rightarrow>
          (let (rc, log, w) = guarded log ALP_ERR_NOT_READY
             (\<lambda>w. case ulo_append (the (ul_ops log)) of
                None \<Rightarrow> (ALP_ERR_NOT_IMPLEMENTED, w) | Some f \<Rightarrow> f (Some entry) w) w
           in (rc, Some log, w))
      | _ \<Rightarrow> (ALP_ERR_INVAL, log, w))"

text \<open>The entry for the running image, from a boot-metadata reader that is a parameter.\<close>

definition alp_update_log_entry_from_boot_metadata ::
  "(update_log_entry \<Rightarrow> 'w \<Rightarrow> alp_status \<times> update_log_entry \<times> 'w) \<Rightarrow> update_log_entry option \<Rightarrow> u64 \<Rightarrow> 'w \<Rightarrow>
   alp_status \<times> update_log_entry option \<times> 'w" where
  "alp_update_log_entry_from_boot_metadata boot_read entry_out timestamp w =
     (case entry_out of
        None \<Rightarrow> (ALP_ERR_INVAL, None, w)
      | Some e0 \<Rightarrow>
          (let (rc, entry, w) = boot_read zero_entry w in
           if rc \<noteq> ALP_OK then (rc, Some e0, w)
           else (ALP_OK, Some (entry\<lparr>ule_seq := 0, ule_timestamp := timestamp\<rparr>), w)))"

definition alp_update_log_append_boot ::
  "(update_log_entry \<Rightarrow> 'w \<Rightarrow> alp_status \<times> update_log_entry \<times> 'w) \<Rightarrow> 'w update_log option \<Rightarrow> u64 \<Rightarrow> 'w \<Rightarrow>
   alp_status \<times> 'w update_log option \<times> 'w" where
  "alp_update_log_append_boot boot_read log timestamp w =
     (case log of
        None \<Rightarrow> (ALP_ERR_INVAL, None, w)
      | Some log \<Rightarrow>
          (let (rc, log, w) = guarded log ALP_ERR_NOT_READY
             (\<lambda>w. case ulo_append (the (ul_ops log)) of
                None \<Rightarrow> (ALP_ERR_NOT_IMPLEMENTED, w)
              | Some f \<Rightarrow>
                  (let (rc, entry, w) =
                     alp_update_log_entry_from_boot_metadata boot_read (Some zero_entry) timestamp w in
                   if rc = ALP_OK then f entry w else (rc, w))) w
           in (rc, Some log, w)))"

definition alp_update_log_verify ::
  "'w update_log option \<Rightarrow> update_log_verdict option \<Rightarrow> u64 option \<Rightarrow> 'w \<Rightarrow>
   (alp_status \<times> update_log_verdict option \<times> u64 option) \<times> 'w update_log option \<times> 'w" where
  "alp_update_log_verify log verdict_out bad_seq_out w =
     (case (log, verdict_out) of
        (Some log, Some v0) \<Rightarrow>
          (let (r, log, w) = guarded log (ALP_ERR_NOT_READY, verdict_out, bad_seq_out)
             (\<lambda>w. case ulo_verify (the (ul_ops log)) of
                None \<Rightarrow> ((ALP_ERR_NOT_IMPLEMENTED, verdict_out, bad_seq_out), w)
              | Some f \<Rightarrow> (let (rc, v, b, w) = f verdict_out bad_seq_out w in ((rc, v, b), w))) w
           in (r, Some log, w))
      | _ \<Rightarrow> ((ALP_ERR_INVAL, verdict_out, bad_seq_out), log, w))"

definition alp_update_log_count ::
  "'w update_log option \<Rightarrow> u64 option \<Rightarrow> 'w \<Rightarrow> (alp_status \<times> u64 option) \<times> 'w update_log option \<times> 'w" where
  "alp_update_log_count log count_out w =
     (case (log, count_out) of
        (Some log, Some n0) \<Rightarrow>
          (let (r, log, w) = guarded log (ALP_ERR_NOT_READY, count_out)
             (\<lambda>w. case ulo_count (the (ul_ops log)) of
                None \<Rightarrow> ((ALP_ERR_NOT_IMPLEMENTED, count_out), w)
              | Some f \<Rightarrow> (let (rc, n, w) = f count_out w in ((rc, n), w))) w
           in (r, Some log, w))
      | _ \<Rightarrow> ((ALP_ERR_INVAL, count_out), log, w))"

definition alp_update_log_get ::
  "'w update_log option \<Rightarrow> u64 \<Rightarrow> update_log_entry option \<Rightarrow> 'w \<Rightarrow>
   (alp_status \<times> update_log_entry option) \<times> 'w update_log option \<times> 'w" where
  "alp_update_log_get log seq entry_out w =
     (case (log, entry_out) of
        (Some log, Some e0) \<Rightarrow>
          (let (r, log, w) = guarded log (ALP_ERR_NOT_READY, entry_out)
             (\<lambda>w. case ulo_get (the (ul_ops log)) of
                None \<Rightarrow> ((ALP_ERR_NOT_IMPLEMENTED, entry_out), w)
              | Some f \<Rightarrow> (let (rc, e, w) = f seq entry_out w in ((rc, e), w))) w
           in (r, Some log, w))
      | _ \<Rightarrow> ((ALP_ERR_INVAL, entry_out), log, w))"

fun alp_update_log_assurance :: "'w update_log option \<Rightarrow> update_log_assurance" where
  "alp_update_log_assurance (Some log) = ul_assurance log"
| "alp_update_log_assurance None = ALP_UPDATE_LOG_SW_TAMPER_EVIDENT"

definition alp_update_log_close :: "'w update_log option \<Rightarrow> 'w update_log option option" where
  "alp_update_log_close log =
     (case log of
        None \<Rightarrow> Some None
      | Some l \<Rightarrow>
          (case alp_handle_begin_close_blocking (ul_lifecycle l) (ul_active_ops l) of
             None \<Rightarrow> None
           | Some (False, lc) \<Rightarrow> Some (Some (l\<lparr>ul_lifecycle := lc\<rparr>))
           | Some (True, lc) \<Rightarrow>
               Some (Some (l\<lparr>ul_ops := None, ul_lifecycle := alp_lifecycle_set lc ALP_HANDLE_LC_UNOPENED\<rparr>))))"

section \<open>The software tier as a backend\<close>

text \<open>\<open>_sw_ops\<close> in the RAM build; \<open>sw_ready\<close> declines on an AEN client image that is not the owner.\<close>

definition sw_ready :: "bool \<Rightarrow> 'a sw_state_scheme \<Rightarrow> alp_status \<times> 'a sw_state_scheme" where
  "sw_ready client_only st = ((if client_only then ALP_ERR_NOSUPPORT else ALP_OK), st)"

definition sw_tier_ops :: "bool \<Rightarrow> 'a sw_state_scheme update_log_ops" where
  "sw_tier_ops client_only = \<lparr>ulo_assurance = ALP_UPDATE_LOG_SW_TAMPER_EVIDENT, ulo_ready = Some (sw_ready client_only),
     ulo_append = Some sw_append, ulo_verify = Some sw_verify, ulo_count = Some sw_count, ulo_get = Some sw_get_e\<rparr>"

section \<open>What the election promises\<close>

text \<open>The outcome of trying the backends of a list in order: the reference the walk is
  compared with.\<close>

fun try_in_order ::
  "'w update_log_build \<Rightarrow> nat list \<Rightarrow> alp_status \<Rightarrow> 'w update_log \<Rightarrow> 'w \<Rightarrow> alp_status \<times> 'w update_log \<times> 'w" where
  "try_in_order ub [] rc log w = (rc, log, w)"
| "try_in_order ub (be # bes) rc log w =
     (case be_ops (ub_mem ub be) of
        None \<Rightarrow> try_in_order ub bes rc log w
      | Some ops \<Rightarrow>
          (let (rc, w) = (case ulo_ready ops of Some rd \<Rightarrow> rd w | None \<Rightarrow> (ALP_OK, w)) in
           if rc = ALP_ERR_NOSUPPORT \<or> rc = ALP_OK \<and> ub_require_hw ub \<and> ulo_assurance ops \<noteq> ALP_UPDATE_LOG_HW_ENFORCED
           then try_in_order ub bes ALP_ERR_NOSUPPORT log w
           else if rc = ALP_OK then (ALP_OK, log\<lparr>ul_ops := Some ops, ul_assurance := ulo_assurance ops\<rparr>, w)
           else (rc, log, w)))"

lemma elect_from_walk:
  assumes cl: "find_class (ub_classes ub) ''update_log'' = Some c"
  defines "sel \<equiv> select_in_range (ub_mem ub) (cr_start c) (cr_stop c) (Some (ub_soc ub))"
  assumes fuel: "card {be \<in> candidates (ub_mem ub) (cr_start c) (cr_stop c) (Some (ub_soc ub)). below (ub_mem ub) prev be} \<le> fuel"
  shows "elect_from fuel ub (sel prev) rc log w = Some (try_in_order ub (ranked_walk sel fuel prev) rc log w)"
  using fuel
proof (induction fuel arbitrary: prev rc w)
  case 0
  then have "{be \<in> candidates (ub_mem ub) (cr_start c) (cr_stop c) (Some (ub_soc ub)). below (ub_mem ub) prev be} = {}"
    by (simp add: candidates_def)
  then have "sel prev = None"
    using select_in_range_best [of "ub_mem ub" "cr_start c" "cr_stop c" "Some (ub_soc ub)" prev]
    by (auto simp: sel_def best_of_def split: option.splits)
  then show ?case by simp
next
  case (Suc fuel)
  show ?case
  proof (cases "sel prev")
    case (Some be)
    have nxt: "alp_backend_select_next (ub_mem ub) (ub_classes ub) (Some ''update_log'') (Some (ub_soc ub)) p = sel p" for p
      by (simp add: alp_backend_select_next_def cl sel_def)
    have eq: "{b \<in> candidates (ub_mem ub) (cr_start c) (cr_stop c) (Some (ub_soc ub)). below (ub_mem ub) p b} =
        ranked_remaining (candidates (ub_mem ub) (cr_start c) (cr_stop c) (Some (ub_soc ub))) (\<lambda>b. rank_of (ub_mem ub b)) p" for p
      by (auto simp: ranked_remaining_def below_def split: option.splits)
    have "card {b \<in> candidates (ub_mem ub) (cr_start c) (cr_stop c) (Some (ub_soc ub)). below (ub_mem ub) (Some be) b} \<le> fuel"
      using registry.remaining_next(2) [OF Some [unfolded sel_def]] Suc.prems unfolding eq by simp
    note IH = Suc.IH [OF this]
    show ?thesis
      using Some by (auto simp: nxt IH Let_def split: option.splits prod.splits)
  qed simp
qed

section \<open>Properties\<close>

text \<open>
  C28. The election is the ranked walk and it ends.  With a registered class, as much fuel as
  there are matching backends is enough, and the result is that of trying the matching
  backends one after another in strictly descending rank: the first that reports ready (and
  is hardware-enforced, where the build requires it) is bound, one that declines with
  \<open>NOSUPPORT\<close> is passed over, and any other error ends the walk and is returned.
\<close>

theorem elect_backend_ranked:
  fixes ub :: "'w update_log_build"
  assumes "find_class (ub_classes ub) ''update_log'' = Some c"
  defines "sel \<equiv> select_in_range (ub_mem ub) (cr_start c) (cr_stop c) (Some (ub_soc ub))"
    and "C \<equiv> candidates (ub_mem ub) (cr_start c) (cr_stop c) (Some (ub_soc ub))"
  assumes "card C \<le> fuel"
  shows "elect_backend fuel ub log w =
      Some (try_in_order ub (ranked_walk sel fuel None) ALP_ERR_NOT_PRESENT_ON_THIS_SOC log w) \<and>
    sorted_wrt (>) (map (\<lambda>be. rank_of (ub_mem ub be)) (ranked_walk sel fuel None)) \<and>
    (\<lambda>be. rank_of (ub_mem ub be)) ` set (ranked_walk sel fuel None) = (\<lambda>be. rank_of (ub_mem ub be)) ` C"
proof (intro conjI)
  have "alp_backend_select (ub_mem ub) (ub_classes ub) (Some ''update_log'') (Some (ub_soc ub)) = sel None"
    by (simp add: alp_backend_select_def alp_backend_select_next_def assms(1) sel_def)
  then show "elect_backend fuel ub log w =
      Some (try_in_order ub (ranked_walk sel fuel None) ALP_ERR_NOT_PRESENT_ON_THIS_SOC log w)"
    using elect_from_walk [OF assms(1), of None fuel] assms(4)
    by (simp add: elect_backend_def sel_def C_def below_def)
  show "sorted_wrt (>) (map (\<lambda>be. rank_of (ub_mem ub be)) (ranked_walk sel fuel None))"
    unfolding sel_def by (rule registry.walk_descending)
  show "(\<lambda>be. rank_of (ub_mem ub be)) ` set (ranked_walk sel fuel None) = (\<lambda>be. rank_of (ub_mem ub be)) ` C"
    unfolding sel_def C_def using assms(4)
    by (subst registry.walk_ranks) (simp_all add: ranked_remaining_def C_def)
qed

text \<open>A build with the software tier alone.\<close>

definition sw_only_build :: "sw_state update_log_build" where
  "sw_only_build = \<lparr>ub_mem = (\<lambda>_. \<lparr>be_silicon_ref = Some ''*'', be_vendor = Some ''sw_tier'', be_base_caps = 0,
       be_base_class_flags = 0, be_priority = 10, be_ops = Some (sw_tier_ops False)\<rparr>),
     ub_classes = [\<lparr>cr_class_name = ''update_log'', cr_start = 0, cr_stop = 1\<rparr>], ub_soc = ''e7'', ub_require_hw = False\<rparr>"

definition closed_log :: "'w update_log" where
  "closed_log = \<lparr>ul_ops = None, ul_assurance = ALP_UPDATE_LOG_SW_TAMPER_EVIDENT, ul_lifecycle = 0, ul_active_ops = 0\<rparr>"

lemma sw_only_class: "find_class (ub_classes sw_only_build) ''update_log'' =
    Some \<lparr>cr_class_name = ''update_log'', cr_start = 0, cr_stop = 1\<rparr>"
  "ub_soc sw_only_build = ''e7''"
  by (simp_all add: sw_only_build_def)

lemma elect_sw_only:
  "elect_backend 1 sw_only_build l st =
     Some (ALP_OK, l\<lparr>ul_ops := Some (sw_tier_ops False), ul_assurance := ALP_UPDATE_LOG_SW_TAMPER_EVIDENT\<rparr>, st)"
proof -
  have sel: "alp_backend_select (ub_mem sw_only_build) (ub_classes sw_only_build) (Some ''update_log'') (Some ''e7'') = Some 0"
    by (simp add: alp_backend_select_def alp_backend_select_next_def select_in_range_def select_step_def is_wildcard_def sw_only_build_def)
  have bits: "be_ops (ub_mem sw_only_build 0) = Some (sw_tier_ops False)" "ub_require_hw sw_only_build = False"
    by (simp_all add: sw_only_build_def)
  show ?thesis
    by (simp add: elect_backend_def sw_only_class(2) sel bits sw_tier_ops_def sw_ready_def Let_def)
qed

theorem elect_backend_ranked_witness:
  "elect_backend 1 sw_only_build closed_log sw_zero =
     Some (ALP_OK, closed_log\<lparr>ul_ops := Some (sw_tier_ops False), ul_assurance := ALP_UPDATE_LOG_SW_TAMPER_EVIDENT\<rparr>, sw_zero)"
proof -
  have "card (candidates (ub_mem sw_only_build) 0 1 (Some ''e7'')) \<le> 1"
    by (rule order_trans [OF card_mono [of "{0}"]]) (auto simp: candidates_def)
  moreover have "select_in_range (ub_mem sw_only_build) 0 1 (Some ''e7'') None = Some 0"
    by (simp add: select_in_range_def select_step_def is_wildcard_def sw_only_build_def)
  ultimately show ?thesis
    using elect_backend_ranked [OF sw_only_class(1), of 1 closed_log sw_zero]
    by (simp add: sw_only_class(2)) (simp add: sw_only_build_def sw_tier_ops_def sw_ready_def)
qed

text \<open>
  The handle mediates exactly.  Every operation on a handle that is not open answers
  \<open>ALP_ERR_NOT_READY\<close> without reaching the backend; on an open one it is the backend's
  operation, and either way the handle and its operation counter are left as they were.
\<close>

theorem handle_ops_mediate:
  "alp_update_log_append (Some log) (Some e) w =
     (if ul_lifecycle log \<noteq> ALP_HANDLE_LC_OPEN then (ALP_ERR_NOT_READY, Some log, w)
      else case ulo_append (the (ul_ops log)) of None \<Rightarrow> (ALP_ERR_NOT_IMPLEMENTED, Some log, w)
        | Some f \<Rightarrow> (fst (f (Some e) w), Some log, snd (f (Some e) w))) \<and>
   alp_update_log_verify (Some log) (Some v) b w =
     (if ul_lifecycle log \<noteq> ALP_HANDLE_LC_OPEN then ((ALP_ERR_NOT_READY, Some v, b), Some log, w)
      else case ulo_verify (the (ul_ops log)) of None \<Rightarrow> ((ALP_ERR_NOT_IMPLEMENTED, Some v, b), Some log, w)
        | Some f \<Rightarrow> (case f (Some v) b w of (rc, v, b, w) \<Rightarrow> ((rc, v, b), Some log, w))) \<and>
   alp_update_log_count (Some log) (Some n) w =
     (if ul_lifecycle log \<noteq> ALP_HANDLE_LC_OPEN then ((ALP_ERR_NOT_READY, Some n), Some log, w)
      else case ulo_count (the (ul_ops log)) of None \<Rightarrow> ((ALP_ERR_NOT_IMPLEMENTED, Some n), Some log, w)
        | Some f \<Rightarrow> (case f (Some n) w of (rc, n, w) \<Rightarrow> ((rc, n), Some log, w))) \<and>
   alp_update_log_get (Some log) seq (Some e) w =
     (if ul_lifecycle log \<noteq> ALP_HANDLE_LC_OPEN then ((ALP_ERR_NOT_READY, Some e), Some log, w)
      else case ulo_get (the (ul_ops log)) of None \<Rightarrow> ((ALP_ERR_NOT_IMPLEMENTED, Some e), Some log, w)
        | Some f \<Rightarrow> (case f seq (Some e) w of (rc, e, w) \<Rightarrow> ((rc, e), Some log, w)))"
  by (simp add: alp_update_log_append_def alp_update_log_verify_def alp_update_log_count_def alp_update_log_get_def
      guarded_def alp_handle_op_enter_def alp_handle_op_leave_def alp_lifecycle_get_def Let_def split: option.splits prod.splits)

text \<open>
  From open to close on the software tier.  Opening the zeroed log binds the tier, up to
  31 entries appended through the handle are all accepted, the handle's count is then their
  number, verify reports \<open>OK\<close>, and closing returns the handle to the state it was opened in.
\<close>

theorem public_api_session:
  assumes "length es \<le> 31" and "\<forall>e \<in> set es. entry_wf e \<and> entry_encodable e"
    and "sw_append_all es sw_zero = (rcs, st)"
  shows "\<exists>log st1 st2. alp_update_log_open 1 sw_only_build closed_log sw_zero = Some (True, ALP_OK, log, sw_zero) \<and>
    (\<forall>e w. alp_update_log_append (Some log) (Some e) w = (fst (sw_append (Some e) w), Some log, snd (sw_append (Some e) w))) \<and>
    rcs = replicate (length es) ALP_OK \<and>
    alp_update_log_count (Some log) (Some n0) st = ((ALP_OK, Some (of_nat (length es))), Some log, st1) \<and>
    alp_update_log_verify (Some log) (Some v0) b st =
      ((ALP_OK, Some ALP_UPDATE_LOG_VERIFY_OK, map_option (\<lambda>_. 0) b), Some log, st2) \<and>
    alp_update_log_close (Some log) = Some (Some closed_log)"
proof -
  define log :: "sw_state update_log" where
    "log = closed_log\<lparr>ul_ops := Some (sw_tier_ops False), ul_assurance := ALP_UPDATE_LOG_SW_TAMPER_EVIDENT, ul_lifecycle := 1\<rparr>"
  have op: "alp_update_log_open 1 sw_only_build closed_log sw_zero = Some (True, ALP_OK, log, sw_zero)"
    by (simp add: alp_update_log_open_def elect_sw_only [unfolded One_nat_def] closed_log_def log_def alp_lifecycle_get_def alp_lifecycle_set_def)
  note med = guarded_def alp_handle_op_enter_def alp_handle_op_leave_def alp_lifecycle_get_def log_def closed_log_def
    sw_tier_ops_def
  have l: "rcs = replicate (length es) ALP_OK" "ram_log st (numbered 0 es)"
    using ram_append_all [of sw_zero "[]" es rcs st] assms by auto
  then have h: "ram_inv st" "holds_log (ram_blobs st) (sw_counter st) (numbered 0 es)"
    "ram_blobs st META_KEY \<noteq> None \<or> 0 < ram_room st" by (auto simp: ram_log_def split: if_splits)
  obtain st2 where v: "sw_verify (Some v0) b st = (ALP_OK, Some ALP_UPDATE_LOG_VERIFY_OK, map_option (\<lambda>_. 0) b, st2)"
    using ram_verify_held [OF h, of v0 b] by blast
  obtain st1 where c: "sw_count (Some n0) st = (ALP_OK, Some (of_nat (length es)), st1)"
    using ram_count_held [OF h, of n0] by auto
  have "alp_update_log_close (Some log) = Some (Some closed_log)"
    by (simp add: alp_update_log_close_def alp_handle_begin_close_blocking_def alp_handle_drain_blocking_def
        alp_lifecycle_cas_def alp_lifecycle_set_def log_def closed_log_def)
  moreover have "alp_update_log_append (Some log) (Some e) w = (fst (sw_append (Some e) w), Some log, snd (sw_append (Some e) w))" for e w
    by (simp add: alp_update_log_append_def med Let_def split: prod.splits)
  moreover have "alp_update_log_count (Some log) (Some n0) st = ((ALP_OK, Some (of_nat (length es))), Some log, st1)"
    by (simp add: alp_update_log_count_def med c)
  moreover have "alp_update_log_verify (Some log) (Some v0) b st =
      ((ALP_OK, Some ALP_UPDATE_LOG_VERIFY_OK, map_option (\<lambda>_. 0) b), Some log, st2)"
    by (simp add: alp_update_log_verify_def med v)
  ultimately show ?thesis using op l(1) by blast
qed

theorem public_api_session_witness:
  "\<exists>log st1. alp_update_log_open 1 sw_only_build closed_log sw_zero = Some (True, ALP_OK, log, sw_zero) \<and>
     alp_update_log_count (Some log) (Some 9) (snd (sw_append_all [sample_entry] sw_zero)) = ((ALP_OK, Some 1), Some log, st1)"
  using public_api_session [of "[sample_entry]" "fst (sw_append_all [sample_entry] sw_zero)"
      "snd (sw_append_all [sample_entry] sw_zero)" 9 ALP_UPDATE_LOG_VERIFY_OK None]
  by (auto simp del: sw_append_all.simps)

end
