(* ===== verification/I2c_Regfile.thy ===== *)
theory I2c_Regfile
  imports Slot_Claim
begin

text \<open>
  The register-file I2C target (\<^verbatim>\<open>src/i2c_regfile.c\<close>): the register-pointer state machine its
  three interrupt callbacks run over a caller-owned buffer, and the open, write-window, stats
  and close operations of its handles.

  The buffer the handle points to is the field \<open>rf_regs\<close> (\<open>None\<close> after close).  Sizes are
  natural numbers: an index stays below the length of the buffer, so \<^verbatim>\<open>p + 1\<close> cannot wrap.
  The portable target API the helper wraps is passed in as \<open>i2c_target_api\<close>.
\<close>

section \<open>The handle\<close>

record i2c_regfile =
  rf_tgt :: "nat option"
  rf_regs :: "bytes option"
  rf_len :: nat
  rf_wr_first :: nat
  rf_wr_count :: nat
  rf_reg_ptr :: nat
  rf_expecting_reg_addr :: bool
  rf_writes_seen :: u32
  rf_reads_seen :: u32
  rf_lifecycle :: u8
  rf_active_ops :: u32
  rf_in_use :: bool

text \<open>A slot after the claim: everything before \<open>in_use\<close> zeroed.\<close>

definition rf_claimed :: i2c_regfile where
  "rf_claimed = \<lparr>rf_tgt = None, rf_regs = None, rf_len = 0, rf_wr_first = 0, rf_wr_count = 0, rf_reg_ptr = 0,
     rf_expecting_reg_addr = False, rf_writes_seen = 0, rf_reads_seen = 0, rf_lifecycle = 0, rf_active_ops = 0,
     rf_in_use = True\<rparr>"

fun rf_alloc :: "i2c_regfile list \<Rightarrow> (nat \<times> i2c_regfile list) option" where
  "rf_alloc [] = None"
| "rf_alloc (rf # pool) =
     (case alp_slot_try_claim (rf_in_use rf) of
        (True, _) \<Rightarrow> Some (0, rf_claimed # pool)
      | (False, _) \<Rightarrow> map_option (\<lambda>(i, pool). (Suc i, rf # pool)) (rf_alloc pool))"

section \<open>The callbacks\<close>

definition rf_on_write :: "u8 \<Rightarrow> i2c_regfile \<Rightarrow> i2c_regfile" where
  "rf_on_write byte rf =
     (if rf_expecting_reg_addr rf then
        rf\<lparr>rf_reg_ptr := unat byte mod rf_len rf, rf_expecting_reg_addr := False\<rparr>
      else
        (let rf = rf\<lparr>rf_writes_seen := rf_writes_seen rf + 1\<rparr>;
             p = rf_reg_ptr rf;
             rf = (if p \<ge> rf_wr_first rf \<and> p - rf_wr_first rf < rf_wr_count rf
                   then rf\<lparr>rf_regs := map_option (\<lambda>regs. regs[p := byte]) (rf_regs rf)\<rparr> else rf)
         in rf\<lparr>rf_reg_ptr := (p + 1) mod rf_len rf\<rparr>))"

definition rf_on_read :: "i2c_regfile \<Rightarrow> alp_status \<times> u8 \<times> i2c_regfile" where
  "rf_on_read rf =
     (let p = rf_reg_ptr rf;
          byte = the (rf_regs rf) ! p;
          rf = rf\<lparr>rf_reg_ptr := (p + 1) mod rf_len rf\<rparr>
      in (ALP_OK, byte, rf\<lparr>rf_reads_seen := rf_reads_seen rf + 1\<rparr>))"

definition rf_on_stop :: "i2c_regfile \<Rightarrow> i2c_regfile" where
  "rf_on_stop rf = rf\<lparr>rf_expecting_reg_addr := True\<rparr>"

section \<open>The handle's operations\<close>

record 'w i2c_target_api =
  i2c_target_open :: "u32 \<Rightarrow> u8 \<Rightarrow> nat \<Rightarrow> 'w \<Rightarrow> nat option \<times> 'w"
  i2c_target_close :: "nat option \<Rightarrow> 'w \<Rightarrow> 'w"
  last_error :: "'w \<Rightarrow> alp_status"

definition alp_i2c_regfile_open ::
  "'w i2c_target_api \<Rightarrow> u32 \<Rightarrow> u8 \<Rightarrow> bytes option \<Rightarrow> nat \<Rightarrow> nat option option \<Rightarrow> i2c_regfile list \<Rightarrow> 'w \<Rightarrow>
   alp_status \<times> nat option option \<times> i2c_regfile list \<times> 'w" where
  "alp_i2c_regfile_open api bus_id own_addr regs len out pool w =
     (case out of
        None \<Rightarrow> (ALP_ERR_INVAL, None, pool, w)
      | Some _ \<Rightarrow>
          if regs = None \<or> len = 0 \<or> own_addr < 0x08 \<or> own_addr > 0x77 then (ALP_ERR_INVAL, Some None, pool, w) else
          (case rf_alloc pool of
             None \<Rightarrow> (ALP_ERR_NOMEM, Some None, pool, w)
           | Some (i, pool) \<Rightarrow>
               let rf = (pool ! i)\<lparr>rf_regs := regs, rf_len := len, rf_wr_first := 0, rf_wr_count := len,
                          rf_reg_ptr := 0, rf_expecting_reg_addr := True\<rparr>;
                   (tgt, w) = i2c_target_open api bus_id own_addr i w;
                   rf = rf\<lparr>rf_tgt := tgt\<rparr> in
               if tgt = None then
                 (let rc = last_error api w
                  in ((if rc = ALP_OK then ALP_ERR_IO else rc), Some None,
                      pool[i := rf\<lparr>rf_in_use := alp_slot_release (rf_in_use rf)\<rparr>], w))
               else
                 (ALP_OK, Some (Some i),
                  pool[i := rf\<lparr>rf_lifecycle := alp_lifecycle_set (rf_lifecycle rf) ALP_HANDLE_LC_OPEN\<rparr>], w)))"

definition alp_i2c_regfile_set_write_window ::
  "i2c_regfile option \<Rightarrow> nat \<Rightarrow> nat \<Rightarrow> alp_status \<times> i2c_regfile option" where
  "alp_i2c_regfile_set_write_window rf first count =
     (case rf of
        None \<Rightarrow> (ALP_ERR_NOT_READY, None)
      | Some rf \<Rightarrow>
          (case alp_handle_op_enter (rf_lifecycle rf) (rf_active_ops rf) of
             (False, n) \<Rightarrow> (ALP_ERR_NOT_READY, Some (rf\<lparr>rf_active_ops := n\<rparr>))
           | (True, n) \<Rightarrow>
               (let (rc, rf) = (if first > rf_len rf \<or> count > rf_len rf - first then (ALP_ERR_INVAL, rf)
                                else (ALP_OK, rf\<lparr>rf_wr_first := first, rf_wr_count := count\<rparr>))
                in (rc, Some (rf\<lparr>rf_active_ops := alp_handle_op_leave n\<rparr>)))))"

definition alp_i2c_regfile_stats ::
  "i2c_regfile option \<Rightarrow> (u32 \<times> u32) option \<Rightarrow> alp_status \<times> (u32 \<times> u32) option \<times> i2c_regfile option" where
  "alp_i2c_regfile_stats rf out =
     (case out of
        None \<Rightarrow> (ALP_ERR_INVAL, None, rf)
      | Some _ \<Rightarrow>
          (case rf of
             None \<Rightarrow> (ALP_ERR_NOT_READY, out, None)
           | Some m \<Rightarrow>
               (case alp_handle_op_enter (rf_lifecycle m) (rf_active_ops m) of
                  (False, n) \<Rightarrow> (ALP_ERR_NOT_READY, out, Some (m\<lparr>rf_active_ops := n\<rparr>))
                | (True, n) \<Rightarrow> (ALP_OK, Some (rf_writes_seen m, rf_reads_seen m),
                    Some (m\<lparr>rf_active_ops := alp_handle_op_leave n\<rparr>)))))"

text \<open>\<open>None\<close> is a close that waits for an operation of another thread to leave.\<close>

definition alp_i2c_regfile_close ::
  "'w i2c_target_api \<Rightarrow> i2c_regfile option \<Rightarrow> 'w \<Rightarrow> (i2c_regfile option \<times> 'w) option" where
  "alp_i2c_regfile_close api rf w =
     (case rf of
        None \<Rightarrow> Some (None, w)
      | Some rf \<Rightarrow>
          (case alp_handle_begin_close_blocking (rf_lifecycle rf) (rf_active_ops rf) of
             None \<Rightarrow> None
           | Some (False, lc) \<Rightarrow> Some (Some (rf\<lparr>rf_lifecycle := lc\<rparr>), w)
           | Some (True, lc) \<Rightarrow>
               (let w = i2c_target_close api (rf_tgt rf) w
                in Some (Some (rf\<lparr>rf_tgt := None, rf_regs := None,
                     rf_lifecycle := alp_lifecycle_set lc ALP_HANDLE_LC_UNOPENED,
                     rf_in_use := alp_slot_release (rf_in_use rf)\<rparr>), w))))"

section \<open>Bus traffic\<close>

datatype bus_event = Ctl_Write u8 | Ctl_Read | Ctl_Stop

text \<open>What a sequence of bus events does: the bytes streamed out, and the handle after.\<close>

fun rf_run :: "bus_event list \<Rightarrow> i2c_regfile \<Rightarrow> bytes \<times> i2c_regfile" where
  "rf_run [] rf = ([], rf)"
| "rf_run (Ctl_Write b # es) rf = rf_run es (rf_on_write b rf)"
| "rf_run (Ctl_Stop # es) rf = rf_run es (rf_on_stop rf)"
| "rf_run (Ctl_Read # es) rf =
     (let (_, b, rf) = rf_on_read rf; (bs, rf) = rf_run es rf in (b # bs, rf))"

text \<open>The well-formed handle: the buffer has the length it was opened with, the pointer and
  the write window lie inside it.\<close>

definition rf_wf :: "i2c_regfile \<Rightarrow> bool" where
  "rf_wf rf \<longleftrightarrow> (\<exists>regs. rf_regs rf = Some regs \<and> length regs = rf_len rf) \<and> 0 < rf_len rf \<and>
     rf_reg_ptr rf < rf_len rf \<and> rf_wr_first rf + rf_wr_count rf \<le> rf_len rf"

definition rf_writable :: "i2c_regfile \<Rightarrow> nat \<Rightarrow> bool" where
  "rf_writable rf r \<longleftrightarrow> rf_wr_first rf \<le> r \<and> r < rf_wr_first rf + rf_wr_count rf"

text \<open>The reference for a burst write: byte \<open>i\<close> goes to register \<open>(p + i) mod len\<close> if the
  window has it.\<close>

definition burst_write :: "nat \<Rightarrow> (nat \<Rightarrow> bool) \<Rightarrow> nat \<Rightarrow> bytes \<Rightarrow> bytes \<Rightarrow> bytes" where
  "burst_write len ok p ds regs =
     fold (\<lambda>i regs. if ok ((p + i) mod len) then regs[(p + i) mod len := ds ! i] else regs) [0..<length ds] regs"

lemma upt_shift: "[0..<Suc n] = 0 # map Suc [0..<n]"
  by (simp add: map_Suc_upt upt_conv_Cons del: upt_Suc)

lemma burst_write_Nil [simp]: "burst_write len ok p [] regs = regs"
  by (simp add: burst_write_def)

lemma burst_write_Cons:
  "p < len \<Longrightarrow> burst_write len ok p (d # ds) regs =
     burst_write len ok (Suc p mod len) ds (if ok p then regs[p := d] else regs)"
proof -
  assume p: "p < len"
  show ?thesis using p
    by (simp add: burst_write_def upt_shift fold_map comp_def mod_add_left_eq mod_Suc_eq cong: if_cong del: upt_Suc)
qed

lemma length_burst_write [simp]: "length (burst_write len ok p ds regs) = length regs"
proof -
  have "length (fold (\<lambda>i regs. if ok ((p + i) mod len) then regs[(p + i) mod len := ds ! i] else regs) xs regs) = length regs" for xs
    by (induction xs arbitrary: regs) auto
  then show ?thesis by (simp add: burst_write_def)
qed

lemma rf_on_write_data:
  assumes "rf_wf rf" "\<not> rf_expecting_reg_addr rf" "rf_regs rf = Some regs"
  shows "rf_on_write b rf = rf\<lparr>rf_writes_seen := rf_writes_seen rf + 1,
      rf_regs := Some (if rf_writable rf (rf_reg_ptr rf) then regs[rf_reg_ptr rf := b] else regs),
      rf_reg_ptr := Suc (rf_reg_ptr rf) mod rf_len rf\<rparr>"
  using assms by (auto simp: rf_on_write_def rf_writable_def Let_def)

lemma rf_wf_write: "rf_wf rf \<Longrightarrow> rf_wf (rf_on_write b rf)"
  by (auto simp: rf_wf_def rf_on_write_def Let_def)

lemma rf_wf_read: "rf_wf rf \<Longrightarrow> rf_on_read rf = (st, b, rf') \<Longrightarrow> rf_wf rf'"
  by (auto simp: rf_wf_def rf_on_read_def Let_def)

lemma rf_wf_stop: "rf_wf rf \<Longrightarrow> rf_wf (rf_on_stop rf)"
  by (auto simp: rf_wf_def rf_on_stop_def)

lemma burst_data:
  "rf_wf rf \<Longrightarrow> \<not> rf_expecting_reg_addr rf \<Longrightarrow> rf_regs rf = Some regs \<Longrightarrow>
   rf_run (map Ctl_Write ds @ es) rf =
     rf_run es (rf\<lparr>rf_writes_seen := rf_writes_seen rf + of_nat (length ds),
       rf_regs := Some (burst_write (rf_len rf) (rf_writable rf) (rf_reg_ptr rf) ds regs),
       rf_reg_ptr := (rf_reg_ptr rf + length ds) mod rf_len rf\<rparr>)"
proof (induction ds arbitrary: rf regs)
  case Nil
  then show ?case by (cases rf) (simp add: rf_wf_def)
next
  case (Cons d ds)
  let ?rf = "rf_on_write d rf"
  have w: "?rf = rf\<lparr>rf_writes_seen := rf_writes_seen rf + 1,
      rf_regs := Some (if rf_writable rf (rf_reg_ptr rf) then regs[rf_reg_ptr rf := d] else regs),
      rf_reg_ptr := Suc (rf_reg_ptr rf) mod rf_len rf\<rparr>"
    using rf_on_write_data Cons.prems by blast
  have p: "rf_reg_ptr rf < rf_len rf" using Cons.prems(1) by (simp add: rf_wf_def)
  have wr: "rf_writable ?rf = rf_writable rf" by (auto simp: w rf_writable_def fun_eq_iff)
  have "rf_run (map Ctl_Write ds @ es) ?rf =
    rf_run es (?rf\<lparr>rf_writes_seen := rf_writes_seen ?rf + of_nat (length ds),
       rf_regs := Some (burst_write (rf_len ?rf) (rf_writable ?rf) (rf_reg_ptr ?rf) ds
         (if rf_writable rf (rf_reg_ptr rf) then regs[rf_reg_ptr rf := d] else regs)),
       rf_reg_ptr := (rf_reg_ptr ?rf + length ds) mod rf_len ?rf\<rparr>)"
    using Cons.prems by (intro Cons.IH rf_wf_write) (simp_all add: w)
  then show ?case using p unfolding wr by (simp add: w burst_write_Cons mod_add_left_eq add.assoc)
qed

lemma burst_read:
  "rf_wf rf \<Longrightarrow> rf_regs rf = Some regs \<Longrightarrow>
   rf_run (replicate n Ctl_Read @ es) rf =
     (let (bs, rf') = rf_run es (rf\<lparr>rf_reads_seen := rf_reads_seen rf + of_nat n,
          rf_reg_ptr := (rf_reg_ptr rf + n) mod rf_len rf\<rparr>)
      in (map (\<lambda>i. regs ! ((rf_reg_ptr rf + i) mod rf_len rf)) [0..<n] @ bs, rf'))"
proof (induction n arbitrary: rf)
  case 0
  then show ?case by (simp add: rf_wf_def)
next
  case (Suc n)
  have p: "rf_reg_ptr rf < rf_len rf" using Suc.prems(1) by (simp add: rf_wf_def)
  let ?rf = "rf\<lparr>rf_reg_ptr := Suc (rf_reg_ptr rf) mod rf_len rf, rf_reads_seen := rf_reads_seen rf + 1\<rparr>"
  have r: "rf_on_read rf = (ALP_OK, regs ! rf_reg_ptr rf, ?rf)" using Suc.prems(2) by (simp add: rf_on_read_def Let_def)
  show ?case
    using Suc.IH [OF rf_wf_read [OF Suc.prems(1) r]] Suc.prems(2) p r
    by (simp add: upt_shift mod_add_left_eq mod_Suc_eq add.assoc comp_def split: prod.splits del: upt_Suc)
qed

lemma rf_on_write_addr:
  "rf_expecting_reg_addr rf \<Longrightarrow> rf_on_write a rf = rf\<lparr>rf_reg_ptr := unat a mod rf_len rf, rf_expecting_reg_addr := False\<rparr>"
  by (simp add: rf_on_write_def)

lemma burst_write_other:
  "r < length regs \<Longrightarrow> \<not> ok r \<Longrightarrow> burst_write len ok p ds regs ! r = regs ! r"
proof -
  assume r: "r < length regs" "\<not> ok r"
  have "fold (\<lambda>i regs. if ok ((p + i) mod len) then regs[(p + i) mod len := ds ! i] else regs) xs regs ! r = regs ! r" for xs
  proof (induction xs arbitrary: regs)
    case (Cons x xs)
    have "ok ((p + x) mod len) \<Longrightarrow> (p + x) mod len \<noteq> r" using r(2) by auto
    then show ?case using Cons.IH by simp
  qed simp
  then show ?thesis by (simp add: burst_write_def)
qed

lemma mod_once: "(a :: nat) < 2 * n \<Longrightarrow> a mod n = (if a < n then a else a - n)"
  by (simp add: le_mod_geq)

lemma ring_index_inj: "(p :: nat) < len \<Longrightarrow> i < len \<Longrightarrow> j < len \<Longrightarrow> (p + i) mod len = (p + j) mod len \<Longrightarrow> i = j"
  using mod_once [of "p + i" len] mod_once [of "p + j" len] by (auto split: if_splits)

text \<open>A byte of the burst is still there at the end when the burst is no longer than the file.\<close>

lemma burst_write_nth:
  assumes "length ds \<le> len" "length regs = len" "p < len" "i < length ds" "ok ((p + i) mod len)"
  shows "burst_write len ok p ds regs ! ((p + i) mod len) = ds ! i"
proof -
  let ?f = "\<lambda>i regs. if ok ((p + i) mod len) then regs[(p + i) mod len := ds ! i] else regs"
  have len: "length (fold ?f xs regs) = len" for xs
    using assms(2) by (induction xs arbitrary: regs) auto
  have "i < n \<longrightarrow> fold ?f [0..<n] regs ! ((p + i) mod len) = ds ! i" if "n \<le> length ds" for n
    using that
  proof (induction n)
    case (Suc n)
    have "(p + n) mod len \<noteq> (p + i) mod len" if "n \<noteq> i"
      using ring_index_inj [of p len n i] that Suc.prems assms by auto
    moreover have "(p + i) mod len < len" using assms(3) by simp
    ultimately show ?case using Suc assms(5) len [of "[0..<n]"] by (cases "n = i") auto
  qed simp
  then show ?thesis using assms(4) by (simp add: burst_write_def)
qed

lemma rf_run_wf: "rf_wf rf \<Longrightarrow> rf_run es rf = (bs, rf') \<Longrightarrow> rf_wf rf'"
  by (induction es rf arbitrary: bs rule: rf_run.induct)
    (auto simp: rf_wf_write rf_wf_stop dest: rf_wf_read split: prod.splits)

definition rf_same_shape :: "i2c_regfile \<Rightarrow> i2c_regfile \<Rightarrow> bool" where
  "rf_same_shape rf rf' \<longleftrightarrow> rf_len rf' = rf_len rf \<and> rf_wr_first rf' = rf_wr_first rf \<and> rf_wr_count rf' = rf_wr_count rf \<and>
     rf_lifecycle rf' = rf_lifecycle rf \<and> rf_active_ops rf' = rf_active_ops rf \<and> rf_in_use rf' = rf_in_use rf \<and>
     (\<forall>r. r < rf_len rf \<and> \<not> rf_writable rf r \<longrightarrow> the (rf_regs rf') ! r = the (rf_regs rf) ! r)"

lemma rf_same_shape_trans: "rf_same_shape a b \<Longrightarrow> rf_same_shape b c \<Longrightarrow> rf_same_shape a c"
  by (simp add: rf_same_shape_def rf_writable_def)

lemma rf_run_shape: "rf_wf rf \<Longrightarrow> rf_run es rf = (bs, rf') \<Longrightarrow> rf_same_shape rf rf'"
proof (induction es rf arbitrary: bs rule: rf_run.induct)
  case (2 b es rf)
  have "rf_same_shape rf (rf_on_write b rf)"
    using 2(2) by (auto simp: rf_same_shape_def rf_on_write_def rf_writable_def rf_wf_def Let_def nth_list_update)
  then show ?case using 2(1) [OF rf_wf_write [OF 2(2)]] 2(3) rf_same_shape_trans by fastforce
next
  case (3 es rf)
  have "rf_same_shape rf (rf_on_stop rf)" by (simp add: rf_same_shape_def rf_on_stop_def)
  then show ?case using 3(1) [OF rf_wf_stop [OF 3(2)]] 3(3) rf_same_shape_trans by fastforce
next
  case (4 es rf)
  obtain st b rf1 where r: "rf_on_read rf = (st, b, rf1)" by (metis prod_cases3)
  then have "rf_same_shape rf rf1" by (auto simp: rf_same_shape_def rf_on_read_def Let_def)
  moreover obtain bs' where "rf_run es rf1 = (bs', rf')" using 4(3) r by (auto split: prod.splits)
  ultimately show ?case using 4(1) [OF r [symmetric] refl refl rf_wf_read [OF 4(2) r]] rf_same_shape_trans by fastforce
qed (simp add: rf_same_shape_def)

section \<open>Properties\<close>

text \<open>
  One bus transaction.  On a well-formed handle at the start of a transaction, a controller
  write of a pointer byte \<open>a\<close> followed by data and STOP stores byte \<open>i\<close> of the data at register
  \<open>(a + i) mod len\<close> when the write window has it and drops it otherwise, streams nothing and
  leaves the pointer after the burst; a pointer byte followed by \<open>n\<close> reads and STOP streams
  registers \<open>(a + i) mod len\<close> for \<open>i < n\<close>, the counters counting exactly the payload bytes.
\<close>

theorem rf_transaction:
  assumes "rf_wf rf" and "rf_expecting_reg_addr rf" and "rf_regs rf = Some regs"
  shows "rf_run (Ctl_Write a # map Ctl_Write ds @ [Ctl_Stop]) rf =
      ([], rf\<lparr>rf_regs := Some (burst_write (rf_len rf) (rf_writable rf) (unat a mod rf_len rf) ds regs),
        rf_reg_ptr := (unat a + length ds) mod rf_len rf, rf_writes_seen := rf_writes_seen rf + of_nat (length ds)\<rparr>) \<and>
    rf_run (Ctl_Write a # replicate n Ctl_Read @ [Ctl_Stop]) rf =
      (map (\<lambda>i. regs ! ((unat a + i) mod rf_len rf)) [0..<n],
       rf\<lparr>rf_reg_ptr := (unat a + n) mod rf_len rf, rf_reads_seen := rf_reads_seen rf + of_nat n\<rparr>)"
proof
  let ?rf = "rf_on_write a rf"
  have w: "?rf = rf\<lparr>rf_reg_ptr := unat a mod rf_len rf, rf_expecting_reg_addr := False\<rparr>"
    using assms(2) by (rule rf_on_write_addr)
  have wf: "rf_wf ?rf" using assms(1) by (rule rf_wf_write)
  have regs: "rf_regs ?rf = Some regs" and ex: "\<not> rf_expecting_reg_addr ?rf" using assms(3) by (simp_all add: w)
  have wr: "rf_writable ?rf = rf_writable rf" by (simp add: w rf_writable_def fun_eq_iff)
  let ?rw = "rf\<lparr>rf_regs := Some (burst_write (rf_len rf) (rf_writable rf) (unat a mod rf_len rf) ds regs),
        rf_reg_ptr := (unat a + length ds) mod rf_len rf, rf_writes_seen := rf_writes_seen rf + of_nat (length ds)\<rparr>"
  let ?rr = "rf\<lparr>rf_reg_ptr := (unat a + n) mod rf_len rf, rf_reads_seen := rf_reads_seen rf + of_nat n\<rparr>"
  have expect: "?rw\<lparr>rf_expecting_reg_addr := True\<rparr> = ?rw" "?rr\<lparr>rf_expecting_reg_addr := True\<rparr> = ?rr"
    using assms(2) by (cases rf, simp)+
  have "rf_run (Ctl_Write a # map Ctl_Write ds @ [Ctl_Stop]) rf = ([], ?rw\<lparr>rf_expecting_reg_addr := True\<rparr>)"
    using burst_data [OF wf ex regs, of ds "[Ctl_Stop]"] unfolding wr
    by (simp add: w rf_on_stop_def mod_add_left_eq)
  then show "rf_run (Ctl_Write a # map Ctl_Write ds @ [Ctl_Stop]) rf = ([], ?rw)" unfolding expect .
  have "rf_run (Ctl_Write a # replicate n Ctl_Read @ [Ctl_Stop]) rf =
      (map (\<lambda>i. regs ! ((unat a + i) mod rf_len rf)) [0..<n], ?rr\<lparr>rf_expecting_reg_addr := True\<rparr>)"
    using burst_read [OF wf regs, of n "[Ctl_Stop]"]
    by (simp add: w rf_on_stop_def mod_add_left_eq)
  then show "rf_run (Ctl_Write a # replicate n Ctl_Read @ [Ctl_Stop]) rf =
      (map (\<lambda>i. regs ! ((unat a + i) mod rf_len rf)) [0..<n], ?rr)" unfolding expect .
qed

text \<open>A four-register file, the second and third register writable.\<close>

definition sample_rf :: i2c_regfile where
  "sample_rf = rf_claimed\<lparr>rf_tgt := Some 0, rf_regs := Some [1, 2, 3, 4], rf_len := 4, rf_wr_first := 1, rf_wr_count := 2,
     rf_expecting_reg_addr := True, rf_lifecycle := 1\<rparr>"

lemma sample_rf_wf: "rf_wf sample_rf" "rf_expecting_reg_addr sample_rf" "rf_regs sample_rf = Some [1, 2, 3, 4]"
  by (simp_all add: sample_rf_def rf_claimed_def rf_wf_def)

theorem rf_transaction_witness:
  "fst (rf_run [Ctl_Write 7, Ctl_Read, Ctl_Read, Ctl_Stop] sample_rf) = [4, 1] \<and>
   the (rf_regs (snd (rf_run [Ctl_Write 0, Ctl_Write 9, Ctl_Write 8, Ctl_Stop] sample_rf))) =
     burst_write 4 (rf_writable sample_rf) 0 [9, 8] [1, 2, 3, 4]"
proof -
  have two: "replicate 2 Ctl_Read = [Ctl_Read, Ctl_Read]" "[0..<2] = [0, 1]" by (simp_all add: numeral_2_eq_2)
  have len: "rf_len sample_rf = 4" by (simp add: sample_rf_def)
  show ?thesis
    using rf_transaction [OF sample_rf_wf, of 7 "[]" 2] rf_transaction [OF sample_rf_wf, of 0 "[9, 8]" 0]
    unfolding two len by (simp del: rf_run.simps)
qed

text \<open>
  Controller traffic is confined.  Opening with a buffer of the stated length gives a
  well-formed handle, a window that is set keeps it well-formed, and from a well-formed handle
  every sequence of bus events, in any order, leaves one: the pointer stays inside the buffer,
  the buffer keeps its length, and no register outside the write window ever changes.
\<close>

theorem rf_traffic_confined:
  "(\<forall>bs rf'. rf_wf rf \<and> rf_run es rf = (bs, rf') \<longrightarrow> rf_wf rf' \<and>
      length (the (rf_regs rf')) = length (the (rf_regs rf)) \<and>
      (\<forall>r < rf_len rf. \<not> rf_writable rf r \<longrightarrow> the (rf_regs rf') ! r = the (rf_regs rf) ! r)) \<and>
   (\<forall>rc rf'. rf_wf rf \<and> alp_i2c_regfile_set_write_window (Some rf) first count = (rc, Some rf') \<longrightarrow>
      rf_wf rf' \<and> (rc = ALP_OK \<longrightarrow> (\<forall>r. rf_writable rf' r \<longleftrightarrow> first \<le> r \<and> r < first + count))) \<and>
   (\<forall>i pool' w'. alp_i2c_regfile_open api bus own (Some regs) (length regs) (Some out) pool w = (ALP_OK, Some (Some i), pool', w') \<longrightarrow>
      i < length pool \<and> \<not> rf_in_use (pool ! i) \<and> rf_wf (pool' ! i) \<and> rf_expecting_reg_addr (pool' ! i) \<and>
      (\<forall>j. j \<noteq> i \<longrightarrow> pool' ! j = pool ! j))"
proof (intro conjI allI impI)
  fix bs rf'
  assume a: "rf_wf rf \<and> rf_run es rf = (bs, rf')"
  then have "rf_wf rf'" "rf_same_shape rf rf'" using rf_run_wf rf_run_shape by blast+
  then show "rf_wf rf'" "length (the (rf_regs rf')) = length (the (rf_regs rf))"
    using a by (auto simp: rf_wf_def rf_same_shape_def)
  fix r assume "r < rf_len rf" "\<not> rf_writable rf r"
  then show "the (rf_regs rf') ! r = the (rf_regs rf) ! r" using \<open>rf_same_shape rf rf'\<close> by (simp add: rf_same_shape_def)
next
  fix rc rf'
  assume a: "rf_wf rf \<and> alp_i2c_regfile_set_write_window (Some rf) first count = (rc, Some rf')"
  then show "rf_wf rf'"
    by (auto simp: alp_i2c_regfile_set_write_window_def alp_handle_op_enter_def alp_lifecycle_get_def Let_def rf_wf_def split: if_splits)
  assume "rc = ALP_OK"
  fix r
  show "rf_writable rf' r \<longleftrightarrow> first \<le> r \<and> r < first + count"
    using a \<open>rc = ALP_OK\<close>
    by (auto simp: alp_i2c_regfile_set_write_window_def alp_handle_op_enter_def alp_lifecycle_get_def Let_def rf_writable_def split: if_splits)
next
  fix i pool' w'
  assume a: "alp_i2c_regfile_open api bus own (Some regs) (length regs) (Some out) pool w = (ALP_OK, Some (Some i), pool', w')"
  have al: "rf_alloc p = Some (j, p') \<Longrightarrow> j < length p \<and> \<not> rf_in_use (p ! j) \<and> p' = p[j := rf_claimed]" for p j p'
    by (induction p arbitrary: j p') (auto simp: alp_slot_try_claim_def split: if_splits)
  obtain p1 tgt where p1: "rf_alloc pool = Some (i, p1)" "regs \<noteq> []"
    and p': "pool' = p1[i := (p1 ! i)\<lparr>rf_regs := Some regs, rf_len := length regs, rf_wr_first := 0, rf_wr_count := length regs,
      rf_reg_ptr := 0, rf_expecting_reg_addr := True, rf_tgt := tgt, rf_lifecycle := 1\<rparr>]"
    using a by (auto simp: alp_i2c_regfile_open_def alp_lifecycle_set_def Let_def split: if_splits option.splits prod.splits)
  note l = al [OF p1(1)]
  then show "i < length pool" "\<not> rf_in_use (pool ! i)" by auto
  show "rf_wf (pool' ! i)" "rf_expecting_reg_addr (pool' ! i)" using l p1(2) by (simp_all add: p' rf_wf_def)
  fix j assume "j \<noteq> i"
  then show "pool' ! j = pool ! j" using l by (simp add: p')
qed

theorem rf_traffic_confined_witness:
  "\<exists>bs rf'. rf_run [Ctl_Write 3, Ctl_Write 0, Ctl_Read, Ctl_Stop, Ctl_Write 250] sample_rf = (bs, rf') \<and>
     rf_wf rf' \<and> the (rf_regs rf') ! 3 = 4"
proof -
  obtain bs rf' where r: "rf_run [Ctl_Write 3, Ctl_Write 0, Ctl_Read, Ctl_Stop, Ctl_Write 250] sample_rf = (bs, rf')" by fastforce
  have "3 < rf_len sample_rf" "\<not> rf_writable sample_rf 3" by (simp_all add: sample_rf_def rf_writable_def)
  then have "rf_wf rf' \<and> the (rf_regs rf') ! 3 = the (rf_regs sample_rf) ! 3"
    using rf_traffic_confined [of sample_rf "[Ctl_Write 3, Ctl_Write 0, Ctl_Read, Ctl_Stop, Ctl_Write 250]", THEN conjunct1]
      r sample_rf_wf(1) by blast
  then show ?thesis using r sample_rf_wf(3) by simp
qed

text \<open>
  C7. What the controller writes it reads back.  A burst no longer than the file, written at \<open>a\<close>
  into writable registers and ended by STOP, is streamed unchanged by a read of the same length
  from the same pointer, wherever it wraps.
\<close>

theorem rf_write_read_back:
  assumes "rf_wf rf" and "rf_expecting_reg_addr rf" and "length ds \<le> rf_len rf"
    and "\<forall>i < length ds. rf_writable rf ((unat a + i) mod rf_len rf)"
  shows "fst (rf_run (Ctl_Write a # map Ctl_Write ds @ [Ctl_Stop, Ctl_Write a] @ replicate (length ds) Ctl_Read) rf) = ds"
proof -
  obtain regs where regs: "rf_regs rf = Some regs" "length regs = rf_len rf" "0 < rf_len rf"
    using assms(1) by (auto simp: rf_wf_def)
  let ?rf = "rf_on_write a rf" and ?p = "unat a mod rf_len rf"
  let ?bw = "burst_write (rf_len rf) (rf_writable rf) ?p ds regs"
  have w: "?rf = rf\<lparr>rf_reg_ptr := ?p, rf_expecting_reg_addr := False\<rparr>" using assms(2) by (rule rf_on_write_addr)
  have wr: "rf_writable ?rf = rf_writable rf" by (simp add: w rf_writable_def fun_eq_iff)
  define rf2 where "rf2 = ?rf\<lparr>rf_writes_seen := rf_writes_seen ?rf + of_nat (length ds), rf_regs := Some ?bw,
       rf_reg_ptr := (?p + length ds) mod rf_len rf\<rparr>"
  have r1: "rf_run (map Ctl_Write ds @ [Ctl_Stop, Ctl_Write a] @ replicate (length ds) Ctl_Read) ?rf =
      rf_run ([Ctl_Stop, Ctl_Write a] @ replicate (length ds) Ctl_Read) rf2"
    using burst_data [OF rf_wf_write [OF assms(1)], of a regs ds "[Ctl_Stop, Ctl_Write a] @ replicate (length ds) Ctl_Read"]
      regs(1) unfolding wr by (simp add: w rf2_def)
  define rf3 where "rf3 = rf_on_write a (rf_on_stop rf2)"
  have rf3: "rf_wf rf3" "rf_regs rf3 = Some ?bw" "rf_reg_ptr rf3 = ?p" "rf_len rf3 = rf_len rf"
    using assms(1) regs by (auto simp: rf3_def rf_on_write_addr rf_on_stop_def rf2_def w rf_wf_def)
  have "fst (rf_run (replicate (length ds) Ctl_Read) rf3) =
      map (\<lambda>i. ?bw ! ((?p + i) mod rf_len rf)) [0..<length ds]"
    using burst_read [OF rf3(1,2), of "length ds" "[]"] rf3(3,4) by simp
  also have "\<dots> = ds"
    using burst_write_nth [OF assms(3) regs(2), of ?p] regs(3) assms(4)
    by (intro nth_equalityI) (auto simp: mod_add_left_eq)
  finally show ?thesis using r1 by (simp add: rf3_def)
qed

theorem rf_write_read_back_witness:
  "fst (rf_run [Ctl_Write 5, Ctl_Write 11, Ctl_Write 22, Ctl_Stop, Ctl_Write 5, Ctl_Read, Ctl_Read] sample_rf) = [11, 22]"
proof -
  have "\<forall>i < length [11, 22 :: u8]. rf_writable sample_rf ((unat (5 :: u8) + i) mod rf_len sample_rf)"
  proof -
    have "unat (5 :: u8) = 5" "rf_len sample_rf = 4" by (simp_all add: sample_rf_def)
    then show ?thesis by (auto simp: sample_rf_def rf_writable_def less_Suc_eq)
  qed
  moreover have "length [11, 22 :: u8] \<le> rf_len sample_rf" by (simp add: sample_rf_def)
  moreover have "replicate (length [11, 22 :: u8]) Ctl_Read = [Ctl_Read, Ctl_Read]" by simp
  ultimately show ?thesis
    using rf_write_read_back [OF sample_rf_wf(1,2), of "[11, 22]" 5] by (simp del: rf_run.simps)
qed

text \<open>Only STOP re-arms the pointer decode: the first byte of a write that follows a repeated
  START, with no STOP between, is stored as data.\<close>

lemma rf_repeated_start_not_rearmed:
  assumes "rf_wf rf" "rf_expecting_reg_addr rf" "rf_regs rf = Some regs" "rf_writable rf (unat a mod rf_len rf)"
  shows "rf_reg_ptr (snd (rf_run [Ctl_Write a, Ctl_Write b] rf)) = Suc (unat a) mod rf_len rf \<and>
    the (rf_regs (snd (rf_run [Ctl_Write a, Ctl_Write b] rf))) ! (unat a mod rf_len rf) = b"
  using assms by (auto simp: rf_on_write_def rf_writable_def rf_wf_def Let_def mod_Suc_eq)

end
