(* ===== verification/Checked_Arith.thy ===== *)
theory Checked_Arith
  imports Alp_Prelude
begin

text \<open>
  The overflow-checked helpers of \<^verbatim>\<open>src/common/alp_checked_arith.h\<close> and the errno mapping of
  \<^verbatim>\<open>src/common/alp_errno.h\<close>.  \<open>size_t\<close> is a word of any width \<open>'a\<close>, since the header is built
  for 32-bit and 64-bit targets; an output parameter is passed in and returned, so that
  "left unchanged on failure" is part of the statements.
\<close>

section \<open>Checked arithmetic\<close>

definition alp_size_range_valid :: "'a::len word \<Rightarrow> 'a word \<Rightarrow> 'a word \<Rightarrow> bool" where
  "alp_size_range_valid offset len capacity =
     (if offset > capacity then False else len \<le> capacity - offset)"

text \<open>The comparison is compiled only where \<open>SIZE_MAX > UINT32_MAX\<close>.\<close>

definition alp_size_to_u32 :: "'a::len word \<Rightarrow> u32 \<Rightarrow> bool \<times> u32" where
  "alp_size_to_u32 value out =
     (if LENGTH('a) > 32 \<and> unat value > 2 ^ 32 - 1 then (False, out)
      else (True, ucast value))"

definition alp_u32_add_checked :: "u32 \<Rightarrow> u32 \<Rightarrow> u32 \<Rightarrow> bool \<times> u32" where
  "alp_u32_add_checked a b out = (if b > - 1 - a then (False, out) else (True, a + b))"

definition alp_u64_add_checked :: "u64 \<Rightarrow> u64 \<Rightarrow> u64 \<Rightarrow> bool \<times> u64" where
  "alp_u64_add_checked a b out = (if b > - 1 - a then (False, out) else (True, a + b))"

definition alp_u64_range_valid :: "u64 \<Rightarrow> u64 \<Rightarrow> u64 \<Rightarrow> bool" where
  "alp_u64_range_valid offset len capacity =
     (if offset > capacity then False else len \<le> capacity - offset)"

lemma range_valid_iff:
  "alp_size_range_valid offset len capacity \<longleftrightarrow> unat offset + unat len \<le> unat capacity"
  by (auto simp: alp_size_range_valid_def word_less_nat_alt word_le_nat_alt unat_sub_if_size)

lemma add_checked_word:
  "b \<le> - 1 - a \<longleftrightarrow> unat a + unat b < 2 ^ LENGTH('a)" for a b :: "'a::len word"
proof -
  have a: "unat a < 2 ^ LENGTH('a)" by (rule unsigned_less)
  then have "unat a \<le> 2 ^ LENGTH('a) - Suc 0" by linarith
  then have "unat (- 1 - a) = 2 ^ LENGTH('a) - 1 - unat a"
    by (simp add: unat_sub_if_size word_size unsigned_minus_1_eq_mask mask_eq_exp_minus_1)
  with a show ?thesis unfolding word_le_nat_alt by linarith
qed

lemma add_checked_value: "b \<le> - 1 - a \<Longrightarrow> unat (a + b) = unat a + unat b" for a b :: "'a::len word"
  by (simp add: add_checked_word unat_word_ariths)

lemma size_to_u32_eq:
  "alp_size_to_u32 (v :: 'a::len word) out = (if unat v < 2 ^ 32 then (True, of_nat (unat v)) else (False, out))"
proof -
  have "unat v < 2 ^ LENGTH('a)" by (rule unsigned_less)
  then have "unat v < 2 ^ 32" if "LENGTH('a) \<le> 32"
    using that by (meson less_le_trans one_le_numeral power_increasing)
  moreover have "(ucast v :: u32) = of_nat (unat v)"
    by (simp add: word_unat_eq_iff unsigned_ucast_eq unsigned_take_bit_eq unat_of_nat take_bit_eq_mod)
  ultimately show ?thesis
    by (auto simp: alp_size_to_u32_def not_less)
qed

section \<open>Errno mapping\<close>

text \<open>The errno values the table names, as the C library numbers them on Linux and Zephyr
  (\<open>ENOTSUP\<close> and \<open>EOPNOTSUPP\<close> may coincide; the second arm is compiled only when they do not).\<close>

record errno_values =
  e_INVAL :: int
  e_BUSY :: int
  e_AGAIN :: int
  e_TIMEDOUT :: int
  e_NOMEM :: int
  e_NOENT :: int
  e_NODEV :: int
  e_NXIO :: int
  e_NOTSUP :: int
  e_OPNOTSUPP :: int
  e_NOSYS :: int
  e_NOTTY :: int
  e_NOSPC :: int
  e_RANGE :: int

definition alp_status_from_posix_errno :: "errno_values \<Rightarrow> int \<Rightarrow> alp_status" where
  "alp_status_from_posix_errno E err =
     (if err = 0 then ALP_OK
      else if err = e_INVAL E then ALP_ERR_INVAL
      else if err = e_BUSY E \<or> err = e_AGAIN E then ALP_ERR_BUSY
      else if err = e_TIMEDOUT E then ALP_ERR_TIMEOUT
      else if err = e_NOMEM E then ALP_ERR_NOMEM
      else if err = e_NOENT E \<or> err = e_NODEV E \<or> err = e_NXIO E then ALP_ERR_NOT_READY
      else if err = e_NOTSUP E \<or> err = e_OPNOTSUPP E \<or> err = e_NOSYS E \<or> err = e_NOTTY E then ALP_ERR_NOSUPPORT
      else ALP_ERR_IO)"

text \<open>A table of overrides, first match wins.\<close>

type_synonym errno_overrides = "(int \<times> alp_status) list"

fun override_lookup :: "errno_overrides \<Rightarrow> int \<Rightarrow> alp_status option" where
  "override_lookup [] err = None"
| "override_lookup ((e, s) # os) err = (if e = err then Some s else override_lookup os err)"

definition alp_status_from_posix_errno_ex :: "errno_values \<Rightarrow> int \<Rightarrow> errno_overrides \<Rightarrow> alp_status" where
  "alp_status_from_posix_errno_ex E err overrides =
     (case override_lookup overrides err of Some s \<Rightarrow> s | None \<Rightarrow> alp_status_from_posix_errno E err)"

definition alp_status_from_zephyr_errno :: "errno_values \<Rightarrow> int \<Rightarrow> alp_status" where
  "alp_status_from_zephyr_errno E err =
     (if err = 0 then ALP_OK
      else if err > 0 then ALP_ERR_IO
      else if err = - e_AGAIN E then ALP_ERR_TIMEOUT
      else if err = - e_NOSPC E then ALP_ERR_NOMEM
      else if err = - e_RANGE E then ALP_ERR_OUT_OF_RANGE
      else alp_status_from_posix_errno E (- err))"

definition alp_status_from_zephyr_errno_ex :: "errno_values \<Rightarrow> int \<Rightarrow> errno_overrides \<Rightarrow> alp_status" where
  "alp_status_from_zephyr_errno_ex E err overrides =
     (case override_lookup overrides err of Some s \<Rightarrow> s | None \<Rightarrow> alp_status_from_zephyr_errno E err)"

text \<open>What the code relies on of the platform's errno numbers: they are positive, and those
  the table tells apart are different.\<close>

definition errno_ok :: "errno_values \<Rightarrow> bool" where
  "errno_ok E \<longleftrightarrow>
     (\<forall>e \<in> {e_INVAL E, e_BUSY E, e_AGAIN E, e_TIMEDOUT E, e_NOMEM E, e_NOENT E, e_NODEV E, e_NXIO E,
            e_NOTSUP E, e_OPNOTSUPP E, e_NOSYS E, e_NOTTY E, e_NOSPC E, e_RANGE E}. 0 < e) \<and>
     distinct [e_INVAL E, e_BUSY E, e_AGAIN E, e_TIMEDOUT E, e_NOMEM E, e_NOENT E, e_NODEV E, e_NXIO E,
            e_NOTSUP E, e_NOSYS E, e_NOTTY E, e_NOSPC E, e_RANGE E] \<and>
     e_OPNOTSUPP E \<notin> {e_INVAL E, e_BUSY E, e_AGAIN E, e_TIMEDOUT E, e_NOMEM E, e_NOENT E, e_NODEV E, e_NXIO E,
            e_NOSYS E, e_NOTTY E, e_NOSPC E, e_RANGE E}"

definition linux_errno :: errno_values where
  "linux_errno = \<lparr>e_INVAL = 22, e_BUSY = 16, e_AGAIN = 11, e_TIMEDOUT = 110, e_NOMEM = 12, e_NOENT = 2,
     e_NODEV = 19, e_NXIO = 6, e_NOTSUP = 95, e_OPNOTSUPP = 95, e_NOSYS = 38, e_NOTTY = 25, e_NOSPC = 28,
     e_RANGE = 34\<rparr>"

section \<open>Properties\<close>

text \<open>
  C33. The checked size arithmetic is exact at every width.  The range check accepts
  \<open>[offset, offset + len)\<close> precisely when the true sum of the two numbers stays within the capacity,
  although no sum is ever computed; checked addition and narrowing report success precisely when
  the mathematical result fits the target width, the stored value is then that result, and on
  failure the output is left as it was.
\<close>

theorem checked_results_exact:
  "(alp_size_range_valid offset len capacity \<longleftrightarrow> unat offset + unat len \<le> unat (capacity :: 'b::len word)) \<and>
   alp_u32_add_checked a b out = (if unat a + unat b < 2 ^ 32 then (True, of_nat (unat a + unat b)) else (False, out)) \<and>
   alp_u64_add_checked c d out' = (if unat c + unat d < 2 ^ 64 then (True, of_nat (unat c + unat d)) else (False, out')) \<and>
   alp_size_to_u32 (v :: 'a::len word) out = (if unat v < 2 ^ 32 then (True, of_nat (unat v)) else (False, out))"
proof (intro conjI)
  show "alp_size_range_valid offset len capacity \<longleftrightarrow> unat offset + unat len \<le> unat capacity" by (rule range_valid_iff)
  show "alp_u32_add_checked a b out = (if unat a + unat b < 2 ^ 32 then (True, of_nat (unat a + unat b)) else (False, out))"
    using add_checked_word [of b a] by (auto simp: alp_u32_add_checked_def not_less)
  show "alp_u64_add_checked c d out' = (if unat c + unat d < 2 ^ 64 then (True, of_nat (unat c + unat d)) else (False, out'))"
    using add_checked_word [of d c] by (auto simp: alp_u64_add_checked_def not_less)
  show "alp_size_to_u32 v out = (if unat v < 2 ^ 32 then (True, of_nat (unat v)) else (False, out))" by (rule size_to_u32_eq)
qed

text \<open>
  The two errno domains agree except where the header says they differ.  On every
  negative errno the Zephyr mapping is the POSIX mapping of its negation, apart from
  \<open>EAGAIN\<close> (a timeout rather than busy), \<open>ENOSPC\<close> and \<open>ERANGE\<close> (a full store and an
  out-of-range value rather than a generic I/O error); no nonzero errno maps to \<open>ALP_OK\<close>.
\<close>

theorem errno_domains_agree:
  assumes "errno_ok E" and "err \<noteq> 0"
  shows "(alp_status_from_zephyr_errno E (- err) \<noteq> alp_status_from_posix_errno E err \<and> 0 < err) =
      (err \<in> {e_AGAIN E, e_NOSPC E, e_RANGE E}) \<and>
    alp_status_from_zephyr_errno E err \<noteq> ALP_OK \<and> alp_status_from_posix_errno E err \<noteq> ALP_OK"
  using assms by (auto simp: errno_ok_def alp_status_from_zephyr_errno_def alp_status_from_posix_errno_def)

theorem errno_domains_agree_witness:
  "errno_ok linux_errno \<and> alp_status_from_zephyr_errno linux_errno (- 28) \<noteq> alp_status_from_posix_errno linux_errno 28"
proof -
  have ok: "errno_ok linux_errno" by (simp add: errno_ok_def linux_errno_def)
  then show ?thesis using errno_domains_agree [OF ok, of 28] by (simp add: linux_errno_def)
qed

end
