(* ===== verification/Engine_Lock.thy ===== *)
theory Engine_Lock
  imports Sw_Tier
begin

text \<open>
  The engine lock of \<^verbatim>\<open>src/update_log/engine.c\<close> (the compare-and-swap lock of the portable build)
  and what it is for: every public engine call runs its whole body between \<open>ulog_engine_lock\<close> and
  \<open>ulog_engine_unlock\<close>, so that concurrent calls are equivalent to the same calls one at a time.
  The other theories model one call at a time; this one justifies it.

  A call \<open>c\<close> is its arguments; its body is a list of atomic actions on the thread's own locals and
  the shared state, cut anywhere (a store access, a counter access, a single write), and \<open>enter c\<close> is
  the locals it starts with.  A thread interleaves with the others between any two actions.
\<close>

section \<open>The lock\<close>

text \<open>One round of the spin loop, and the release.\<close>

definition ulog_engine_lock_round :: "u8 \<Rightarrow> bool \<times> u8" where
  "ulog_engine_lock_round g_engine_lock = (if g_engine_lock = 0 then (True, 1) else (False, g_engine_lock))"

definition ulog_engine_unlock :: "u8 \<Rightarrow> u8" where
  "ulog_engine_unlock g_engine_lock = 0"

section \<open>Interleaved calls\<close>

type_synonym ('l, 's) action = "'l \<times> 's \<Rightarrow> 'l \<times> 's"

datatype ('c, 'l, 's) lpc = Outside | Locking 'c | Inside 'c "('l, 's) action list" 'l

record ('c, 'l, 's) lstate =
  ls_lock :: u8
  ls_pc :: "nat \<Rightarrow> ('c, 'l, 's) lpc"
  ls_shared :: 's
  ls_done :: "('c \<times> 'l) list"

definition lgoto :: "nat \<Rightarrow> ('c, 'l, 's) lpc \<Rightarrow> ('c, 'l, 's) lstate \<Rightarrow> ('c, 'l, 's) lstate" where
  "lgoto t p s = s\<lparr>ls_pc := (ls_pc s)(t := p)\<rparr>"

definition ls_init :: "'s \<Rightarrow> ('c, 'l, 's) lstate" where
  "ls_init st = \<lparr>ls_lock = 0, ls_pc = (\<lambda>_. Outside), ls_shared = st, ls_done = []\<rparr>"

inductive lstep :: "('c \<Rightarrow> ('l, 's) action list) \<Rightarrow> ('c \<Rightarrow> 'l) \<Rightarrow> ('c, 'l, 's) lstate \<Rightarrow> ('c, 'l, 's) lstate \<Rightarrow> bool"
  for body :: "'c \<Rightarrow> ('l, 's) action list" and enter :: "'c \<Rightarrow> 'l" where
  lock_call: "ls_pc s t = Outside \<Longrightarrow> lstep body enter s (lgoto t (Locking c) s)"
| lock_spin: "ls_pc s t = Locking c \<Longrightarrow> ulog_engine_lock_round (ls_lock s) = (False, k) \<Longrightarrow>
    lstep body enter s (s\<lparr>ls_lock := k\<rparr>)"
| lock_win: "ls_pc s t = Locking c \<Longrightarrow> ulog_engine_lock_round (ls_lock s) = (True, k) \<Longrightarrow>
    lstep body enter s (lgoto t (Inside c (body c) (enter c)) (s\<lparr>ls_lock := k\<rparr>))"
| body_action: "ls_pc s t = Inside c (a # as) l \<Longrightarrow> a (l, ls_shared s) = (l', st') \<Longrightarrow>
    lstep body enter s (lgoto t (Inside c as l') (s\<lparr>ls_shared := st'\<rparr>))"
| unlock: "ls_pc s t = Inside c [] l \<Longrightarrow>
    lstep body enter s (lgoto t Outside (s\<lparr>ls_lock := ulog_engine_unlock (ls_lock s), ls_done := ls_done s @ [(c, l)]\<rparr>))"

inductive lreach :: "('c \<Rightarrow> ('l, 's) action list) \<Rightarrow> ('c \<Rightarrow> 'l) \<Rightarrow> 's \<Rightarrow> ('c, 'l, 's) lstate \<Rightarrow> bool"
  for body :: "'c \<Rightarrow> ('l, 's) action list" and enter :: "'c \<Rightarrow> 'l" and st :: 's where
  lreach_init: "lreach body enter st (ls_init st)"
| lreach_step: "lreach body enter st s \<Longrightarrow> lstep body enter s s' \<Longrightarrow> lreach body enter st s'"

section \<open>One call at a time\<close>

definition run_actions :: "('l, 's) action list \<Rightarrow> 'l \<times> 's \<Rightarrow> 'l \<times> 's" where
  "run_actions as = fold (\<lambda>a. a) as"

definition call_run :: "('c \<Rightarrow> ('l, 's) action list) \<Rightarrow> ('c \<Rightarrow> 'l) \<Rightarrow> 'c \<Rightarrow> 's \<Rightarrow> 'l \<times> 's" where
  "call_run body enter c st = run_actions (body c) (enter c, st)"

fun serial :: "('c \<Rightarrow> ('l, 's) action list) \<Rightarrow> ('c \<Rightarrow> 'l) \<Rightarrow> 'c list \<Rightarrow> 's \<Rightarrow> ('c \<times> 'l) list \<times> 's" where
  "serial body enter [] st = ([], st)"
| "serial body enter (c # cs) st =
     (let (l, st) = call_run body enter c st; (rs, st) = serial body enter cs st in ((c, l) # rs, st))"

lemma run_actions_simps [simp]:
  "run_actions [] p = p" "run_actions (a # as) p = run_actions as (a p)"
  "run_actions (as @ bs) p = run_actions bs (run_actions as p)"
  by (simp_all add: run_actions_def)

lemma serial_snoc:
  assumes "serial body enter cs st = (rs, st1)" "call_run body enter c st1 = (l, st2)"
  shows "serial body enter (cs @ [c]) st = (rs @ [(c, l)], st2)"
  using assms by (induction cs arbitrary: st rs) (auto split: prod.splits)

section \<open>The invariant\<close>

definition inside :: "('c, 'l, 's) lpc \<Rightarrow> bool" where
  "inside p \<longleftrightarrow> (case p of Inside _ _ _ \<Rightarrow> True | _ \<Rightarrow> False)"

lemma inside_simps [simp]: "\<not> inside Outside" "\<not> inside (Locking c)" "inside (Inside c as l)"
  by (simp_all add: inside_def)

text \<open>With the lock free nobody is inside and the shared state is that of the completed calls one
  after the other; with the lock held one thread is inside and the shared state is that of the
  completed calls followed by the actions it has done.\<close>

definition linv :: "('c \<Rightarrow> ('l, 's) action list) \<Rightarrow> ('c \<Rightarrow> 'l) \<Rightarrow> 's \<Rightarrow> ('c, 'l, 's) lstate \<Rightarrow> bool" where
  "linv body enter st s \<longleftrightarrow>
     (ls_lock s = 0 \<and> (\<forall>t. \<not> inside (ls_pc s t)) \<and> serial body enter (map fst (ls_done s)) st = (ls_done s, ls_shared s)) \<or>
     (ls_lock s = 1 \<and>
      (\<exists>t c pre as l st1. ls_pc s t = Inside c as l \<and> (\<forall>u. u \<noteq> t \<longrightarrow> \<not> inside (ls_pc s u)) \<and> body c = pre @ as \<and>
         serial body enter (map fst (ls_done s)) st = (ls_done s, st1) \<and> run_actions pre (enter c, st1) = (l, ls_shared s)))"

lemma linv_held:
  "ls_lock s = 1 \<Longrightarrow> ls_pc s t = Inside c as l \<Longrightarrow> \<forall>u. u \<noteq> t \<longrightarrow> \<not> inside (ls_pc s u) \<Longrightarrow> body c = pre @ as \<Longrightarrow>
   serial body enter (map fst (ls_done s)) st = (ls_done s, st1) \<Longrightarrow> run_actions pre (enter c, st1) = (l, ls_shared s) \<Longrightarrow>
   linv body enter st s"
  unfolding linv_def by blast

lemma linv_init: "linv body enter st (ls_init st)"
  by (simp add: linv_def ls_init_def)

lemma linv_step:
  assumes "lstep body enter s s'" "linv body enter st s"
  shows "linv body enter st s'"
  using assms(1)
proof cases
  case (lock_call t c)
  from assms(2) consider (free) "ls_lock s = 0" "\<forall>t. \<not> inside (ls_pc s t)"
      "serial body enter (map fst (ls_done s)) st = (ls_done s, ls_shared s)"
    | (held) v d pre as l st1 where "ls_lock s = 1" "ls_pc s v = Inside d as l" "\<forall>u. u \<noteq> v \<longrightarrow> \<not> inside (ls_pc s u)"
      "body d = pre @ as" "serial body enter (map fst (ls_done s)) st = (ls_done s, st1)" "run_actions pre (enter d, st1) = (l, ls_shared s)"
    unfolding linv_def by blast
  then show ?thesis
  proof cases
    case held
    have "v \<noteq> t" using held(2) lock_call(2) by auto
    then show ?thesis using held lock_call by (intro linv_held [of s' v d as l body pre enter st st1]) (auto simp: lgoto_def)
  qed (use lock_call in \<open>simp add: linv_def lgoto_def\<close>)
next
  case (lock_spin t c k)
  then show ?thesis using assms(2) by (auto simp: ulog_engine_lock_round_def split: if_splits)
next
  case (lock_win t c k)
  then have "ls_lock s = 0" "k = 1" by (auto simp: ulog_engine_lock_round_def split: if_splits)
  moreover from this have "\<forall>t. \<not> inside (ls_pc s t)" "serial body enter (map fst (ls_done s)) st = (ls_done s, ls_shared s)"
    using assms(2) by (auto simp: linv_def)
  ultimately show ?thesis
    using lock_win by (intro linv_held [of s' t c "body c" "enter c" body "[]" enter st "ls_shared s"]) (auto simp: lgoto_def)
next
  case (body_action t c a as l l' st')
  then obtain pre st1 where i: "ls_lock s = 1" "\<forall>u. u \<noteq> t \<longrightarrow> \<not> inside (ls_pc s u)" "body c = pre @ a # as"
    "serial body enter (map fst (ls_done s)) st = (ls_done s, st1)" "run_actions pre (enter c, st1) = (l, ls_shared s)"
    using assms(2) unfolding linv_def by (metis inside_simps(3) lpc.inject(2))
  then show ?thesis
    using body_action by (intro linv_held [of s' t c as l' body "pre @ [a]" enter st st1]) (auto simp: lgoto_def)
next
  case (unlock t c l)
  then obtain st1 where i: "ls_lock s = 1" "\<forall>u. u \<noteq> t \<longrightarrow> \<not> inside (ls_pc s u)"
    "serial body enter (map fst (ls_done s)) st = (ls_done s, st1)" "run_actions (body c) (enter c, st1) = (l, ls_shared s)"
    using assms(2) unfolding linv_def by (metis append_Nil2 inside_simps(3) lpc.inject(2))
  have "serial body enter (map fst (ls_done s) @ [c]) st = (ls_done s @ [(c, l)], ls_shared s)"
    by (rule serial_snoc [OF i(3)]) (simp add: call_run_def i(4))
  then show ?thesis using unlock i by (simp add: linv_def lgoto_def ulog_engine_unlock_def)
qed

lemma lreach_inv: "lreach body enter st s \<Longrightarrow> linv body enter st s"
  by (induction rule: lreach.induct) (simp_all add: linv_init linv_step)

text \<open>The thread inside can always run to its release.\<close>

lemma holder_releases:
  "ls_pc s t = Inside c as l \<Longrightarrow> \<exists>s'. (lstep body enter)\<^sup>*\<^sup>* s s' \<and> ls_lock s' = 0"
proof (induction as arbitrary: s l)
  case Nil
  let ?s = "lgoto t Outside (s\<lparr>ls_lock := ulog_engine_unlock (ls_lock s), ls_done := ls_done s @ [(c, l)]\<rparr>)"
  have "lstep body enter s ?s" using Nil by (rule lstep.unlock)
  moreover have "ls_lock ?s = 0" by (simp add: lgoto_def ulog_engine_unlock_def)
  ultimately show ?case by blast
next
  case (Cons a as)
  obtain l' st' where a: "a (l, ls_shared s) = (l', st')" by (metis prod.exhaust)
  let ?s = "lgoto t (Inside c as l') (s\<lparr>ls_shared := st'\<rparr>)"
  have "lstep body enter s ?s" using Cons.prems a by (rule lstep.body_action)
  moreover obtain s' where "(lstep body enter)\<^sup>*\<^sup>* ?s s'" "ls_lock s' = 0" using Cons.IH [of ?s l'] by (auto simp: lgoto_def)
  ultimately show ?case by (metis converse_rtranclp_into_rtranclp)
qed


text \<open>Two threads that both add to a cell, each with a read and a write of its own.\<close>

definition cell_add :: "nat \<Rightarrow> (nat, nat) action list" where
  "cell_add n = [\<lambda>(l, s). (s, s), \<lambda>(l, s). (l, l + n)]"


section \<open>Concurrent appends\<close>

lemma serial_appends:
  assumes "\<And>e st. call_run body enter e st = (let (rc, st) = sw_append (Some e) st in (Some rc, st))"
  shows "serial body enter es st = (let (rcs, st) = sw_append_all es st in (zip es (map Some rcs), st))"
  by (induction es arbitrary: st) (simp_all add: assms split: prod.split)

text \<open>
  Concurrent appends all land.  Any number of threads append well-formed entries to the software
  tier, their engine calls interleaving at any of their accesses to the store.  Whenever the lock is
  free and no more than 31 appends have completed, each of them was accepted and the log holds
  exactly the completed entries, numbered in the order they completed.
\<close>

theorem concurrent_appends_land:
  assumes "lreach body enter sw_zero s" "ls_lock s = 0"
    and body: "\<And>e st. call_run body enter e st = (let (rc, st) = sw_append (Some e) st in (Some rc, st))"
    and "length (ls_done s) \<le> 31" "\<forall>(e, _) \<in> set (ls_done s). entry_wf e \<and> entry_encodable e"
  shows "map snd (ls_done s) = replicate (length (ls_done s)) (Some ALP_OK) \<and>
    holds_log (ram_blobs (ls_shared s)) (sw_counter (ls_shared s)) (numbered 0 (map fst (ls_done s)))"
proof -
  let ?es = "map fst (ls_done s)"
  obtain rcs st where a: "sw_append_all ?es sw_zero = (rcs, st)" by (metis prod.exhaust)
  have "serial body enter ?es sw_zero = (ls_done s, ls_shared s)"
    using lreach_inv [OF assms(1)] assms(2) by (auto simp: linv_def)
  then have eq: "ls_done s = zip ?es (map Some rcs)" "ls_shared s = st" using serial_appends [OF body, of ?es sw_zero] a by simp_all
  have r: "rcs = replicate (length ?es) ALP_OK" "ram_log st (numbered 0 ?es)"
    using ram_append_all [of sw_zero "[]" ?es rcs st] a assms(4,5) by (auto simp: case_prod_beta)
  have "map snd (ls_done s) = map Some rcs" by (subst eq(1)) (simp add: r(1))
  then show ?thesis using r eq(2) by (simp add: ram_log_def)
qed

definition append_body :: "update_log_entry \<Rightarrow> (alp_status option, sw_state) action list" where
  "append_body e = [\<lambda>(l, st). let (rc, st) = sw_append (Some e) st in (Some rc, st)]"

theorem concurrent_appends_land_witness:
  "\<exists>s. lreach append_body (\<lambda>_. None) sw_zero s \<and> map snd (ls_done s) = [Some ALP_OK] \<and>
     holds_log (ram_blobs (ls_shared s)) (sw_counter (ls_shared s)) (numbered 0 [sample_entry])"
proof -
  let ?R = "lreach append_body (\<lambda>_. None) sw_zero" and ?s0 = "ls_init sw_zero :: (update_log_entry, alp_status option, sw_state) lstate"
  obtain rc st where a: "sw_append (Some sample_entry) sw_zero = (rc, st)" by (metis prod.exhaust)
  let ?s1 = "lgoto 0 (Locking sample_entry) ?s0"
  let ?s2 = "lgoto 0 (Inside sample_entry (append_body sample_entry) None) (?s1\<lparr>ls_lock := 1\<rparr>)"
  let ?s3 = "lgoto 0 (Inside sample_entry [] (Some rc)) (?s2\<lparr>ls_shared := st\<rparr>)"
  let ?s4 = "lgoto 0 Outside (?s3\<lparr>ls_lock := ulog_engine_unlock (ls_lock ?s3), ls_done := ls_done ?s3 @ [(sample_entry, Some rc)]\<rparr>)"
  note d = lgoto_def ls_init_def append_body_def ulog_engine_lock_round_def ulog_engine_unlock_def
  have "?R ?s0" by (rule lreach_init)
  then have "?R ?s1" by (rule lreach_step) (rule lock_call, simp add: d)
  then have "?R ?s2" by (rule lreach_step) (rule lock_win, simp_all add: d)
  then have "?R ?s3" by (rule lreach_step) 
    (rule body_action [where a = "\<lambda>(l, st). let (rc, st) = sw_append (Some sample_entry) st in (Some rc, st)" and l = None], simp_all add: d a)
  then have r: "?R ?s4" by (rule lreach_step) (rule unlock, simp add: d)
  have "ls_done ?s4 = [(sample_entry, Some rc)]" "ls_lock ?s4 = 0" by (simp_all add: d)
  then obtain s where s: "?R s" "ls_done s = [(sample_entry, Some rc)]" "ls_lock s = 0" using r by blast
  have body: "call_run append_body (\<lambda>_. None) e st = (let (rc, st) = sw_append (Some e) st in (Some rc, st))" for e st
    by (simp add: call_run_def append_body_def)
  show ?thesis using concurrent_appends_land [OF s(1,3) body] s(1,2) by auto
qed

end
