(* ===== verification/Boot_Providers.thy ===== *)
theory Boot_Providers
  imports Ulog_Codec "HOL-Library.Monad_Syntax"
begin

text \<open>
  The boot-metadata providers (\<^verbatim>\<open>src/update_log/boot_providers.c\<close>): the scan of an MCUboot TLV
  area for the image hash, the walk of the Alif ATOC package in MRAM to the signed hash of one
  image, and the log entries built from what they find.

  Both parsers run on untrusted bytes, so every read of the model is checked: \<open>read_at\<close> is \<open>None\<close>
  when it leaves the buffer, and a parser that returns \<open>None\<close> has read out of bounds.  The
  properties show that no input makes either of them do so.  Offsets and addresses are natural
  numbers: the code computes them in \<^verbatim>\<open>size_t\<close> and \<^verbatim>\<open>uint64_t\<close> from 16- and 32-bit fields, far from
  the width, and every subtraction is guarded by a comparison.
\<close>

section \<open>Checked reads\<close>

definition get_u16le :: "bytes \<Rightarrow> nat \<Rightarrow> u16 option" where
  "get_u16le p off = map_option (le_word 2) (read_at p off 2)"

definition get_u32le :: "bytes \<Rightarrow> nat \<Rightarrow> u32 option" where
  "get_u32le p off = map_option (le_word 4) (read_at p off 4)"

section \<open>The MCUboot TLV area\<close>

abbreviation (input) ULOG_MCUBOOT_IMAGE_MAGIC :: u32 where "ULOG_MCUBOOT_IMAGE_MAGIC \<equiv> 0x96f3b83d"
abbreviation (input) ULOG_MCUBOOT_TLV_INFO_MAGIC :: u16 where "ULOG_MCUBOOT_TLV_INFO_MAGIC \<equiv> 0x6907"
abbreviation (input) ULOG_MCUBOOT_TLV_PROT_MAGIC :: u16 where "ULOG_MCUBOOT_TLV_PROT_MAGIC \<equiv> 0x6908"
abbreviation (input) ULOG_MCUBOOT_TLV_SHA256 :: u16 where "ULOG_MCUBOOT_TLV_SHA256 \<equiv> 0x10"

text \<open>The \<^verbatim>\<open>while (off + 4 <= avail)\<close> loop.\<close>

function tlv_scan :: "bytes \<Rightarrow> nat \<Rightarrow> nat \<Rightarrow> bytes \<Rightarrow> (bool \<times> bytes) option" where
  "tlv_scan tlv_area avail off hash_out =
     (if off + 4 \<le> avail then do {
        type \<leftarrow> get_u16le tlv_area off;
        len \<leftarrow> get_u16le tlv_area (off + 2);
        if off + 4 + unat len > avail then Some (False, hash_out)
        else if type = ULOG_MCUBOOT_TLV_SHA256 \<and> len = 32 then do {
          h \<leftarrow> read_at tlv_area (off + 4) 32;
          Some (True, h)
        } else tlv_scan tlv_area avail (off + 4 + unat len) hash_out
      } else Some (False, hash_out))"
  by pat_completeness auto
termination by (relation "measure (\<lambda>(a, avail, off, h). avail - off)") auto

declare tlv_scan.simps [simp del]

definition ulog_mcuboot_tlv_find_sha256 ::
  "bytes option \<Rightarrow> nat \<Rightarrow> bytes option \<Rightarrow> (bool \<times> bytes option) option" where
  "ulog_mcuboot_tlv_find_sha256 tlv_area area_len hash_out =
     (case (tlv_area, hash_out) of
        (Some tlv_area, Some h) \<Rightarrow>
          if area_len < 4 then Some (False, hash_out) else do {
            magic \<leftarrow> get_u16le tlv_area 0;
            if magic \<noteq> ULOG_MCUBOOT_TLV_INFO_MAGIC \<and> magic \<noteq> ULOG_MCUBOOT_TLV_PROT_MAGIC
            then Some (False, hash_out)
            else do {
              tot \<leftarrow> get_u16le tlv_area 2;
              (found, h) \<leftarrow> tlv_scan tlv_area (if unat tot < area_len then unat tot else area_len) 4 h;
              Some (found, Some h)
            }
          }
      | _ \<Rightarrow> Some (False, hash_out))"

section \<open>Version strings\<close>

text \<open>\<^verbatim>\<open>snprintf(out, cap, "%u.%u.%u", a, b, c)\<close> into a zeroed buffer of \<open>cap\<close> bytes: at most
  \<open>cap - 1\<close> characters and a terminating NUL.\<close>

fun udec :: "nat \<Rightarrow> string" where
  "udec n = (if n < 10 then [char_of (48 + n)] else udec (n div 10) @ [char_of (48 + n mod 10)])"

declare udec.simps [simp del]

definition version_text :: "nat \<Rightarrow> nat \<Rightarrow> nat \<Rightarrow> string" where
  "version_text a b c = udec a @ ''.'' @ udec b @ ''.'' @ udec c"

definition snprintf_version :: "nat \<Rightarrow> nat \<Rightarrow> nat \<Rightarrow> nat \<Rightarrow> bytes" where
  "snprintf_version cap a b c =
     mem_write (mem_set 0 cap) 0 (map of_char (take (cap - 1) (version_text a b c)))"

section \<open>Entries\<close>

definition ulog_mcuboot_build_entry ::
  "bytes option \<Rightarrow> bytes option \<Rightarrow> bool \<Rightarrow> update_log_entry option \<Rightarrow> (alp_status \<times> update_log_entry option) option" where
  "ulog_mcuboot_build_entry header32 image_hash confirmed out =
     (case (header32, image_hash, out) of
        (Some header32, Some image_hash, Some _) \<Rightarrow> do {
          magic \<leftarrow> get_u32le header32 0;
          if magic \<noteq> ULOG_MCUBOOT_IMAGE_MAGIC then Some (ALP_ERR_NOSUPPORT, out)
          else do {
            ver_major \<leftarrow> read_at header32 20 1;
            ver_minor \<leftarrow> read_at header32 21 1;
            ver_rev \<leftarrow> get_u16le header32 22;
            hash \<leftarrow> read_at image_hash 0 32;
            Some (ALP_OK, Some (zero_entry\<lparr>
              ule_fw_version := snprintf_version 32 (unat (hd ver_major)) (unat (hd ver_minor)) (unat ver_rev),
              ule_image_hash := hash,
              ule_status := (if confirmed then 0 else ALP_UPDATE_STATUS_PENDING_CONFIRM)\<rparr>))
          }
        }
      | _ \<Rightarrow> Some (ALP_ERR_INVAL, out))"

text \<open>Bits 16--23 and 24--31 are the minor and major number, the low half the patch.\<close>

definition ulog_alif_se_build_entry ::
  "bytes option \<Rightarrow> bytes option \<Rightarrow> u32 \<Rightarrow> u8 \<Rightarrow> bytes option \<Rightarrow> bool \<Rightarrow> update_log_entry option \<Rightarrow>
   (alp_status \<times> update_log_entry option) option" where
  "ulog_alif_se_build_entry toc_image_id expect_image_id toc_version toc_verify_char image_hash hash_valid out =
     (case (toc_image_id, expect_image_id, image_hash, out) of
        (Some toc_image_id, Some expect_image_id, Some image_hash, Some _) \<Rightarrow> do {
          a \<leftarrow> read_at toc_image_id 0 8;
          b \<leftarrow> read_at expect_image_id 0 8;
          if a \<noteq> b then Some (ALP_ERR_NOSUPPORT, out)
          else if \<not> hash_valid then Some (ALP_ERR_NOSUPPORT, out)
          else do {
            hash \<leftarrow> read_at image_hash 0 32;
            Some (ALP_OK, Some (zero_entry\<lparr>
              ule_fw_version := snprintf_version 32 (unat (drop_bit 24 toc_version AND 0xFF))
                (unat (drop_bit 16 toc_version AND 0xFF)) (unat (toc_version AND 0xFFFF)),
              ule_image_hash := hash,
              ule_status := (if toc_verify_char = of_char CHR ''V'' then 0 else 1)\<rparr>))
          }
        }
      | _ \<Rightarrow> Some (ALP_ERR_INVAL, out))"

definition ulog_alif_se_entry_from_located ::
  "bytes option \<Rightarrow> bytes option \<Rightarrow> u32 \<Rightarrow> u32 \<Rightarrow> u8 \<Rightarrow> u32 \<Rightarrow> u32 \<Rightarrow> bytes option \<Rightarrow> bytes option \<Rightarrow> update_log_entry option \<Rightarrow>
   (alp_status \<times> update_log_entry option) option" where
  "ulog_alif_se_entry_from_located toc_id expect_id toc_version toc_size verify_char loc_version loc_len computed signed_hash out =
     (case (computed, signed_hash) of
        (Some digest, Some certified) \<Rightarrow>
          if loc_len \<noteq> toc_size \<or> loc_version \<noteq> toc_version then Some (ALP_ERR_NOSUPPORT, out) else do {
            a \<leftarrow> read_at digest 0 32;
            b \<leftarrow> read_at certified 0 32;
            if a \<noteq> b then Some (ALP_ERR_NOSUPPORT, out)
            else ulog_alif_se_build_entry toc_id expect_id toc_version verify_char computed True out
          }
      | _ \<Rightarrow> Some (ALP_ERR_INVAL, out))"

section \<open>The ATOC package\<close>

abbreviation (input) ULOG_ALIF_ATOC_TRAILER_LEN :: nat where "ULOG_ALIF_ATOC_TRAILER_LEN \<equiv> 16"
abbreviation (input) ULOG_ALIF_ATOC_HDR_LEN :: nat where "ULOG_ALIF_ATOC_HDR_LEN \<equiv> 32"
abbreviation (input) ULOG_ALIF_ATOC_ENTRY_LEN :: nat where "ULOG_ALIF_ATOC_ENTRY_LEN \<equiv> 32"
abbreviation (input) ULOG_ALIF_ATOC_FLASH_ALIAS :: u32 where "ULOG_ALIF_ATOC_FLASH_ALIAS \<equiv> 0x10000000"
abbreviation (input) ULOG_ALIF_CERT_MAX_KEY_CERTS :: nat where "ULOG_ALIF_CERT_MAX_KEY_CERTS \<equiv> 4"
abbreviation (input) ATOC_ENT_SIZE :: nat where "ATOC_ENT_SIZE \<equiv> 4"
abbreviation (input) ATOC_ENT_VER :: nat where "ATOC_ENT_VER \<equiv> 16"
abbreviation (input) ATOC_ENT_NAME :: nat where "ATOC_ENT_NAME \<equiv> 20"
abbreviation (input) CERT_MAGIC_KEY :: u32 where "CERT_MAGIC_KEY \<equiv> 0x53426B63"
abbreviation (input) CERT_MAGIC_CONTENT :: u32 where "CERT_MAGIC_CONTENT \<equiv> 0x53426363"
abbreviation (input) CERT_HDR_LEN :: nat where "CERT_HDR_LEN \<equiv> 16"
abbreviation (input) CERT_SIG_LEN :: nat where "CERT_SIG_LEN \<equiv> 384"
abbreviation (input) CERT_REC_OFF :: nat where "CERT_REC_OFF \<equiv> 432"
abbreviation (input) CERT_REC_LEN :: nat where "CERT_REC_LEN \<equiv> 44"
abbreviation (input) CERT_REC_AES_OFF :: nat where "CERT_REC_AES_OFF \<equiv> 472"

definition ATOC_HDR_MAGIC :: bytes where
  "ATOC_HDR_MAGIC = map of_char ''OEMTOC01''"

text \<open>A pointer into MRAM is an offset.  A step that refuses the package (\<open>ALP_ERR_NOSUPPORT\<close>) is
  \<open>Some None\<close>.\<close>

definition atoc_view :: "nat \<Rightarrow> nat \<Rightarrow> nat \<Rightarrow> nat \<Rightarrow> nat option" where
  "atoc_view len base addr n =
     (if addr < base \<or> addr - base > len \<or> n > len - (addr - base) then None else Some (addr - base))"

text \<open>From the trailer to the header: the offset of the header and the number of entries.\<close>

definition atoc_header :: "bytes \<Rightarrow> nat \<Rightarrow> nat \<Rightarrow> (nat \<times> nat) option option" where
  "atoc_header mram mram_len mram_base =
     (let trailer_addr = mram_base + mram_len - ULOG_ALIF_ATOC_TRAILER_LEN;
          tr = mram_len - ULOG_ALIF_ATOC_TRAILER_LEN
      in do {
        hdr_addr \<leftarrow> map_option unat (get_u32le mram (tr + 4));
        pkg_start \<leftarrow> map_option unat (get_u32le mram (tr + 8));
        pkg_size \<leftarrow> map_option unat (get_u32le mram (tr + 12));
        if atoc_view mram_len mram_base pkg_start pkg_size = None \<or>
           hdr_addr < pkg_start \<or> hdr_addr \<ge> pkg_start + pkg_size \<or>
           hdr_addr + ULOG_ALIF_ATOC_HDR_LEN > trailer_addr
        then Some None
        else do {
          magic \<leftarrow> read_at mram (hdr_addr - mram_base) 8;
          if magic \<noteq> ATOC_HDR_MAGIC then Some None
          else do {
            w \<leftarrow> get_u32le mram (hdr_addr - mram_base + 8);
            if w AND 0xFFFF \<noteq> of_nat ULOG_ALIF_ATOC_ENTRY_LEN \<or>
               hdr_addr + ULOG_ALIF_ATOC_HDR_LEN + unat (drop_bit 16 w) * ULOG_ALIF_ATOC_ENTRY_LEN > trailer_addr
            then Some None
            else Some (Some (hdr_addr - mram_base, unat (drop_bit 16 w)))
          }
        }
      })"

text \<open>The first of \<open>count\<close> entries from \<open>ent\<close> with the given name.\<close>

fun atoc_entry :: "bytes \<Rightarrow> bytes \<Rightarrow> nat \<Rightarrow> nat \<Rightarrow> nat option option" where
  "atoc_entry mram image_id ent 0 = Some None"
| "atoc_entry mram image_id ent (Suc count) = do {
     name \<leftarrow> read_at mram (ent + ATOC_ENT_NAME) 8;
     if name = image_id then Some (Some ent)
     else atoc_entry mram image_id (ent + ULOG_ALIF_ATOC_ENTRY_LEN) count
   }"

text \<open>The certificate loop, with \<open>n\<close> iterations left: skip key certificates.\<close>

fun atoc_cert :: "bytes \<Rightarrow> nat \<Rightarrow> nat \<Rightarrow> nat \<Rightarrow> nat \<Rightarrow> nat option \<Rightarrow> nat \<Rightarrow> (nat \<times> nat option \<times> nat) option option" where
  "atoc_cert mram mram_len mram_base 0 cert c wl = Some (Some (cert, c, wl))"
| "atoc_cert mram mram_len mram_base (Suc n) cert c wl =
     (case atoc_view mram_len mram_base cert CERT_HDR_LEN of
        None \<Rightarrow> Some None
      | Some c \<Rightarrow> do {
          words \<leftarrow> get_u32le mram (c + 8);
          magic \<leftarrow> get_u32le mram c;
          let wl = unat (words AND 0xFFFF);
          if magic \<noteq> CERT_MAGIC_KEY then Some (Some (cert, Some c, wl))
          else atoc_cert mram mram_len mram_base n (cert + wl * 4 + CERT_SIG_LEN) (Some c) wl
        })"

text \<open>The checks of the content certificate and of its parameter record; the flash address, the
  length and the signed hash.\<close>

definition atoc_content :: "bytes \<Rightarrow> nat \<Rightarrow> nat \<Rightarrow> u32 \<Rightarrow> u32 \<Rightarrow> nat \<Rightarrow> nat \<Rightarrow> nat \<Rightarrow> (u32 \<times> u32 \<times> bytes) option option" where
  "atoc_content mram mram_len mram_base ent_size max_len cert c wl = do {
     magic \<leftarrow> get_u32le mram c;
     flags \<leftarrow> get_u32le mram (c + 12);
     if magic \<noteq> CERT_MAGIC_CONTENT \<or> drop_bit 16 flags AND 0xF \<noteq> 1 \<or>
        wl * 4 < CERT_REC_LEN \<or> wl * 4 - CERT_REC_LEN \<noteq> CERT_REC_OFF
     then Some None
     else (case atoc_view mram_len mram_base cert (wl * 4 + CERT_SIG_LEN + 8) of
        None \<Rightarrow> Some None
      | Some c \<Rightarrow> do {
          flash \<leftarrow> get_u32le mram (c + wl * 4 + CERT_SIG_LEN);
          len \<leftarrow> get_u32le mram (c + wl * 4 + CERT_SIG_LEN + 4);
          aes \<leftarrow> get_u32le mram (c + CERT_REC_AES_OFF);
          if aes \<noteq> 0 \<or> len \<noteq> ent_size \<or> len = 0 \<or> len > max_len \<or> flash < ULOG_ALIF_ATOC_FLASH_ALIAS \<or>
             atoc_view mram_len mram_base (unat flash - unat ULOG_ALIF_ATOC_FLASH_ALIAS) (unat len) = None
          then Some None
          else do {
            h \<leftarrow> read_at mram (c + CERT_REC_OFF) 32;
            Some (Some (flash - ULOG_ALIF_ATOC_FLASH_ALIAS, len, h))
          }
        })
   }"

text \<open>The four outputs together (\<open>None\<close> when any of the four pointers is NULL), and the whole walk.\<close>

record located =
  loc_img_addr :: u32
  loc_img_len :: u32
  loc_cert_hash :: bytes
  loc_entry_version :: u32

definition atoc_walk :: "bytes \<Rightarrow> nat \<Rightarrow> nat \<Rightarrow> bytes \<Rightarrow> u32 \<Rightarrow> located option option" where
  "atoc_walk mram mram_len mram_base image_id max_len =
     (if mram_len < ULOG_ALIF_ATOC_TRAILER_LEN + ULOG_ALIF_ATOC_HDR_LEN then Some None else do {
        h \<leftarrow> atoc_header mram mram_len mram_base;
        case h of None \<Rightarrow> Some None | Some (hdr, count) \<Rightarrow> do {
          e \<leftarrow> atoc_entry mram image_id (hdr + ULOG_ALIF_ATOC_HDR_LEN) count;
          case e of None \<Rightarrow> Some None | Some ent \<Rightarrow> do {
            ent_size \<leftarrow> get_u32le mram (ent + ATOC_ENT_SIZE);
            obj \<leftarrow> get_u32le mram ent;
            k \<leftarrow> atoc_cert mram mram_len mram_base (ULOG_ALIF_CERT_MAX_KEY_CERTS + 1) (unat obj) None 0;
            case k of
              None \<Rightarrow> Some None
            | Some (cert, None, wl) \<Rightarrow> Some None
            | Some (cert, Some c, wl) \<Rightarrow> do {
                r \<leftarrow> atoc_content mram mram_len mram_base ent_size max_len cert c wl;
                case r of None \<Rightarrow> Some None | Some (addr, len, hash) \<Rightarrow> do {
                  ver \<leftarrow> get_u32le mram (ent + ATOC_ENT_VER);
                  Some (Some \<lparr>loc_img_addr = addr, loc_img_len = len, loc_cert_hash = hash, loc_entry_version = ver\<rparr>)
                }
              }
          }
        }
      })"

definition ulog_alif_atoc_locate ::
  "bytes option \<Rightarrow> nat \<Rightarrow> u32 \<Rightarrow> bytes option \<Rightarrow> u32 \<Rightarrow> located option \<Rightarrow> (alp_status \<times> located option) option" where
  "ulog_alif_atoc_locate mram mram_len mram_base image_id max_len out =
     (case (mram, image_id, out) of
        (Some mram, Some image_id, Some _) \<Rightarrow> do {
          r \<leftarrow> atoc_walk mram mram_len (unat mram_base) image_id max_len;
          case r of None \<Rightarrow> Some (ALP_ERR_NOSUPPORT, out) | Some l \<Rightarrow> Some (ALP_OK, Some l)
        }
      | _ \<Rightarrow> Some (ALP_ERR_INVAL, out))"

section \<open>Checked reads in bounds\<close>

lemma get_u16le_some [simp]: "off + 2 \<le> length p \<Longrightarrow> get_u16le p off = Some (le_word 2 (mem_read p off 2))"
  by (simp add: get_u16le_def)

lemma get_u32le_some [simp]: "off + 4 \<le> length p \<Longrightarrow> get_u32le p off = Some (le_word 4 (mem_read p off 4))"
  by (simp add: get_u32le_def)

lemma bind_some [simp]: "Option.bind (Some x) f = f x"
  by simp

section \<open>The TLV scan\<close>

lemma tlv_scan_safe:
  assumes "avail \<le> length a"
  shows "\<exists>found h. tlv_scan a avail off hash_out = Some (found, h) \<and>
    (if found then \<exists>k. 4 \<le> k \<and> off + 4 \<le> k \<and> k + 32 \<le> avail \<and> h = mem_read a k 32 else h = hash_out)"
  using assms
proof (induction a avail off hash_out rule: tlv_scan.induct)
  case (1 a avail off h0)
  let ?ty = "le_word 2 (mem_read a off 2) :: u16" and ?len = "le_word 2 (mem_read a (off + 2) 2) :: u16"
  show ?case
  proof (cases "off + 4 \<le> avail")
    case False
    then show ?thesis by (subst tlv_scan.simps) auto
  next
    case True
    then have r: "get_u16le a off = Some ?ty" "get_u16le a (off + 2) = Some ?len" using 1(2) by auto
    consider "off + 4 + unat ?len > avail" | "\<not> off + 4 + unat ?len > avail" "?ty = 0x10 \<and> ?len = 32"
      | "\<not> off + 4 + unat ?len > avail" "\<not> (?ty = 0x10 \<and> ?len = 32)" by blast
    then show ?thesis
    proof cases
      case 1
      then have "tlv_scan a avail off h0 = Some (False, h0)" using True r by (subst tlv_scan.simps) auto
      then show ?thesis by (intro exI [of _ False] exI [of _ h0]) simp
    next
      case 2
      then have "off + 4 + 32 \<le> avail" by auto
      then have "tlv_scan a avail off h0 = Some (True, mem_read a (off + 4) 32)"
        using 2 True r \<open>avail \<le> length a\<close> by (subst tlv_scan.simps) simp
      then show ?thesis using \<open>off + 4 + 32 \<le> avail\<close> by (intro exI [of _ True] exI) (auto intro!: exI [of _ "off + 4"])
    next
      case 3
      have eq: "tlv_scan a avail off h0 = tlv_scan a avail (off + 4 + unat ?len) h0"
        using 3 True r by (subst tlv_scan.simps) auto
      have "\<exists>found h. tlv_scan a avail (off + 4 + unat ?len) h0 = Some (found, h) \<and>
        (if found then \<exists>k. 4 \<le> k \<and> off + 4 + unat ?len + 4 \<le> k \<and> k + 32 \<le> avail \<and> h = mem_read a k 32 else h = h0)"
        using "1.IH" [OF True r 3] \<open>avail \<le> length a\<close> by blast
      then obtain found h where f: "tlv_scan a avail (off + 4 + unat ?len) h0 = Some (found, h)"
        and p: "if found then \<exists>k. 4 \<le> k \<and> off + 4 + unat ?len + 4 \<le> k \<and> k + 32 \<le> avail \<and> h = mem_read a k 32 else h = h0"
        by blast
      have "if found then \<exists>k. 4 \<le> k \<and> off + 4 \<le> k \<and> k + 32 \<le> avail \<and> h = mem_read a k 32 else h = h0"
        using p by (auto split: if_splits intro: add_leD1)
      then show ?thesis unfolding eq f by blast
    qed
  qed
qed

text \<open>The bytes of a list of TLV entries.\<close>

fun tlv_bytes :: "(u16 \<times> bytes) list \<Rightarrow> bytes" where
  "tlv_bytes [] = []"
| "tlv_bytes ((ty, p) # ts) = le_bytes 2 ty @ le_bytes 2 (of_nat (length p) :: u16) @ p @ tlv_bytes ts"

definition is_sha_tlv :: "u16 \<times> bytes \<Rightarrow> bool" where
  "is_sha_tlv = (\<lambda>(ty, p). ty = ULOG_MCUBOOT_TLV_SHA256 \<and> length p = 32)"

lemma mem_read_append: "length xs = off \<Longrightarrow> length ys = n \<Longrightarrow> mem_read (xs @ ys @ zs) off n = ys"
  by (simp add: mem_read_def)

lemma tlv_scan_bytes:
  assumes "length (pre @ tlv_bytes ts) \<le> 65535"
  shows "tlv_scan (pre @ tlv_bytes ts @ post) (length (pre @ tlv_bytes ts)) (length pre) h =
    Some (case find is_sha_tlv ts of Some (_, p) \<Rightarrow> (True, p) | None \<Rightarrow> (False, h))"
  using assms
proof (induction ts arbitrary: pre)
  case Nil
  then show ?case by (subst tlv_scan.simps) simp
next
  case (Cons t ts)
  obtain ty p where t: "t = (ty, p)" by (cases t)
  let ?l = "of_nat (length p) :: u16" and ?a = "pre @ tlv_bytes (t # ts) @ post"
  let ?pre = "pre @ le_bytes 2 ty @ le_bytes 2 ?l @ p"
  have len: "unat ?l = length p" using Cons.prems by (simp add: t unat_of_nat)
  have "mem_read ?a (length pre) 2 = le_bytes 2 ty" "mem_read ?a (length pre + 2) 2 = le_bytes 2 ?l"
    using mem_read_append [of pre "length pre" "le_bytes 2 ty" 2 "le_bytes 2 ?l @ p @ tlv_bytes ts @ post"]
      mem_read_append [of "pre @ le_bytes 2 ty" "length pre + 2" "le_bytes 2 ?l" 2 "p @ tlv_bytes ts @ post"]
    by (simp_all add: t)
  then have r: "get_u16le ?a (length pre) = Some ty" "get_u16le ?a (length pre + 2) = Some ?l"
    by (simp_all add: t le_word_bytes)
  have pay: "mem_read ?a (length pre + 4) (length p) = p"
    using mem_read_append [of "pre @ le_bytes 2 ty @ le_bytes 2 ?l" "length pre + 4" p "length p" "tlv_bytes ts @ post"]
    by (simp add: t)
  have av: "length (pre @ tlv_bytes (t # ts)) = length pre + 4 + length p + length (tlv_bytes ts)" by (simp add: t)
  show ?case
  proof (cases "is_sha_tlv t")
    case True
    then have "ty = 0x10" "length p = 32" "?l = 32" by (simp_all add: is_sha_tlv_def t)
    then have "tlv_scan ?a (length (pre @ tlv_bytes (t # ts))) (length pre) h = Some (True, p)"
      unfolding av using r len pay by (subst tlv_scan.simps) (simp add: t)
    then show ?thesis using True by (simp add: t)
  next
    case False
    have "\<not> (ty = 0x10 \<and> ?l = 32)"
    proof
      assume "ty = 0x10 \<and> ?l = 32"
      then have "length p = 32" using len by simp
      then show False using False \<open>ty = 0x10 \<and> ?l = 32\<close> by (simp add: is_sha_tlv_def t)
    qed
    then have "tlv_scan ?a (length (pre @ tlv_bytes (t # ts))) (length pre) h =
        tlv_scan ?a (length (pre @ tlv_bytes (t # ts))) (length pre + 4 + length p) h"
      unfolding av using r len by (subst tlv_scan.simps) (auto simp: t)
    also have "\<dots> = tlv_scan (?pre @ tlv_bytes ts @ post) (length (?pre @ tlv_bytes ts)) (length ?pre) h"
      by (simp add: t eval_nat_numeral)
    also have "\<dots> = Some (case find is_sha_tlv ts of Some (_, p) \<Rightarrow> (True, p) | None \<Rightarrow> (False, h))"
      by (rule Cons.IH) (use Cons.prems in \<open>simp add: t\<close>)
    finally show ?thesis using False by simp
  qed
qed

section \<open>The ATOC walk stays in MRAM\<close>

lemma atoc_view_some:
  "atoc_view len base addr n = Some off \<longleftrightarrow> off = addr - base \<and> base \<le> addr \<and> addr - base + n \<le> len"
  by (auto simp: atoc_view_def)

lemma atoc_view_none: "atoc_view len base addr n = None \<longleftrightarrow> \<not> (base \<le> addr \<and> addr - base + n \<le> len)"
  by (auto simp: atoc_view_def)

lemma atoc_header_safe:
  assumes "48 \<le> length mram"
  shows "\<exists>r. atoc_header mram (length mram) base = Some r \<and>
    (\<forall>hdr count. r = Some (hdr, count) \<longrightarrow> hdr + 32 + count * 32 \<le> length mram - 16)"
proof -
  let ?tr = "length mram - 16"
  let ?u = "\<lambda>off. unat (le_word 4 (mem_read mram off 4) :: u32)"
  have read_at: "get_u32le mram (?tr + k) = Some (le_word 4 (mem_read mram (?tr + k) 4))" if "k \<le> 12" for k
    using that assms by simp
  show ?thesis
  proof (cases "atoc_view (length mram) base (?u (?tr + 8)) (?u (?tr + 12)) = None \<or> ?u (?tr + 4) < ?u (?tr + 8) \<or>
      ?u (?tr + 4) \<ge> ?u (?tr + 8) + ?u (?tr + 12) \<or> ?u (?tr + 4) + 32 > base + length mram - 16")
    case True
    then show ?thesis by (simp add: atoc_header_def read_at)
  next
    case False
    then have b: "base \<le> ?u (?tr + 4)" "?u (?tr + 4) + 32 \<le> base + length mram - 16"
      by (auto simp: atoc_view_none)
    let ?h = "?u (?tr + 4) - base"
    have h: "?h + 32 \<le> length mram" using b assms by linarith
    have r: "read_at mram ?h 8 = Some (mem_read mram ?h 8)"
      "get_u32le mram (?h + 8) = Some (le_word 4 (mem_read mram (?h + 8) 4))"
      by (rule read_at_some, use h in linarith) (rule get_u32le_some, use h in linarith)
    have "hdr + 32 + count * 32 \<le> length mram - 16"
      if "hdr = ?h" "\<not> ?u (?tr + 4) + 32 + count * 32 > base + length mram - 16" for hdr count
      using that b assms by linarith
    then show ?thesis using False by (auto simp: atoc_header_def read_at r Let_def)
  qed
qed

lemma atoc_entry_safe:
  assumes "ent + count * 32 \<le> length mram"
  shows "\<exists>r. atoc_entry mram image_id ent count = Some r \<and>
    (\<forall>e. r = Some e \<longrightarrow> e + 32 \<le> length mram \<and> mem_read mram (e + ATOC_ENT_NAME) 8 = image_id)"
  using assms
proof (induction count arbitrary: ent)
  case (Suc count)
  then have "read_at mram (ent + 20) 8 = Some (mem_read mram (ent + 20) 8)" "ent + 32 \<le> length mram" by simp_all
  moreover have "\<exists>r. atoc_entry mram image_id (ent + 32) count = Some r \<and>
    (\<forall>e. r = Some e \<longrightarrow> e + 32 \<le> length mram \<and> mem_read mram (e + ATOC_ENT_NAME) 8 = image_id)"
    by (rule Suc.IH) (use Suc.prems in simp)
  ultimately show ?case by auto
qed simp

lemma atoc_cert_safe:
  assumes "\<And>c. c0 = Some c \<Longrightarrow> c + 16 \<le> length mram"
  shows "\<exists>r. atoc_cert mram (length mram) base n cert c0 wl = Some r \<and>
    (\<forall>cert c wl. r = Some (cert, Some c, wl) \<longrightarrow> c + 16 \<le> length mram)"
  using assms
proof (induction n arbitrary: cert c0 wl)
  case 0
  then show ?case by simp
next
  case (Suc n)
  show ?case
  proof (cases "atoc_view (length mram) base cert 16")
    case None
    then show ?thesis by simp
  next
    case (Some c)
    then have c: "c + 16 \<le> length mram" by (auto simp: atoc_view_some)
    then have r: "get_u32le mram (c + 8) = Some (le_word 4 (mem_read mram (c + 8) 4))"
      "get_u32le mram c = Some (le_word 4 (mem_read mram c 4))" by simp_all
    have IH: "\<exists>r. atoc_cert mram (length mram) base n cert' (Some c) wl' = Some r \<and>
      (\<forall>cert c wl. r = Some (cert, Some c, wl) \<longrightarrow> c + 16 \<le> length mram)" for cert' wl'
      by (rule Suc.IH) (use c in simp)
    show ?thesis
      by (cases "le_word 4 (mem_read mram c 4) = CERT_MAGIC_KEY") (use IH c in \<open>simp_all add: Some r Let_def\<close>)
  qed
qed

lemma atoc_content_safe:
  assumes "c + 16 \<le> length mram"
  shows "\<exists>r. atoc_content mram (length mram) base ent_size max_len cert c wl = Some r \<and>
    (\<forall>a l h. r = Some (a, l, h) \<longrightarrow> 0 < l \<and> l \<le> max_len \<and> l = ent_size \<and> length h = 32 \<and>
       base \<le> unat a \<and> unat a + unat l \<le> base + length mram)"
proof -
  let ?w = "\<lambda>off. le_word 4 (mem_read mram off 4) :: u32"
  have r: "get_u32le mram c = Some (?w c)" "get_u32le mram (c + 12) = Some (?w (c + 12))" using assms by simp_all
  show ?thesis
  proof (cases "?w c \<noteq> CERT_MAGIC_CONTENT \<or> drop_bit 16 (?w (c + 12)) AND 0xF \<noteq> 1 \<or> wl * 4 < 44 \<or> wl * 4 - 44 \<noteq> 432")
    case True
    then show ?thesis by (auto simp: atoc_content_def r)
  next
    case ok: False
    then have wl: "wl * 4 = 476" by auto
    show ?thesis
    proof (cases "atoc_view (length mram) base cert 868")
      case None
      then show ?thesis using ok by (simp add: atoc_content_def r wl)
    next
      case (Some d)
      then have d: "d + 868 \<le> length mram" by (auto simp: atoc_view_some)
      let ?flash = "?w (d + 860)" and ?len = "?w (d + 864)"
      have rs: "get_u32le mram (d + 860) = Some ?flash" "get_u32le mram (d + 864) = Some ?len"
        "get_u32le mram (d + 472) = Some (?w (d + 472))" "read_at mram (d + 432) 32 = Some (mem_read mram (d + 432) 32)"
        using d by simp_all
      have rc: "get_u32le mram (860 + d) = Some ?flash" "get_u32le mram (864 + d) = Some ?len"
        using rs(1,2) by (simp_all only: add.commute)
      let ?bad = "?w (d + 472) \<noteq> 0 \<or> ?len \<noteq> ent_size \<or> ?len = 0 \<or> ?len > max_len \<or> ?flash < 0x10000000 \<or>
         atoc_view (length mram) base (unat ?flash - unat (0x10000000 :: u32)) (unat ?len) = None"
      have eq: "atoc_content mram (length mram) base ent_size max_len cert c wl =
        (if ?bad then Some None else Some (Some (?flash - 0x10000000, ?len, mem_read mram (d + 432) 32)))"
        using ok unfolding atoc_content_def r wl by (simp add: Some rs rc)
      show ?thesis
      proof (cases ?bad)
        case True
        then show ?thesis unfolding eq by auto
      next
        case False
        then have "0x10000000 \<le> ?flash" and v: "base \<le> unat ?flash - unat (0x10000000 :: u32)"
          "unat ?flash - unat (0x10000000 :: u32) - base + unat ?len \<le> length mram"
          by (auto simp: atoc_view_none not_less)
        then have "unat (?flash - 0x10000000) = unat ?flash - unat (0x10000000 :: u32)"
          by (intro unat_sub) simp
        then have "base \<le> unat (?flash - 0x10000000)" "unat (?flash - 0x10000000) + unat ?len \<le> base + length mram"
          using v by linarith+
        moreover have "0 < ?len" "?len \<le> max_len" "?len = ent_size" using False by (auto simp: word_neq_0_conv)
        moreover have "length (mem_read mram (d + 432) 32) = 32" using d by simp
        ultimately show ?thesis using False unfolding eq by auto
      qed
    qed
  qed
qed

lemma atoc_walk_safe:
  "\<exists>r. atoc_walk mram (length mram) base image_id max_len = Some r \<and>
    (\<forall>l. r = Some l \<longrightarrow>
       0 < loc_img_len l \<and> loc_img_len l \<le> max_len \<and> length (loc_cert_hash l) = 32 \<and>
       base \<le> unat (loc_img_addr l) \<and> unat (loc_img_addr l) + unat (loc_img_len l) \<le> base + length mram \<and>
       (\<exists>ent. ent + 32 \<le> length mram \<and> mem_read mram (ent + ATOC_ENT_NAME) 8 = image_id \<and>
          get_u32le mram (ent + ATOC_ENT_SIZE) = Some (loc_img_len l) \<and>
          get_u32le mram (ent + ATOC_ENT_VER) = Some (loc_entry_version l)))"
proof (cases "length mram < 48")
  case True
  then show ?thesis by (simp add: atoc_walk_def)
next
  case False
  obtain h where h: "atoc_header mram (length mram) base = Some h"
    and hb: "\<And>hdr count. h = Some (hdr, count) \<Longrightarrow> hdr + 32 + count * 32 \<le> length mram - 16"
    using atoc_header_safe [of mram base] False by auto
  show ?thesis
  proof (cases h)
    case None
    then show ?thesis using False by (simp add: atoc_walk_def h)
  next
    case (Some hc)
    obtain hdr count where hc: "hc = (hdr, count)" by (cases hc)
    with Some hb have "hdr + 32 + count * 32 \<le> length mram" by fastforce
    then obtain e where e: "atoc_entry mram image_id (hdr + 32) count = Some e"
      and eb: "\<And>ent. e = Some ent \<Longrightarrow> ent + 32 \<le> length mram \<and> mem_read mram (ent + 20) 8 = image_id"
      using atoc_entry_safe [of "hdr + 32" count mram image_id] by blast
    show ?thesis
    proof (cases e)
      case None
      then show ?thesis using False by (simp add: atoc_walk_def h Some hc e)
    next
      case e': (Some ent)
      let ?w = "\<lambda>off. le_word 4 (mem_read mram off 4) :: u32"
      have ent: "ent + 32 \<le> length mram" "mem_read mram (ent + 20) 8 = image_id" using eb [OF e'] by simp_all
      then have rs: "get_u32le mram (ent + 4) = Some (?w (ent + 4))" "get_u32le mram ent = Some (?w ent)"
        "get_u32le mram (ent + 16) = Some (?w (ent + 16))" by simp_all
      obtain k where k: "atoc_cert mram (length mram) base 5 (unat (?w ent)) None 0 = Some k"
        and kb: "\<And>cert c wl. k = Some (cert, Some c, wl) \<Longrightarrow> c + 16 \<le> length mram"
        using atoc_cert_safe [of None mram base 5 "unat (?w ent)" 0] by blast
      show ?thesis
      proof (cases "\<exists>cert c wl. k = Some (cert, Some c, wl)")
        case nokey: False
        then have "k = None \<or> (\<exists>cert wl. k = Some (cert, None, wl))" by (cases k) auto
        then show ?thesis using False by (auto simp: atoc_walk_def h Some hc e e' rs k)
      next
        case True
        then obtain cert c wl where kc: "k = Some (cert, Some c, wl)" by blast
        obtain r where r: "atoc_content mram (length mram) base (?w (ent + 4)) max_len cert c wl = Some r"
          and rb: "\<And>a l h. r = Some (a, l, h) \<Longrightarrow> 0 < l \<and> l \<le> max_len \<and> l = ?w (ent + 4) \<and> length h = 32 \<and>
            base \<le> unat a \<and> unat a + unat l \<le> base + length mram"
          using atoc_content_safe [OF kb [OF kc], of base "?w (ent + 4)" max_len cert wl] by blast
        show ?thesis
        proof (cases r)
          case None
          then show ?thesis using False by (simp add: atoc_walk_def h Some hc e e' rs k kc r)
        next
          case r': (Some t)
          obtain a l hh where t: "t = (a, l, hh)" by (cases t)
          have eq: "atoc_walk mram (length mram) base image_id max_len =
            Some (Some \<lparr>loc_img_addr = a, loc_img_len = l, loc_cert_hash = hh, loc_entry_version = ?w (ent + 16)\<rparr>)"
            using False by (simp add: atoc_walk_def h Some hc e e' rs k kc r r' t)
          show ?thesis unfolding eq using rb [of a l hh] ent rs by (auto simp: r' t)
        qed
      qed
    qed
  qed
qed

section \<open>Version strings\<close>

lemma udec_digits: "c \<in> set (udec n) \<Longrightarrow> of_char c \<noteq> (0 :: u8)"
proof (induction n rule: udec.induct)
  case (1 n)
  have d: "of_char (char_of (48 + k) :: char) \<noteq> (0 :: u8)" if "k < 10" for k :: nat
  proof -
    have "(of_char (char_of (48 + k) :: char) :: u8) = of_nat (of_char (char_of (48 + k) :: char))"
      by (rule of_nat_of_char [symmetric])
    also have "\<dots> = of_nat ((48 + k) mod 256)" by (simp only: of_char_of)
    finally have "of_char (char_of (48 + k) :: char) = (of_nat ((48 + k) mod 256) :: u8)" .
    then show ?thesis using that by (simp add: word_unat_eq_iff unat_word_ariths unat_of_nat)
  qed
  show ?case
  proof (cases "n < 10")
    case True
    then show ?thesis using 1(2) d by (subst (asm) udec.simps) auto
  next
    case False
    then show ?thesis using 1(1) [OF False] 1(2) d [of "n mod 10"] by (subst (asm) udec.simps) auto
  qed
qed

lemma udec_length: "n < 10 ^ k \<Longrightarrow> 0 < k \<Longrightarrow> length (udec n) \<le> k"
proof (induction k arbitrary: n)
  case (Suc k)
  show ?case
  proof (cases "n < 10")
    case True
    then show ?thesis by (subst udec.simps) simp
  next
    case False
    then have "0 < k" using Suc.prems by (cases k) auto
    moreover have "n div 10 < 10 ^ k" using Suc.prems by (simp add: less_mult_imp_div_less mult.commute)
    ultimately have "length (udec (n div 10)) \<le> k" using Suc.IH by blast
    then show ?thesis using False by (subst udec.simps) simp
  qed
qed simp

lemma version_text_digits: "c \<in> set (version_text a b c') \<Longrightarrow> of_char c \<noteq> (0 :: u8)"
  using udec_digits by (auto simp: version_text_def)

lemma version_text_length: "a < 1000 \<Longrightarrow> b < 1000 \<Longrightarrow> c < 100000 \<Longrightarrow> length (version_text a b c) \<le> 13"
  using udec_length [of a 3] udec_length [of b 3] udec_length [of c 5] by (simp add: version_text_def)

lemma snprintf_version_fits:
  assumes "a < 1000" "b < 1000" "c < 100000"
  shows "snprintf_version 32 a b c = map of_char (version_text a b c) @ replicate (32 - length (version_text a b c)) 0"
    and "length (snprintf_version 32 a b c) = 32"
    and "0 \<in> set (take 32 (snprintf_version 32 a b c))"
    and "takeWhile (\<lambda>x. x \<noteq> 0) (snprintf_version 32 a b c) = map of_char (version_text a b c)"
proof -
  let ?v = "version_text a b c"
  have l: "length ?v \<le> 13" by (rule version_text_length) (fact assms)+
  show eq: "snprintf_version 32 a b c = map of_char ?v @ replicate (32 - length ?v) 0"
    using l by (simp add: snprintf_version_def mem_write_def mem_set_def)
  show "length (snprintf_version 32 a b c) = 32" using l unfolding eq by simp
  show "0 \<in> set (take 32 (snprintf_version 32 a b c))" using l unfolding eq by simp
  have "takeWhile (\<lambda>x. x \<noteq> 0) (map of_char ?v @ replicate (32 - length ?v) (0 :: u8)) = map of_char ?v"
  proof (subst takeWhile_append2)
    show "x \<noteq> 0" if "x \<in> set (map of_char ?v)" for x :: u8 using that version_text_digits by auto
  qed (simp add: takeWhile_eq_Nil_iff)
  then show "takeWhile (\<lambda>x. x \<noteq> 0) (snprintf_version 32 a b c) = map of_char ?v" unfolding eq .
qed

section \<open>Properties\<close>

text \<open>
  C35. The TLV scan is memory safe and finds the hash.  On any bytes and any length within them it
  never reads out of bounds; when it reports a hash, those are 32 bytes of the area behind a
  valid magic, and otherwise the output is untouched.  On an area that encodes a list of entries
  it returns the payload of the first 32-byte SHA-256 entry, whatever bytes follow the area.
\<close>

theorem tlv_find_safe_and_exact:
  "(area_len \<le> length a \<longrightarrow>
     (\<exists>found h'. ulog_mcuboot_tlv_find_sha256 (Some a) area_len (Some h) = Some (found, Some h') \<and>
       (if found then \<exists>k. 8 \<le> k \<and> k + 32 \<le> area_len \<and> h' = mem_read a k 32 else h' = h))) \<and>
   (magic \<in> {ULOG_MCUBOOT_TLV_INFO_MAGIC, ULOG_MCUBOOT_TLV_PROT_MAGIC} \<and> 4 + length (tlv_bytes ts) \<le> 65535 \<longrightarrow>
     (let area = le_bytes 2 magic @ le_bytes 2 (of_nat (4 + length (tlv_bytes ts)) :: u16) @ tlv_bytes ts @ post
      in ulog_mcuboot_tlv_find_sha256 (Some area) (length area) (Some h) =
           Some (case find is_sha_tlv ts of Some (_, p) \<Rightarrow> (True, Some p) | None \<Rightarrow> (False, Some h))))"
proof (intro conjI impI)
  assume len: "area_len \<le> length a"
  show "\<exists>found h'. ulog_mcuboot_tlv_find_sha256 (Some a) area_len (Some h) = Some (found, Some h') \<and>
       (if found then \<exists>k. 8 \<le> k \<and> k + 32 \<le> area_len \<and> h' = mem_read a k 32 else h' = h)"
  proof (cases "area_len < 4")
    case True
    then show ?thesis by (auto simp: ulog_mcuboot_tlv_find_sha256_def intro: exI [of _ False])
  next
    case False
    let ?m = "le_word 2 (mem_read a 0 2) :: u16" and ?t = "unat (le_word 2 (mem_read a 2 2) :: u16)"
    let ?av = "if ?t < area_len then ?t else area_len"
    have r: "get_u16le a 0 = Some ?m" "get_u16le a 2 = Some (le_word 2 (mem_read a 2 2))" using False len by auto
    have av: "?av \<le> area_len" "?av \<le> length a" using len by auto
    from tlv_scan_safe [OF av(2), of 4 h] obtain found h' where f: "tlv_scan a ?av 4 h = Some (found, h')"
      and p: "if found then \<exists>k. 4 \<le> k \<and> 4 + 4 \<le> k \<and> k + 32 \<le> ?av \<and> h' = mem_read a k 32 else h' = h" by blast
    have p': "if found then \<exists>k. 8 \<le> k \<and> k + 32 \<le> area_len \<and> h' = mem_read a k 32 else h' = h"
    proof (cases found)
      case True
      with p obtain k where "4 + 4 \<le> k" "k + 32 \<le> ?av" "h' = mem_read a k 32" by (simp only: if_True) blast
      then have "8 \<le> k \<and> k + 32 \<le> area_len \<and> h' = mem_read a k 32" using order_trans [OF _ av(1)] by simp
      then show ?thesis using True by auto
    next
      case False
      with p show ?thesis by simp
    qed
    show ?thesis
    proof (cases "?m \<noteq> ULOG_MCUBOOT_TLV_INFO_MAGIC \<and> ?m \<noteq> ULOG_MCUBOOT_TLV_PROT_MAGIC")
      case True
      then have "ulog_mcuboot_tlv_find_sha256 (Some a) area_len (Some h) = Some (False, Some h)"
        using False by (simp add: ulog_mcuboot_tlv_find_sha256_def r)
      then show ?thesis by (intro exI [of _ False] exI [of _ h]) simp
    next
      case magic: False
      then have "ulog_mcuboot_tlv_find_sha256 (Some a) area_len (Some h) = Some (found, Some h')"
        using False by (simp only: ulog_mcuboot_tlv_find_sha256_def r f option.case prod.case bind_some if_False simp_thms)
      then show ?thesis using p' by blast
    qed
  qed
next
  assume a: "magic \<in> {ULOG_MCUBOOT_TLV_INFO_MAGIC, ULOG_MCUBOOT_TLV_PROT_MAGIC} \<and> 4 + length (tlv_bytes ts) \<le> 65535"
  let ?n = "4 + length (tlv_bytes ts)"
  let ?pre = "le_bytes 2 magic @ le_bytes 2 (of_nat ?n :: u16)"
  let ?area = "?pre @ tlv_bytes ts @ post"
  have "mem_read ?area 0 2 = le_bytes 2 magic" "mem_read ?area 2 2 = le_bytes 2 (of_nat ?n :: u16)"
    using mem_read_append [of "[]" 0 "le_bytes 2 magic" 2] mem_read_append [of "le_bytes 2 magic" 2 "le_bytes 2 (of_nat ?n :: u16)" 2]
    by simp_all
  then have r: "get_u16le ?area 0 = Some magic" "get_u16le ?area 2 = Some (of_nat ?n)" by (simp_all add: le_word_bytes)
  have n: "unat (of_nat ?n :: u16) = ?n" using a by (simp only: unat_of_nat) simp
  have len: "length ?pre = 4" by simp
  have "tlv_scan ?area (length (?pre @ tlv_bytes ts)) (length ?pre) h =
      Some (case find is_sha_tlv ts of Some (_, p) \<Rightarrow> (True, p) | None \<Rightarrow> (False, h))"
    by (rule tlv_scan_bytes [of ?pre ts post h]) (use a in simp)
  then have s: "tlv_scan ?area ?n 4 h = Some (case find is_sha_tlv ts of Some (_, p) \<Rightarrow> (True, p) | None \<Rightarrow> (False, h))"
    unfolding len length_append [of ?pre] .
  have "(if unat (of_nat ?n :: u16) < length ?area then unat (of_nat ?n :: u16) else length ?area) = ?n"
    unfolding n by simp
  then have "ulog_mcuboot_tlv_find_sha256 (Some ?area) (length ?area) (Some h) =
      tlv_scan ?area ?n 4 h \<bind> (\<lambda>(found, h). Some (found, Some h))"
    using a r by (auto simp: ulog_mcuboot_tlv_find_sha256_def simp del: length_append append_assoc)
  then show "let area = le_bytes 2 magic @ le_bytes 2 (of_nat ?n :: u16) @ tlv_bytes ts @ post
      in ulog_mcuboot_tlv_find_sha256 (Some area) (length area) (Some h) =
           Some (case find is_sha_tlv ts of Some (_, p) \<Rightarrow> (True, Some p) | None \<Rightarrow> (False, Some h))"
    unfolding s Let_def by (simp split: option.splits)
qed

theorem tlv_find_safe_and_exact_witness:
  "let ts = [(1, [7, 7]), (ULOG_MCUBOOT_TLV_SHA256, replicate 32 9)];
       area = le_bytes 2 ULOG_MCUBOOT_TLV_INFO_MAGIC @ le_bytes 2 (of_nat (4 + length (tlv_bytes ts)) :: u16) @ tlv_bytes ts @ [1, 2, 3]
   in ulog_mcuboot_tlv_find_sha256 (Some area) (length area) (Some (replicate 32 0)) = Some (True, Some (replicate 32 9))"
proof -
  let ?ts = "[(1, [7, 7]), (ULOG_MCUBOOT_TLV_SHA256, replicate 32 9)]"
  have "4 + length (tlv_bytes ?ts) \<le> 65535" by simp
  moreover have "find is_sha_tlv ?ts = Some (ULOG_MCUBOOT_TLV_SHA256, replicate 32 9)" by (simp add: is_sha_tlv_def)
  ultimately show ?thesis
    using tlv_find_safe_and_exact [of 0 "[]" "replicate 32 0" ULOG_MCUBOOT_TLV_INFO_MAGIC ?ts "[1, 2, 3]"]
    by (simp only: Let_def option.case prod.case insert_iff simp_thms)
qed

text \<open>
  C36. The ATOC walk is memory safe and what it locates is inside MRAM.  On any MRAM contents, base
  address and image name it never reads outside the window and answers \<open>ALP_OK\<close> or
  \<open>ALP_ERR_NOSUPPORT\<close>, the latter with the outputs untouched.  With \<open>ALP_OK\<close> the image is a
  non-empty range of at most \<open>max_len\<close> bytes inside MRAM, its length and version are those of a
  package entry with the requested name, and the signed hash has 32 bytes.
\<close>

theorem atoc_locate_safe:
  "\<exists>st l. ulog_alif_atoc_locate (Some mram) (length mram) base (Some image_id) max_len (Some l0) = Some (st, Some l) \<and>
    (st = ALP_OK \<or> st = ALP_ERR_NOSUPPORT \<and> l = l0) \<and>
    (st = ALP_OK \<longrightarrow>
       0 < loc_img_len l \<and> loc_img_len l \<le> max_len \<and> length (loc_cert_hash l) = 32 \<and>
       unat base \<le> unat (loc_img_addr l) \<and>
       unat (loc_img_addr l) + unat (loc_img_len l) \<le> unat base + length mram \<and>
       (\<exists>ent. ent + ULOG_ALIF_ATOC_ENTRY_LEN \<le> length mram \<and> mem_read mram (ent + ATOC_ENT_NAME) 8 = image_id \<and>
          get_u32le mram (ent + ATOC_ENT_SIZE) = Some (loc_img_len l) \<and>
          get_u32le mram (ent + ATOC_ENT_VER) = Some (loc_entry_version l)))"
proof -
  obtain r where r: "atoc_walk mram (length mram) (unat base) image_id max_len = Some r"
    and rb: "\<And>l. r = Some l \<Longrightarrow> 0 < loc_img_len l \<and> loc_img_len l \<le> max_len \<and> length (loc_cert_hash l) = 32 \<and>
       unat base \<le> unat (loc_img_addr l) \<and> unat (loc_img_addr l) + unat (loc_img_len l) \<le> unat base + length mram \<and>
       (\<exists>ent. ent + 32 \<le> length mram \<and> mem_read mram (ent + ATOC_ENT_NAME) 8 = image_id \<and>
          get_u32le mram (ent + ATOC_ENT_SIZE) = Some (loc_img_len l) \<and>
          get_u32le mram (ent + ATOC_ENT_VER) = Some (loc_entry_version l))"
    using atoc_walk_safe [of mram "unat base" image_id max_len] by blast
  show ?thesis
  proof (cases r)
    case None
    then show ?thesis by (intro exI [of _ ALP_ERR_NOSUPPORT] exI [of _ l0]) (simp add: ulog_alif_atoc_locate_def r)
  next
    case (Some l)
    then show ?thesis using rb [of l]
      by (intro exI [of _ ALP_OK] exI [of _ l]) (simp add: ulog_alif_atoc_locate_def r)
  qed
qed

text \<open>A package of one image: four bytes of image at the start of MRAM, its content certificate, the
  header, one entry and the trailer.\<close>

definition sample_name :: bytes where
  "sample_name = map of_char ''APP-HP'' @ [0, 0]"

definition sample_mram :: bytes where
  "sample_mram =
     replicate 4 0 @
     le_bytes 4 CERT_MAGIC_CONTENT @ replicate 4 0 @ le_bytes 4 (119 :: u32) @ le_bytes 4 (0x10000 :: u32) @ replicate 416 0 @
     replicate 32 0xAB @ replicate 8 0 @ le_bytes 4 (0 :: u32) @ replicate 384 0 @
     le_bytes 4 (0x90000000 :: u32) @ le_bytes 4 (4 :: u32) @
     ATOC_HDR_MAGIC @ le_bytes 4 (0x10020 :: u32) @ replicate 20 0 @
     le_bytes 4 (0x80000004 :: u32) @ le_bytes 4 (4 :: u32) @ replicate 8 0 @ le_bytes 4 (0x1020003 :: u32) @ sample_name @
     replicate 8 0 @ le_bytes 4 (0x80000368 :: u32) @ le_bytes 4 (0x80000000 :: u32) @ le_bytes 4 (936 :: u32) @ []"

lemma mem_read_skip: "length xs \<le> off \<Longrightarrow> mem_read (xs @ ys) off n = mem_read ys (off - length xs) n"
  by (simp add: mem_read_def)

lemma mem_read_hit: "length xs = n \<Longrightarrow> mem_read (xs @ ys) 0 n = xs"
  by (simp add: mem_read_def)

lemma sample_mram_reads:
  "length sample_mram = 952"
  "get_u32le sample_mram 940 = Some 0x80000368" "get_u32le sample_mram 944 = Some 0x80000000"
  "get_u32le sample_mram 948 = Some 936" "read_at sample_mram 872 8 = Some ATOC_HDR_MAGIC"
  "get_u32le sample_mram 880 = Some 0x10020" "read_at sample_mram 924 8 = Some sample_name"
  "get_u32le sample_mram 908 = Some 4" "get_u32le sample_mram 904 = Some 0x80000004"
  "get_u32le sample_mram 12 = Some 119" "get_u32le sample_mram 4 = Some CERT_MAGIC_CONTENT"
  "get_u32le sample_mram 16 = Some 0x10000" "get_u32le sample_mram 864 = Some 0x90000000"
  "get_u32le sample_mram 868 = Some 4" "get_u32le sample_mram 476 = Some 0"
  "read_at sample_mram 436 32 = Some (replicate 32 0xAB)" "get_u32le sample_mram 920 = Some 0x1020003"
proof -
  show len: "length sample_mram = 952"
    by (simp add: sample_mram_def ATOC_HDR_MAGIC_def sample_name_def)
  have [simp]: "length ATOC_HDR_MAGIC = 8" "length sample_name = 8" by (simp_all add: ATOC_HDR_MAGIC_def sample_name_def)
  show "get_u32le sample_mram 940 = Some 0x80000368" "get_u32le sample_mram 944 = Some 0x80000000"
    "get_u32le sample_mram 948 = Some 936" "read_at sample_mram 872 8 = Some ATOC_HDR_MAGIC"
    "get_u32le sample_mram 880 = Some 0x10020" "read_at sample_mram 924 8 = Some sample_name"
    "get_u32le sample_mram 908 = Some 4" "get_u32le sample_mram 904 = Some 0x80000004"
    "get_u32le sample_mram 12 = Some 119" "get_u32le sample_mram 4 = Some CERT_MAGIC_CONTENT"
    "get_u32le sample_mram 16 = Some 0x10000" "get_u32le sample_mram 864 = Some 0x90000000"
    "get_u32le sample_mram 868 = Some 4" "get_u32le sample_mram 476 = Some 0"
    "read_at sample_mram 436 32 = Some (replicate 32 0xAB)" "get_u32le sample_mram 920 = Some 0x1020003"
    by (simp_all only: get_u32le_def read_at_def len)
      (simp_all add: sample_mram_def mem_read_skip mem_read_hit le_word_bytes del: append_Nil2)
qed

theorem atoc_locate_safe_witness:
  "ulog_alif_atoc_locate (Some sample_mram) (length sample_mram) 0x80000000 (Some sample_name) 0x10000
     (Some \<lparr>loc_img_addr = 0, loc_img_len = 0, loc_cert_hash = [], loc_entry_version = 0\<rparr>) =
   Some (ALP_OK, Some \<lparr>loc_img_addr = 0x80000000, loc_img_len = 4, loc_cert_hash = replicate 32 0xAB, loc_entry_version = 0x1020003\<rparr>)
   \<and> unat (0x80000000 :: u32) + unat (4 :: u32) \<le> unat (0x80000000 :: u32) + length sample_mram"
proof -
  let ?init = "\<lparr>loc_img_addr = 0, loc_img_len = 0, loc_cert_hash = [], loc_entry_version = 0\<rparr> :: located"
  let ?l = "\<lparr>loc_img_addr = 0x80000000, loc_img_len = 4, loc_cert_hash = replicate 32 0xAB, loc_entry_version = 0x1020003\<rparr> :: located"
  note R = sample_mram_reads
  have h: "atoc_header sample_mram 952 0x80000000 = Some (Some (872, 1))"
    by (simp add: atoc_header_def R atoc_view_def)
  have e: "atoc_entry sample_mram sample_name 904 1 = Some (Some 904)" by (simp add: R)
  have "atoc_cert sample_mram 952 0x80000000 (Suc 4) 0x80000004 None 0 = Some (Some (0x80000004, Some 4, 119))"
    by (simp only: atoc_cert.simps) (simp add: R atoc_view_def)
  then have k: "atoc_cert sample_mram 952 0x80000000 5 0x80000004 None 0 = Some (Some (0x80000004, Some 4, 119))"
    by simp
  have c: "atoc_content sample_mram 952 0x80000000 4 0x10000 0x80000004 4 119 = Some (Some (0x80000000, 4, replicate 32 0xAB))"
    by (simp add: atoc_content_def R atoc_view_def)
  have "atoc_walk sample_mram 952 0x80000000 sample_name 0x10000 = Some (Some ?l)"
    by (simp add: atoc_walk_def h e k c R)
  then have eq: "ulog_alif_atoc_locate (Some sample_mram) (length sample_mram) 0x80000000 (Some sample_name) 0x10000 (Some ?init) =
      Some (ALP_OK, Some ?l)"
    by (simp add: ulog_alif_atoc_locate_def R)
  with atoc_locate_safe [of sample_mram "0x80000000" sample_name "0x10000" ?init]
  have "unat (loc_img_addr ?l) + unat (loc_img_len ?l) \<le> unat (0x80000000 :: u32) + length sample_mram" by fastforce
  with eq show ?thesis by simp
qed

text \<open>
  The log accepts what the providers build.  An entry either provider reports is well formed
  and encodable, so the engine never refuses it; it carries the 32-byte hash and the decimal
  version of its input, is marked confirmed only when the platform confirmed it, and the located
  variant is only built when the hash computed over the image equals the signed one.
\<close>

theorem boot_entries_encodable:
  "(ulog_mcuboot_build_entry (Some hdr) (Some hash) confirmed (Some e0) = Some (ALP_OK, Some e) \<longrightarrow>
      entry_wf e \<and> entry_encodable e \<and> ule_seq e = 0 \<and> ule_image_hash e = take 32 hash \<and>
      takeWhile (\<lambda>x. x \<noteq> 0) (ule_fw_version e) =
        map of_char (version_text (unat (hdr ! 20)) (unat (hdr ! 21)) (unat (le_word 2 (mem_read hdr 22 2) :: u16))) \<and>
      (ule_status e = 0 \<longleftrightarrow> confirmed)) \<and>
   (ulog_alif_se_entry_from_located toc_id expect_id ver toc_size vc lver llen computed certified (Some e0) = Some (ALP_OK, Some e) \<longrightarrow>
      entry_wf e \<and> entry_encodable e \<and> ule_seq e = 0 \<and> lver = ver \<and> llen = toc_size \<and>
      (\<exists>h s i j. computed = Some h \<and> certified = Some s \<and> take 32 h = take 32 s \<and> ule_image_hash e = take 32 h \<and>
         toc_id = Some i \<and> expect_id = Some j \<and> take 8 i = take 8 j) \<and>
      (ule_status e = 0 \<longleftrightarrow> vc = of_char CHR ''V''))"
proof (intro conjI impI)
  assume "ulog_mcuboot_build_entry (Some hdr) (Some hash) confirmed (Some e0) = Some (ALP_OK, Some e)"
  then have l: "24 \<le> length hdr" "32 \<le> length hash"
    and e: "e = zero_entry\<lparr>ule_fw_version := snprintf_version 32 (unat (hdr ! 20)) (unat (hdr ! 21))
        (unat (le_word 2 (mem_read hdr 22 2) :: u16)), ule_image_hash := take 32 hash,
        ule_status := (if confirmed then 0 else ALP_UPDATE_STATUS_PENDING_CONFIRM)\<rparr>"
    by (auto simp: ulog_mcuboot_build_entry_def read_at_def get_u16le_def mem_read_def nth_conv_mem_read
        split: if_splits bind_splits)
  let ?a = "unat (hdr ! 20)" and ?b = "unat (hdr ! 21)" and ?c = "unat (le_word 2 (mem_read hdr 22 2) :: u16)"
  have "?a < 2 ^ LENGTH(8)" "?b < 2 ^ LENGTH(8)" "?c < 2 ^ LENGTH(16)" by (rule unsigned_less)+
  then have "?a < 1000" "?b < 1000" "?c < 100000" by simp_all
  note v = snprintf_version_fits [OF this]
  show "entry_wf e" "entry_encodable e" "ule_seq e = 0" "ule_image_hash e = take 32 hash" "ule_status e = 0 \<longleftrightarrow> confirmed"
    "takeWhile (\<lambda>x. x \<noteq> 0) (ule_fw_version e) = map of_char (version_text ?a ?b ?c)"
    using v l by (simp_all add: e entry_wf_def entry_encodable_def zero_entry_def)
next
  assume a: "ulog_alif_se_entry_from_located toc_id expect_id ver toc_size vc lver llen computed certified (Some e0) = Some (ALP_OK, Some e)"
  let ?a = "unat (drop_bit 24 ver AND 0xFF)" and ?b = "unat (drop_bit 16 ver AND 0xFF)" and ?c = "unat (ver AND 0xFFFF)"
  from a obtain h s i j where o: "computed = Some h" "certified = Some s" "toc_id = Some i" "expect_id = Some j"
    by (auto simp: ulog_alif_se_entry_from_located_def ulog_alif_se_build_entry_def
        split: option.splits if_splits bind_splits)
  with a have l: "32 \<le> length h" "take 32 h = take 32 s" "take 8 i = take 8 j" "lver = ver" "llen = toc_size"
    and e: "e = zero_entry\<lparr>ule_fw_version := snprintf_version 32 ?a ?b ?c, ule_image_hash := take 32 h,
        ule_status := (if vc = of_char CHR ''V'' then 0 else 1)\<rparr>"
    by (auto simp: ulog_alif_se_entry_from_located_def ulog_alif_se_build_entry_def read_at_def mem_read_def
        split: if_splits bind_splits)
  have "?a \<le> 0xFF" "?b \<le> 0xFF" "?c \<le> 0xFFFF"
    using word_le_nat_alt [THEN iffD1, OF word_and_le1 [of "drop_bit 24 ver" "0xFF"]] 
      word_le_nat_alt [THEN iffD1, OF word_and_le1 [of "drop_bit 16 ver" "0xFF"]]
      word_le_nat_alt [THEN iffD1, OF word_and_le1 [of ver "0xFFFF"]] by simp_all
  then have "?a < 1000" "?b < 1000" "?c < 100000" by simp_all
  note v = snprintf_version_fits [OF this]
  show "entry_wf e" "entry_encodable e" "ule_seq e = 0" "ule_status e = 0 \<longleftrightarrow> vc = of_char CHR ''V''"
    using v(2,3) l(1) by (simp_all add: e entry_wf_def entry_encodable_def zero_entry_def)
  show "lver = ver" "llen = toc_size" by fact+
  show "\<exists>h s i j. computed = Some h \<and> certified = Some s \<and> take 32 h = take 32 s \<and> ule_image_hash e = take 32 h \<and>
         toc_id = Some i \<and> expect_id = Some j \<and> take 8 i = take 8 j"
    using o l by (simp add: e)
qed

text \<open>An MCUboot header of version 1.2.3.\<close>

definition sample_header :: bytes where
  "sample_header = le_bytes 4 ULOG_MCUBOOT_IMAGE_MAGIC @ replicate 16 0 @ [1, 2] @ le_bytes 2 (3 :: u16) @ replicate 8 0"

theorem boot_entries_encodable_witness:
  "\<exists>e. ulog_mcuboot_build_entry (Some sample_header) (Some (replicate 32 5)) False (Some zero_entry) = Some (ALP_OK, Some e) \<and>
     entry_encodable e \<and> takeWhile (\<lambda>x. x \<noteq> 0) (ule_fw_version e) = map of_char ''1.2.3'' \<and> ule_status e \<noteq> 0"
proof -
  have l: "length sample_header = 32" by (simp add: sample_header_def)
  have n: "sample_header ! 20 = 1" "sample_header ! 21 = 2"
    "le_word 2 (mem_read sample_header 22 2) = (3 :: u16)" "le_word 4 (mem_read sample_header 0 4) = ULOG_MCUBOOT_IMAGE_MAGIC"
    by (simp_all add: sample_header_def nth_append mem_read_skip mem_read_hit le_word_bytes del: append_Cons)
  obtain e where e: "ulog_mcuboot_build_entry (Some sample_header) (Some (replicate 32 5)) False (Some zero_entry) = Some (ALP_OK, Some e)"
    by (simp add: ulog_mcuboot_build_entry_def l n)
  then have "entry_encodable e \<and> takeWhile (\<lambda>x. x \<noteq> 0) (ule_fw_version e) = map of_char (version_text 1 2 3) \<and> (ule_status e = 0 \<longleftrightarrow> False)"
    using boot_entries_encodable [of sample_header "replicate 32 5" False zero_entry e] unfolding n by simp
  moreover have "version_text 1 2 3 = ''1.2.3''" by (simp add: version_text_def udec.simps) (simp add: char_of_def bit_0)
  ultimately show ?thesis using e by auto
qed

end
