(* ===== verification/Pool_Core.thy ===== *)
theory Pool_Core
  imports Backend_Registry Slot_Claim
begin

text \<open>
  What the pooled class dispatchers of \<^verbatim>\<open>src/*_dispatch.c\<close> share.  Every handle struct has the
  same shape (backend state, backend, cached capabilities, lifecycle byte, operation count and,
  last, the \<open>in_use\<close> flag), every pool is claimed, opened, guarded and closed by the same code,
  and the classes differ in their configuration checks and operation tables.  A pool is a list of
  handles and a handle pointer an index into it; a backend operation is a function of the backend
  state and of a world \<open>'w\<close> that stands for the hardware.  The \<open>ops\<close> pointer of the backend state
  is kept in the handle, beside the rest of the state.

  The locale \<open>pooled_class\<close> is the contract of such a dispatcher: how its open and close change
  the pool.  From it follows, for every sequence of calls, that live handles never share a slot and
  that a slot is claimed exactly while its handle is live.  Calls here are one at a time; the
  interleavings of the guard are the subject of \<open>Slot_Claim\<close>.
\<close>

section \<open>Handles\<close>

record alp_capabilities =
  cap_flags :: u32
  cap_class_flags :: u32
  cap_max_rate_hz :: u32
  cap_max_resolution_bits :: u16
  cap_channel_count :: u16

definition zero_caps :: alp_capabilities where
  "zero_caps = \<lparr>cap_flags = 0, cap_class_flags = 0, cap_max_rate_hz = 0, cap_max_resolution_bits = 0, cap_channel_count = 0\<rparr>"

record ('o, 's) pool_handle =
  ph_ops :: "'o option"
  ph_state :: 's
  ph_backend :: "nat option"
  ph_cached_caps :: alp_capabilities
  ph_lifecycle :: u8
  ph_active_ops :: u32
  ph_in_use :: bool

type_synonym ('o, 's) pool = "('o, 's) pool_handle list"

text \<open>The build: the registered backends with their probe functions, and the silicon reference.\<close>

record ('o, 'w) pool_build =
  pb_mem :: "'o backend_memory"
  pb_classes :: "backend_class_range list"
  pb_soc :: string
  pb_probe :: "nat \<Rightarrow> (u32 \<Rightarrow> u32 \<Rightarrow> 'w \<Rightarrow> int \<times> u32 \<times> 'w) option"

text \<open>A handle zeroed up to \<open>in_use\<close>.\<close>

definition zero_handle :: "'s \<Rightarrow> bool \<Rightarrow> ('o, 's) pool_handle" where
  "zero_handle z in_use = \<lparr>ph_ops = None, ph_state = z, ph_backend = None, ph_cached_caps = zero_caps,
     ph_lifecycle = ALP_HANDLE_LC_UNOPENED, ph_active_ops = 0, ph_in_use = in_use\<rparr>"

section \<open>Claim and release\<close>

text \<open>The scan for a slot whose claim succeeds, and a claim of slot \<open>i\<close> alone.\<close>

fun pool_alloc :: "'s \<Rightarrow> ('o, 's) pool \<Rightarrow> (nat \<times> ('o, 's) pool) option" where
  "pool_alloc z [] = None"
| "pool_alloc z (h # hs) =
     (case alp_slot_try_claim (ph_in_use h) of
        (True, u) \<Rightarrow> Some (0, zero_handle z u # hs)
      | (False, _) \<Rightarrow> map_option (\<lambda>(i, hs). (Suc i, h # hs)) (pool_alloc z hs))"

definition slot_alloc :: "'s \<Rightarrow> nat \<Rightarrow> ('o, 's) pool \<Rightarrow> (nat \<times> ('o, 's) pool) option" where
  "slot_alloc z i pool =
     (case alp_slot_try_claim (ph_in_use (pool ! i)) of
        (True, u) \<Rightarrow> Some (i, pool[i := zero_handle z u])
      | (False, _) \<Rightarrow> None)"

definition pool_free :: "nat \<Rightarrow> ('o, 's) pool \<Rightarrow> ('o, 's) pool" where
  "pool_free i pool = pool[i := (pool ! i)\<lparr>ph_in_use := alp_slot_release (ph_in_use (pool ! i))\<rparr>]"

section \<open>Open\<close>

text \<open>The capabilities handed to the backend: the registered ones, refined by its probe.\<close>

definition probed_caps :: "('o, 'w) pool_build \<Rightarrow> nat \<Rightarrow> u32 \<Rightarrow> 'w \<Rightarrow> alp_capabilities \<times> 'w" where
  "probed_caps pb be instance_id w =
     (let caps = zero_caps\<lparr>cap_flags := be_base_caps (pb_mem pb be), cap_class_flags := be_base_class_flags (pb_mem pb be)\<rparr> in
      case pb_probe pb be of
        None \<Rightarrow> (caps, w)
      | Some probe \<Rightarrow> (let (_, refined, w) = probe instance_id (cap_flags caps) w in (caps\<lparr>cap_flags := refined\<rparr>, w)))"

text \<open>From the selection of the backend to the open handle.  The result is the handle or NULL, the
  thread's last error, the pool and the world.\<close>

definition pool_open ::
  "('o, 'w) pool_build \<Rightarrow> string \<Rightarrow> (('o, 's) pool \<Rightarrow> (nat \<times> ('o, 's) pool) option) \<Rightarrow> alp_status \<Rightarrow>
   ('o \<Rightarrow> ('s \<Rightarrow> alp_capabilities \<Rightarrow> 'w \<Rightarrow> alp_status \<times> 's \<times> alp_capabilities \<times> 'w) option) \<Rightarrow> u32 \<Rightarrow>
   ('o, 's) pool \<Rightarrow> 'w \<Rightarrow> nat option \<times> alp_status \<times> ('o, 's) pool \<times> 'w" where
  "pool_open pb cls alloc full open_op instance_id pool w =
     (case alp_backend_select (pb_mem pb) (pb_classes pb) (Some cls) (Some (pb_soc pb)) of
        None \<Rightarrow> (None, ALP_ERR_NOT_PRESENT_ON_THIS_SOC, pool, w)
      | Some be \<Rightarrow>
          (case be_ops (pb_mem pb be) of
             None \<Rightarrow> (None, ALP_ERR_NOT_IMPLEMENTED, pool, w)
           | Some ops \<Rightarrow>
               (case open_op ops of
                  None \<Rightarrow> (None, ALP_ERR_NOT_IMPLEMENTED, pool, w)
                | Some f \<Rightarrow>
                    (case alloc pool of
                       None \<Rightarrow> (None, full, pool, w)
                     | Some (i, pool) \<Rightarrow>
                         (let pool = pool[i := (pool ! i)\<lparr>ph_backend := Some be, ph_ops := Some ops\<rparr>];
                              (caps, w) = probed_caps pb be instance_id w;
                              (rc, s, caps, w) = f (ph_state (pool ! i)) caps w;
                              pool = pool[i := (pool ! i)\<lparr>ph_state := s\<rparr>] in
                          if rc \<noteq> ALP_OK then (None, rc, pool_free i pool, w)
                          else (Some i, ALP_OK,
                                pool[i := (pool ! i)\<lparr>ph_cached_caps := caps,
                                   ph_lifecycle := alp_lifecycle_set (ph_lifecycle (pool ! i)) ALP_HANDLE_LC_OPEN\<rparr>], w))))))"

section \<open>Operations and close\<close>

text \<open>The guarded body of an operation: \<open>refused\<close> when the handle is NULL or not open, otherwise the
  body between enter and leave.\<close>

definition pool_op ::
  "nat option \<Rightarrow> 'r \<Rightarrow> ('o \<Rightarrow> 's \<Rightarrow> 'w \<Rightarrow> 'r \<times> 's \<times> 'w) \<Rightarrow> ('o, 's) pool \<Rightarrow> 'w \<Rightarrow> 'r \<times> ('o, 's) pool \<times> 'w" where
  "pool_op h refused body pool w =
     (case h of
        None \<Rightarrow> (refused, pool, w)
      | Some i \<Rightarrow>
          (case alp_handle_op_enter (ph_lifecycle (pool ! i)) (ph_active_ops (pool ! i)) of
             (False, n) \<Rightarrow> (refused, pool[i := (pool ! i)\<lparr>ph_active_ops := n\<rparr>], w)
           | (True, n) \<Rightarrow>
               (let (r, s, w) = body (the (ph_ops (pool ! i))) (ph_state (pool ! i)) w
                in (r, pool[i := (pool ! i)\<lparr>ph_state := s, ph_active_ops := alp_handle_op_leave n\<rparr>], w))))"

text \<open>An operation table entry, or \<open>ALP_ERR_NOSUPPORT\<close> for a NULL one.\<close>

definition call_op :: "('s \<Rightarrow> 'w \<Rightarrow> 'r \<times> 's \<times> 'w) option \<Rightarrow> 'r \<Rightarrow> 's \<Rightarrow> 'w \<Rightarrow> 'r \<times> 's \<times> 'w" where
  "call_op f nosupport s w = (case f of None \<Rightarrow> (nosupport, s, w) | Some f \<Rightarrow> f s w)"

text \<open>Close: \<open>None\<close> is the drain waiting for an operation in flight; \<open>finish\<close> is what the class does
  to the state once the backend has closed.\<close>

definition pool_close ::
  "('o \<Rightarrow> ('s \<Rightarrow> 'w \<Rightarrow> 's \<times> 'w) option) \<Rightarrow> ('s \<Rightarrow> 's) \<Rightarrow> nat option \<Rightarrow> ('o, 's) pool \<Rightarrow> 'w \<Rightarrow>
   (('o, 's) pool \<times> 'w) option" where
  "pool_close close_op finish h pool w =
     (case h of
        None \<Rightarrow> Some (pool, w)
      | Some i \<Rightarrow>
          (case alp_handle_begin_close_blocking (ph_lifecycle (pool ! i)) (ph_active_ops (pool ! i)) of
             None \<Rightarrow> None
           | Some (False, lc) \<Rightarrow> Some (pool[i := (pool ! i)\<lparr>ph_lifecycle := lc\<rparr>], w)
           | Some (True, lc) \<Rightarrow>
               (let (s, w) = (case ph_ops (pool ! i) of
                                None \<Rightarrow> (ph_state (pool ! i), w)
                              | Some ops \<Rightarrow> (case close_op ops of None \<Rightarrow> (ph_state (pool ! i), w) | Some f \<Rightarrow> f (ph_state (pool ! i)) w))
                in Some (pool_free i (pool[i := (pool ! i)\<lparr>ph_state := finish s,
                           ph_lifecycle := alp_lifecycle_set lc ALP_HANDLE_LC_UNOPENED\<rparr>]), w))))"

definition pool_capabilities :: "nat option \<Rightarrow> ('o, 's) pool \<Rightarrow> alp_capabilities option" where
  "pool_capabilities h pool = map_option (\<lambda>i. ph_cached_caps (pool ! i)) h"

section \<open>The invariant\<close>

text \<open>Between calls no operation is in flight and a slot is claimed exactly when its handle is open.\<close>

definition handle_ok :: "('o, 's) pool_handle \<Rightarrow> bool" where
  "handle_ok h \<longleftrightarrow> ph_active_ops h = 0 \<and> (ph_in_use h \<longleftrightarrow> ph_lifecycle h = ALP_HANDLE_LC_OPEN) \<and> (ph_in_use h \<longrightarrow> ph_ops h \<noteq> None)"

definition pool_ok :: "('o, 's) pool \<Rightarrow> bool" where
  "pool_ok pool \<longleftrightarrow> (\<forall>h \<in> set pool. handle_ok h)"

definition live_slots :: "('o, 's) pool \<Rightarrow> nat set" where
  "live_slots pool = {i. i < length pool \<and> ph_in_use (pool ! i)}"

lemma pool_ok_nth: "pool_ok pool \<longleftrightarrow> (\<forall>i < length pool. handle_ok (pool ! i))"
  by (simp add: pool_ok_def all_set_conv_all_nth)

lemma pool_ok_update: "pool_ok pool \<Longrightarrow> handle_ok h \<Longrightarrow> pool_ok (pool[i := h])"
  using set_update_subset_insert [of pool i h] by (auto simp: pool_ok_def)

lemma zero_handle_fields [simp]:
  "ph_active_ops (zero_handle z u) = 0" "ph_lifecycle (zero_handle z u) = 0" "ph_in_use (zero_handle z u) = u"
  "ph_state (zero_handle z u) = z" "ph_ops (zero_handle z u) = None"
  by (simp_all add: zero_handle_def)

text \<open>What the allocators do: they take a free slot, or find none.\<close>

lemma pool_alloc_law:
  "case pool_alloc z pool of
     Some (i, pool') \<Rightarrow> i < length pool \<and> \<not> ph_in_use (pool ! i) \<and> pool' = pool[i := zero_handle z True]
   | None \<Rightarrow> \<forall>i < length pool. ph_in_use (pool ! i)"
proof (induction pool)
  case (Cons h hs)
  then show ?case by (auto simp: alp_slot_try_claim_def nth_Cons split: option.splits nat.splits)
qed simp

lemma slot_alloc_law: "i < length pool \<Longrightarrow>
   (case slot_alloc z i pool of
      Some (j, pool') \<Rightarrow> j = i \<and> \<not> ph_in_use (pool ! i) \<and> pool' = pool[i := zero_handle z True]
    | None \<Rightarrow> ph_in_use (pool ! i))"
  by (simp add: slot_alloc_def alp_slot_try_claim_def)

section \<open>The contract of a class\<close>

text \<open>The outcome of an open: a free slot has become live and nothing else changed, or nothing live
  has changed and no slot is claimed.\<close>

definition open_outcome :: "('o, 's) pool \<Rightarrow> nat option \<times> alp_status \<times> ('o, 's) pool \<times> 'w \<Rightarrow> bool" where
  "open_outcome pool r \<longleftrightarrow>
     (case r of (h, rc, pool', w') \<Rightarrow>
        pool_ok pool' \<and> length pool' = length pool \<and> (\<forall>j \<in> live_slots pool. pool' ! j = pool ! j) \<and>
        (case h of
           Some i \<Rightarrow> rc = ALP_OK \<and> i < length pool \<and> i \<notin> live_slots pool \<and> live_slots pool' = insert i (live_slots pool)
         | None \<Rightarrow> rc \<noteq> ALP_OK \<and> live_slots pool' = live_slots pool))"

lemma open_outcome_refused: "pool_ok pool \<Longrightarrow> rc \<noteq> ALP_OK \<Longrightarrow> open_outcome pool (None, rc, pool, w)"
  by (simp add: open_outcome_def)

text \<open>The outcome of a close: the handle's slot is free and nothing else changed.\<close>

definition close_outcome :: "nat option \<Rightarrow> ('o, 's) pool \<Rightarrow> (('o, 's) pool \<times> 'w) option \<Rightarrow> bool" where
  "close_outcome h pool r \<longleftrightarrow>
     (case r of
        None \<Rightarrow> False
      | Some (pool', w') \<Rightarrow>
          pool_ok pool' \<and> length pool' = length pool \<and> live_slots pool' = live_slots pool - set_option h \<and>
          (\<forall>j. h \<noteq> Some j \<longrightarrow> pool' ! j = pool ! j))"

text \<open>The outcome of an operation: it is refused without effect when the handle is not live, and
  changes only the backend state of the handle otherwise.\<close>

definition op_outcome :: "nat option \<Rightarrow> ('o, 's) pool \<Rightarrow> ('o, 's) pool \<Rightarrow> bool" where
  "op_outcome h pool pool' \<longleftrightarrow>
     pool_ok pool' \<and> length pool' = length pool \<and> live_slots pool' = live_slots pool \<and>
     (\<forall>j. h \<noteq> Some j \<longrightarrow> pool' ! j = pool ! j) \<and>
     (\<forall>i \<in> set_option h. i < length pool \<and> i \<notin> live_slots pool \<longrightarrow> pool' = pool)"

lemma live_update:
  "i < length pool \<Longrightarrow> live_slots (pool[i := h]) = (if ph_in_use h then insert i (live_slots pool) else live_slots pool - {i})"
  by (auto simp: live_slots_def nth_list_update)

text \<open>A guarded operation and a close on an open handle, with no operation in flight.\<close>

lemma live_handle:
  assumes "pool_ok pool" "i \<in> live_slots pool"
  shows "i < length pool" "ph_in_use (pool ! i)" "ph_lifecycle (pool ! i) = ALP_HANDLE_LC_OPEN" "ph_active_ops (pool ! i) = 0"
    "ph_ops (pool ! i) \<noteq> None"
  using assms by (auto simp: live_slots_def pool_ok_nth handle_ok_def)

lemma pool_op_live:
  assumes "pool_ok pool" "i \<in> live_slots pool"
  shows "pool_op (Some i) refused body pool w =
    (let (r, s, w) = body (the (ph_ops (pool ! i))) (ph_state (pool ! i)) w in (r, pool[i := (pool ! i)\<lparr>ph_state := s\<rparr>], w))"
proof -
  have "(pool ! i)\<lparr>ph_state := s, ph_active_ops := 0\<rparr> = (pool ! i)\<lparr>ph_state := s\<rparr>" for s
    using live_handle(4) [OF assms] by (cases "pool ! i") simp
  note same = this
  show ?thesis
    using live_handle [OF assms]
    by (simp add: pool_op_def alp_handle_op_enter_def alp_lifecycle_get_def alp_handle_op_leave_def same split: prod.split)
qed

lemma pool_close_live:
  assumes "pool_ok pool" "i \<in> live_slots pool"
  shows "\<exists>s w'. pool_close close_op finish (Some i) pool w =
    Some (pool[i := (pool ! i)\<lparr>ph_state := finish s, ph_lifecycle := ALP_HANDLE_LC_UNOPENED, ph_in_use := False\<rparr>], w')"
  using live_handle [OF assms]
  by (auto simp: pool_close_def alp_handle_begin_close_blocking_def alp_lifecycle_cas_def alp_handle_drain_blocking_def
      alp_lifecycle_set_def pool_free_def alp_slot_release_def split: prod.split)

lemma pool_op_outcome:
  assumes "pool_ok pool" "\<And>i. h = Some i \<Longrightarrow> i < length pool" "pool_op h refused body pool w = (r, pool', w')"
  shows "op_outcome h pool pool'" and "(\<And>i. h = Some i \<Longrightarrow> i \<notin> live_slots pool) \<Longrightarrow> r = refused \<and> w' = w"
proof -
  have ok: "handle_ok (pool ! i)" "i < length pool" if "h = Some i" for i
    using assms(1) assms(2) [OF that] by (simp_all add: pool_ok_nth)
  have shut: "pool' = pool \<and> r = refused \<and> w' = w" if "h = Some i" "i \<notin> live_slots pool" for i
  proof -
    have "\<not> ph_in_use (pool ! i)" using that ok [OF that(1)] by (simp add: live_slots_def)
    then have "ph_lifecycle (pool ! i) \<noteq> ALP_HANDLE_LC_OPEN" "ph_active_ops (pool ! i) = 0"
      using ok [OF that(1)] by (simp_all add: handle_ok_def)
    moreover have same: "(pool ! i)\<lparr>ph_active_ops := 0\<rparr> = pool ! i" using calculation(2) by (cases "pool ! i") simp
    have "pool[i := (pool ! i)\<lparr>ph_active_ops := 0\<rparr>] = pool" unfolding same by (rule list_update_id)
    ultimately show ?thesis
      using assms(3) that(1) by (simp add: pool_op_def alp_handle_op_enter_def alp_lifecycle_get_def)
  qed
  show "r = refused \<and> w' = w" if "\<And>i. h = Some i \<Longrightarrow> i \<notin> live_slots pool"
    using that shut assms(3) by (cases h) (auto simp: pool_op_def)
  show "op_outcome h pool pool'"
  proof (cases "\<exists>i. h = Some i \<and> i \<in> live_slots pool")
    case False
    then have "pool' = pool" using shut assms(3) by (cases h) (auto simp: pool_op_def)
    then show ?thesis using assms(1) by (simp add: op_outcome_def)
  next
    case True
    then obtain i where i: "h = Some i" "i \<in> live_slots pool" by blast
    then have u: "ph_in_use (pool ! i)" by (simp add: live_slots_def)
    then have lc: "ph_lifecycle (pool ! i) = ALP_HANDLE_LC_OPEN" "ph_active_ops (pool ! i) = 0" "ph_ops (pool ! i) \<noteq> None"
      using ok [OF i(1)] by (simp_all add: handle_ok_def)
    then obtain s where p: "pool' = pool[i := (pool ! i)\<lparr>ph_state := s, ph_active_ops := 0\<rparr>]"
      using assms(3) i(1)
      by (auto simp: pool_op_def alp_handle_op_enter_def alp_lifecycle_get_def alp_handle_op_leave_def split: prod.splits)
    have "handle_ok ((pool ! i)\<lparr>ph_state := s, ph_active_ops := 0\<rparr>)" using u lc by (simp add: handle_ok_def)
    then show ?thesis
      using assms(1) i u ok [OF i(1)] unfolding p op_outcome_def by (auto simp: pool_ok_update live_update)
  qed
qed

lemma op_outcome_refl: "pool_ok pool \<Longrightarrow> op_outcome h pool pool"
  by (simp add: op_outcome_def)

lemma pool_op_keeps:
  assumes "pool_ok pool" "\<forall>i \<in> set_option h. i < length pool"
  shows "op_outcome h pool (fst (snd (pool_op h refused body pool w)))"
  using assms by (cases "pool_op h refused body pool w") (auto intro!: pool_op_outcome(1))

lemma pool_close_outcome:
  assumes "pool_ok pool" "\<And>i. h = Some i \<Longrightarrow> i < length pool"
  shows "close_outcome h pool (pool_close close_op finish h pool w)"
proof (cases h)
  case None
  then show ?thesis using assms(1) by (simp add: close_outcome_def pool_close_def)
next
  case (Some i)
  have i: "i < length pool" "handle_ok (pool ! i)" using assms Some by (simp_all add: pool_ok_nth)
  show ?thesis
  proof (cases "ph_in_use (pool ! i)")
    case False
    then have "ph_lifecycle (pool ! i) \<noteq> ALP_HANDLE_LC_OPEN" using i(2) by (simp add: handle_ok_def)
    then have "pool_close close_op finish h pool w = Some (pool, w)"
      using Some by (simp add: pool_close_def alp_handle_begin_close_blocking_def alp_lifecycle_cas_def)
    then show ?thesis using assms(1) False Some by (auto simp: close_outcome_def live_slots_def)
  next
    case True
    then have lc: "ph_lifecycle (pool ! i) = ALP_HANDLE_LC_OPEN" "ph_active_ops (pool ! i) = 0" using i(2) by (simp_all add: handle_ok_def)
    obtain t w' where t: "(case ph_ops (pool ! i) of None \<Rightarrow> (ph_state (pool ! i), w)
        | Some ops \<Rightarrow> (case close_op ops of None \<Rightarrow> (ph_state (pool ! i), w) | Some f \<Rightarrow> f (ph_state (pool ! i)) w)) = (t, w')"
      by (metis prod.exhaust)
    let ?s = "finish t"
    have p: "pool_close close_op finish h pool w =
        Some (pool[i := (pool ! i)\<lparr>ph_state := ?s, ph_lifecycle := ALP_HANDLE_LC_UNOPENED, ph_in_use := False\<rparr>], w')"
      using Some lc i(1)
      by (simp add: t pool_close_def alp_handle_begin_close_blocking_def alp_lifecycle_cas_def alp_handle_drain_blocking_def
          alp_lifecycle_set_def pool_free_def alp_slot_release_def)
    have "handle_ok ((pool ! i)\<lparr>ph_state := ?s, ph_lifecycle := ALP_HANDLE_LC_UNOPENED, ph_in_use := False\<rparr>)"
      using lc by (simp add: handle_ok_def)
    then show ?thesis using assms(1) Some i unfolding p close_outcome_def by (auto simp: pool_ok_update live_update)
  qed
qed

text \<open>An open either stops before it has touched the pool, or takes a free slot and answers what the
  backend's open answered.\<close>

definition alloc_law :: "'s \<Rightarrow> ('o, 's) pool \<Rightarrow> (('o, 's) pool \<Rightarrow> (nat \<times> ('o, 's) pool) option) \<Rightarrow> bool" where
  "alloc_law z pool alloc \<longleftrightarrow>
     (case alloc pool of
        Some (i, pool') \<Rightarrow> i < length pool \<and> \<not> ph_in_use (pool ! i) \<and> pool' = pool[i := zero_handle z True]
      | None \<Rightarrow> True)"

lemma pool_open_cases:
  assumes "full \<noteq> ALP_OK" "alloc_law z pool alloc"
  obtains (refused) rc where "rc \<noteq> ALP_OK" "pool_open pb cls alloc full open_op instance_id pool w = (None, rc, pool, w)"
  | (asked) be ops f i caps w1 rc st caps' w2 where
      "be_ops (pb_mem pb be) = Some ops" "open_op ops = Some f" "i < length pool" "\<not> ph_in_use (pool ! i)"
      "f z caps w1 = (rc, st, caps', w2)"
      "pool_open pb cls alloc full open_op instance_id pool w =
        (let h = (zero_handle z True)\<lparr>ph_backend := Some be, ph_ops := Some ops, ph_state := st\<rparr> in
         if rc \<noteq> ALP_OK then (None, rc, pool[i := h\<lparr>ph_in_use := False\<rparr>], w2)
         else (Some i, ALP_OK, pool[i := h\<lparr>ph_cached_caps := caps', ph_lifecycle := ALP_HANDLE_LC_OPEN\<rparr>], w2))"
proof (cases "\<exists>be ops f i pool'. alp_backend_select (pb_mem pb) (pb_classes pb) (Some cls) (Some (pb_soc pb)) = Some be \<and>
    be_ops (pb_mem pb be) = Some ops \<and> open_op ops = Some f \<and> alloc pool = Some (i, pool')")
  case False
  then have "\<exists>rc. pool_open pb cls alloc full open_op instance_id pool w = (None, rc, pool, w) \<and> rc \<noteq> ALP_OK"
    using assms(1) by (auto simp: pool_open_def split: option.split)
  then show thesis using refused by blast
next
  case True
  then obtain be ops f i pool' where s: "alp_backend_select (pb_mem pb) (pb_classes pb) (Some cls) (Some (pb_soc pb)) = Some be"
    "be_ops (pb_mem pb be) = Some ops" "open_op ops = Some f" "alloc pool = Some (i, pool')" by blast
  then have i: "i < length pool" "\<not> ph_in_use (pool ! i)" and p': "pool' = pool[i := zero_handle z True]"
    using assms(2) by (simp_all add: alloc_law_def)
  obtain caps w1 where c: "probed_caps pb be instance_id w = (caps, w1)" by (cases "probed_caps pb be instance_id w")
  obtain rc st caps' w2 where f: "f z caps w1 = (rc, st, caps', w2)" by (metis prod_cases4)
  show thesis
    by (rule asked [OF s(2,3) i f])
      (use i(1) in \<open>simp add: pool_open_def Let_def s p' c f pool_free_def alp_slot_release_def alp_lifecycle_set_def\<close>)
qed

lemma pool_open_outcome:
  assumes "pool_ok pool" "full \<noteq> ALP_OK" "alloc_law z pool alloc"
  shows "open_outcome pool (pool_open pb cls alloc full open_op instance_id pool w)"
proof (rule pool_open_cases [OF assms(2,3), of pb cls open_op instance_id w])
  fix be ops f i caps w1 rc st caps' w2
  assume i: "i < length pool" "\<not> ph_in_use (pool ! i)"
    and eq: "pool_open pb cls alloc full open_op instance_id pool w =
        (let h = (zero_handle z True)\<lparr>ph_backend := Some be, ph_ops := Some ops, ph_state := st\<rparr> in
         if rc \<noteq> ALP_OK then (None, rc, pool[i := h\<lparr>ph_in_use := False\<rparr>], w2)
         else (Some i, ALP_OK, pool[i := h\<lparr>ph_cached_caps := caps', ph_lifecycle := ALP_HANDLE_LC_OPEN\<rparr>], w2))"
  let ?h = "(zero_handle z True)\<lparr>ph_backend := Some be, ph_ops := Some ops, ph_state := st\<rparr>"
  have nl: "i \<notin> live_slots pool" using i by (simp add: live_slots_def)
  have ok: "handle_ok (?h\<lparr>ph_in_use := False\<rparr>)" "handle_ok (?h\<lparr>ph_cached_caps := caps', ph_lifecycle := ALP_HANDLE_LC_OPEN\<rparr>)"
    by (simp_all add: handle_ok_def)
  have other: "pool[i := x] ! j = pool ! j" if "j \<in> live_slots pool" for x j using that nl by (cases "i = j") auto
  show ?thesis
    using assms(1) i nl ok other unfolding eq open_outcome_def by (auto simp: Let_def pool_ok_update live_update)
qed (simp add: assms(1) open_outcome_refused)

text \<open>The two kinds of pool: any free slot, and the slot of the instance.\<close>

lemma pool_alloc_keeps_law: "alloc_law z pool (pool_alloc z)"
  using pool_alloc_law [of pool z] by (auto simp: alloc_law_def split: option.splits)

lemma slot_alloc_keeps_law: "i < length pool \<Longrightarrow> alloc_law z pool (slot_alloc z i)"
  using slot_alloc_law [of i pool z] by (auto simp: alloc_law_def split: option.splits)

lemmas pool_open_scan = pool_open_outcome [OF _ _ pool_alloc_keeps_law]
  and pool_open_slot = pool_open_outcome [OF _ _ slot_alloc_keeps_law]

section \<open>The state a free slot is left in\<close>

text \<open>A free slot's stale state can still be reached by an interrupt that was armed while it was
  live.  \<open>idle_states Q\<close> says that every free slot is left in a state with \<open>Q\<close>.\<close>

definition idle_states :: "('s \<Rightarrow> bool) \<Rightarrow> ('o, 's) pool \<Rightarrow> bool" where
  "idle_states Q pool \<longleftrightarrow> (\<forall>h \<in> set pool. \<not> ph_in_use h \<longrightarrow> Q (ph_state h))"

lemma idle_states_nth: "idle_states Q pool \<longleftrightarrow> (\<forall>i < length pool. \<not> ph_in_use (pool ! i) \<longrightarrow> Q (ph_state (pool ! i)))"
  by (simp add: idle_states_def all_set_conv_all_nth)

lemma idle_states_update: "idle_states Q pool \<Longrightarrow> (\<not> ph_in_use h \<Longrightarrow> Q (ph_state h)) \<Longrightarrow> idle_states Q (pool[i := h])"
  using set_update_subset_insert [of pool i h] by (auto simp: idle_states_def)

lemma idle_states_open:
  assumes "idle_states Q pool" "full \<noteq> ALP_OK"
    and quiet: "\<And>be ops f caps w. be_ops (pb_mem pb be) = Some ops \<Longrightarrow> open_op ops = Some f \<Longrightarrow> Q (fst (snd (f z caps w)))"
  shows "idle_states Q (fst (snd (snd (pool_open pb cls (pool_alloc z) full open_op instance_id pool w))))"
proof (rule pool_open_cases [OF assms(2) pool_alloc_keeps_law [of z pool], of pb cls open_op instance_id w])
  fix be ops f i caps w1 rc st caps' w2
  assume "be_ops (pb_mem pb be) = Some ops" "open_op ops = Some f" "f z caps w1 = (rc, st, caps', w2)"
    and eq: "pool_open pb cls (pool_alloc z) full open_op instance_id pool w =
        (let h = (zero_handle z True)\<lparr>ph_backend := Some be, ph_ops := Some ops, ph_state := st\<rparr> in
         if rc \<noteq> ALP_OK then (None, rc, pool[i := h\<lparr>ph_in_use := False\<rparr>], w2)
         else (Some i, ALP_OK, pool[i := h\<lparr>ph_cached_caps := caps', ph_lifecycle := ALP_HANDLE_LC_OPEN\<rparr>], w2))"
  then have "Q st" using quiet [of be ops f caps w1] by simp
  then show ?thesis using assms(1) unfolding eq by (simp add: Let_def idle_states_update)
qed (simp add: assms(1))

lemma idle_states_op:
  assumes "idle_states Q pool" "op_outcome h pool pool'" "\<forall>i \<in> set_option h. i < length pool"
  shows "idle_states Q pool'"
  unfolding idle_states_nth
proof (intro allI impI)
  fix j
  assume j: "j < length pool'" "\<not> ph_in_use (pool' ! j)"
  have len: "length pool' = length pool" and live: "live_slots pool' = live_slots pool" using assms(2) by (simp_all add: op_outcome_def)
  have "j \<notin> live_slots pool" using j unfolding live [symmetric] by (simp add: live_slots_def)
  then have "pool' ! j = pool ! j" using assms(2,3) by (cases "h = Some j") (auto simp: op_outcome_def)
  then show "Q (ph_state (pool' ! j))" using assms(1) j len by (simp add: idle_states_nth)
qed

lemma idle_states_close:
  assumes "idle_states Q pool" "\<And>s. Q (finish s)" "\<forall>i \<in> set_option h. i < length pool" "pool_ok pool"
    and "pool_close close_op finish h pool w = Some (pool', w')"
  shows "idle_states Q pool'"
proof (cases "\<exists>i. h = Some i \<and> i \<in> live_slots pool")
  case True
  then obtain i where "h = Some i" "ph_in_use (pool ! i)" "i < length pool" by (auto simp: live_slots_def)
  moreover have "ph_lifecycle (pool ! i) = ALP_HANDLE_LC_OPEN" "ph_active_ops (pool ! i) = 0"
    using calculation assms(4) by (auto simp: pool_ok_nth handle_ok_def)
  ultimately show ?thesis
    using assms(1,2,5)
    by (auto simp: pool_close_def alp_handle_begin_close_blocking_def alp_lifecycle_cas_def alp_handle_drain_blocking_def
        pool_free_def intro!: idle_states_update split: prod.splits)
next
  case False
  then have "pool' = pool"
  proof (cases h)
    case (Some i)
    then have "ph_lifecycle (pool ! i) \<noteq> ALP_HANDLE_LC_OPEN"
      using False assms(3,4) by (auto simp: live_slots_def pool_ok_nth handle_ok_def)
    then show ?thesis using assms(5) Some by (simp add: pool_close_def alp_handle_begin_close_blocking_def alp_lifecycle_cas_def)
  qed (use assms(5) in \<open>simp add: pool_close_def\<close>)
  then show ?thesis using assms(1) by simp
qed

section \<open>Sessions\<close>

text \<open>A call on a class: an open, an operation or a close, the last two on any handle value a caller
  may have kept, stale ones included.\<close>

datatype ('c, 'a) pool_call = Call_Open 'c | Call_Op 'a "nat option" | Call_Close "nat option"

fun call_handle :: "('c, 'a) pool_call \<Rightarrow> nat option" where
  "call_handle (Call_Open c) = None"
| "call_handle (Call_Op a h) = h"
| "call_handle (Call_Close h) = h"

text \<open>A session from a pool with the set of handles its caller holds: \<open>None\<close> if a close waits for
  ever, and the flag drops if an open hands out a handle that is already held.\<close>

fun session_run ::
  "('c \<Rightarrow> ('o, 's) pool \<Rightarrow> 'w \<Rightarrow> nat option \<times> alp_status \<times> ('o, 's) pool \<times> 'w) \<Rightarrow>
   ('a \<Rightarrow> nat option \<Rightarrow> ('o, 's) pool \<Rightarrow> 'w \<Rightarrow> ('o, 's) pool \<times> 'w) \<Rightarrow>
   (nat option \<Rightarrow> ('o, 's) pool \<Rightarrow> 'w \<Rightarrow> (('o, 's) pool \<times> 'w) option) \<Rightarrow>
   ('c, 'a) pool_call list \<Rightarrow> ('o, 's) pool \<Rightarrow> nat set \<Rightarrow> 'w \<Rightarrow> (('o, 's) pool \<times> nat set \<times> bool \<times> 'w) option" where
  "session_run opn op cls [] pool held w = Some (pool, held, True, w)"
| "session_run opn op cls (Call_Open c # cs) pool held w =
     (let (h, rc, pool, w) = opn c pool w in
      map_option (\<lambda>(pool, held', fresh, w). (pool, held', fresh \<and> set_option h \<inter> held = {}, w))
        (session_run opn op cls cs pool (held \<union> set_option h) w))"
| "session_run opn op cls (Call_Op a h # cs) pool held w =
     (let (pool, w) = op a h pool w in session_run opn op cls cs pool held w)"
| "session_run opn op cls (Call_Close h # cs) pool held w =
     (case cls h pool w of
        None \<Rightarrow> None
      | Some (pool, w) \<Rightarrow> session_run opn op cls cs pool (held - set_option h) w)"

locale pooled_class =
  fixes opn :: "'c \<Rightarrow> ('o, 's) pool \<Rightarrow> 'w \<Rightarrow> nat option \<times> alp_status \<times> ('o, 's) pool \<times> 'w"
    and op :: "'a \<Rightarrow> nat option \<Rightarrow> ('o, 's) pool \<Rightarrow> 'w \<Rightarrow> ('o, 's) pool \<times> 'w"
    and cls :: "nat option \<Rightarrow> ('o, 's) pool \<Rightarrow> 'w \<Rightarrow> (('o, 's) pool \<times> 'w) option"
    and N :: nat
  assumes open_law: "\<And>c pool w. pool_ok pool \<Longrightarrow> length pool = N \<Longrightarrow> open_outcome pool (opn c pool w)"
    and op_law: "\<And>a h pool w. pool_ok pool \<Longrightarrow> length pool = N \<Longrightarrow> (\<forall>i \<in> set_option h. i < N) \<Longrightarrow> op_outcome h pool (fst (op a h pool w))"
    and close_law: "\<And>h pool w. pool_ok pool \<Longrightarrow> length pool = N \<Longrightarrow> (\<forall>i \<in> set_option h. i < N) \<Longrightarrow> close_outcome h pool (cls h pool w)"
begin

lemma session_sound:
  assumes "pool_ok pool" "length pool = N" "held = live_slots pool"
    and "\<And>c i. c \<in> set calls \<Longrightarrow> call_handle c = Some i \<Longrightarrow> i < N"
  shows "\<exists>pool' w'. session_run opn op cls calls pool held w = Some (pool', live_slots pool', True, w') \<and>
    pool_ok pool' \<and> length pool' = N"
  using assms
proof (induction calls arbitrary: pool held w)
  case Nil
  then show ?case by simp
next
  case (Cons c cs)
  have hs: "\<forall>i \<in> set_option (call_handle c). i < N" using Cons.prems(4) by auto
  have tl: "\<And>c i. c \<in> set cs \<Longrightarrow> call_handle c = Some i \<Longrightarrow> i < N" by (rule Cons.prems(4)) auto
  show ?case
  proof (cases c)
    case (Call_Open x)
    obtain h rc p w1 where o: "opn x pool w = (h, rc, p, w1)" by (metis prod_cases4)
    have "open_outcome pool (h, rc, p, w1)" using open_law [OF Cons.prems(1,2), of x w] o by simp
    then have "pool_ok p" "length p = N" "held \<union> set_option h = live_slots p" "set_option h \<inter> held = {}"
      using Cons.prems(2,3) by (auto simp: open_outcome_def split: option.splits)
    then show ?thesis using Cons.IH [of p "held \<union> set_option h" w1] tl Call_Open o by auto
  next
    case (Call_Op a h)
    obtain p w1 where o: "op a h pool w = (p, w1)" by (metis prod.exhaust)
    have "op_outcome h pool p" using op_law [OF Cons.prems(1,2), of h a w] hs Call_Op o by simp
    then have "pool_ok p" "length p = N" "held = live_slots p" using Cons.prems(2,3) by (auto simp: op_outcome_def)
    then show ?thesis using Cons.IH [of p held w1] tl Call_Op o by auto
  next
    case (Call_Close h)
    have c: "close_outcome h pool (cls h pool w)" using close_law [OF Cons.prems(1,2), of h w] hs Call_Close by simp
    then obtain p w1 where o: "cls h pool w = Some (p, w1)" by (auto simp: close_outcome_def split: option.splits)
    then have "pool_ok p" "length p = N" "held - set_option h = live_slots p"
      using c Cons.prems(2,3) by (auto simp: close_outcome_def)
    then show ?thesis using Cons.IH [of p "held - set_option h" w1] tl Call_Close o by auto
  qed
qed

text \<open>A property of the pool that every call keeps holds throughout.\<close>

lemma session_keeps:
  assumes "session_run opn op cls calls pool held w = Some (pool', held', fresh, w')"
    and "pool_ok pool" "length pool = N" "P pool"
    and "\<And>c i. c \<in> set calls \<Longrightarrow> call_handle c = Some i \<Longrightarrow> i < N"
    and opn_P: "\<And>c pool w. pool_ok pool \<Longrightarrow> length pool = N \<Longrightarrow> P pool \<Longrightarrow> P (fst (snd (snd (opn c pool w))))"
    and op_P: "\<And>a h pool w. pool_ok pool \<Longrightarrow> length pool = N \<Longrightarrow> P pool \<Longrightarrow> \<forall>i \<in> set_option h. i < N \<Longrightarrow> P (fst (op a h pool w))"
    and cls_P: "\<And>h pool w pool' w'. pool_ok pool \<Longrightarrow> length pool = N \<Longrightarrow> P pool \<Longrightarrow> \<forall>i \<in> set_option h. i < N \<Longrightarrow>
      cls h pool w = Some (pool', w') \<Longrightarrow> P pool'"
  shows "P pool'"
  using assms(1-5)
proof (induction calls arbitrary: pool held fresh w)
  case Nil
  then show ?case by simp
next
  case (Cons c cs)
  have hs: "\<forall>i \<in> set_option (call_handle c). i < N" using Cons.prems(5) by auto
  have tl: "\<And>c i. c \<in> set cs \<Longrightarrow> call_handle c = Some i \<Longrightarrow> i < N" by (rule Cons.prems(5)) auto
  show ?case
  proof (cases c)
    case (Call_Open x)
    obtain h rc p w1 where o: "opn x pool w = (h, rc, p, w1)" by (metis prod_cases4)
    have "open_outcome pool (h, rc, p, w1)" using open_law [OF Cons.prems(2,3), of x w] o by simp
    moreover have "P p" using opn_P [OF Cons.prems(2-4), of x w] o by simp
    ultimately show ?thesis
      using Cons.IH [of p "held \<union> set_option h" w1] Cons.prems(1,3) tl Call_Open o by (auto simp: open_outcome_def)
  next
    case (Call_Op a h)
    obtain p w1 where o: "op a h pool w = (p, w1)" by (metis prod.exhaust)
    have "op_outcome h pool p" using op_law [OF Cons.prems(2,3), of h a w] hs Call_Op o by simp
    moreover have "P p" using op_P [OF Cons.prems(2-4), of h a w] hs Call_Op o by simp
    ultimately show ?thesis using Cons.IH [of p held w1] Cons.prems(1,3) tl Call_Op o by (auto simp: op_outcome_def)
  next
    case (Call_Close h)
    have c: "close_outcome h pool (cls h pool w)" using close_law [OF Cons.prems(2,3), of h w] hs Call_Close by simp
    then obtain p w1 where o: "cls h pool w = Some (p, w1)" by (auto simp: close_outcome_def split: option.splits)
    moreover have "P p" using cls_P [OF Cons.prems(2-4) _ o] hs Call_Close by simp
    ultimately show ?thesis
      using Cons.IH [of p "held - set_option h" w1] c Cons.prems(1,3) tl Call_Close by (auto simp: close_outcome_def)
  qed
qed

text \<open>A fresh pool of \<open>N\<close> zeroed slots.\<close>

lemma fresh_session:
  assumes "\<And>c i. c \<in> set calls \<Longrightarrow> call_handle c = Some i \<Longrightarrow> i < N"
  shows "\<exists>pool' w'. session_run opn op cls calls (replicate N (zero_handle z False)) {} w = Some (pool', live_slots pool', True, w') \<and>
    pool_ok pool' \<and> length pool' = N \<and> card (live_slots pool') \<le> N"
proof -
  let ?p = "replicate N (zero_handle z False) :: ('o, 's) pool"
  have "pool_ok ?p" "length ?p = N" "{} = live_slots ?p"
    by (auto simp: pool_ok_def handle_ok_def live_slots_def)
  then obtain pool' w' where
    "session_run opn op cls calls ?p {} w = Some (pool', live_slots pool', True, w')" "pool_ok pool'" "length pool' = N"
    using session_sound [where calls = calls and w = w] assms by blast
  moreover have "card (live_slots pool') \<le> N"
    using card_mono [of "{..<length pool'}" "live_slots pool'"] \<open>length pool' = N\<close> by (auto simp: live_slots_def)
  ultimately show ?thesis by blast
qed

end

end
