(* ===== verification/Lprtc_Calendar.thy ===== *)
theory Lprtc_Calendar
  imports Alp_Prelude "HOL-Library.Signed_Division"
begin

text \<open>
  The calendar over the LPRTC up-counter (\<^verbatim>\<open>src/backends/rtc/lprtc_calendar_shim.c\<close>): the
  conversion between civil dates and day numbers, between calendar fields and UNIX seconds,
  and the shim that keeps time as an epoch base plus elapsed ticks of a 32-bit counter.

  The date arithmetic is on \<^verbatim>\<open>int64_t\<close> and on unsigned values far from their bounds, so it is
  on integers here, with the truncating division of C as \<open>sdiv\<close> and \<open>smod\<close> where operands can
  be negative; the counter and its snapshot are 32-bit words, whose wrap matters.  The counter
  device is the parameter \<open>counter_dev\<close>.
\<close>

section \<open>Dates\<close>

definition days_from_civil :: "int \<Rightarrow> int \<Rightarrow> int \<Rightarrow> int" where
  "days_from_civil y m d =
     (let y = y - (if m \<le> 2 then 1 else 0);
          era = (if y \<ge> 0 then y else y - 399) sdiv 400;
          yoe = y - era * 400;
          doy = (153 * (m + (if m > 2 then - 3 else 9)) + 2) div 5 + d - 1;
          doe = yoe * 365 + yoe div 4 - yoe div 100 + doy
      in era * 146097 + doe - 719468)"

definition civil_from_days :: "int \<Rightarrow> int \<times> int \<times> int" where
  "civil_from_days z =
     (let z = z + 719468;
          era = (if z \<ge> 0 then z else z - 146096) sdiv 146097;
          doe = z - era * 146097;
          yoe = (doe - doe div 1460 + doe div 36524 - doe div 146096) div 365;
          yc = yoe + era * 400;
          doy = doe - (365 * yoe + yoe div 4 - yoe div 100);
          mp = (5 * doy + 2) div 153;
          d = doy - (153 * mp + 2) div 5 + 1;
          m = mp + (if mp < 10 then 3 else - 9)
      in (yc + (if m \<le> 2 then 1 else 0), m, d))"

definition weekday_from_days :: "int \<Rightarrow> u8" where
  "weekday_from_days z = word_of_int ((z smod 7 + 7 + 4) smod 7)"

section \<open>Calendar fields\<close>

record rtc_time =
  rt_year :: u16
  rt_month :: u8
  rt_day :: u8
  rt_weekday :: u8
  rt_hour :: u8
  rt_minute :: u8
  rt_second :: u8
  rt_millisecond :: u16

definition calendar_to_unix :: "rtc_time \<Rightarrow> int" where
  "calendar_to_unix t =
     (let days = days_from_civil (uint (rt_year t)) (uint (rt_month t)) (uint (rt_day t))
      in days * 86400 + uint (rt_hour t) * 3600 + uint (rt_minute t) * 60 + uint (rt_second t))"

definition unix_to_calendar :: "int \<Rightarrow> rtc_time \<Rightarrow> rtc_time" where
  "unix_to_calendar unix_s t =
     (let days = unix_s sdiv 86400;
          rem = unix_s smod 86400;
          (rem, days) = (if rem < 0 then (rem + 86400, days - 1) else (rem, days));
          (y, m, d) = civil_from_days days
      in t\<lparr>rt_year := word_of_int y, rt_month := word_of_int m, rt_day := word_of_int d,
           rt_weekday := weekday_from_days days, rt_hour := word_of_int (rem sdiv 3600),
           rt_minute := word_of_int ((rem smod 3600) sdiv 60), rt_second := word_of_int (rem smod 60)\<rparr>)"

definition fields_valid :: "rtc_time \<Rightarrow> bool" where
  "fields_valid t =
     (if rt_month t < 1 \<or> rt_month t > 12 then False else
      if rt_day t < 1 \<or> rt_day t > 31 then False else
      if rt_hour t > 23 \<or> rt_minute t > 59 \<or> rt_second t > 59 then False else
      if rt_millisecond t > 999 then False else True)"

section \<open>The shim\<close>

abbreviation EALREADY :: int where "EALREADY \<equiv> 120"

record 'w counter_dev =
  cd_present :: bool
  cd_is_ready :: "'w \<Rightarrow> bool"
  counter_start :: "'w \<Rightarrow> int \<times> 'w"
  counter_get_frequency :: "'w \<Rightarrow> u32"
  counter_get_value :: "'w \<Rightarrow> int \<times> u32 \<times> 'w"

record lprtc_shim_state =
  ls_epoch_base :: int
  ls_tick_snapshot :: u32
  ls_freq_hz :: u32
  ls_set :: bool

text \<open>What the backend keeps in the handle: whether its device and data pointers are set, and the
  instance.  The data pointer is always the one static \<open>lprtc_shim_state\<close>.\<close>

record rtc_state =
  rs_dev :: bool
  rs_rtc_id :: u32
  rs_be_data :: bool

definition shim_open ::
  "'w counter_dev \<Rightarrow> u32 \<Rightarrow> u32 \<Rightarrow> rtc_state \<Rightarrow> lprtc_shim_state \<Rightarrow> 'w \<Rightarrow> alp_status \<times> rtc_state \<times> lprtc_shim_state \<times> 'w" where
  "shim_open dev rtc_count rtc_id st s w =
     (if rtc_id \<ge> rtc_count then (ALP_ERR_OUT_OF_RANGE, st, s, w) else
      if \<not> cd_present dev \<or> \<not> cd_is_ready dev w then (ALP_ERR_NOT_READY, st, s, w) else
      let (rc, w) = counter_start dev w in
      if rc \<noteq> 0 \<and> rc \<noteq> - EALREADY then (ALP_ERR_IO, st, s, w) else
      let s = s\<lparr>ls_freq_hz := counter_get_frequency dev w\<rparr> in
      if ls_freq_hz s = 0 then (ALP_ERR_NOSUPPORT, st, s, w) else
      let s = s\<lparr>ls_epoch_base := 0\<rparr>;
          (rc, v, w) = counter_get_value dev w;
          s = s\<lparr>ls_tick_snapshot := v\<rparr> in
      if rc \<noteq> 0 then (ALP_ERR_IO, st, s, w)
      else (ALP_OK, st\<lparr>rs_dev := True, rs_rtc_id := rtc_id, rs_be_data := True\<rparr>, s\<lparr>ls_set := False\<rparr>, w))"

definition shim_set_time ::
  "'w counter_dev \<Rightarrow> rtc_time \<Rightarrow> lprtc_shim_state \<Rightarrow> 'w \<Rightarrow> alp_status \<times> lprtc_shim_state \<times> 'w" where
  "shim_set_time dev t s w =
     (if \<not> fields_valid t then (ALP_ERR_INVAL, s, w) else
      let (rc, now, w) = counter_get_value dev w in
      if rc \<noteq> 0 then (ALP_ERR_IO, s, w)
      else (ALP_OK, s\<lparr>ls_epoch_base := calendar_to_unix t, ls_tick_snapshot := now, ls_set := True\<rparr>, w))"

definition shim_get_time ::
  "'w counter_dev \<Rightarrow> rtc_time \<Rightarrow> lprtc_shim_state \<Rightarrow> 'w \<Rightarrow> alp_status \<times> rtc_time \<times> 'w" where
  "shim_get_time dev t s w =
     (let (rc, now, w) = counter_get_value dev w in
      if rc \<noteq> 0 then (ALP_ERR_IO, t, w) else
      let elapsed_ticks = now - ls_tick_snapshot s;
          elapsed_s = uint elapsed_ticks div uint (ls_freq_hz s);
          rem_ticks = elapsed_ticks - word_of_int (elapsed_s * uint (ls_freq_hz s));
          t = unix_to_calendar (ls_epoch_base s + elapsed_s) t
      in (ALP_OK, t\<lparr>rt_millisecond := word_of_int ((uint rem_ticks * 1000) div uint (ls_freq_hz s))\<rparr>, w))"

section \<open>Civil dates\<close>

definition leap :: "int \<Rightarrow> bool" where
  "leap y \<longleftrightarrow> y mod 4 = 0 \<and> (y mod 100 \<noteq> 0 \<or> y mod 400 = 0)"

definition days_in_month :: "int \<Rightarrow> int \<Rightarrow> int" where
  "days_in_month y m = (if m = 2 then (if leap y then 29 else 28) else if m \<in> {4, 6, 9, 11} then 30 else 31)"

definition civil_valid :: "int \<Rightarrow> int \<Rightarrow> int \<Rightarrow> bool" where
  "civil_valid y m d \<longleftrightarrow> 1 \<le> m \<and> m \<le> 12 \<and> 1 \<le> d \<and> d \<le> days_in_month y m"

definition next_day :: "int \<times> int \<times> int \<Rightarrow> int \<times> int \<times> int" where
  "next_day = (\<lambda>(y, m, d). if d < days_in_month y m then (y, m, d + 1)
     else if m < 12 then (y, m + 1, 1) else (y + 1, 1, 1))"

lemma sdiv_floor:
  assumes "0 < (n :: int)"
  shows "(if y \<ge> 0 then y else y - (n - 1)) sdiv n = y div n"
proof (cases "y \<ge> 0")
  case True
  then show ?thesis using assms by (cases "y = 0") (simp_all add: signed_divide_int_def)
next
  case False
  have "(n - 1 - y) div n = - (y div n)"
  proof (rule int_div_pos_eq)
    show "n - 1 - y = n * - (y div n) + (n - 1 - y mod n)" using mult_div_mod_eq [of n y] by (simp add: algebra_simps)
    show "0 \<le> n - 1 - y mod n" "n - 1 - y mod n < n" using assms pos_mod_bound [of n y] pos_mod_sign [of n y] by linarith+
  qed
  moreover have "(y - (n - 1)) sdiv n = - ((n - 1 - y) div n)"
    using False assms by (simp add: signed_divide_int_def)
  ultimately show ?thesis using False by simp
qed

lemma era_floor:
  "(if y \<ge> 0 then y else y - 399) sdiv 400 = y div (400 :: int)"
  "(if y \<ge> 0 then y else y - 146096) sdiv 146097 = y div (146097 :: int)"
  using sdiv_floor [of 400 y] sdiv_floor [of 146097 y] by (auto split: if_splits)

text \<open>The day number in closed form: whole years counted from March, then the day of that year.\<close>

lemma days_closed:
  "days_from_civil y m d =
     (let y' = y - (if m \<le> 2 then 1 else 0)
      in 365 * y' + y' div 4 - y' div 100 + y' div 400 +
         ((153 * (m + (if m > 2 then - 3 else 9)) + 2) div 5 + d - 1) - 719468)"
proof -
  define y' where "y' = y - (if m \<le> 2 then 1 else 0)"
  define e k where "e = y' div 400" and "k = y' mod 400"
  have y': "y' = 400 * e + k" and k: "0 \<le> k" "k < 400" by (simp_all add: e_def k_def)
  have "y' div 4 = 100 * e + k div 4" "y' div 100 = 4 * e + k div 100" by (simp_all add: y')
  then have "era * 146097 + ((y' - era * 400) * 365 + (y' - era * 400) div 4 - (y' - era * 400) div 100 + doy) - 719468 =
      365 * y' + y' div 4 - y' div 100 + y' div 400 + doy - 719468" if "era = e" for era doy
    using k by (simp add: that y')
  then show ?thesis unfolding days_from_civil_def Let_def era_floor y'_def [symmetric] e_def [symmetric] by simp
qed

section \<open>The inverse\<close>

text \<open>The year of the era: a century \<open>c\<close>, a quadrennium \<open>q\<close> in it and a year \<open>r\<close> in that.\<close>

lemma yoe_of_doe:
  fixes c q r doy :: int
  assumes "0 \<le> c" "c \<le> 3" "0 \<le> q" "q \<le> 24" "0 \<le> r" "r \<le> 3" "0 \<le> doy"
    and doy: "doy \<le> 364 \<or> doy = 365 \<and> r = 3 \<and> (q < 24 \<or> c = 3)"
  defines "doe \<equiv> 36524 * c + 1461 * q + 365 * r + doy"
  shows "(doe - doe div 1460 + doe div 36524 - doe div 146096) div 365 = 100 * c + 4 * q + r"
proof -
  define t where "t = (if 24 * c + q + 365 * r + doy \<ge> 1460 then 1 else (0 :: int))"
  define e where "e = (if doe = 146096 then 1 else (0 :: int))"
  have "doe div 1460 = 25 * c + q + t"
    using assms by (intro int_div_pos_eq [where r = "24 * c + q + 365 * r + doy - 1460 * t"]) (auto simp: t_def)
  moreover have e: "e = 1 \<longleftrightarrow> c = 3 \<and> q = 24 \<and> r = 3 \<and> doy = 365" "e = 0 \<or> e = 1"
  proof -
    have "c = 0 \<or> c = 1 \<or> c = 2 \<or> c = 3" using assms by linarith
    then show "e = 1 \<longleftrightarrow> c = 3 \<and> q = 24 \<and> r = 3 \<and> doy = 365"
      using assms(3-8) by (elim disjE) (auto simp: e_def doe_def)
  qed (auto simp: e_def)
  have "doe div 36524 = c + e"
    using assms e by (intro int_div_pos_eq [where r = "1461 * q + 365 * r + doy - 36524 * e"]) auto
  moreover have "doe div 146096 = e"
    using assms e by (intro int_div_pos_eq [where r = "doe - 146096 * e"]) auto
  moreover have "(36500 * c + 1460 * q + 365 * r + (doy - t)) div 365 = 100 * c + 4 * q + r"
    using assms by (intro int_div_pos_eq [where r = "doy - t"]) (auto simp: t_def)
  ultimately show ?thesis by (simp add: doe_def)
qed

text \<open>The month of the year that starts in March.\<close>

lemma month_of_doy:
  fixes mp d :: int
  assumes "0 \<le> mp" "mp \<le> 11" "1 \<le> d" "d \<le> (if mp = 11 then 29 else if mp \<in> {1, 3, 6, 8} then 30 else 31)"
  defines "doy \<equiv> (153 * mp + 2) div 5 + d - 1"
  shows "(5 * doy + 2) div 153 = mp" "0 \<le> doy" "doy \<le> 365" "doy = 365 \<longleftrightarrow> mp = 11 \<and> d = 29"
proof -
  have "mp \<in> {0, 1, 2, 3, 4, 5, 6, 7, 8, 9, 10, 11}" using assms(1,2) by simp presburger
  then have "(5 * doy + 2) div 153 = mp \<and> 0 \<le> doy \<and> doy \<le> 365 \<and> (doy = 365 \<longleftrightarrow> mp = 11 \<and> d = 29)"
    using assms(3,4) unfolding doy_def insert_iff empty_iff
    by (elim disjE) (auto intro: int_div_pos_eq)
  then show "(5 * doy + 2) div 153 = mp" "0 \<le> doy" "doy \<le> 365" "doy = 365 \<longleftrightarrow> mp = 11 \<and> d = 29" by blast+
qed

lemma leap_position:
  assumes "k = 100 * c + 4 * q + r" "0 \<le> q" "q \<le> 24" "0 \<le> r" "r \<le> 3" "0 \<le> c" "c \<le> (3 :: int)" "leap (400 * e + k + 1)"
  shows "r = 3 \<and> (q < 24 \<or> c = 3)"
proof -
  have y: "400 * e + k + 1 = (r + 1) + 4 * (100 * e + 25 * c + q)" using assms(1) by simp
  have "(400 * e + k + 1) mod 4 = 0" using assms(8) by (simp add: leap_def)
  then have "(r + 1) mod 4 = 0" unfolding y mod_mult_self2 .
  then have "r + 1 = 4" using zmod_trivial_iff [of "r + 1" 4] assms(4,5) by (cases "r + 1 < 4") auto
  then have r: "r = 3" by simp
  moreover have "c = 3" if "q = 24"
  proof -
    have y: "400 * e + k + 1 = 100 * (c + 1 + 4 * e)" using that r assms(1) by simp
    have "(400 * e + k + 1) mod 100 = 0" unfolding y by simp
    then have "(400 * e + k + 1) mod 400 = 0" using assms(8) by (simp add: leap_def)
    then have "100 * ((c + 1 + 4 * e) mod 4) = 0" unfolding y mult_mod_right by simp
    then have "(c + 1) mod 4 = 0" unfolding mod_mult_self2 by simp
    then have "c + 1 = 4" using zmod_trivial_iff [of "c + 1" 4] assms(6,7) by (cases "c + 1 < 4") auto
    then show "c = 3" by simp
  qed
  ultimately show ?thesis using assms(3) by linarith
qed

lemma civil_inverse:
  assumes v: "civil_valid y m d"
  shows "civil_from_days (days_from_civil y m d) = (y, m, d)"
proof -
  define y' mp where "y' = y - (if m \<le> 2 then 1 else 0)" and "mp = m + (if m > 2 then - 3 else 9)"
  define doy where "doy = (153 * mp + 2) div 5 + d - 1"
  define e k where "e = y' div 400" and "k = y' mod 400"
  define c q r where "c = k div 100" and "q = (k mod 100) div 4" and "r = k mod 4"
  have y': "y' = 400 * e + k" by (simp add: e_def k_def)
  have b: "0 \<le> k" "k < 400" by (simp_all add: k_def)
  have k: "k = 100 * c + 4 * q + r" "0 \<le> c" "c \<le> 3" "0 \<le> q" "q \<le> 24" "0 \<le> r" "r \<le> 3"
    using b unfolding c_def q_def r_def by presburger+
  have m: "1 \<le> m" "m \<le> 12" "1 \<le> d" "d \<le> days_in_month y m" using v by (simp_all add: civil_valid_def)
  have mp: "0 \<le> mp" "mp \<le> 11" "d \<le> (if mp = 11 then 29 else if mp \<in> {1, 3, 6, 8} then 30 else 31)"
    using m by (auto simp: mp_def days_in_month_def split: if_splits)
  note M = month_of_doy [OF mp(1,2) m(3) mp(3), folded doy_def]
  have dl: "doy \<le> 364 \<or> doy = 365 \<and> r = 3 \<and> (q < 24 \<or> c = 3)"
  proof (cases "doy = 365")
    case True
    then have "m = 2" "d = 29" using M(4) m by (auto simp: mp_def split: if_splits)
    moreover then have "y = 400 * e + k + 1" using y' by (simp add: y'_def)
    ultimately have "leap (400 * e + k + 1)" using m(4) by (simp add: days_in_month_def split: if_splits)
    then show ?thesis using leap_position [OF k(1,4-7,2,3)] True by blast
  qed (use M(3) in linarith)
  let ?doe = "36524 * c + 1461 * q + 365 * r + doy"
  note Y = yoe_of_doe [OF k(2-7) M(2) dl, folded k(1)]
  have kd: "k div 4 = 25 * c + q" "k div 100 = c"
    using k by (auto intro!: int_div_pos_eq [where r = r] int_div_pos_eq [where r = "4 * q + r"])
  have "y' div 4 = 100 * e + k div 4" "y' div 100 = 4 * e + k div 100" "y' div 400 = e"
    unfolding y' using b by simp_all
  note yd = this [unfolded kd]
  have z: "days_from_civil y m d + 719468 = 146097 * e + ?doe"
    unfolding days_closed Let_def y'_def [symmetric] mp_def [symmetric] yd doy_def
    unfolding y' k(1) by simp
  have "?doe < 146097" "0 \<le> ?doe" using k M(2,3) dl by auto
  then have era: "(days_from_civil y m d + 719468) div 146097 = e" unfolding z by (intro int_div_pos_eq) auto
  have bk: "mp + (if mp < 10 then 3 else - 9) = m" "400 * e + k + (if m \<le> 2 then 1 else 0) = y"
    using m y' by (auto simp: mp_def y'_def split: if_splits)
  have doe: "days_from_civil y m d + 719468 - e * 146097 = ?doe" "?doe - (365 * k + k div 4 - k div 100) = doy"
    unfolding z kd unfolding k(1) by simp_all
  show ?thesis
    unfolding civil_from_days_def Let_def era_floor era doe(1) Y doe(2) M(1) bk(1)
    using bk(2) by (simp add: doy_def algebra_simps)
qed

section \<open>Counting days\<close>

lemma next_day_valid: "civil_valid y m d \<Longrightarrow> next_day (y, m, d) = (y', m', d') \<Longrightarrow> civil_valid y' m' d'"
  by (auto simp: civil_valid_def next_day_def days_in_month_def split: if_splits)

lemma div_step: "0 < (n :: int) \<Longrightarrow> y div n = (y - 1) div n + (if y mod n = 0 then 1 else 0)"
proof -
  assume n: "0 < n"
  have y: "y = n * (y div n) + y mod n" "0 \<le> y mod n" "y mod n < n" using n by simp_all
  show ?thesis
  proof (cases "y mod n = 0")
    case True
    have "(y - 1) div n = y div n - 1"
      using n y True by (intro int_div_pos_eq [where r = "n - 1"]) (auto simp: algebra_simps)
    then show ?thesis using True by simp
  next
    case False
    have "(y - 1) div n = y div n"
    proof (rule int_div_pos_eq)
      show "y - 1 = n * (y div n) + (y mod n - 1)" using y(1) by linarith
      show "0 \<le> y mod n - 1" "y mod n - 1 < n" using y(2,3) False by linarith+
    qed
    then show ?thesis using False by simp
  qed
qed

text \<open>The days before the first of March of a year.\<close>

definition march_days :: "int \<Rightarrow> int" where
  "march_days y = 365 * y + y div 4 - y div 100 + y div 400"

lemma year_length: "march_days y = march_days (y - 1) + (if leap y then 366 else 365)"
proof -
  have imp: "y mod 400 = 0 \<longrightarrow> y mod 100 = 0" "y mod 100 = 0 \<longrightarrow> y mod 4 = 0" by presburger+
  have A: "365 * y + a - b + c = 365 * (y - 1) + a' - b' + c' + 365 + i - j + k"
    if "a = a' + i" "b = b' + j" "c = c' + k" for a b c a' b' c' i j k
    using that by simp
  have B: "X + 365 + (if P then 1 else 0) - (if Q then 1 else 0) + (if R then 1 else 0) =
      X + (if P \<and> (\<not> Q \<or> R) then 366 else 365)" if "R \<longrightarrow> Q" "Q \<longrightarrow> P" for X :: int and P Q R
    using that by (cases P; cases Q; cases R) simp_all
  show ?thesis unfolding march_days_def leap_def B [OF imp, symmetric]
    by (rule A [OF div_step [of 4 y] div_step [of 100 y] div_step [of 400 y]]) simp_all
qed

lemma days_march:
  "days_from_civil y m d = march_days (if m \<le> 2 then y - 1 else y) +
     (153 * (m + (if m > 2 then - 3 else 9)) + 2) div 5 + d - 719469"
  by (simp add: days_closed march_days_def Let_def)

lemma next_day_number:
  assumes v: "civil_valid y m d" and n: "next_day (y, m, d) = (y', m', d')"
  shows "days_from_civil y' m' d' = days_from_civil y m d + 1"
proof (cases "d < days_in_month y m")
  case True
  then show ?thesis using n by (auto simp: next_day_def days_march)
next
  case False
  then have d: "d = days_in_month y m" using v by (simp add: civil_valid_def)
  have "m \<in> {1, 2, 3, 4, 5, 6, 7, 8, 9, 10, 11, 12}" using v by (simp add: civil_valid_def) presburger
  then have "m < 12 \<Longrightarrow> days_from_civil y (m + 1) 1 = days_from_civil y m d + 1"
    "m = 12 \<Longrightarrow> days_from_civil (y + 1) 1 1 = days_from_civil y m d + 1" "m \<le> 12"
    using year_length [of y] unfolding insert_iff empty_iff d
    by (elim disjE; simp add: days_in_month_def days_march)+
  then show ?thesis using n False by (auto simp: next_day_def split: if_splits)
qed

text \<open>Every day number is that of a valid date.\<close>

lemma days_surj: "\<exists>y m d. civil_valid y m d \<and> days_from_civil y m d = z"
proof -
  define e where "e = (z + 719468) div 146097"
  have base: "civil_valid (400 * e) 3 1" "days_from_civil (400 * e) 3 1 = 146097 * e - 719468"
    by (simp_all add: civil_valid_def days_in_month_def days_closed)
  have "\<exists>y m d. civil_valid y m d \<and> days_from_civil y m d = 146097 * e - 719468 + int n" for n
  proof (induction n)
    case (Suc n)
    then obtain y m d where s: "civil_valid y m d" "days_from_civil y m d = 146097 * e - 719468 + int n" by blast
    obtain y' m' d' where nx: "next_day (y, m, d) = (y', m', d')" by (metis prod_cases3)
    show ?case using next_day_valid [OF s(1) nx] next_day_number [OF s(1) nx] s(2) by fastforce
  qed (use base in auto)
  moreover have "146097 * e - 719468 + int (nat (z + 719468 - 146097 * e)) = z"
    using pos_mod_sign [of 146097 "z + 719468"] by (simp add: e_def minus_mult_div_eq_mod [symmetric])
  ultimately show ?thesis by metis
qed

lemma civil_surj: "civil_from_days z = (y, m, d) \<Longrightarrow> civil_valid y m d \<and> days_from_civil y m d = z"
  using days_surj [of z] civil_inverse by (metis prod.inject)

section \<open>Seconds and calendar fields\<close>

lemma sdiv_nonneg: "0 \<le> (a :: int) \<Longrightarrow> 0 < n \<Longrightarrow> a sdiv n = a div n" "0 \<le> a \<Longrightarrow> 0 < n \<Longrightarrow> a smod n = a mod n"
proof -
  assume a: "0 \<le> a" "0 < n"
  then show s: "a sdiv n = a div n" by (cases "a = 0") (simp_all add: signed_divide_int_def)
  show "a smod n = a mod n" using a by (cases "a = 0") (simp_all add: signed_modulo_int_def)
qed

lemma smod_fixed:
  fixes u n :: int
  assumes "0 < n"
  shows "(if u smod n < 0 then (u smod n + n, u sdiv n - 1) else (u smod n, u sdiv n)) = (u mod n, u div n)"
proof (cases "0 \<le> u")
  case True
  then show ?thesis using assms by (simp add: sdiv_nonneg not_less)
next
  case False
  define q r where "q = (- u) div n" and "r = (- u) mod n"
  have u: "u = - (n * q) - r" and r: "0 \<le> r" "r < n"
    using assms mult_div_mod_eq [of n "- u"] unfolding q_def r_def by (linarith, simp_all)
  have sd: "u sdiv n = - q" "u smod n = - r"
    using False assms by (simp_all add: signed_divide_int_def signed_modulo_int_def q_def r_def)
  have "u div n = (if r = 0 then - q else - q - 1)" "u mod n = (if r = 0 then 0 else n - r)"
  proof -
    show d: "u div n = (if r = 0 then - q else - q - 1)"
      using u r by (intro int_div_pos_eq [where r = "if r = 0 then 0 else n - r"]) (auto simp: algebra_simps)
    show "u mod n = (if r = 0 then 0 else n - r)"
      using mult_div_mod_eq [of n u] unfolding d by (auto simp: u algebra_simps)
  qed
  then show ?thesis using r by (simp add: sd)
qed

lemma unix_to_calendar_floor:
  assumes "civil_from_days (u div 86400) = (y, m, d)"
  shows "unix_to_calendar u t = t\<lparr>rt_year := word_of_int y, rt_month := word_of_int m, rt_day := word_of_int d,
      rt_weekday := weekday_from_days (u div 86400), rt_hour := word_of_int (u mod 86400 div 3600),
      rt_minute := word_of_int (u mod 86400 mod 3600 div 60), rt_second := word_of_int (u mod 86400 mod 60)\<rparr>"
  unfolding unix_to_calendar_def Let_def smod_fixed [of 86400 u, simplified]
  using assms by (simp add: sdiv_nonneg)

text \<open>The fields of a time of day, and back.\<close>

lemma clock_fields:
  fixes days h mi se :: int
  assumes "0 \<le> h" "h \<le> 23" "0 \<le> mi" "mi \<le> 59" "0 \<le> se" "se \<le> 59"
  defines "u \<equiv> days * 86400 + h * 3600 + mi * 60 + se"
  shows "u div 86400 = days" "u mod 86400 div 3600 = h" "u mod 86400 mod 3600 div 60 = mi" "u mod 86400 mod 60 = se"
proof -
  let ?r = "h * 3600 + mi * 60 + se"
  show d: "u div 86400 = days" using assms by (intro int_div_pos_eq [where r = ?r]) (auto simp: u_def)
  have r: "u mod 86400 = ?r" using mult_div_mod_eq [of 86400 u] unfolding d by (simp add: u_def)
  show h: "u mod 86400 div 3600 = h" unfolding r using assms by (intro int_div_pos_eq [where r = "mi * 60 + se"]) auto
  have m: "?r mod 3600 = mi * 60 + se" using mult_div_mod_eq [of 3600 ?r] h [unfolded r] by simp
  show "u mod 86400 mod 3600 div 60 = mi" unfolding r m using assms by (intro int_div_pos_eq [where r = se]) auto
  have "?r = se + 60 * (60 * h + mi)" by simp
  then have "?r mod 60 = se mod 60" by (simp only: mod_mult_self2)
  then show "u mod 86400 mod 60 = se" unfolding r using assms(5,6) by simp
qed

lemma clock_range:
  fixes r :: int
  assumes "0 \<le> r" "r < 86400"
  shows "0 \<le> r div 3600" "r div 3600 \<le> 23" "0 \<le> r mod 3600 div 60" "r mod 3600 div 60 \<le> 59" "0 \<le> r mod 60" "r mod 60 \<le> 59"
proof -
  show "r div 3600 \<le> 23" using zdiv_mono1 [of r 86399 3600] assms by simp
  have "r mod 3600 \<le> 3599" using pos_mod_bound [of 3600 r] by simp
  then show "r mod 3600 div 60 \<le> 59" using zdiv_mono1 [of "r mod 3600" 3599 60] by simp
  show "r mod 60 \<le> 59" using pos_mod_bound [of 60 r] by simp
qed (simp_all add: assms pos_imp_zdiv_nonneg_iff)

lemma clock_split: "(r :: int) = r div 3600 * 3600 + r mod 3600 div 60 * 60 + r mod 60"
proof -
  have "r mod 3600 mod 60 = r mod 60" by (rule mod_mod_cancel) simp
  then have "r mod 3600 = r mod 3600 div 60 * 60 + r mod 60" using div_mult_mod_eq [of "r mod 3600" 60] by simp
  then show ?thesis using div_mult_mod_eq [of r 3600] by (metis add.assoc)
qed

text \<open>The fields of a converted record, with the date and the time of day as opaque numbers.\<close>

lemma fields_of_numbers:
  assumes "uint (rt_year t) = y" "uint (rt_month t) = m" "uint (rt_day t) = d" "uint (rt_hour t) = h"
    "uint (rt_minute t) = mi" "uint (rt_second t) = se"
  shows "calendar_to_unix t = days_from_civil y m d * 86400 + (h * 3600 + mi * 60 + se)"
    and "1 \<le> m \<Longrightarrow> m \<le> 12 \<Longrightarrow> 1 \<le> d \<Longrightarrow> d \<le> 31 \<Longrightarrow> h \<le> 23 \<Longrightarrow> mi \<le> 59 \<Longrightarrow> se \<le> 59 \<Longrightarrow>
      fields_valid (t\<lparr>rt_millisecond := 0\<rparr>)"
  using assms by (auto simp: calendar_to_unix_def Let_def fields_valid_def word_less_def)

lemma numbers_of_fields:
  fixes y m d h mi se :: int
  assumes "0 \<le> y" "y \<le> 65535" "1 \<le> m" "m \<le> 12" "1 \<le> d" "d \<le> 31" "0 \<le> h" "h \<le> 23" "0 \<le> mi" "mi \<le> 59" "0 \<le> se" "se \<le> 59"
  shows "uint (word_of_int y :: u16) = y" "uint (word_of_int m :: u8) = m" "uint (word_of_int d :: u8) = d"
    "uint (word_of_int h :: u8) = h" "uint (word_of_int mi :: u8) = mi" "uint (word_of_int se :: u8) = se"
  using assms by (simp_all add: uint_word_of_int)

lemma converted_fields:
  shows "rt_year (t\<lparr>rt_year := y, rt_month := m, rt_day := d, rt_weekday := wd, rt_hour := h, rt_minute := mi, rt_second := se\<rparr>) = y"
    "rt_month (t\<lparr>rt_year := y, rt_month := m, rt_day := d, rt_weekday := wd, rt_hour := h, rt_minute := mi, rt_second := se\<rparr>) = m"
    "rt_day (t\<lparr>rt_year := y, rt_month := m, rt_day := d, rt_weekday := wd, rt_hour := h, rt_minute := mi, rt_second := se\<rparr>) = d"
    "rt_hour (t\<lparr>rt_year := y, rt_month := m, rt_day := d, rt_weekday := wd, rt_hour := h, rt_minute := mi, rt_second := se\<rparr>) = h"
    "rt_minute (t\<lparr>rt_year := y, rt_month := m, rt_day := d, rt_weekday := wd, rt_hour := h, rt_minute := mi, rt_second := se\<rparr>) = mi"
    "rt_second (t\<lparr>rt_year := y, rt_month := m, rt_day := d, rt_weekday := wd, rt_hour := h, rt_minute := mi, rt_second := se\<rparr>) = se"
  by simp_all

section \<open>Properties\<close>

text \<open>
  Day numbers count days.  1 January 1970 is day 0, a Thursday; the calendar day after a
  valid date is a valid date with the next day number and the next weekday, leap years included;
  and every day number is that of exactly the date \<open>civil_from_days\<close> returns.
\<close>

theorem day_numbers_count_days:
  "days_from_civil 1970 1 1 = 0 \<and> weekday_from_days 0 = 4 \<and>
   (\<forall>y m d y' m' d'. civil_valid y m d \<and> next_day (y, m, d) = (y', m', d') \<longrightarrow>
      civil_valid y' m' d' \<and> days_from_civil y' m' d' = days_from_civil y m d + 1) \<and>
   uint (weekday_from_days (z + 1)) = (uint (weekday_from_days z) + 1) mod 7 \<and>
   (\<forall>y m d. civil_valid y m d \<and> days_from_civil y m d = z \<longleftrightarrow> civil_from_days z = (y, m, d))"
proof (intro conjI allI impI iffI)
  have wd: "uint (weekday_from_days z) = (z + 4) mod 7" for z
  proof -
    have "0 \<le> z smod 7 + 11" using smod_int_range [of 7 z] by simp
    then have "(z smod 7 + 7 + 4) smod 7 = (z smod 7 + 11) mod 7" by (simp add: sdiv_nonneg add.commute)
    also have "\<dots> = (z + 4) mod 7"
    proof (cases "0 \<le> z")
      case True
      then show ?thesis by (simp add: sdiv_nonneg) presburger
    next
      case False
      then have "z smod 7 = - ((- z) mod 7)" by (simp add: signed_modulo_int_def)
      then show ?thesis by presburger
    qed
    finally show ?thesis by (simp add: weekday_from_days_def uint_word_of_int)
  qed
  show "uint (weekday_from_days (z + 1)) = (uint (weekday_from_days z) + 1) mod 7"
    unfolding wd by presburger
  show "days_from_civil 1970 1 1 = 0" by (simp add: days_closed)
  have "uint (weekday_from_days 0) = uint (4 :: u8)" unfolding wd by simp
  then show "weekday_from_days 0 = 4" by (simp only: uint_word_of_int_eq word_uint_eq_iff)
next
  fix y m d y' m' d'
  assume "civil_valid y m d \<and> next_day (y, m, d) = (y', m', d')"
  then show "civil_valid y' m' d'" "days_from_civil y' m' d' = days_from_civil y m d + 1"
    using next_day_valid next_day_number by blast+
next
  fix y m d
  assume "civil_valid y m d \<and> days_from_civil y m d = z"
  then show "civil_from_days z = (y, m, d)" using civil_inverse by blast
next
  fix y m d
  assume "civil_from_days z = (y, m, d)"
  then show "civil_valid y m d" "days_from_civil y m d = z" using civil_surj by blast+
qed

theorem day_numbers_count_days_witness:
  "civil_valid 2024 2 29 \<and> next_day (2024, 2, 29) = (2024, 3, 1) \<and>
   days_from_civil 2024 3 1 = days_from_civil 2024 2 29 + 1"
proof -
  have "civil_valid 2024 2 29" "next_day (2024, 2, 29) = (2024, 3, 1)"
    by (simp_all add: civil_valid_def days_in_month_def leap_def next_day_def)
  then show ?thesis using day_numbers_count_days by blast
qed


text \<open>
  The shim keeps time across a counter wrap.  After a successful set at counter value \<open>c\<close>, a
  read when the counter has advanced by \<open>k < 2 ^ 32\<close> ticks, wrapping or not, returns the set
  time plus \<open>k div freq\<close> seconds and the milliseconds of the remaining ticks; and a set with a
  field out of range is refused with the state and the counter untouched.
\<close>

theorem shim_keeps_time:
  assumes "counter_get_value dev w = (0, c, w1)" and "counter_get_value dev w2 = (0, c + of_nat k, w3)"
    and "k < 2 ^ 32" and "ls_freq_hz s \<noteq> 0"
  defines "f \<equiv> unat (ls_freq_hz s)"
  shows "(fields_valid t \<longrightarrow>
      (\<exists>s1. shim_set_time dev t s w = (ALP_OK, s1, w1) \<and>
        shim_get_time dev t0 s1 w2 =
          (ALP_OK, (unix_to_calendar (calendar_to_unix t + int (k div f)) t0)\<lparr>rt_millisecond := of_nat (k mod f * 1000 div f)\<rparr>, w3))) \<and>
    (\<not> fields_valid t \<longrightarrow> shim_set_time dev t s w = (ALP_ERR_INVAL, s, w))"
proof (intro conjI impI)
  let ?F = "uint (ls_freq_hz s)"
  have uf: "?F = int f" by (simp add: f_def)
  have ck: "uint (of_nat k :: u32) = int k" using assms(3) by (simp add: uint_nat unat_of_nat)
  have "unat (of_nat k - of_nat (k div f * f) :: u32) = k mod f"
  proof -
    have "(of_nat k - of_nat (k div f * f) :: u32) = of_nat (k - k div f * f)" by (simp only: of_nat_diff [OF div_times_less_eq_dividend])
    moreover have "k mod f < 2 ^ 32" using assms(3) mod_less_eq_dividend [of k f] by linarith
    ultimately show ?thesis by (simp add: unat_of_nat minus_div_mult_eq_mod)
  qed
  then have rem: "uint (of_nat k - word_of_int (int (k div f) * ?F) :: u32) = int (k mod f)"
    by (simp only: uf of_nat_mult [symmetric] of_int_of_nat_eq uint_nat f_def)
  then have rem': "uint (of_nat k - of_nat (k div f) * ls_freq_hz s :: u32) = int (k mod f)" by simp
  have sec: "uint (of_nat k :: u32) div ?F = int (k div f)" unfolding ck uf by (rule zdiv_int [symmetric])
  have ms: "int (k mod f) * 1000 div ?F = int (k mod f * 1000 div f)" unfolding uf by (simp add: zdiv_int)
  assume "fields_valid t"
  then show "\<exists>s1. shim_set_time dev t s w = (ALP_OK, s1, w1) \<and>
        shim_get_time dev t0 s1 w2 =
          (ALP_OK, (unix_to_calendar (calendar_to_unix t + int (k div f)) t0)\<lparr>rt_millisecond := of_nat (k mod f * 1000 div f)\<rparr>, w3)"
    using assms(1,2)
    by (simp only: shim_set_time_def shim_get_time_def Let_def split_conv add_diff_cancel_left' sec rem ms of_int_of_nat_eq
        lprtc_shim_state.simps simp_thms if_True if_False not_True_eq_False)
      (auto simp: sec rem' ms)
qed (simp add: shim_set_time_def)

text \<open>A counter that is the world itself.\<close>

definition cell_counter :: "u32 counter_dev" where
  "cell_counter = \<lparr>cd_present = True, cd_is_ready = (\<lambda>_. True), counter_start = (\<lambda>w. (0, w)),
     counter_get_frequency = (\<lambda>_. 32768), counter_get_value = (\<lambda>w. (0, w, w))\<rparr>"

definition sample_time :: rtc_time where
  "sample_time = \<lparr>rt_year = 2026, rt_month = 5, rt_day = 10, rt_weekday = 0, rt_hour = 23, rt_minute = 59, rt_second = 58,
     rt_millisecond = 0\<rparr>"


theorem shim_keeps_time_witness:
  "\<exists>s1. shim_set_time cell_counter sample_time \<lparr>ls_epoch_base = 0, ls_tick_snapshot = 0, ls_freq_hz = 32768, ls_set = False\<rparr> (- 1)
      = (ALP_OK, s1, - 1) \<and>
    shim_get_time cell_counter sample_time s1 98303 =
      (ALP_OK, (unix_to_calendar (calendar_to_unix sample_time + 3) sample_time)\<lparr>rt_millisecond := 0\<rparr>, 98303)"
proof -
  let ?s = "\<lparr>ls_epoch_base = 0, ls_tick_snapshot = 0, ls_freq_hz = 32768, ls_set = False\<rparr> :: lprtc_shim_state"
  have "counter_get_value cell_counter (- 1) = (0, - 1, - 1)"
    "counter_get_value cell_counter 98303 = (0, - 1 + of_nat 98304, 98303)" by (simp_all add: cell_counter_def)
  moreover have "fields_valid sample_time" by (simp add: fields_valid_def sample_time_def)
  ultimately show ?thesis
    using shim_keeps_time [of cell_counter "- 1" "- 1" "- 1" 98303 98304 98303 ?s sample_time sample_time] by simp
qed

end
