(* ===== verification/Timer_Dispatch.thy ===== *)
theory Timer_Dispatch
  imports Pool_Core Lprtc_Calendar
begin

text \<open>
  The counter, RTC and watchdog dispatchers (\<^verbatim>\<open>src/counter_dispatch.c\<close>, \<^verbatim>\<open>src/rtc_dispatch.c\<close>,
  \<^verbatim>\<open>src/wdt_dispatch.c\<close>) over the shared pool of \<open>Pool_Core\<close>, each an interpretation of its
  \<open>pooled_class\<close>, and the LPRTC calendar shim as an RTC backend.  A callback or user pointer is
  the number \<open>None\<close> or \<open>Some a\<close> of its address; an output pointer is passed as an option of what
  it points to.
\<close>

section \<open>Counter\<close>

abbreviation (input) MAX_COUNTER_HANDLES :: nat where "MAX_COUNTER_HANDLES \<equiv> 4"

record counter_state =
  cs_dev :: "nat option"
  cs_counter_id :: u32
  cs_alarm_cb :: "nat option"
  cs_alarm_user :: "nat option"
  cs_be_data :: "nat option"

definition zero_counter :: counter_state where
  "zero_counter = \<lparr>cs_dev = None, cs_counter_id = 0, cs_alarm_cb = None, cs_alarm_user = None, cs_be_data = None\<rparr>"

record counter_config =
  cc_counter_id :: u32

record 'w counter_ops =
  co_open :: "(counter_config \<Rightarrow> counter_state \<Rightarrow> alp_capabilities \<Rightarrow> 'w \<Rightarrow> alp_status \<times> counter_state \<times> alp_capabilities \<times> 'w) option"
  co_start :: "(counter_state \<Rightarrow> 'w \<Rightarrow> alp_status \<times> counter_state \<times> 'w) option"
  co_stop :: "(counter_state \<Rightarrow> 'w \<Rightarrow> alp_status \<times> counter_state \<times> 'w) option"
  co_get_value :: "(u32 \<Rightarrow> counter_state \<Rightarrow> 'w \<Rightarrow> (alp_status \<times> u32) \<times> counter_state \<times> 'w) option"
  co_us_to_ticks :: "(u32 \<Rightarrow> u32 \<Rightarrow> counter_state \<Rightarrow> 'w \<Rightarrow> (alp_status \<times> u32) \<times> counter_state \<times> 'w) option"
  co_set_alarm :: "(u32 \<Rightarrow> nat \<Rightarrow> counter_state \<Rightarrow> 'w \<Rightarrow> alp_status \<times> counter_state \<times> 'w) option"
  co_cancel_alarm :: "(counter_state \<Rightarrow> 'w \<Rightarrow> alp_status \<times> counter_state \<times> 'w) option"
  co_close :: "(counter_state \<Rightarrow> 'w \<Rightarrow> counter_state \<times> 'w) option"

type_synonym 'w counter_pool = "('w counter_ops, counter_state) pool"

definition counter_alloc :: "'w counter_pool \<Rightarrow> (nat \<times> 'w counter_pool) option" where
  "counter_alloc = pool_alloc zero_counter"

definition alp_counter_open ::
  "('w counter_ops, 'w) pool_build \<Rightarrow> counter_config option \<Rightarrow> 'w counter_pool \<Rightarrow> 'w \<Rightarrow>
   nat option \<times> alp_status \<times> 'w counter_pool \<times> 'w" where
  "alp_counter_open pb cfg pool w =
     (case cfg of
        None \<Rightarrow> (None, ALP_ERR_INVAL, pool, w)
      | Some cfg \<Rightarrow>
          pool_open pb ''counter'' counter_alloc ALP_ERR_NOMEM
            (\<lambda>ops. map_option (\<lambda>f. f cfg) (co_open ops)) (cc_counter_id cfg) pool w)"

definition alp_counter_start :: "nat option \<Rightarrow> 'w counter_pool \<Rightarrow> 'w \<Rightarrow> alp_status \<times> 'w counter_pool \<times> 'w" where
  "alp_counter_start h = pool_op h ALP_ERR_NOT_READY (\<lambda>ops. call_op (co_start ops) ALP_ERR_NOSUPPORT)"

definition alp_counter_stop :: "nat option \<Rightarrow> 'w counter_pool \<Rightarrow> 'w \<Rightarrow> alp_status \<times> 'w counter_pool \<times> 'w" where
  "alp_counter_stop h = pool_op h ALP_ERR_NOT_READY (\<lambda>ops. call_op (co_stop ops) ALP_ERR_NOSUPPORT)"

definition alp_counter_get_value ::
  "nat option \<Rightarrow> u32 option \<Rightarrow> 'w counter_pool \<Rightarrow> 'w \<Rightarrow> (alp_status \<times> u32 option) \<times> 'w counter_pool \<times> 'w" where
  "alp_counter_get_value h ticks_out pool w =
     (case ticks_out of
        None \<Rightarrow> ((ALP_ERR_INVAL, None), pool, w)
      | Some t \<Rightarrow>
          (let ((rc, t), pool, w) =
             pool_op h (ALP_ERR_NOT_READY, t)
               (\<lambda>ops. call_op (map_option (\<lambda>f. f t) (co_get_value ops)) (ALP_ERR_NOSUPPORT, t)) pool w
           in ((rc, Some t), pool, w)))"

definition alp_counter_us_to_ticks ::
  "nat option \<Rightarrow> u32 \<Rightarrow> u32 option \<Rightarrow> 'w counter_pool \<Rightarrow> 'w \<Rightarrow> (alp_status \<times> u32 option) \<times> 'w counter_pool \<times> 'w" where
  "alp_counter_us_to_ticks h us ticks_out pool w =
     (case ticks_out of
        None \<Rightarrow> ((ALP_ERR_INVAL, None), pool, w)
      | Some t \<Rightarrow>
          (let ((rc, t), pool, w) =
             pool_op h (ALP_ERR_NOT_READY, t)
               (\<lambda>ops. call_op (map_option (\<lambda>f. f us t) (co_us_to_ticks ops)) (ALP_ERR_NOSUPPORT, t)) pool w
           in ((rc, Some t), pool, w)))"

text \<open>The callback is installed before the backend is asked and taken back when it refuses.\<close>

definition set_alarm_body ::
  "nat \<Rightarrow> u32 \<Rightarrow> nat \<Rightarrow> nat option \<Rightarrow> 'w counter_ops \<Rightarrow> counter_state \<Rightarrow> 'w \<Rightarrow> alp_status \<times> counter_state \<times> 'w" where
  "set_alarm_body handle ticks_from_now cb user ops s w =
     (let s = s\<lparr>cs_alarm_cb := Some cb, cs_alarm_user := user\<rparr>;
          (rc, s, w) = call_op (map_option (\<lambda>f. f ticks_from_now handle) (co_set_alarm ops)) ALP_ERR_NOSUPPORT s w
      in (rc, (if rc \<noteq> ALP_OK then s\<lparr>cs_alarm_cb := None, cs_alarm_user := None\<rparr> else s), w))"

definition alp_counter_set_alarm ::
  "nat option \<Rightarrow> u32 \<Rightarrow> nat option \<Rightarrow> nat option \<Rightarrow> 'w counter_pool \<Rightarrow> 'w \<Rightarrow> alp_status \<times> 'w counter_pool \<times> 'w" where
  "alp_counter_set_alarm h ticks_from_now cb user pool w =
     (case cb of
        None \<Rightarrow> (ALP_ERR_INVAL, pool, w)
      | Some cb \<Rightarrow> pool_op h ALP_ERR_NOT_READY (set_alarm_body (the h) ticks_from_now cb user) pool w)"

definition alp_counter_cancel_alarm :: "nat option \<Rightarrow> 'w counter_pool \<Rightarrow> 'w \<Rightarrow> alp_status \<times> 'w counter_pool \<times> 'w" where
  "alp_counter_cancel_alarm h =
     pool_op h ALP_ERR_NOT_READY
       (\<lambda>ops s w. let (rc, s, w) = call_op (co_cancel_alarm ops) ALP_ERR_NOSUPPORT s w
                  in (rc, s\<lparr>cs_alarm_cb := None, cs_alarm_user := None\<rparr>, w))"

definition alp_counter_close :: "nat option \<Rightarrow> 'w counter_pool \<Rightarrow> 'w \<Rightarrow> ('w counter_pool \<times> 'w) option" where
  "alp_counter_close = pool_close co_close (\<lambda>s. s\<lparr>cs_alarm_cb := None, cs_alarm_user := None\<rparr>)"

definition alp_counter_capabilities :: "nat option \<Rightarrow> 'w counter_pool \<Rightarrow> alp_capabilities option" where
  "alp_counter_capabilities = pool_capabilities"

section \<open>RTC\<close>

abbreviation (input) MAX_RTC_HANDLES :: nat where "MAX_RTC_HANDLES \<equiv> 2"

definition zero_rtc :: rtc_state where
  "zero_rtc = \<lparr>rs_dev = False, rs_rtc_id = 0, rs_be_data = False\<rparr>"

record 'w rtc_ops =
  ro_open :: "(u32 \<Rightarrow> rtc_state \<Rightarrow> alp_capabilities \<Rightarrow> 'w \<Rightarrow> alp_status \<times> rtc_state \<times> alp_capabilities \<times> 'w) option"
  ro_set_time :: "(rtc_time \<Rightarrow> rtc_state \<Rightarrow> 'w \<Rightarrow> alp_status \<times> rtc_state \<times> 'w) option"
  ro_get_time :: "(rtc_time \<Rightarrow> rtc_state \<Rightarrow> 'w \<Rightarrow> (alp_status \<times> rtc_time) \<times> rtc_state \<times> 'w) option"
  ro_close :: "(rtc_state \<Rightarrow> 'w \<Rightarrow> rtc_state \<times> 'w) option"

type_synonym 'w rtc_pool = "('w rtc_ops, rtc_state) pool"

definition rtc_alloc :: "'w rtc_pool \<Rightarrow> (nat \<times> 'w rtc_pool) option" where
  "rtc_alloc = pool_alloc zero_rtc"

definition alp_rtc_open ::
  "('w rtc_ops, 'w) pool_build \<Rightarrow> u32 \<Rightarrow> 'w rtc_pool \<Rightarrow> 'w \<Rightarrow> nat option \<times> alp_status \<times> 'w rtc_pool \<times> 'w" where
  "alp_rtc_open pb rtc_id pool w =
     pool_open pb ''rtc'' rtc_alloc ALP_ERR_NOMEM (\<lambda>ops. map_option (\<lambda>f. f rtc_id) (ro_open ops)) rtc_id pool w"

definition alp_rtc_set_time ::
  "nat option \<Rightarrow> rtc_time option \<Rightarrow> 'w rtc_pool \<Rightarrow> 'w \<Rightarrow> alp_status \<times> 'w rtc_pool \<times> 'w" where
  "alp_rtc_set_time h t pool w =
     (case t of
        None \<Rightarrow> (ALP_ERR_INVAL, pool, w)
      | Some t \<Rightarrow> pool_op h ALP_ERR_NOT_READY (\<lambda>ops. call_op (map_option (\<lambda>f. f t) (ro_set_time ops)) ALP_ERR_NOSUPPORT) pool w)"

definition alp_rtc_get_time ::
  "nat option \<Rightarrow> rtc_time option \<Rightarrow> 'w rtc_pool \<Rightarrow> 'w \<Rightarrow> (alp_status \<times> rtc_time option) \<times> 'w rtc_pool \<times> 'w" where
  "alp_rtc_get_time h t pool w =
     (case t of
        None \<Rightarrow> ((ALP_ERR_INVAL, None), pool, w)
      | Some t \<Rightarrow>
          (let ((rc, t), pool, w) =
             pool_op h (ALP_ERR_NOT_READY, t)
               (\<lambda>ops. call_op (map_option (\<lambda>f. f t) (ro_get_time ops)) (ALP_ERR_NOSUPPORT, t)) pool w
           in ((rc, Some t), pool, w)))"

definition alp_rtc_close :: "nat option \<Rightarrow> 'w rtc_pool \<Rightarrow> 'w \<Rightarrow> ('w rtc_pool \<times> 'w) option" where
  "alp_rtc_close = pool_close ro_close (\<lambda>s. s)"

definition alp_rtc_capabilities :: "nat option \<Rightarrow> 'w rtc_pool \<Rightarrow> alp_capabilities option" where
  "alp_rtc_capabilities = pool_capabilities"

text \<open>The calendar shim's operation table; its static state is part of the world.\<close>

definition lprtc_ops :: "'w counter_dev \<Rightarrow> u32 \<Rightarrow> (lprtc_shim_state \<times> 'w) rtc_ops" where
  "lprtc_ops dev rtc_count =
     \<lparr>ro_open = Some (\<lambda>rtc_id st caps (s, w). let (rc, st, s, w) = shim_open dev rtc_count rtc_id st s w in (rc, st, caps, (s, w))),
      ro_set_time = Some (\<lambda>t st (s, w). let (rc, s, w) = shim_set_time dev t s w in (rc, st, (s, w))),
      ro_get_time = Some (\<lambda>t st (s, w). let (rc, t, w) = shim_get_time dev t s w in ((rc, t), st, (s, w))),
      ro_close = None\<rparr>"

section \<open>Watchdog\<close>

abbreviation (input) MAX_WDT_HANDLES :: nat where "MAX_WDT_HANDLES \<equiv> 2"
abbreviation (input) ALP_WDT_INTERRUPT_ONLY :: u32 where "ALP_WDT_INTERRUPT_ONLY \<equiv> 2"
abbreviation (input) ALP_WDT_PAUSE_IN_SLEEP :: u32 where "ALP_WDT_PAUSE_IN_SLEEP \<equiv> 1"
abbreviation (input) ALP_WDT_PAUSE_HALTED_BY_DEBUG :: u32 where "ALP_WDT_PAUSE_HALTED_BY_DEBUG \<equiv> 2"

record wdt_config =
  wc_wdt_id :: u32
  wc_timeout_ms :: u32
  wc_on_timeout :: u32
  wc_on_expire :: "nat option"
  wc_user :: "nat option"
  wc_window_min_ms :: u32
  wc_flags :: u32

record wdt_state =
  ws_dev :: "nat option"
  ws_wdt_id :: u32
  ws_channel_id :: int
  ws_cfg :: wdt_config
  ws_be_data :: "nat option"

definition zero_wdt :: wdt_state where
  "zero_wdt = \<lparr>ws_dev = None, ws_wdt_id = 0, ws_channel_id = 0,
     ws_cfg = \<lparr>wc_wdt_id = 0, wc_timeout_ms = 0, wc_on_timeout = 0, wc_on_expire = None, wc_user = None, wc_window_min_ms = 0, wc_flags = 0\<rparr>,
     ws_be_data = None\<rparr>"

record 'w wdt_ops =
  wo_open :: "(wdt_config \<Rightarrow> wdt_state \<Rightarrow> alp_capabilities \<Rightarrow> 'w \<Rightarrow> alp_status \<times> wdt_state \<times> alp_capabilities \<times> 'w) option"
  wo_feed :: "(wdt_state \<Rightarrow> 'w \<Rightarrow> alp_status \<times> wdt_state \<times> 'w) option"
  wo_disable :: "(wdt_state \<Rightarrow> 'w \<Rightarrow> alp_status \<times> wdt_state \<times> 'w) option"
  wo_close :: "(wdt_state \<Rightarrow> 'w \<Rightarrow> wdt_state \<times> 'w) option"

type_synonym 'w wdt_pool = "('w wdt_ops, wdt_state) pool"

definition wdt_alloc :: "u32 \<Rightarrow> 'w wdt_pool \<Rightarrow> (nat \<times> 'w wdt_pool) option" where
  "wdt_alloc wdt_id = slot_alloc zero_wdt (unat wdt_id)"

definition wdt_config_refused :: "wdt_config \<Rightarrow> bool" where
  "wdt_config_refused cfg \<longleftrightarrow>
     wc_timeout_ms cfg = 0 \<or> wc_wdt_id cfg \<ge> of_nat MAX_WDT_HANDLES \<or>
     (wc_on_timeout cfg = ALP_WDT_INTERRUPT_ONLY \<and> wc_on_expire cfg = None) \<or>
     wc_window_min_ms cfg \<ge> wc_timeout_ms cfg \<or>
     wc_flags cfg AND NOT (ALP_WDT_PAUSE_IN_SLEEP OR ALP_WDT_PAUSE_HALTED_BY_DEBUG) \<noteq> 0"

definition alp_wdt_open ::
  "('w wdt_ops, 'w) pool_build \<Rightarrow> wdt_config option \<Rightarrow> 'w wdt_pool \<Rightarrow> 'w \<Rightarrow> nat option \<times> alp_status \<times> 'w wdt_pool \<times> 'w" where
  "alp_wdt_open pb cfg pool w =
     (case cfg of
        None \<Rightarrow> (None, ALP_ERR_INVAL, pool, w)
      | Some cfg \<Rightarrow>
          if wdt_config_refused cfg then (None, ALP_ERR_INVAL, pool, w)
          else pool_open pb ''wdt'' (wdt_alloc (wc_wdt_id cfg)) ALP_ERR_BUSY
                 (\<lambda>ops. map_option (\<lambda>f. f cfg) (wo_open ops)) (wc_wdt_id cfg) pool w)"

definition alp_wdt_feed :: "nat option \<Rightarrow> 'w wdt_pool \<Rightarrow> 'w \<Rightarrow> alp_status \<times> 'w wdt_pool \<times> 'w" where
  "alp_wdt_feed h = pool_op h ALP_ERR_NOT_READY (\<lambda>ops. call_op (wo_feed ops) ALP_ERR_NOSUPPORT)"

definition alp_wdt_disable :: "nat option \<Rightarrow> 'w wdt_pool \<Rightarrow> 'w \<Rightarrow> alp_status \<times> 'w wdt_pool \<times> 'w" where
  "alp_wdt_disable h = pool_op h ALP_ERR_NOT_READY (\<lambda>ops. call_op (wo_disable ops) ALP_ERR_NOSUPPORT)"

definition alp_wdt_close :: "nat option \<Rightarrow> 'w wdt_pool \<Rightarrow> 'w \<Rightarrow> ('w wdt_pool \<times> 'w) option" where
  "alp_wdt_close = pool_close wo_close (\<lambda>s. s)"

definition alp_wdt_capabilities :: "nat option \<Rightarrow> 'w wdt_pool \<Rightarrow> alp_capabilities option" where
  "alp_wdt_capabilities = pool_capabilities"

section \<open>The classes keep the contract\<close>

text \<open>The operations of a class as one function of a call.\<close>

datatype counter_call =
    Counter_Start
  | Counter_Stop
  | Counter_Get_Value "u32 option"
  | Counter_Us_To_Ticks u32 "u32 option"
  | Counter_Set_Alarm u32 "nat option" "nat option"
  | Counter_Cancel_Alarm

fun counter_step :: "counter_call \<Rightarrow> nat option \<Rightarrow> 'w counter_pool \<Rightarrow> 'w \<Rightarrow> 'w counter_pool \<times> 'w" where
  "counter_step Counter_Start h pool w = snd (alp_counter_start h pool w)"
| "counter_step Counter_Stop h pool w = snd (alp_counter_stop h pool w)"
| "counter_step (Counter_Get_Value t) h pool w = snd (alp_counter_get_value h t pool w)"
| "counter_step (Counter_Us_To_Ticks us t) h pool w = snd (alp_counter_us_to_ticks h us t pool w)"
| "counter_step (Counter_Set_Alarm n cb user) h pool w = snd (alp_counter_set_alarm h n cb user pool w)"
| "counter_step Counter_Cancel_Alarm h pool w = snd (alp_counter_cancel_alarm h pool w)"

datatype rtc_call = Rtc_Set_Time "rtc_time option" | Rtc_Get_Time "rtc_time option"

fun rtc_step :: "rtc_call \<Rightarrow> nat option \<Rightarrow> 'w rtc_pool \<Rightarrow> 'w \<Rightarrow> 'w rtc_pool \<times> 'w" where
  "rtc_step (Rtc_Set_Time t) h pool w = snd (alp_rtc_set_time h t pool w)"
| "rtc_step (Rtc_Get_Time t) h pool w = snd (alp_rtc_get_time h t pool w)"

datatype wdt_call = Wdt_Feed | Wdt_Disable

fun wdt_step :: "wdt_call \<Rightarrow> nat option \<Rightarrow> 'w wdt_pool \<Rightarrow> 'w \<Rightarrow> 'w wdt_pool \<times> 'w" where
  "wdt_step Wdt_Feed h pool w = snd (alp_wdt_feed h pool w)"
| "wdt_step Wdt_Disable h pool w = snd (alp_wdt_disable h pool w)"

text \<open>Every operation is refused before the guard or runs in it.\<close>

lemma counter_step_law:
  assumes "pool_ok pool" "\<forall>i \<in> set_option h. i < length pool"
  shows "op_outcome h pool (fst (counter_step a h pool w))"
  using assms
  by (cases a) (simp_all add: alp_counter_start_def alp_counter_stop_def alp_counter_get_value_def alp_counter_us_to_ticks_def
      alp_counter_set_alarm_def alp_counter_cancel_alarm_def Let_def case_prod_beta pool_op_keeps op_outcome_refl split: option.split)

lemma rtc_step_law:
  assumes "pool_ok pool" "\<forall>i \<in> set_option h. i < length pool"
  shows "op_outcome h pool (fst (rtc_step a h pool w))"
  using assms
  by (cases a) (simp_all add: alp_rtc_set_time_def alp_rtc_get_time_def Let_def case_prod_beta pool_op_keeps op_outcome_refl
      split: option.split)

lemma wdt_step_law:
  assumes "pool_ok pool" "\<forall>i \<in> set_option h. i < length pool"
  shows "op_outcome h pool (fst (wdt_step a h pool w))"
  using assms by (cases a) (simp_all add: alp_wdt_feed_def alp_wdt_disable_def pool_op_keeps)

lemma counter_open_law: "pool_ok pool \<Longrightarrow> open_outcome pool (alp_counter_open pb c pool w)"
  by (simp add: alp_counter_open_def counter_alloc_def open_outcome_refused pool_open_scan split: option.split)

lemma rtc_open_law: "pool_ok pool \<Longrightarrow> open_outcome pool (alp_rtc_open pb c pool w)"
  by (simp add: alp_rtc_open_def rtc_alloc_def pool_open_scan)

lemma wdt_open_law:
  assumes "pool_ok pool" "length pool = MAX_WDT_HANDLES"
  shows "open_outcome pool (alp_wdt_open pb c pool w)"
proof -
  have "unat (wc_wdt_id cfg) < MAX_WDT_HANDLES" if "\<not> wdt_config_refused cfg" for cfg
    using that by (simp add: wdt_config_refused_def word_less_nat_alt not_le)
  then show ?thesis
    using assms by (simp add: alp_wdt_open_def wdt_alloc_def open_outcome_refused pool_open_slot split: option.split)
qed

interpretation counter: pooled_class "alp_counter_open pb" counter_step alp_counter_close MAX_COUNTER_HANDLES for pb
  by unfold_locales (auto simp: counter_open_law counter_step_law alp_counter_close_def intro!: pool_close_outcome)

interpretation rtc: pooled_class "alp_rtc_open pb" rtc_step alp_rtc_close MAX_RTC_HANDLES for pb
  by unfold_locales (auto simp: rtc_open_law rtc_step_law alp_rtc_close_def intro!: pool_close_outcome)

interpretation wdt: pooled_class "alp_wdt_open pb" wdt_step alp_wdt_close MAX_WDT_HANDLES for pb
  by unfold_locales (auto simp: wdt_open_law wdt_step_law alp_wdt_close_def intro!: pool_close_outcome)

section \<open>Properties\<close>

text \<open>A concrete build for the witnesses: one backend at address 0 for the class, on the SoC \<open>e7\<close>, whose
  operations answer \<open>ALP_OK\<close> and count their calls in the world.\<close>

definition sample_build :: "string \<Rightarrow> 'o \<Rightarrow> ('o, nat) pool_build" where
  "sample_build cls ops =
     \<lparr>pb_mem = (\<lambda>_. \<lparr>be_silicon_ref = Some ''e7'', be_vendor = None, be_base_caps = 1, be_base_class_flags = 0,
                 be_priority = 1, be_ops = Some ops\<rparr>),
      pb_classes = [\<lparr>cr_class_name = cls, cr_start = 0, cr_stop = 1\<rparr>], pb_soc = ''e7'', pb_probe = (\<lambda>_. None)\<rparr>"

definition sample_counter_ops :: "nat counter_ops" where
  "sample_counter_ops =
     \<lparr>co_open = Some (\<lambda>cfg s caps w. (ALP_OK, s\<lparr>cs_counter_id := cc_counter_id cfg\<rparr>, caps, Suc w)),
      co_start = None, co_stop = None, co_get_value = None, co_us_to_ticks = None,
      co_set_alarm = Some (\<lambda>n h s w. (if n = 0 then ALP_ERR_BUSY else ALP_OK, s, Suc w)), co_cancel_alarm = None, co_close = None\<rparr>"

definition sample_wdt_ops :: "nat wdt_ops" where
  "sample_wdt_ops =
     \<lparr>wo_open = Some (\<lambda>cfg s caps w. (ALP_OK, s\<lparr>ws_cfg := cfg\<rparr>, caps, Suc w)), wo_feed = Some (\<lambda>s w. (ALP_OK, s, Suc w)),
      wo_disable = None, wo_close = None\<rparr>"

text \<open>
  C37. Every session of the counter, RTC and watchdog classes is sound.  From the zeroed pool, for
  any sequence of opens, operations and closes, stale and repeated handles included, and whatever
  the backends answer: every close returns, no open hands out a handle that is already held, the
  claimed slots are exactly the held handles, between calls no operation is counted in flight and
  every claimed slot is open.
\<close>

theorem timer_sessions_sound:
  assumes "\<forall>c \<in> set counter_calls. \<forall>i \<in> set_option (call_handle c). i < MAX_COUNTER_HANDLES"
    and "\<forall>c \<in> set rtc_calls. \<forall>i \<in> set_option (call_handle c). i < MAX_RTC_HANDLES"
    and "\<forall>c \<in> set wdt_calls. \<forall>i \<in> set_option (call_handle c). i < MAX_WDT_HANDLES"
  shows "(\<exists>pool w'. session_run (alp_counter_open cb) counter_step alp_counter_close counter_calls
       (replicate MAX_COUNTER_HANDLES (zero_handle zero_counter False)) {} cw = Some (pool, live_slots pool, True, w') \<and>
       pool_ok pool \<and> length pool = MAX_COUNTER_HANDLES) \<and>
    (\<exists>pool w'. session_run (alp_rtc_open rb) rtc_step alp_rtc_close rtc_calls
       (replicate MAX_RTC_HANDLES (zero_handle zero_rtc False)) {} rw = Some (pool, live_slots pool, True, w') \<and>
       pool_ok pool \<and> length pool = MAX_RTC_HANDLES) \<and>
    (\<exists>pool w'. session_run (alp_wdt_open wb) wdt_step alp_wdt_close wdt_calls
       (replicate MAX_WDT_HANDLES (zero_handle zero_wdt False)) {} ww = Some (pool, live_slots pool, True, w') \<and>
       pool_ok pool \<and> length pool = MAX_WDT_HANDLES)"
proof (intro conjI)
  show "\<exists>pool w'. session_run (alp_counter_open cb) counter_step alp_counter_close counter_calls
       (replicate MAX_COUNTER_HANDLES (zero_handle zero_counter False)) {} cw = Some (pool, live_slots pool, True, w') \<and>
       pool_ok pool \<and> length pool = MAX_COUNTER_HANDLES"
    using counter.fresh_session [of counter_calls cb zero_counter cw] assms(1) by fastforce
  show "\<exists>pool w'. session_run (alp_rtc_open rb) rtc_step alp_rtc_close rtc_calls
       (replicate MAX_RTC_HANDLES (zero_handle zero_rtc False)) {} rw = Some (pool, live_slots pool, True, w') \<and>
       pool_ok pool \<and> length pool = MAX_RTC_HANDLES"
    using rtc.fresh_session [of rtc_calls rb zero_rtc rw] assms(2) by fastforce
  show "\<exists>pool w'. session_run (alp_wdt_open wb) wdt_step alp_wdt_close wdt_calls
       (replicate MAX_WDT_HANDLES (zero_handle zero_wdt False)) {} ww = Some (pool, live_slots pool, True, w') \<and>
       pool_ok pool \<and> length pool = MAX_WDT_HANDLES"
    using wdt.fresh_session [of wdt_calls wb zero_wdt ww] assms(3) by fastforce
qed

definition sample_wdt_config :: wdt_config where
  "sample_wdt_config = \<lparr>wc_wdt_id = 1, wc_timeout_ms = 100, wc_on_timeout = 0, wc_on_expire = None, wc_user = None,
     wc_window_min_ms = 0, wc_flags = 0\<rparr>"

text \<open>An open, a close and a reuse of the stale counter handle; a watchdog opened twice.\<close>

theorem timer_sessions_sound_witness:
  "(\<exists>pool w'. session_run (alp_counter_open (sample_build ''counter'' sample_counter_ops)) counter_step alp_counter_close
      [Call_Open (Some \<lparr>cc_counter_id = 0\<rparr>), Call_Op (Counter_Set_Alarm 5 (Some 9) None) (Some 0), Call_Close (Some 0),
       Call_Op Counter_Start (Some 0), Call_Close (Some 0)]
      (replicate MAX_COUNTER_HANDLES (zero_handle zero_counter False)) {} 0 = Some (pool, live_slots pool, True, w') \<and>
      pool_ok pool \<and> length pool = MAX_COUNTER_HANDLES) \<and>
   (\<exists>pool w'. session_run (alp_wdt_open (sample_build ''wdt'' sample_wdt_ops)) wdt_step alp_wdt_close
      [Call_Open (Some sample_wdt_config), Call_Open (Some sample_wdt_config), Call_Op Wdt_Feed (Some 1)]
      (replicate MAX_WDT_HANDLES (zero_handle zero_wdt False)) {} 0 = Some (pool, live_slots pool, True, w') \<and>
      pool_ok pool \<and> length pool = MAX_WDT_HANDLES)"
  using timer_sessions_sound [of
      "[Call_Open (Some \<lparr>cc_counter_id = 0\<rparr>), Call_Op (Counter_Set_Alarm 5 (Some 9) None) (Some 0), Call_Close (Some 0),
        Call_Op Counter_Start (Some 0), Call_Close (Some 0)]" "[]"
      "[Call_Open (Some sample_wdt_config), Call_Open (Some sample_wdt_config), Call_Op Wdt_Feed (Some 1)]"
      "sample_build ''counter'' sample_counter_ops" 0 undefined undefined "sample_build ''wdt'' sample_wdt_ops" 0]
  by (auto simp del: session_run.simps)

text \<open>
  A free counter slot never holds an alarm callback.  When no registered backend installs a
  callback while it opens, then throughout every session the callback of every slot that is not
  held is NULL, so that an alarm a driver left armed cannot call into a closed handle.
\<close>

theorem counter_alarm_lifetime:
  assumes "\<forall>c \<in> set calls. \<forall>i \<in> set_option (call_handle c). i < MAX_COUNTER_HANDLES"
    and quiet: "\<forall>be ops f cfg caps w. be_ops (pb_mem pb be) = Some ops \<longrightarrow> co_open ops = Some f \<longrightarrow>
      cs_alarm_cb (fst (snd (f cfg zero_counter caps w))) = None"
  shows "\<exists>pool held w'. session_run (alp_counter_open pb) counter_step alp_counter_close calls
      (replicate MAX_COUNTER_HANDLES (zero_handle zero_counter False)) {} w = Some (pool, held, True, w') \<and>
    (\<forall>i < MAX_COUNTER_HANDLES. i \<notin> held \<longrightarrow> cs_alarm_cb (ph_state (pool ! i)) = None)"
proof -
  let ?p = "replicate MAX_COUNTER_HANDLES (zero_handle zero_counter False) :: 'a counter_pool" and ?Q = "\<lambda>s. cs_alarm_cb s = None"
  obtain pool w' where r: "session_run (alp_counter_open pb) counter_step alp_counter_close calls ?p {} w = Some (pool, live_slots pool, True, w')"
    and len: "length pool = MAX_COUNTER_HANDLES"
    using counter.fresh_session [of calls pb zero_counter w] assms(1) by fastforce
  have "idle_states ?Q pool"
  proof (rule counter.session_keeps [OF r])
    show "pool_ok ?p" "idle_states ?Q ?p" by (auto simp: pool_ok_def handle_ok_def idle_states_def zero_counter_def)
    show "i < MAX_COUNTER_HANDLES" if "c \<in> set calls" "call_handle c = Some i" for c i using assms(1) that by fastforce
    show "idle_states ?Q (fst (snd (snd (alp_counter_open pb c p w))))" if "idle_states ?Q p" for c p w
      using that quiet by (auto simp: alp_counter_open_def counter_alloc_def intro!: idle_states_open split: option.split)
    show "idle_states ?Q (fst (counter_step a h p w))"
      if "pool_ok p" "length p = MAX_COUNTER_HANDLES" "idle_states ?Q p" "\<forall>i \<in> set_option h. i < MAX_COUNTER_HANDLES" for a h p w
      using that by (intro idle_states_op [OF that(3) counter_step_law]) auto
    show "idle_states ?Q p'"
      if "pool_ok p" "length p = MAX_COUNTER_HANDLES" "idle_states ?Q p" "\<forall>i \<in> set_option h. i < MAX_COUNTER_HANDLES"
        "alp_counter_close h p w = Some (p', w')" for h p w p' w'
      using that(2,4) by (intro idle_states_close [OF that(3) _ _ that(1) that(5) [unfolded alp_counter_close_def]]) auto
  qed simp
  then show ?thesis using r len by (auto simp: idle_states_nth live_slots_def)
qed

theorem counter_alarm_lifetime_witness:
  "\<exists>pool held w'. session_run (alp_counter_open (sample_build ''counter'' sample_counter_ops)) counter_step alp_counter_close
      [Call_Open (Some \<lparr>cc_counter_id = 0\<rparr>), Call_Op (Counter_Set_Alarm 5 (Some 9) None) (Some 0), Call_Close (Some 0)]
      (replicate MAX_COUNTER_HANDLES (zero_handle zero_counter False)) {} 0 = Some (pool, held, True, w') \<and>
    (\<forall>i < MAX_COUNTER_HANDLES. i \<notin> held \<longrightarrow> cs_alarm_cb (ph_state (pool ! i)) = None)"
  by (rule counter_alarm_lifetime) (auto simp: sample_build_def sample_counter_ops_def zero_counter_def)

lemma set_alarm_body_law:
  assumes "set_alarm_body i n cb user ops s w = (rc, s', w')"
  shows "rc \<noteq> ALP_OK \<Longrightarrow> cs_alarm_cb s' = None \<and> cs_alarm_user s' = None"
    and "rc = ALP_OK \<Longrightarrow> \<forall>f \<in> set_option (co_set_alarm ops). \<forall>s w. fst (snd (f n i s w)) = s \<Longrightarrow>
      cs_alarm_cb s' = Some cb \<and> cs_alarm_user s' = user"
proof -
  let ?s = "s\<lparr>cs_alarm_cb := Some cb, cs_alarm_user := user\<rparr>"
  obtain r t v where c: "call_op (map_option (\<lambda>f. f n i) (co_set_alarm ops)) ALP_ERR_NOSUPPORT ?s w = (r, t, v)" by (metis prod_cases3)
  then have eq: "rc = r" "s' = (if r \<noteq> ALP_OK then t\<lparr>cs_alarm_cb := None, cs_alarm_user := None\<rparr> else t)"
    using assms by (simp_all add: set_alarm_body_def split: if_splits)
  show "cs_alarm_cb s' = None \<and> cs_alarm_user s' = None" if "rc \<noteq> ALP_OK" using that eq by simp
  assume *: "rc = ALP_OK" "\<forall>f \<in> set_option (co_set_alarm ops). \<forall>s w. fst (snd (f n i s w)) = s"
  then obtain f where f: "co_set_alarm ops = Some f" "f n i ?s w = (r, t, v)" using c eq(1) by (auto simp: call_op_def split: option.splits)
  have "fst (snd (f n i ?s w)) = ?s" using *(2) f(1) by simp
  then have "t = ?s" using f(2) by simp
  then show "cs_alarm_cb s' = Some cb \<and> cs_alarm_user s' = user" using eq *(1) by simp
qed

text \<open>
  An alarm callback is armed only by a call that succeeds.  On an open handle, when
  \<^verbatim>\<open>alp_counter_set_alarm\<close> fails its callback and user pointer are taken back; when it succeeds with a
  backend that leaves them alone they are the caller's; after \<^verbatim>\<open>alp_counter_cancel_alarm\<close> and
  \<^verbatim>\<open>alp_counter_close\<close> they are NULL whatever the backend answers; and no other handle changes.
\<close>

theorem alarm_armed_by_success:
  assumes "pool_ok pool" "i \<in> live_slots pool"
  shows "(case alp_counter_set_alarm (Some i) n (Some cb) user pool w of (rc, pool', w') \<Rightarrow>
       (rc \<noteq> ALP_OK \<longrightarrow> cs_alarm_cb (ph_state (pool' ! i)) = None \<and> cs_alarm_user (ph_state (pool' ! i)) = None) \<and>
       (rc = ALP_OK \<and> (\<forall>f \<in> set_option (co_set_alarm (the (ph_ops (pool ! i)))). \<forall>s w. fst (snd (f n i s w)) = s) \<longrightarrow>
          cs_alarm_cb (ph_state (pool' ! i)) = Some cb \<and> cs_alarm_user (ph_state (pool' ! i)) = user) \<and>
       (\<forall>j. j \<noteq> i \<longrightarrow> pool' ! j = pool ! j)) \<and>
     (case alp_counter_cancel_alarm (Some i) pool w of (rc, pool', w') \<Rightarrow>
       cs_alarm_cb (ph_state (pool' ! i)) = None \<and> cs_alarm_user (ph_state (pool' ! i)) = None \<and>
       (\<forall>j. j \<noteq> i \<longrightarrow> pool' ! j = pool ! j)) \<and>
     (case alp_counter_close (Some i) pool w of
        None \<Rightarrow> False
      | Some (pool', w') \<Rightarrow> cs_alarm_cb (ph_state (pool' ! i)) = None \<and> cs_alarm_user (ph_state (pool' ! i)) = None \<and>
          \<not> ph_in_use (pool' ! i) \<and> (\<forall>j. j \<noteq> i \<longrightarrow> pool' ! j = pool ! j))"
proof (intro conjI)
  note i = live_handle(1) [OF assms]
  let ?ops = "the (ph_ops (pool ! i))" and ?s = "ph_state (pool ! i)"
  obtain rc s w1 where b: "set_alarm_body i n cb user ?ops ?s w = (rc, s, w1)" by (metis prod_cases3)
  show "case alp_counter_set_alarm (Some i) n (Some cb) user pool w of (rc, pool', w') \<Rightarrow>
       (rc \<noteq> ALP_OK \<longrightarrow> cs_alarm_cb (ph_state (pool' ! i)) = None \<and> cs_alarm_user (ph_state (pool' ! i)) = None) \<and>
       (rc = ALP_OK \<and> (\<forall>f \<in> set_option (co_set_alarm (the (ph_ops (pool ! i)))). \<forall>s w. fst (snd (f n i s w)) = s) \<longrightarrow>
          cs_alarm_cb (ph_state (pool' ! i)) = Some cb \<and> cs_alarm_user (ph_state (pool' ! i)) = user) \<and>
       (\<forall>j. j \<noteq> i \<longrightarrow> pool' ! j = pool ! j)"
    using i set_alarm_body_law [OF b] by (simp add: alp_counter_set_alarm_def pool_op_live [OF assms] b)
  show "case alp_counter_cancel_alarm (Some i) pool w of (rc, pool', w') \<Rightarrow>
       cs_alarm_cb (ph_state (pool' ! i)) = None \<and> cs_alarm_user (ph_state (pool' ! i)) = None \<and> (\<forall>j. j \<noteq> i \<longrightarrow> pool' ! j = pool ! j)"
    using i by (simp add: alp_counter_cancel_alarm_def pool_op_live [OF assms] split: prod.split)
  show "case alp_counter_close (Some i) pool w of
        None \<Rightarrow> False
      | Some (pool', w') \<Rightarrow> cs_alarm_cb (ph_state (pool' ! i)) = None \<and> cs_alarm_user (ph_state (pool' ! i)) = None \<and>
          \<not> ph_in_use (pool' ! i) \<and> (\<forall>j. j \<noteq> i \<longrightarrow> pool' ! j = pool ! j)"
    using i pool_close_live [OF assms, of co_close "\<lambda>s. s\<lparr>cs_alarm_cb := None, cs_alarm_user := None\<rparr>" w]
    by (auto simp: alp_counter_close_def)
qed

definition one_open_counter :: "nat counter_pool" where
  "one_open_counter = [(zero_handle zero_counter True)\<lparr>ph_ops := Some sample_counter_ops, ph_lifecycle := ALP_HANDLE_LC_OPEN\<rparr>]"

text \<open>The sample backend refuses an alarm 0 ticks away and accepts one 5 ticks away.\<close>

theorem alarm_armed_by_success_witness:
  "fst (alp_counter_set_alarm (Some 0) 0 (Some 9) None one_open_counter 0) = ALP_ERR_BUSY \<and>
   cs_alarm_cb (ph_state (fst (snd (alp_counter_set_alarm (Some 0) 0 (Some 9) None one_open_counter 0)) ! 0)) = None \<and>
   cs_alarm_cb (ph_state (fst (snd (alp_counter_set_alarm (Some 0) 5 (Some 9) None one_open_counter 0)) ! 0)) = Some 9"
proof -
  have ok: "pool_ok one_open_counter" "0 \<in> live_slots one_open_counter"
    by (simp_all add: one_open_counter_def pool_ok_def handle_ok_def live_slots_def)
  have rc: "fst (alp_counter_set_alarm (Some 0) n (Some 9) None one_open_counter 0) = (if n = 0 then ALP_ERR_BUSY else ALP_OK)" for n
    by (simp add: alp_counter_set_alarm_def pool_op_live [OF ok] split: prod.split)
      (simp add: set_alarm_body_def call_op_def one_open_counter_def sample_counter_ops_def Let_def)
  show ?thesis
    using alarm_armed_by_success [OF ok, of 0 9 None 0] alarm_armed_by_success [OF ok, of 5 9 None 0] rc [of 0] rc [of 5]
    by (auto simp: one_open_counter_def sample_counter_ops_def split: prod.splits)
qed

text \<open>
  A watchdog instance has one owner.  For a configuration the dispatcher accepts, on a build
  with a watchdog backend, \<^verbatim>\<open>alp_wdt_open\<close> answers \<^verbatim>\<open>ALP_ERR_BUSY\<close> without touching the pool or the
  hardware while the instance is open, and otherwise hands the instance's own slot to the backend:
  the handle is the slot of \<^verbatim>\<open>wdt_id\<close> when the backend opens it, and the status is the backend's.
\<close>

theorem wdt_single_owner:
  assumes "pool_ok pool" "length pool = MAX_WDT_HANDLES" "\<not> wdt_config_refused cfg"
    and "alp_backend_select (pb_mem pb) (pb_classes pb) (Some ''wdt'') (Some (pb_soc pb)) = Some be"
    and "be_ops (pb_mem pb be) = Some ops" "wo_open ops = Some f"
  shows "if unat (wc_wdt_id cfg) \<in> live_slots pool then alp_wdt_open pb (Some cfg) pool w = (None, ALP_ERR_BUSY, pool, w)
     else (case alp_wdt_open pb (Some cfg) pool w of (h, rc, pool', w') \<Rightarrow>
        (\<exists>caps w1 st caps'. probed_caps pb be (wc_wdt_id cfg) w = (caps, w1) \<and> f cfg zero_wdt caps w1 = (rc, st, caps', w')) \<and>
        h = (if rc = ALP_OK then Some (unat (wc_wdt_id cfg)) else None) \<and>
        live_slots pool' = (if rc = ALP_OK then insert (unat (wc_wdt_id cfg)) (live_slots pool) else live_slots pool))"
proof -
  have id: "unat (wc_wdt_id cfg) < length pool"
    using assms(2,3) by (simp add: wdt_config_refused_def word_less_nat_alt not_le)
  then have live: "unat (wc_wdt_id cfg) \<in> live_slots pool \<longleftrightarrow> ph_in_use (pool ! unat (wc_wdt_id cfg))" by (simp add: live_slots_def)
  show ?thesis
    using assms(3-6) id live
    by (auto simp: alp_wdt_open_def pool_open_def wdt_alloc_def slot_alloc_def alp_slot_try_claim_def pool_free_def alp_slot_release_def
        alp_lifecycle_set_def live_update Let_def split: prod.splits)
qed

text \<open>The first open of watchdog 1 succeeds and the second is refused.\<close>

theorem wdt_single_owner_witness:
  "case alp_wdt_open (sample_build ''wdt'' sample_wdt_ops) (Some sample_wdt_config) (replicate 2 (zero_handle zero_wdt False)) 0 of
     (h, rc, pool, w) \<Rightarrow> h = Some 1 \<and> rc = ALP_OK \<and>
       alp_wdt_open (sample_build ''wdt'' sample_wdt_ops) (Some sample_wdt_config) pool w = (None, ALP_ERR_BUSY, pool, w)"
proof -
  let ?pb = "sample_build ''wdt'' sample_wdt_ops" and ?z = "replicate 2 (zero_handle zero_wdt False) :: nat wdt_pool"
  have sel: "alp_backend_select (pb_mem ?pb) (pb_classes ?pb) (Some ''wdt'') (Some (pb_soc ?pb)) = Some 0"
    by (simp add: alp_backend_select_def alp_backend_select_next_def sample_build_def select_in_range_def select_step_def
        candidate_beats_best_def is_wildcard_def upt_rec)
  have ops: "be_ops (pb_mem ?pb 0) = Some sample_wdt_ops" "wo_open sample_wdt_ops = Some (\<lambda>cfg s caps w. (ALP_OK, s\<lparr>ws_cfg := cfg\<rparr>, caps, Suc w))"
    by (simp_all add: sample_build_def sample_wdt_ops_def)
  have cfg: "\<not> wdt_config_refused sample_wdt_config" "unat (wc_wdt_id sample_wdt_config) = 1"
    by (simp_all add: wdt_config_refused_def sample_wdt_config_def word_le_nat_alt)
  have z: "pool_ok ?z" "length ?z = 2" "live_slots ?z = {}" by (auto simp: pool_ok_def handle_ok_def live_slots_def)
  obtain h rc pool w where o: "alp_wdt_open ?pb (Some sample_wdt_config) ?z 0 = (h, rc, pool, w)" by (metis prod_cases4)
  have first: "h = Some 1" "rc = ALP_OK" "live_slots pool = {1}"
    using wdt_single_owner [OF z(1,2) cfg(1) sel ops, of 0] z(3) cfg(2) o by auto
  have "pool_ok pool" "length pool = 2" using wdt_open_law [OF z(1,2), of ?pb "Some sample_wdt_config" 0] o z(2)
    by (simp_all add: open_outcome_def)
  then show ?thesis using wdt_single_owner [OF _ _ cfg(1) sel ops, of pool w] first cfg(2) o by simp
qed

end
