(* ===== verification/Dsp_Decimator.thy ===== *)
theory Dsp_Decimator
  imports Alp_Prelude
begin

text \<open>
  The streaming integer-ratio decimator (\<^verbatim>\<open>src/dsp_decimator.c\<close>): per-channel history in a
  double-length circular buffer, a symmetric 135-tap FIR folded into 67 products and a centre
  tap, and one output frame for every \<open>ratio\<close> input frames.

  Samples and taps are 16-bit words read as signed; the accumulator is an integer, since 135
  products of 16-bit values stay far inside \<^verbatim>\<open>int64_t\<close>.  Indices, counts, the ratio and the phase
  are natural numbers below 270.  The specification runs the filter in its direct form over the
  last 135 samples of each channel, with no circular buffer and no folding.
\<close>

section \<open>Tap tables\<close>

abbreviation (input) ALP_DSP_DECIMATOR_TAPS :: nat where "ALP_DSP_DECIMATOR_TAPS \<equiv> 135"
abbreviation (input) ALP_DSP_DECIMATOR_MAX_CHANNELS :: nat where "ALP_DSP_DECIMATOR_MAX_CHANNELS \<equiv> 2"

definition dsp_decim_coeffs_r2 :: "i16 list" where
  "dsp_decim_coeffs_r2 =
    [- 1, 0, 2, 0, - 3, 0, 5, 0, - 7, 0, 9, 0, - 13, 0, 17,
     0, - 22, 0, 28, 0, - 36, 0, 45, 0, - 55, 0, 67, 0, - 81, 0,
     97, 0, - 116, 0, 138, 0, - 162, 0, 191, 0, - 224, 0, 262, 0, - 307,
     0, 359, 0, - 421, 0, 497, 0, - 590, 0, 710, 0, - 869, 0, 1093, 0,
     - 1438, 0, 2049, 0, - 3454, 0, 10423, 16382, 10423, 0, - 3454, 0, 2049, 0, - 1438,
     0, 1093, 0, - 869, 0, 710, 0, - 590, 0, 497, 0, - 421, 0, 359, 0,
     - 307, 0, 262, 0, - 224, 0, 191, 0, - 162, 0, 138, 0, - 116, 0, 97,
     0, - 81, 0, 67, 0, - 55, 0, 45, 0, - 36, 0, 28, 0, - 22, 0,
     17, 0, - 13, 0, 9, 0, - 7, 0, 5, 0, - 3, 0, 2, 0, - 1]"

definition dsp_decim_coeffs_r3 :: "i16 list" where
  "dsp_decim_coeffs_r3 =
    [1, 0, - 2, - 2, 0, 3, 4, 0, - 6, - 7, 0, 10, 11, 0, - 15,
     - 17, 0, 22, 25, 0, - 31, - 35, 0, 43, 47, 0, - 58, - 64, 0, 77,
     84, 0, - 100, - 109, 0, 129, 141, 0, - 165, - 179, 0, 210, 227, 0, - 266,
     - 287, 0, 337, 365, 0, - 430, - 469, 0, 560, 615, 0, - 752, - 840, 0, 1078,
     1246, 0, - 1774, - 2232, 0, 4504, 9027, 10916, 9027, 4504, 0, - 2232, - 1774, 0, 1246,
     1078, 0, - 840, - 752, 0, 615, 560, 0, - 469, - 430, 0, 365, 337, 0, - 287,
     - 266, 0, 227, 210, 0, - 179, - 165, 0, 141, 129, 0, - 109, - 100, 0, 84,
     77, 0, - 64, - 58, 0, 47, 43, 0, - 35, - 31, 0, 25, 22, 0, - 17,
     - 15, 0, 11, 10, 0, - 7, - 6, 0, 4, 3, 0, - 2, - 2, 0, 1]"

definition dsp_decim_coeffs_r4 :: "i16 list" where
  "dsp_decim_coeffs_r4 =
    [1, 1, 1, 0, - 2, - 4, - 3, 0, 5, 8, 7, 0, - 9, - 15, - 12,
     0, 16, 25, 20, 0, - 25, - 40, - 31, 0, 39, 61, 47, 0, - 57, - 89,
     - 69, 0, 82, 126, 97, 0, - 115, - 176, - 135, 0, 158, 242, 185, 0, - 217,
     - 332, - 254, 0, 298, 457, 351, 0, - 417, - 646, - 502, 0, 614, 970, 773, 0,
     - 1017, - 1694, - 1449, 0, 2443, 5200, 7370, 8194, 7370, 5200, 2443, 0, - 1449, - 1694, - 1017,
     0, 773, 970, 614, 0, - 502, - 646, - 417, 0, 351, 457, 298, 0, - 254, - 332,
     - 217, 0, 185, 242, 158, 0, - 135, - 176, - 115, 0, 97, 126, 82, 0, - 69,
     - 89, - 57, 0, 47, 61, 39, 0, - 31, - 40, - 25, 0, 20, 25, 16, 0,
     - 12, - 15, - 9, 0, 7, 8, 5, 0, - 3, - 4, - 2, 0, 1, 1, 1]"

definition dsp_decim_coeffs_r6 :: "i16 list" where
  "dsp_decim_coeffs_r6 =
    [0, 0, 1, 2, 3, 3, 2, 0, - 3, - 7, - 9, - 10, - 6, 0, 9,
     17, 22, 22, 14, 0, - 18, - 35, - 45, - 43, - 27, 0, 33, 64, 81, 77,
     49, 0, - 58, - 109, - 138, - 129, - 81, 0, 95, 179, 224, 210, 131, 0, - 153,
     - 287, - 359, - 337, - 211, 0, 248, 468, 590, 560, 355, 0, - 434, - 840, - 1093, - 1078,
     - 719, 0, 1024, 2232, 3454, 4503, 5211, 5460, 5211, 4503, 3454, 2232, 1024, 0, - 719,
     - 1078, - 1093, - 840, - 434, 0, 355, 560, 590, 468, 248, 0, - 211, - 337, - 359, - 287,
     - 153, 0, 131, 210, 224, 179, 95, 0, - 81, - 129, - 138, - 109, - 58, 0, 49,
     77, 81, 64, 33, 0, - 27, - 43, - 45, - 35, - 18, 0, 14, 22, 22, 17,
     9, 0, - 6, - 10, - 9, - 7, - 3, 0, 2, 3, 3, 2, 1, 0, 0]"


definition alp_dsp_decim_lookup :: "nat \<Rightarrow> i16 list option" where
  "alp_dsp_decim_lookup ratio =
     (if ratio = 2 then Some dsp_decim_coeffs_r2
      else if ratio = 3 then Some dsp_decim_coeffs_r3
      else if ratio = 4 then Some dsp_decim_coeffs_r4
      else if ratio = 6 then Some dsp_decim_coeffs_r6
      else None)"

section \<open>The decimator\<close>

record decimator =
  dec_history :: "i16 list list"
  dec_write_idx :: "nat list"
  dec_coeffs :: "i16 list option"
  dec_ratio :: nat
  dec_phase :: nat
  dec_n_channels :: nat

definition dec_zero :: decimator where
  "dec_zero = \<lparr>dec_history = replicate ALP_DSP_DECIMATOR_MAX_CHANNELS (replicate (2 * ALP_DSP_DECIMATOR_TAPS) 0),
     dec_write_idx = replicate ALP_DSP_DECIMATOR_MAX_CHANNELS 0, dec_coeffs = None, dec_ratio = 0, dec_phase = 0,
     dec_n_channels = 0\<rparr>"

definition alp_dsp_decimator_init :: "decimator option \<Rightarrow> nat \<Rightarrow> nat \<Rightarrow> alp_status \<times> decimator option" where
  "alp_dsp_decimator_init dec ratio n_channels =
     (if dec = None \<or> n_channels = 0 \<or> n_channels > ALP_DSP_DECIMATOR_MAX_CHANNELS then (ALP_ERR_INVAL, dec) else
      case alp_dsp_decim_lookup ratio of
        None \<Rightarrow> (ALP_ERR_OUT_OF_RANGE, dec)
      | Some coeffs \<Rightarrow>
          (ALP_OK, Some (dec_zero\<lparr>dec_coeffs := Some coeffs, dec_ratio := ratio, dec_n_channels := n_channels\<rparr>)))"

definition alp_dsp_decimator_reset :: "decimator option \<Rightarrow> alp_status \<times> decimator option" where
  "alp_dsp_decimator_reset dec =
     (case dec of
        None \<Rightarrow> (ALP_ERR_INVAL, dec)
      | Some d \<Rightarrow>
          if dec_coeffs d = None \<or> dec_ratio d = 0 then (ALP_ERR_INVAL, dec)
          else (ALP_OK, Some (d\<lparr>dec_history := dec_history dec_zero, dec_write_idx := dec_write_idx dec_zero, dec_phase := 0\<rparr>)))"

section \<open>Processing a block\<close>

text \<open>One sample of channel \<open>ch\<close> into both copies of its history.\<close>

definition dec_push :: "nat \<Rightarrow> i16 \<Rightarrow> decimator \<Rightarrow> decimator" where
  "dec_push ch x dec =
     (let widx = dec_write_idx dec ! ch;
          h = (dec_history dec ! ch)[widx := x];
          h = h[widx + ALP_DSP_DECIMATOR_TAPS := x];
          widx = widx + 1;
          widx = (if widx = ALP_DSP_DECIMATOR_TAPS then 0 else widx)
      in dec\<lparr>dec_history := (dec_history dec)[ch := h], dec_write_idx := (dec_write_idx dec)[ch := widx]\<rparr>)"

text \<open>The folded filter: 67 mirrored pairs and the centre tap.\<close>

definition dec_fir :: "i16 list \<Rightarrow> i16 list \<Rightarrow> int" where
  "dec_fir coeffs window =
     (let taps = ALP_DSP_DECIMATOR_TAPS; half = taps div 2 in
      fold (\<lambda>j acc. acc + sint (coeffs ! j) * (sint (window ! j) + sint (window ! (taps - 1 - j)))) [0..<half]
        (sint (coeffs ! half) * sint (window ! half)))"

definition dec_saturate :: "int \<Rightarrow> i16" where
  "dec_saturate acc =
     (let y = drop_bit 15 acc;
          y = (if y > 32767 then 32767 else if y < - 32768 then - 32768 else y)
      in word_of_int y)"

text \<open>The body of the frame loop: the inner loops over the channels, then the phase.\<close>

definition dec_take_frame :: "i16 list \<Rightarrow> nat \<Rightarrow> decimator \<Rightarrow> decimator" where
  "dec_take_frame samples i dec =
     fold (\<lambda>ch. dec_push ch (samples ! (i * dec_n_channels dec + ch))) [0..<dec_n_channels dec] dec"

definition dec_emit_frame :: "i16 list \<Rightarrow> decimator \<Rightarrow> nat \<Rightarrow> i16 list \<Rightarrow> i16 list" where
  "dec_emit_frame coeffs dec produced out =
     fold (\<lambda>ch out. out[produced * dec_n_channels dec + ch :=
         dec_saturate (dec_fir coeffs (drop (dec_write_idx dec ! ch) (dec_history dec ! ch)))])
       [0..<dec_n_channels dec] out"

fun dec_loop :: "i16 list \<Rightarrow> i16 list \<Rightarrow> nat \<Rightarrow> nat \<Rightarrow> nat \<Rightarrow> i16 list \<Rightarrow> decimator \<Rightarrow> decimator \<times> i16 list \<times> nat" where
  "dec_loop coeffs samples i 0 produced out dec = (dec, out, produced)"
| "dec_loop coeffs samples i (Suc left) produced out dec =
     (let dec = dec_take_frame samples i dec;
          dec = dec\<lparr>dec_phase := dec_phase dec + 1\<rparr> in
      if dec_phase dec < dec_ratio dec then dec_loop coeffs samples (i + 1) left produced out dec
      else
        (let dec = dec\<lparr>dec_phase := 0\<rparr>
         in dec_loop coeffs samples (i + 1) left (produced + 1) (dec_emit_frame coeffs dec produced out) dec))"

text \<open>The output buffer and the frame count are passed with what they hold and returned with what
  they hold afterwards.\<close>

definition alp_dsp_decimator_process ::
  "decimator option \<Rightarrow> i16 list option \<Rightarrow> nat \<Rightarrow> i16 list option \<Rightarrow> nat \<Rightarrow> nat option \<Rightarrow>
   alp_status \<times> decimator option \<times> i16 list option \<times> nat option" where
  "alp_dsp_decimator_process dec samples in_frames out out_cap out_frames =
     (case (dec, samples, out, out_frames) of
        (Some d, Some samples, Some buf, Some _) \<Rightarrow>
          (case dec_coeffs d of
             None \<Rightarrow> (ALP_ERR_INVAL, dec, out, out_frames)
           | Some coeffs \<Rightarrow>
               if dec_ratio d = 0 then (ALP_ERR_INVAL, dec, out, out_frames)
               else if out_cap < (dec_phase d + in_frames) div dec_ratio d then (ALP_ERR_OUT_OF_RANGE, dec, out, out_frames)
               else
                 (let (d, buf, produced) = dec_loop coeffs samples 0 in_frames 0 buf d
                  in (ALP_OK, Some d, Some buf, Some produced)))
      | _ \<Rightarrow> (ALP_ERR_INVAL, dec, out, out_frames))"

section \<open>The specification\<close>

text \<open>The direct-form filter over the last 135 samples, oldest first.\<close>

definition fir_direct :: "i16 list \<Rightarrow> i16 list \<Rightarrow> int" where
  "fir_direct coeffs w = (\<Sum>j<ALP_DSP_DECIMATOR_TAPS. sint (coeffs ! j) * sint (w ! j))"

text \<open>The state: the last 135 samples of every channel and the phase; a run over frames returns the
  output frames.\<close>

fun fir_run :: "i16 list \<Rightarrow> nat \<Rightarrow> i16 list list \<Rightarrow> nat \<Rightarrow> i16 list list \<Rightarrow> i16 list list \<times> nat \<times> i16 list list" where
  "fir_run coeffs ratio ws phase [] = (ws, phase, [])"
| "fir_run coeffs ratio ws phase (f # fs) =
     (let ws = map2 (\<lambda>w x. tl w @ [x]) ws f in
      if phase + 1 < ratio then fir_run coeffs ratio ws (phase + 1) fs
      else
        (let (ws', phase', ys) = fir_run coeffs ratio ws 0 fs
         in (ws', phase', map (\<lambda>w. dec_saturate (fir_direct coeffs w)) ws # ys)))"

text \<open>Frame \<open>i\<close> of an interleaved buffer.\<close>

definition frame :: "nat \<Rightarrow> i16 list \<Rightarrow> nat \<Rightarrow> i16 list" where
  "frame n_ch samples i = take n_ch (drop (i * n_ch) samples)"

text \<open>The invariant: shapes, index ranges, and the two copies of the history agreeing.\<close>

definition dbl :: "i16 list \<Rightarrow> bool" where
  "dbl h \<longleftrightarrow> length h = 270 \<and> (\<forall>k<135. h ! k = h ! (k + 135))"

definition dec_wf :: "decimator \<Rightarrow> bool" where
  "dec_wf d \<longleftrightarrow> length (dec_history d) = 2 \<and> length (dec_write_idx d) = 2 \<and>
     (\<forall>ch<2. dbl (dec_history d ! ch) \<and> dec_write_idx d ! ch < 135) \<and>
     0 < dec_n_channels d \<and> dec_n_channels d \<le> 2 \<and> dec_phase d < dec_ratio d \<and>
     dec_coeffs d \<noteq> None \<and> alp_dsp_decim_lookup (dec_ratio d) = dec_coeffs d"

definition win :: "decimator \<Rightarrow> nat \<Rightarrow> i16 list" where
  "win d ch = take 135 (drop (dec_write_idx d ! ch) (dec_history d ! ch))"

definition dec_abs :: "decimator \<Rightarrow> i16 list list" where
  "dec_abs d = map (win d) [0..<dec_n_channels d]"

section \<open>The circular window\<close>

lemma ring_push:
  fixes x :: i16 and k :: nat and h :: "i16 list"
  assumes "dbl h" "k < 135"
  defines "h' \<equiv> h[k := x, k + 135 := x]" and "k' \<equiv> (if k + 1 = 135 then 0 else k + 1)"
  shows "dbl h'" "k' < 135" "take 135 (drop k' h') = tl (take 135 (drop k h)) @ [x]"
proof -
  have len: "length h = 270" "length h' = 270" using assms(1) by (simp_all add: dbl_def h'_def)
  show "dbl h'" using assms(1,2) by (auto simp: dbl_def h'_def nth_list_update)
  show "k' < 135" using assms(2) by (simp add: k'_def)
  have k': "k' + 135 \<le> 270" using assms(2) by (simp add: k'_def)
  show "take 135 (drop k' h') = tl (take 135 (drop k h)) @ [x]"
  proof (rule nth_equalityI)
    show "length (take 135 (drop k' h')) = length (tl (take 135 (drop k h)) @ [x])" using len k' assms(2) by simp
  next
    fix j assume "j < length (take 135 (drop k' h'))"
    then have j: "j < 135" by simp
    show "take 135 (drop k' h') ! j = (tl (take 135 (drop k h)) @ [x]) ! j"
    proof (cases "j = 134")
      case True
      then show ?thesis using len k' assms(2) by (auto simp: nth_append k'_def h'_def nth_list_update)
    next
      case False
      then have "(tl (take 135 (drop k h)) @ [x]) ! j = h ! (k + (j + 1))"
        using j len assms(2) by (simp add: nth_append nth_tl)
      moreover have "h' ! (k' + j) = h ! (k + (j + 1))"
      proof (cases "k + 1 = 135")
        case True
        then have "h' ! (k' + j) = h ! j" using j False by (simp add: k'_def h'_def)
        also have "\<dots> = h ! (j + 135)" using assms(1) j by (simp add: dbl_def)
        finally show ?thesis using True by (simp add: add.commute)
      next
        case k: False
        then show ?thesis using j False assms(2) by (simp add: k'_def h'_def)
      qed
      ultimately show ?thesis using j len k' by simp
    qed
  qed
qed

section \<open>The folded filter\<close>

lemma fold_add_sum: "fold (\<lambda>j acc. acc + f j) [0..<n] (a :: int) = a + (\<Sum>j<n. f j)"
  by (induction n) (simp_all add: add.assoc)

lemma folded_sum:
  fixes f :: "nat \<Rightarrow> int"
  shows "(\<Sum>j<135. f j) = f 67 + (\<Sum>j<67. f j + f (134 - j))"
proof -
  have "(\<Sum>j<135. f j) = (\<Sum>j\<in>{..<67} \<union> {67} \<union> {68..<135}. f j)" by (rule sum.cong) auto
  also have "\<dots> = (\<Sum>j<67. f j) + f 67 + (\<Sum>j\<in>{68..<135}. f j)" by (subst sum.union_disjoint; (subst sum.union_disjoint)?) auto
  also have "(\<Sum>j\<in>{68..<135}. f j) = (\<Sum>j<67. f (134 - j))"
    by (rule sum.reindex_bij_witness [of _ "\<lambda>j. 134 - j" "\<lambda>j. 134 - j"]) auto
  finally show ?thesis by (simp add: sum.distrib)
qed

lemma dec_fir_direct:
  assumes "\<And>j. j < 67 \<Longrightarrow> coeffs ! (134 - j) = coeffs ! j"
  shows "dec_fir coeffs w = fir_direct coeffs w"
proof -
  have "(\<Sum>j<67. sint (coeffs ! j) * (sint (w ! j) + sint (w ! (134 - j)))) =
      (\<Sum>j<67. sint (coeffs ! j) * sint (w ! j) + sint (coeffs ! (134 - j)) * sint (w ! (134 - j)))"
    by (rule sum.cong) (simp_all add: assms distrib_left)
  then show ?thesis by (simp add: dec_fir_def fir_direct_def fold_add_sum folded_sum)
qed

lemma fir_direct_take: "fir_direct coeffs (take 135 w) = fir_direct coeffs w"
  by (simp add: fir_direct_def)

lemma tables_symmetric: "alp_dsp_decim_lookup ratio = Some coeffs \<Longrightarrow> length coeffs = 135 \<and> rev coeffs = coeffs"
  by (auto simp: alp_dsp_decim_lookup_def dsp_decim_coeffs_r2_def dsp_decim_coeffs_r3_def dsp_decim_coeffs_r4_def
      dsp_decim_coeffs_r6_def split: if_splits)

lemma tables_unity: "alp_dsp_decim_lookup ratio = Some coeffs \<Longrightarrow> sum_list (map sint coeffs) = 32768"
  by (auto simp: alp_dsp_decim_lookup_def dsp_decim_coeffs_r2_def dsp_decim_coeffs_r3_def dsp_decim_coeffs_r4_def
      dsp_decim_coeffs_r6_def split: if_splits)

section \<open>The loop refines the specification\<close>

text \<open>What a step of the frame loop keeps.\<close>

definition same_config :: "decimator \<Rightarrow> decimator \<Rightarrow> bool" where
  "same_config d d' \<longleftrightarrow> dec_coeffs d' = dec_coeffs d \<and> dec_ratio d' = dec_ratio d \<and> dec_n_channels d' = dec_n_channels d"

lemma dec_push_correct:
  assumes "dec_wf d" "ch < 2"
  shows "dec_wf (dec_push ch x d)" "same_config d (dec_push ch x d)" "dec_phase (dec_push ch x d) = dec_phase d"
    "win (dec_push ch x d) ch = tl (win d ch) @ [x]" "c \<noteq> ch \<Longrightarrow> win (dec_push ch x d) c = win d c"
proof -
  let ?h = "dec_history d ! ch" and ?k = "dec_write_idx d ! ch"
  have hk: "dbl ?h" "?k < 135" using assms by (simp_all add: dec_wf_def)
  note R = ring_push(1) [OF hk, of x] ring_push(2) [OF hk] ring_push(3) [OF hk, of x]
  have l: "length (dec_history d) = 2" "length (dec_write_idx d) = 2" using assms(1) by (simp_all add: dec_wf_def)
  have eq: "dec_push ch x d = d\<lparr>dec_history := (dec_history d)[ch := ?h[?k := x, ?k + 135 := x]],
      dec_write_idx := (dec_write_idx d)[ch := if ?k + 1 = 135 then 0 else ?k + 1]\<rparr>"
    by (simp add: dec_push_def Let_def)
  show "dec_wf (dec_push ch x d)"
  proof -
    have "dbl ((dec_history d)[ch := H] ! c) \<and> (dec_write_idx d)[ch := K] ! c < 135" if "dbl H" "K < 135" "c < 2" for H K c
      using that l assms(1) by (cases "c = ch") (simp_all add: dec_wf_def)
    then show ?thesis using assms(1) R(1,2) unfolding eq by (simp add: dec_wf_def)
  qed
  show "same_config d (dec_push ch x d)" "dec_phase (dec_push ch x d) = dec_phase d" by (simp_all add: eq same_config_def)
  show "win (dec_push ch x d) ch = tl (win d ch) @ [x]"
    using R(3) l assms(2) unfolding eq win_def by simp
  show "win (dec_push ch x d) c = win d c" if "c \<noteq> ch" using that unfolding eq win_def by simp
qed

lemma dec_push_channels:
  fixes x :: "nat \<Rightarrow> i16"
  assumes "dec_wf d" "m \<le> 2"
  defines "d' \<equiv> fold (\<lambda>ch. dec_push ch (x ch)) [0..<m] d"
  shows "dec_wf d' \<and> same_config d d' \<and> dec_phase d' = dec_phase d \<and>
    (\<forall>c. win d' c = (if c < m then tl (win d c) @ [x c] else win d c))"
  using assms(2) unfolding d'_def
proof (induction m)
  case 0
  then show ?case using assms(1) by (simp add: same_config_def)
next
  case (Suc m)
  let ?e = "fold (\<lambda>ch. dec_push ch (x ch)) [0..<m] d"
  have IH: "dec_wf ?e" "same_config d ?e" "dec_phase ?e = dec_phase d"
    "\<And>c. win ?e c = (if c < m then tl (win d c) @ [x c] else win d c)" using Suc by auto
  note P = dec_push_correct [OF IH(1), where ch = m and x = "x m"]
  have eq: "fold (\<lambda>ch. dec_push ch (x ch)) [0..<Suc m] d = dec_push m (x m) ?e" by simp
  have "win (dec_push m (x m) ?e) c = (if c < Suc m then tl (win d c) @ [x c] else win d c)" for c
    using P(4) P(5) [where c = c] IH(4) Suc.prems by (cases "c = m") auto
  then show ?case using P(1-3) IH(2,3) Suc.prems unfolding eq by (simp add: same_config_def)
qed

lemma dec_take_frame_correct:
  fixes samples :: "i16 list" and i :: nat
  assumes "dec_wf d" "(i + 1) * dec_n_channels d \<le> length samples"
  defines "d' \<equiv> dec_take_frame samples i d"
  shows "dec_wf d'" "same_config d d'" "dec_phase d' = dec_phase d"
    "dec_abs d' = map2 (\<lambda>w x. tl w @ [x]) (dec_abs d) (frame (dec_n_channels d) samples i)"
proof -
  let ?n = "dec_n_channels d"
  have n: "?n \<le> 2" using assms(1) by (simp add: dec_wf_def)
  note P = dec_push_channels [OF assms(1) n, of "\<lambda>ch. samples ! (i * ?n + ch)", folded dec_take_frame_def d'_def]
  show "dec_wf d'" "same_config d d'" "dec_phase d' = dec_phase d" using P by simp_all
  have len: "length (frame ?n samples i) = ?n" using assms(2) by (simp add: frame_def)
  show "dec_abs d' = map2 (\<lambda>w x. tl w @ [x]) (dec_abs d) (frame ?n samples i)"
  proof (rule nth_equalityI)
    show "length (dec_abs d') = length (map2 (\<lambda>w x. tl w @ [x]) (dec_abs d) (frame ?n samples i))"
      using P len by (simp add: dec_abs_def same_config_def)
  next
    fix c assume "c < length (dec_abs d')"
    then have c: "c < ?n" using P by (simp add: dec_abs_def same_config_def)
    then have "frame ?n samples i ! c = samples ! (i * ?n + c)" using assms(2) by (simp add: frame_def)
    then show "dec_abs d' ! c = map2 (\<lambda>w x. tl w @ [x]) (dec_abs d) (frame ?n samples i) ! c"
      using P c len by (simp add: dec_abs_def same_config_def)
  qed
qed

lemma fold_update_range:
  "b + m \<le> length out \<Longrightarrow> fold (\<lambda>ch out. out[b + ch := f ch]) [0..<m] out = take b out @ map f [0..<m] @ drop (b + m) out"
proof (induction m)
  case (Suc m)
  then have "fold (\<lambda>ch out. out[b + ch := f ch]) [0..<m] out = take b out @ map f [0..<m] @ drop (b + m) out" by simp
  moreover have "drop (b + m) out = out ! (b + m) # drop (b + Suc m) out" using Suc.prems by (simp add: Cons_nth_drop_Suc)
  ultimately show ?case using Suc.prems by (simp add: list_update_append)
qed simp

lemma dec_emit_frame_correct:
  assumes "dec_wf d" "dec_coeffs d = Some coeffs" "(produced + 1) * dec_n_channels d \<le> length out"
  shows "dec_emit_frame coeffs d produced out =
    take (produced * dec_n_channels d) out @ map (\<lambda>w. dec_saturate (fir_direct coeffs w)) (dec_abs d) @
    drop ((produced + 1) * dec_n_channels d) out"
proof -
  have t: "length coeffs = 135" "rev coeffs = coeffs" using assms(1,2) tables_symmetric by (auto simp: dec_wf_def)
  have "coeffs ! (134 - j) = coeffs ! j" if "j < 67" for j
    using t that rev_nth [of j coeffs] by simp
  then have "dec_fir coeffs w = fir_direct coeffs w" for w by (rule dec_fir_direct)
  then have "dec_fir coeffs (drop (dec_write_idx d ! ch) (dec_history d ! ch)) = fir_direct coeffs (win d ch)" for ch
    by (simp add: win_def fir_direct_take)
  then show ?thesis using assms(3) unfolding dec_emit_frame_def
    by (subst fold_update_range) (simp_all add: dec_abs_def add.commute)
qed

lemma fir_run_counts:
  assumes "phase < ratio"
  shows "fir_run coeffs ratio ws phase fs = (ws', phase', ys) \<Longrightarrow> (\<forall>f \<in> set fs. length f = length ws) \<Longrightarrow>
    length ys = (phase + length fs) div ratio \<and> phase' = (phase + length fs) mod ratio \<and> length ws' = length ws \<and>
    (\<forall>y \<in> set ys. length y = length ws)"
  using assms
proof (induction fs arbitrary: ws phase ws' phase' ys)
  case (Cons f fs)
  let ?ws = "map2 (\<lambda>w x. tl w @ [x]) ws f"
  have len: "length ?ws = length ws" using Cons.prems by simp
  show ?case
  proof (cases "phase + 1 < ratio")
    case True
    then have z: "fir_run coeffs ratio ?ws (phase + 1) fs = (ws', phase', ys)" using Cons.prems(1) by (simp add: Let_def)
    have fs: "\<forall>g \<in> set fs. length g = length ?ws" using Cons.prems(2) len by simp
    have "phase + 1 + length fs = phase + length (f # fs)" by simp
    then show ?thesis using Cons.IH [OF z fs True] unfolding len by metis
  next
    case False
    then have r: "ratio = phase + 1" using Cons.prems by simp
    obtain zs where z: "fir_run coeffs ratio ?ws 0 fs = (ws', phase', zs)"
      and ys: "ys = map (\<lambda>w. dec_saturate (fir_direct coeffs w)) ?ws # zs"
      using Cons.prems(1) False by (auto simp: Let_def split: prod.splits)
    have "length zs = length fs div ratio \<and> phase' = length fs mod ratio \<and> length ws' = length ws \<and> (\<forall>y\<in>set zs. length y = length ws)"
      using Cons.IH [OF z] Cons.prems(2) len r by simp
    moreover have "(phase + length (f # fs)) div ratio = length fs div ratio + 1"
      "(phase + length (f # fs)) mod ratio = length fs mod ratio"
      using div_add_self1 [of ratio "length fs"] mod_add_self1 [of ratio "length fs"] r by (simp_all add: add.commute)
    ultimately show ?thesis using len ys by simp
  qed
qed simp

lemma fir_run_append:
  "fir_run coeffs ratio ws phase (fs @ gs) =
     (let (ws1, phase1, ys1) = fir_run coeffs ratio ws phase fs;
          (ws2, phase2, ys2) = fir_run coeffs ratio ws1 phase1 gs
      in (ws2, phase2, ys1 @ ys2))"
  by (induction fs arbitrary: ws phase) (simp_all add: Let_def split: prod.splits)

lemma dec_loop_correct:
  assumes "dec_wf d" "dec_coeffs d = Some coeffs" "(i + left) * dec_n_channels d \<le> length samples"
    and "fir_run coeffs (dec_ratio d) (dec_abs d) (dec_phase d) (map (frame (dec_n_channels d) samples) [i..<i + left]) = (ws', phase', ys)"
    and "(produced + length ys) * dec_n_channels d \<le> length out"
  shows "\<exists>d'. dec_loop coeffs samples i left produced out d =
      (d', take (produced * dec_n_channels d) out @ concat ys @ drop ((produced + length ys) * dec_n_channels d) out, produced + length ys) \<and>
    dec_wf d' \<and> same_config d d' \<and> dec_abs d' = ws' \<and> dec_phase d' = phase'"
  using assms
proof (induction left arbitrary: i d produced out ws' phase' ys)
  case 0
  then show ?case by (auto simp: same_config_def)
next
  case (Suc left)
  let ?n = "dec_n_channels d" and ?r = "dec_ratio d"
  let ?fs = "map (frame ?n samples) [i + 1..<i + 1 + left]"
  have fs: "map (frame ?n samples) [i..<i + Suc left] = frame ?n samples i # ?fs"
    by (simp add: upt_conv_Cons del: upt_Suc)
  have room: "(i + 1) * ?n \<le> length samples" "(i + 1 + left) * ?n \<le> length samples"
    using Suc.prems(3) order_trans [OF mult_le_mono1 [of "i + 1" "i + Suc left" ?n] Suc.prems(3)] by simp_all
  define e where "e = dec_take_frame samples i d"
  note T = dec_take_frame_correct [OF Suc.prems(1) room(1), folded e_def]
  have e: "dec_coeffs e = Some coeffs" "dec_n_channels e = ?n" "dec_ratio e = ?r" "dec_phase e = dec_phase d"
    using T Suc.prems(2) by (simp_all add: same_config_def)
  have ph: "dec_phase d < ?r" using Suc.prems(1) by (simp add: dec_wf_def)
  have ab: "dec_abs (e\<lparr>dec_phase := k\<rparr>) = dec_abs e" for k by (simp add: dec_abs_def win_def [abs_def])
  show ?case
  proof (cases "dec_phase d + 1 < ?r")
    case True
    let ?d = "e\<lparr>dec_phase := dec_phase d + 1\<rparr>"
    have wf: "dec_wf ?d" using T(1) True e by (simp add: dec_wf_def)
    have c: "dec_coeffs ?d = Some coeffs" "dec_n_channels ?d = ?n" "dec_ratio ?d = ?r" "dec_phase ?d = dec_phase d + 1"
      using e by simp_all
    have run: "fir_run coeffs ?r (dec_abs ?d) (dec_phase d + 1) ?fs = (ws', phase', ys)"
      using Suc.prems(4) True unfolding fs ab T(4) by (simp add: Let_def)
    have step: "dec_loop coeffs samples i (Suc left) produced out d = dec_loop coeffs samples (i + 1) left produced out ?d"
      using True e by (simp add: e_def [symmetric] Let_def)
    show ?thesis
      using Suc.IH [OF wf c(1), unfolded c, OF room(2) run Suc.prems(5)] e unfolding step by (auto simp: same_config_def Suc.prems(2))
  next
    case False
    let ?d = "e\<lparr>dec_phase := 0\<rparr>"
    have wf: "dec_wf ?d" using T(1) ph e by (simp add: dec_wf_def)
    have c: "dec_coeffs ?d = Some coeffs" "dec_n_channels ?d = ?n" "dec_ratio ?d = ?r" "dec_phase ?d = 0"
      using e by simp_all
    let ?y = "map (\<lambda>w. dec_saturate (fir_direct coeffs w)) (dec_abs ?d)"
    obtain zs where run: "fir_run coeffs ?r (dec_abs ?d) 0 ?fs = (ws', phase', zs)" and ys: "ys = ?y # zs"
      using Suc.prems(4) False unfolding fs ab T(4) by (auto simp: Let_def split: prod.splits)
    let ?out = "dec_emit_frame coeffs ?d produced out"
    have cap: "(produced + 1) * ?n \<le> length out" "(produced + 1 + length zs) * ?n \<le> length out"
      using Suc.prems(5) order_trans [OF mult_le_mono1 [of "produced + 1" "produced + length ys" ?n] Suc.prems(5)]
      by (simp_all add: ys)
    have out: "?out = take (produced * ?n) out @ ?y @ drop ((produced + 1) * ?n) out"
      using dec_emit_frame_correct [OF wf c(1), of produced out] cap(1) c(2) by simp
    have leny: "length ?y = ?n" by (simp add: dec_abs_def e)
    have le: "produced * ?n \<le> length out" using cap(1) by simp
    have lenout: "length ?out = length out" unfolding out using leny cap(1) by simp
    have step: "dec_loop coeffs samples i (Suc left) produced out d = dec_loop coeffs samples (i + 1) left (produced + 1) ?out ?d"
      using False e by (simp add: e_def [symmetric] Let_def)
    have "take ((produced + 1) * ?n) ?out = take (produced * ?n) out @ ?y"
      unfolding out using leny le by simp
    moreover have "drop ((produced + 1 + length zs) * ?n) ?out = drop ((produced + length ys) * ?n) out"
      unfolding out using leny le cap by (simp add: ys algebra_simps)
    ultimately have shape: "take ((produced + 1) * ?n) ?out @ concat zs @ drop ((produced + 1 + length zs) * ?n) ?out =
        take (produced * ?n) out @ concat ys @ drop ((produced + length ys) * ?n) out"
      by (simp add: ys)
    have cap': "(produced + 1 + length zs) * ?n \<le> length ?out" unfolding lenout by (rule cap(2))
    show ?thesis
      using Suc.IH [OF wf c(1), unfolded c, OF room(2) run cap'] e unfolding step shape by (auto simp: same_config_def ys Suc.prems(2))
  qed
qed

lemma frames_uniform:
  "k * n \<le> length samples \<Longrightarrow> f \<in> set (map (frame n samples) [0..<k]) \<Longrightarrow> length f = n"
proof -
  assume k: "k * n \<le> length samples" and "f \<in> set (map (frame n samples) [0..<k])"
  then obtain i where i: "i < k" "f = frame n samples i" by auto
  then have "(i + 1) * n \<le> k * n" by (intro mult_le_mono1) simp
  then show ?thesis using k i by (simp add: frame_def)
qed

lemma process_correct:
  assumes "dec_wf d" "in_frames * dec_n_channels d \<le> length samples" "out_cap * dec_n_channels d \<le> length out"
    and "(dec_phase d + in_frames) div dec_ratio d \<le> out_cap"
  obtains d' ys where
    "alp_dsp_decimator_process (Some d) (Some samples) in_frames (Some out) out_cap (Some k) =
       (ALP_OK, Some d', Some (concat ys @ drop (length ys * dec_n_channels d) out), Some (length ys))"
    "fir_run (the (dec_coeffs d)) (dec_ratio d) (dec_abs d) (dec_phase d) (map (frame (dec_n_channels d) samples) [0..<in_frames]) =
       (dec_abs d', dec_phase d', ys)"
    "length ys = (dec_phase d + in_frames) div dec_ratio d" "length (concat ys) = length ys * dec_n_channels d"
    "dec_wf d'" "same_config d d'"
proof -
  let ?n = "dec_n_channels d" and ?fs = "map (frame (dec_n_channels d) samples) [0..<in_frames]"
  obtain coeffs where c: "dec_coeffs d = Some coeffs" using assms(1) by (auto simp: dec_wf_def)
  obtain ws' phase' ys where run: "fir_run coeffs (dec_ratio d) (dec_abs d) (dec_phase d) ?fs = (ws', phase', ys)"
    by (metis prod_cases3)
  have ph: "dec_phase d < dec_ratio d" using assms(1) by (simp add: dec_wf_def)
  have "\<forall>f \<in> set ?fs. length f = length (dec_abs d)" using frames_uniform [OF assms(2)] by (simp add: dec_abs_def)
  note C = fir_run_counts [OF ph run this]
  have len: "length ys = (dec_phase d + in_frames) div dec_ratio d" using C by simp
  have cat: "length (concat ys) = length ys * ?n"
    using C by (simp add: length_concat dec_abs_def cong: map_cong) (simp add: map_replicate_const sum_list_replicate)
  have cap: "(0 + length ys) * ?n \<le> length out"
    using order_trans [OF mult_le_mono1 [OF assms(4)] assms(3)] unfolding len by simp
  obtain d' where d': "dec_loop coeffs samples 0 in_frames 0 out d = (d', concat ys @ drop (length ys * ?n) out, length ys)"
    and P: "dec_wf d'" "same_config d d'" "dec_abs d' = ws'" "dec_phase d' = phase'"
    using dec_loop_correct [OF assms(1) c, of 0 in_frames samples ws' phase' ys 0 out] run assms(2) cap by auto
  have "alp_dsp_decimator_process (Some d) (Some samples) in_frames (Some out) out_cap (Some k) =
       (ALP_OK, Some d', Some (concat ys @ drop (length ys * ?n) out), Some (length ys))"
    using assms(4) ph by (simp add: alp_dsp_decimator_process_def c d')
  then show ?thesis using that [of d' ys] run P len cat c by simp
qed

lemma process_outcome:
  assumes "dec_wf d" "in_frames * dec_n_channels d \<le> length samples" "out_cap * dec_n_channels d \<le> length out"
    and "alp_dsp_decimator_process (Some d) (Some samples) in_frames (Some out) out_cap (Some k) = (ALP_OK, Some d', Some out', Some m)"
  shows "\<exists>ys. out' = concat ys @ drop (length ys * dec_n_channels d) out \<and> m = length ys \<and>
    length (concat ys) = length ys * dec_n_channels d \<and> dec_wf d' \<and> same_config d d' \<and>
    fir_run (the (dec_coeffs d)) (dec_ratio d) (dec_abs d) (dec_phase d) (map (frame (dec_n_channels d) samples) [0..<in_frames]) =
      (dec_abs d', dec_phase d', ys)"
proof -
  have "(dec_phase d + in_frames) div dec_ratio d \<le> out_cap"
    using assms(1,4) by (auto simp: alp_dsp_decimator_process_def dec_wf_def split: if_splits)
  then obtain d'' ys where "alp_dsp_decimator_process (Some d) (Some samples) in_frames (Some out) out_cap (Some k) =
       (ALP_OK, Some d'', Some (concat ys @ drop (length ys * dec_n_channels d) out), Some (length ys))"
    "fir_run (the (dec_coeffs d)) (dec_ratio d) (dec_abs d) (dec_phase d) (map (frame (dec_n_channels d) samples) [0..<in_frames]) =
       (dec_abs d'', dec_phase d'', ys)"
    "length (concat ys) = length ys * dec_n_channels d" "dec_wf d''" "same_config d d''"
    by (rule process_correct [OF assms(1-3), of k])
  then show ?thesis using assms(4) by (intro exI [of _ ys]) simp
qed

section \<open>Properties\<close>

text \<open>
  C39. The decimator is the direct-form filter.  On a configured decimator, with input and output
  buffers of the stated sizes, a call whose output does not fit is refused and changes nothing;
  otherwise it writes, frame by frame, the saturated direct-form 135-tap filter of each channel's
  last 135 samples at every \<open>ratio\<close>th input frame, leaves the rest of the output buffer alone,
  reports exactly \<open>(phase + frames) div ratio\<close> frames, and keeps the decimator well formed.
\<close>

theorem decimator_refines_fir:
  assumes "dec_wf d" "in_frames * dec_n_channels d \<le> length samples" "out_cap * dec_n_channels d \<le> length out"
  shows "if out_cap < (dec_phase d + in_frames) div dec_ratio d
    then alp_dsp_decimator_process (Some d) (Some samples) in_frames (Some out) out_cap (Some k) =
      (ALP_ERR_OUT_OF_RANGE, Some d, Some out, Some k)
    else \<exists>d' ys.
      alp_dsp_decimator_process (Some d) (Some samples) in_frames (Some out) out_cap (Some k) =
        (ALP_OK, Some d', Some (concat ys @ drop (length ys * dec_n_channels d) out), Some (length ys)) \<and>
      fir_run (the (dec_coeffs d)) (dec_ratio d) (dec_abs d) (dec_phase d) (map (frame (dec_n_channels d) samples) [0..<in_frames]) =
        (dec_abs d', dec_phase d', ys) \<and>
      length ys = (dec_phase d + in_frames) div dec_ratio d \<and> length (concat ys) = length ys * dec_n_channels d \<and>
      dec_wf d' \<and> same_config d d'"
proof (cases "out_cap < (dec_phase d + in_frames) div dec_ratio d")
  case True
  then show ?thesis using assms(1) by (auto simp: alp_dsp_decimator_process_def dec_wf_def)
next
  case False
  then have "(dec_phase d + in_frames) div dec_ratio d \<le> out_cap" by simp
  from process_correct [OF assms this, of k] show ?thesis unfolding if_not_P [OF False] by blast
qed

text \<open>
  Blocks do not matter, and a reset is a fresh start.  Feeding a stream in two calls produces
  the frames of one call, in order, and leaves the same windows and phase.  An accepted \<open>init\<close>
  gives a well-formed decimator with all-zero windows whose taps are symmetric with unit DC gain,
  and resetting any well-formed decimator gives that same state for its configuration.
\<close>

theorem decimator_chunks:
  assumes "dec_wf d" "(a + b) * dec_n_channels d \<le> length samples"
    and "cap * dec_n_channels d \<le> length out" "cap1 * dec_n_channels d \<le> length out1" "cap2 * dec_n_channels d \<le> length out2"
    and "alp_dsp_decimator_process (Some d) (Some samples) (a + b) (Some out) cap (Some k) = (ALP_OK, Some d', Some out', Some m)"
    and "alp_dsp_decimator_process (Some d) (Some samples) a (Some out1) cap1 (Some k) = (ALP_OK, Some d1, Some out1', Some m1)"
    and "alp_dsp_decimator_process (Some d1) (Some (drop (a * dec_n_channels d) samples)) b (Some out2) cap2 (Some k) =
      (ALP_OK, Some d2, Some out2', Some m2)"
  shows "(m = m1 + m2 \<and> take (m * dec_n_channels d) out' = take (m1 * dec_n_channels d) out1' @ take (m2 * dec_n_channels d) out2' \<and>
      dec_abs d' = dec_abs d2 \<and> dec_phase d' = dec_phase d2) \<and>
    (\<exists>z. alp_dsp_decimator_init (Some d) (dec_ratio d) (dec_n_channels d) = (ALP_OK, Some z) \<and>
      alp_dsp_decimator_reset (Some d) = (ALP_OK, Some z) \<and> dec_wf z \<and> dec_phase z = 0 \<and>
      dec_abs z = replicate (dec_n_channels d) (replicate 135 0) \<and>
      rev (the (dec_coeffs z)) = the (dec_coeffs z) \<and> sum_list (map sint (the (dec_coeffs z))) = 32768)"
proof (rule conjI)
  let ?n = "dec_n_channels d" and ?c = "the (dec_coeffs d)" and ?r = "dec_ratio d"
  have room: "a * ?n \<le> length samples" "b * ?n \<le> length (drop (a * ?n) samples)"
    using assms(2) by (simp_all add: distrib_right)
  obtain ys where ys: "out' = concat ys @ drop (length ys * ?n) out" "m = length ys" "length (concat ys) = length ys * ?n"
    "fir_run ?c ?r (dec_abs d) (dec_phase d) (map (frame ?n samples) [0..<a + b]) = (dec_abs d', dec_phase d', ys)"
    using process_outcome [OF assms(1-3,6)] by blast
  obtain ys1 where y1: "out1' = concat ys1 @ drop (length ys1 * ?n) out1" "m1 = length ys1" "length (concat ys1) = length ys1 * ?n"
    "fir_run ?c ?r (dec_abs d) (dec_phase d) (map (frame ?n samples) [0..<a]) = (dec_abs d1, dec_phase d1, ys1)"
    and d1: "dec_wf d1" "same_config d d1"
    using process_outcome [OF assms(1) room(1) assms(4,7)] by blast
  have cfg: "dec_n_channels d1 = ?n" "dec_ratio d1 = ?r" "dec_coeffs d1 = dec_coeffs d" using d1(2) by (simp_all add: same_config_def)
  obtain ys2 where y2: "out2' = concat ys2 @ drop (length ys2 * ?n) out2" "m2 = length ys2" "length (concat ys2) = length ys2 * ?n"
    "fir_run ?c ?r (dec_abs d1) (dec_phase d1) (map (frame ?n (drop (a * ?n) samples)) [0..<b]) = (dec_abs d2, dec_phase d2, ys2)"
    using process_outcome [OF d1(1), unfolded cfg, OF room(2) assms(5,8)] by blast
  have "map (frame ?n samples) [0..<a + b] = map (frame ?n samples) [0..<a] @ map (frame ?n (drop (a * ?n) samples)) [0..<b]"
    by (rule nth_equalityI) (auto simp: nth_append frame_def distrib_right [symmetric])
  then have "(dec_abs d', dec_phase d', ys) = (dec_abs d2, dec_phase d2, ys1 @ ys2)"
    using ys(4) y1(4) y2(4) by (simp add: fir_run_append)
  then show "m = m1 + m2 \<and> take (m * ?n) out' = take (m1 * ?n) out1' @ take (m2 * ?n) out2' \<and>
      dec_abs d' = dec_abs d2 \<and> dec_phase d' = dec_phase d2"
    using ys(1-3) y1(1-3) y2(1-3) by (simp add: distrib_right)
next
  obtain c where c: "dec_coeffs d = Some c" "alp_dsp_decim_lookup (dec_ratio d) = Some c" "0 < dec_ratio d"
    "0 < dec_n_channels d" "dec_n_channels d \<le> 2"
    using assms(1) by (auto simp: dec_wf_def)
  let ?z = "dec_zero\<lparr>dec_coeffs := Some c, dec_ratio := dec_ratio d, dec_n_channels := dec_n_channels d\<rparr>"
  have "alp_dsp_decimator_init (Some d) (dec_ratio d) (dec_n_channels d) = (ALP_OK, Some ?z)"
    using c by (simp add: alp_dsp_decimator_init_def)
  moreover have "alp_dsp_decimator_reset (Some d) = (ALP_OK, Some ?z)"
    using c by (simp add: alp_dsp_decimator_reset_def dec_zero_def)
  moreover have wf: "dec_wf ?z" using c by (simp add: dec_wf_def dec_zero_def dbl_def less_2_cases_iff)
  moreover have "dec_abs ?z = replicate (dec_n_channels d) (replicate 135 0)"
    using c by (intro nth_equalityI) (auto simp: dec_abs_def win_def dec_zero_def)
  ultimately show "\<exists>z. alp_dsp_decimator_init (Some d) (dec_ratio d) (dec_n_channels d) = (ALP_OK, Some z) \<and>
      alp_dsp_decimator_reset (Some d) = (ALP_OK, Some z) \<and> dec_wf z \<and> dec_phase z = 0 \<and>
      dec_abs z = replicate (dec_n_channels d) (replicate 135 0) \<and>
      rev (the (dec_coeffs z)) = the (dec_coeffs z) \<and> sum_list (map sint (the (dec_coeffs z))) = 32768"
    using tables_symmetric [OF c(2)] tables_unity [OF c(2)] by (intro exI [of _ ?z]) (simp add: dec_zero_def)
qed

text \<open>A mono decimator by two, freshly configured.\<close>

definition sample_dec :: decimator where
  "sample_dec = dec_zero\<lparr>dec_coeffs := Some dsp_decim_coeffs_r2, dec_ratio := 2, dec_n_channels := 1\<rparr>"

lemma sample_dec_wf: "dec_wf sample_dec"
  by (simp add: dec_wf_def sample_dec_def dec_zero_def dbl_def less_2_cases_iff alp_dsp_decim_lookup_def)

lemma sample_dec_fields:
  "dec_ratio sample_dec = 2" "dec_n_channels sample_dec = 1" "dec_phase sample_dec = 0" "dec_coeffs sample_dec = Some dsp_decim_coeffs_r2"
  by (simp_all add: sample_dec_def dec_zero_def)

theorem decimator_refines_fir_witness:
  "\<exists>d' ys. alp_dsp_decimator_process (Some sample_dec) (Some [1000, - 1000, 500]) 3 (Some [0, 7]) 2 (Some 0) =
      (ALP_OK, Some d', Some (concat ys @ [7]), Some 1) \<and> length (concat ys) = 1 \<and> dec_phase d' = 1"
proof -
  have len: "fir_run dsp_decim_coeffs_r2 2 ws 0 [f0, f1, f2] = (ws', ph', ys) \<Longrightarrow> ph' = 1" for ws f0 f1 f2 ws' ph' ys
    by (auto simp: Let_def)
  show ?thesis
    using decimator_refines_fir [OF sample_dec_wf, of 3 "[1000, - 1000, 500]" 2 "[0, 7]" 0] len
    by (auto simp: sample_dec_fields upt_rec)
qed

theorem decimator_chunks_witness:
  "\<exists>d1 d2 d' o1 o2 out'.
     alp_dsp_decimator_process (Some sample_dec) (Some [1, 2, 3, 4]) 4 (Some [0, 0]) 2 (Some 0) = (ALP_OK, Some d', Some out', Some 2) \<and>
     alp_dsp_decimator_process (Some sample_dec) (Some [1, 2, 3, 4]) 3 (Some [0]) 1 (Some 0) = (ALP_OK, Some d1, Some o1, Some 1) \<and>
     alp_dsp_decimator_process (Some d1) (Some [4]) 1 (Some [0]) 1 (Some 0) = (ALP_OK, Some d2, Some o2, Some 1) \<and>
     take 2 out' = take 1 o1 @ take 1 o2"
proof -
  obtain d' out' where p: "alp_dsp_decimator_process (Some sample_dec) (Some [1, 2, 3, 4]) 4 (Some [0, 0]) 2 (Some 0) =
      (ALP_OK, Some d', Some out', Some 2)"
    by (rule process_correct [OF sample_dec_wf, of 4 "[1, 2, 3, 4]" 2 "[0, 0]" 0]) (auto simp: sample_dec_fields)
  obtain d1 o1 ys1 where p1: "alp_dsp_decimator_process (Some sample_dec) (Some [1, 2, 3, 4]) 3 (Some [0]) 1 (Some 0) =
      (ALP_OK, Some d1, Some o1, Some 1)" and d1: "dec_wf d1" "same_config sample_dec d1"
    and run: "fir_run dsp_decim_coeffs_r2 2 (dec_abs sample_dec) 0 (map (frame 1 [1, 2, 3, 4]) [0..<3]) = (dec_abs d1, dec_phase d1, ys1)"
    by (rule process_correct [OF sample_dec_wf, of 3 "[1, 2, 3, 4]" 1 "[0]" 0]) (auto simp: sample_dec_fields)
  have c: "dec_phase d1 = 1" "dec_n_channels d1 = 1" "dec_ratio d1 = 2"
    using run d1(2) by (auto simp: Let_def upt_rec same_config_def sample_dec_fields)
  have pre: "1 * dec_n_channels d1 \<le> length [4 :: i16]" "1 * dec_n_channels d1 \<le> length [0 :: i16]"
    "(dec_phase d1 + 1) div dec_ratio d1 \<le> 1" by (simp_all add: c)
  obtain d2 ys2 where "alp_dsp_decimator_process (Some d1) (Some [4]) 1 (Some [0]) 1 (Some 0) =
      (ALP_OK, Some d2, Some (concat ys2 @ drop (length ys2 * dec_n_channels d1) [0]), Some (length ys2))"
    "length ys2 = (dec_phase d1 + 1) div dec_ratio d1"
    by (rule process_correct [OF d1(1) pre])
  then obtain o2 where p2: "alp_dsp_decimator_process (Some d1) (Some [4]) 1 (Some [0]) 1 (Some 0) = (ALP_OK, Some d2, Some o2, Some 1)"
    by (simp add: c)
  show ?thesis
    using decimator_chunks [OF sample_dec_wf, of 3 1 "[1, 2, 3, 4]" 2 "[0, 0]" 1 "[0]" 1 "[0]" 0 d' out' 2 d1 o1 1 d2 o2 1]
      p p1 p2 by (auto simp: sample_dec_fields)
qed

end
