(* ===== verification/Fast_Memcpy.thy ===== *)
theory Fast_Memcpy
  imports Alp_Prelude
begin

text \<open>
  The word-at-a-time \<open>memcpy\<close> (\<^verbatim>\<open>src/common/alp_fast_memcpy_core.c\<close>).  Memory is a function from
  addresses to bytes; pointers are addresses.  A 32-bit load and store at an address that is not a
  multiple of four is \<open>None\<close>, which is what the unit test's alignment guard aborts on, so a result
  of \<open>Some\<close> says that the word loops only ever run on aligned pointers.
\<close>

section \<open>Memory\<close>

type_synonym mem = "nat \<Rightarrow> u8"

text \<open>\<^verbatim>\<open>*(uint32_t *)d = *(const uint32_t *)s\<close>: four bytes read, then four bytes written.\<close>

definition copy_word :: "mem \<Rightarrow> nat \<Rightarrow> nat \<Rightarrow> mem option" where
  "copy_word m d s =
     (if d AND 3 \<noteq> 0 \<or> s AND 3 \<noteq> 0 then None
      else Some (m(d := m s, d + 1 := m (s + 1), d + 2 := m (s + 2), d + 3 := m (s + 3))))"

section \<open>The loops\<close>

text \<open>\<^verbatim>\<open>while (n && (d & 3)) { *d++ = *s++; n--; }\<close>\<close>

fun head_loop :: "mem \<Rightarrow> nat \<Rightarrow> nat \<Rightarrow> nat \<Rightarrow> mem \<times> nat \<times> nat \<times> nat" where
  "head_loop m d s 0 = (m, d, s, 0)"
| "head_loop m d s (Suc n) =
     (if d AND 3 \<noteq> 0 then head_loop (m(d := m s)) (d + 1) (s + 1) n else (m, d, s, Suc n))"

text \<open>\<^verbatim>\<open>while (n >= 16) { dw[0] = sw[0]; ... dw[3] = sw[3]; dw += 4; sw += 4; n -= 16; }\<close>\<close>

function quad_loop :: "mem \<Rightarrow> nat \<Rightarrow> nat \<Rightarrow> nat \<Rightarrow> (mem \<times> nat \<times> nat \<times> nat) option" where
  "quad_loop m d s n =
     (if n \<ge> 16 then
        (case copy_word m d s of None \<Rightarrow> None | Some m \<Rightarrow>
         (case copy_word m (d + 4) (s + 4) of None \<Rightarrow> None | Some m \<Rightarrow>
          (case copy_word m (d + 8) (s + 8) of None \<Rightarrow> None | Some m \<Rightarrow>
           (case copy_word m (d + 12) (s + 12) of None \<Rightarrow> None | Some m \<Rightarrow>
            quad_loop m (d + 16) (s + 16) (n - 16)))))
      else Some (m, d, s, n))"
  by pat_completeness auto
termination by (relation "measure (\<lambda>(m, d, s, n). n)") auto

text \<open>\<^verbatim>\<open>while (n >= 4) { *dw++ = *sw++; n -= 4; }\<close>\<close>

function word_loop :: "mem \<Rightarrow> nat \<Rightarrow> nat \<Rightarrow> nat \<Rightarrow> (mem \<times> nat \<times> nat \<times> nat) option" where
  "word_loop m d s n =
     (if n \<ge> 4 then
        (case copy_word m d s of None \<Rightarrow> None | Some m \<Rightarrow> word_loop m (d + 4) (s + 4) (n - 4))
      else Some (m, d, s, n))"
  by pat_completeness auto
termination by (relation "measure (\<lambda>(m, d, s, n). n)") auto

declare quad_loop.simps [simp del] word_loop.simps [simp del]

text \<open>\<^verbatim>\<open>while (n--) *d++ = *s++;\<close>\<close>

fun byte_loop :: "mem \<Rightarrow> nat \<Rightarrow> nat \<Rightarrow> nat \<Rightarrow> mem" where
  "byte_loop m d s 0 = m"
| "byte_loop m d s (Suc n) = byte_loop (m(d := m s)) (d + 1) (s + 1) n"

text \<open>The function, with its return value.\<close>

definition alp_fast_memcpy_core :: "mem \<Rightarrow> nat \<Rightarrow> nat \<Rightarrow> nat \<Rightarrow> (mem \<times> nat) option" where
  "alp_fast_memcpy_core m dst src n =
     (if (dst XOR src) AND 3 = 0 then
        (let (m, d, s, n) = head_loop m dst src n in
         (case quad_loop m d s n of None \<Rightarrow> None | Some (m, d, s, n) \<Rightarrow>
          (case word_loop m d s n of None \<Rightarrow> None | Some (m, d, s, n) \<Rightarrow>
           Some (byte_loop m d s n, dst))))
      else Some (byte_loop m dst src n, dst))"

section \<open>Copying a range\<close>

definition cpy :: "mem \<Rightarrow> nat \<Rightarrow> nat \<Rightarrow> nat \<Rightarrow> mem" where
  "cpy m d s n = (\<lambda>a. if d \<le> a \<and> a < d + n then m (s + (a - d)) else m a)"

definition disjoint_ranges :: "nat \<Rightarrow> nat \<Rightarrow> nat \<Rightarrow> bool" where
  "disjoint_ranges d s n \<longleftrightarrow> d + n \<le> s \<or> s + n \<le> d"

lemma cpy_split:
  assumes "disjoint_ranges d s (k + n)"
  shows "cpy (cpy m d s k) (d + k) (s + k) n = cpy m d s (k + n)"
proof
  fix a
  have "s + k + (a - (d + k)) = s + (a - d)" if "d + k \<le> a" using that by simp
  moreover have "\<not> (d \<le> s + (a - d) \<and> s + (a - d) < d + k)" if "d + k \<le> a" "a < d + k + n"
    using assms that by (auto simp: disjoint_ranges_def)
  ultimately show "cpy (cpy m d s k) (d + k) (s + k) n a = cpy m d s (k + n) a"
    by (auto simp: cpy_def)
qed

lemma disjoint_mono: "disjoint_ranges d s n \<Longrightarrow> k \<le> n \<Longrightarrow> disjoint_ranges d s k"
  by (auto simp: disjoint_ranges_def)

lemma disjoint_shift: "disjoint_ranges d s (k + n) \<Longrightarrow> disjoint_ranges (d + k) (s + k) n"
  by (auto simp: disjoint_ranges_def)

lemma cpy_0 [simp]: "cpy m d s 0 = m"
  by (auto simp: cpy_def fun_eq_iff)

lemma cpy_1: "m(d := m s) = cpy m d s 1"
  by (auto simp: cpy_def fun_eq_iff)

lemma copy_word_cpy:
  "d AND 3 = 0 \<Longrightarrow> s AND 3 = 0 \<Longrightarrow> disjoint_ranges d s 4 \<Longrightarrow> copy_word m d s = Some (cpy m d s 4)"
proof -
  assume a: "d AND 3 = 0" "s AND 3 = 0" and dis: "disjoint_ranges d s 4"
  have "m(d := m s, d + 1 := m (s + 1), d + 2 := m (s + 2), d + 3 := m (s + 3)) = cpy m d s 4"
  proof
    fix x
    consider "x < d" | "x = d" | "x = d + 1" | "x = d + 2" | "x = d + 3" | "d + 4 \<le> x" by linarith
    then show "(m(d := m s, d + 1 := m (s + 1), d + 2 := m (s + 2), d + 3 := m (s + 3))) x = cpy m d s 4 x"
      by cases (auto simp: cpy_def)
  qed
  then show ?thesis using a by (simp add: copy_word_def)
qed

section \<open>Alignment\<close>

lemma and3_mod: "(x :: nat) AND 3 = x mod 4"
proof -
  have "x AND mask 2 = x mod 2 ^ 2" by (simp only: take_bit_eq_mask [symmetric] take_bit_eq_mod)
  then show ?thesis by (simp add: mask_eq_exp_minus_1)
qed

lemma same_phase: "((d :: nat) XOR s) AND 3 = 0 \<longleftrightarrow> d mod 4 = s mod 4"
proof -
  have "take_bit 2 (d XOR s) = take_bit 2 d XOR take_bit 2 s" by (rule take_bit_xor)
  then have "(d XOR s) AND 3 = d mod 4 XOR s mod 4" by (simp add: and3_mod take_bit_eq_mod)
  moreover have "x XOR y = 0 \<longleftrightarrow> x = y" for x y :: nat by (auto simp: bit_eq_iff bit_xor_iff)
  ultimately show ?thesis by simp
qed

lemma head_loop_correct:
  assumes "disjoint_ranges d s n" "d mod 4 = s mod 4"
  shows "\<exists>k \<le> n. head_loop m d s n = (cpy m d s k, d + k, s + k, n - k) \<and> (n - k = 0 \<or> (d + k) mod 4 = 0)"
  using assms
proof (induction m d s n rule: head_loop.induct)
  case (1 m d s)
  show ?case by simp
next
  case (2 m d s n)
  show ?case
  proof (cases "d AND 3 \<noteq> 0")
    case True
    have "disjoint_ranges (d + 1) (s + 1) n" using disjoint_shift [of d s 1 n] 2 by simp
    moreover have "(d + 1) mod 4 = (s + 1) mod 4" using 2(3) by (metis mod_add_left_eq)
    ultimately have "\<exists>k \<le> n. head_loop (m(d := m s)) (d + 1) (s + 1) n = (cpy (m(d := m s)) (d + 1) (s + 1) k, d + 1 + k, s + 1 + k, n - k) \<and>
        (n - k = 0 \<or> (d + 1 + k) mod 4 = 0)" by (rule 2(1) [OF True])
    then obtain k where k: "k \<le> n" "head_loop (cpy m d s 1) (d + 1) (s + 1) n = (cpy (cpy m d s 1) (d + 1) (s + 1) k, d + 1 + k, s + 1 + k, n - k)"
      "n - k = 0 \<or> (d + 1 + k) mod 4 = 0" unfolding cpy_1 by (elim exE conjE) (rule that)
    have "disjoint_ranges d s (1 + k)" by (rule disjoint_mono [OF 2(2)]) (use k in simp)
    then have "head_loop m d s (Suc n) = (cpy m d s (Suc k), d + Suc k, s + Suc k, Suc n - Suc k)"
      using k(2) cpy_split [of d s 1 k m] True unfolding head_loop.simps cpy_1 by simp
    then show ?thesis using k by (intro exI [of _ "Suc k"]) simp
  next
    case False
    then show ?thesis by (intro exI [of _ 0]) (simp add: and3_mod)
  qed
qed

text \<open>The word loops copy a multiple of four bytes from aligned pointers.\<close>

lemma aligned_step: "(x :: nat) mod 4 = 0 \<Longrightarrow> (x + 4 * j) mod 4 = 0"
  by simp

lemma quad_words:
  assumes "disjoint_ranges d s 16" "d mod 4 = 0" "s mod 4 = 0" "j < 4"
  shows "copy_word (cpy m d s (4 * j)) (d + 4 * j) (s + 4 * j) = Some (cpy m d s (4 * j + 4))"
proof -
  have "disjoint_ranges d s (4 * j + 4)" by (rule disjoint_mono [OF assms(1)]) (use assms(4) in simp)
  then show ?thesis
    using copy_word_cpy [of "d + 4 * j" "s + 4 * j"] disjoint_shift [of d s "4 * j" 4] cpy_split [of d s "4 * j" 4 m] assms(2,3)
    by (simp add: and3_mod)
qed

lemma quad_loop_correct:
  assumes "disjoint_ranges d s n" "d mod 4 = 0" "s mod 4 = 0"
  shows "\<exists>k \<le> n. quad_loop m d s n = Some (cpy m d s k, d + k, s + k, n - k) \<and> k mod 4 = 0"
  using assms
proof (induction m d s n rule: quad_loop.induct)
  case (1 m d s n)
  show ?case
  proof (cases "n \<ge> 16")
    case False
    then show ?thesis by (subst quad_loop.simps) (intro exI [of _ 0], simp)
  next
    case True
    have d16: "disjoint_ranges d s 16" by (rule disjoint_mono [OF 1(2) True])
    note w = quad_words [OF d16 1(3,4)]
    note c = w [of 0, simplified] w [of 1, simplified] w [of 2, simplified] w [of 3, simplified]
    have step: "quad_loop m d s n = quad_loop (cpy m d s 16) (d + 16) (s + 16) (n - 16)"
      using True by (subst quad_loop.simps) (simp add: c)
    have rest: "disjoint_ranges (d + 16) (s + 16) (n - 16)" using disjoint_shift [of d s 16 "n - 16"] 1(2) True by simp
    have al: "(d + 16) mod 4 = 0" "(s + 16) mod 4 = 0" using aligned_step [of d 4] aligned_step [of s 4] 1(3,4) by simp_all
    have "\<exists>k \<le> n - 16. quad_loop (cpy m d s 16) (d + 16) (s + 16) (n - 16) =
        Some (cpy (cpy m d s 16) (d + 16) (s + 16) k, d + 16 + k, s + 16 + k, n - 16 - k) \<and> k mod 4 = 0"
      by (rule 1(1) [OF True c rest al])
    then obtain k where k: "k \<le> n - 16" "quad_loop (cpy m d s 16) (d + 16) (s + 16) (n - 16) =
        Some (cpy (cpy m d s 16) (d + 16) (s + 16) k, d + 16 + k, s + 16 + k, n - 16 - k)" "k mod 4 = 0" by (elim exE conjE) (rule that)
    have "disjoint_ranges d s (16 + k)" by (rule disjoint_mono [OF 1(2)]) (use k True in simp)
    moreover have "16 + k \<le> n" "(16 + k) mod 4 = 0" using k(1,3) True mod_mult_self2 [of k 4 4] by (simp_all add: add.commute)
    ultimately show ?thesis using k(2) cpy_split [of d s 16 k m] step by (intro exI [of _ "16 + k"]) simp
  qed
qed

lemma word_loop_correct:
  assumes "disjoint_ranges d s n" "d mod 4 = 0" "s mod 4 = 0"
  shows "\<exists>k \<le> n. word_loop m d s n = Some (cpy m d s k, d + k, s + k, n - k)"
  using assms
proof (induction m d s n rule: word_loop.induct)
  case (1 m d s n)
  show ?case
  proof (cases "n \<ge> 4")
    case False
    then show ?thesis by (subst word_loop.simps) (intro exI [of _ 0], simp)
  next
    case True
    have c: "copy_word m d s = Some (cpy m d s 4)"
      using copy_word_cpy [of d s m] disjoint_mono [OF 1(2) True] 1(3,4) by (simp add: and3_mod)
    have rest: "disjoint_ranges (d + 4) (s + 4) (n - 4)" using disjoint_shift [of d s 4 "n - 4"] 1(2) True by simp
    have al: "(d + 4) mod 4 = 0" "(s + 4) mod 4 = 0" using 1(3,4) by simp_all
    obtain k where k: "k \<le> n - 4" "word_loop (cpy m d s 4) (d + 4) (s + 4) (n - 4) =
        Some (cpy (cpy m d s 4) (d + 4) (s + 4) k, d + 4 + k, s + 4 + k, n - 4 - k)"
      using 1(1) [OF True c rest al] by (elim exE conjE) (rule that)
    have "disjoint_ranges d s (4 + k)" by (rule disjoint_mono [OF 1(2)]) (use k True in simp)
    then have "word_loop m d s n = Some (cpy m d s (4 + k), d + (4 + k), s + (4 + k), n - (4 + k))"
      using k(2) True cpy_split [of d s 4 k m] by (subst word_loop.simps) (simp add: c)
    then show ?thesis using k(1) True by (intro exI [of _ "4 + k"]) simp
  qed
qed

lemma byte_loop_correct: "disjoint_ranges d s n \<Longrightarrow> byte_loop m d s n = cpy m d s n"
proof (induction m d s n rule: byte_loop.induct)
  case (2 m d s n)
  have "disjoint_ranges (d + 1) (s + 1) n" using disjoint_shift [of d s 1 n] 2(2) by simp
  then have "byte_loop (m(d := m s)) (d + 1) (s + 1) n = cpy (m(d := m s)) (d + 1) (s + 1) n" by (rule 2(1))
  then show ?case using cpy_split [of d s 1 n m] 2(2) by (simp add: cpy_1)
qed simp

section \<open>Property\<close>

text \<open>
  C40. The fast copy is \<open>memcpy\<close>.  For source and destination ranges that do not overlap, at every
  alignment and length, it returns the destination with exactly the \<open>n\<close> bytes there replaced by
  the source's and every other byte unchanged, and its word accesses are all aligned.
\<close>

theorem fast_memcpy_copies:
  assumes "dst + n \<le> src \<or> src + n \<le> dst"
  shows "alp_fast_memcpy_core m dst src n =
    Some ((\<lambda>a. if dst \<le> a \<and> a < dst + n then m (src + (a - dst)) else m a), dst)"
proof -
  have dis: "disjoint_ranges dst src n" using assms by (simp add: disjoint_ranges_def)
  show ?thesis
  proof (cases "(dst XOR src) AND 3 = 0")
    case False
    then show ?thesis using byte_loop_correct [OF dis, of m] by (simp add: alp_fast_memcpy_core_def cpy_def)
  next
    case True
    then have ph: "dst mod 4 = src mod 4" by (simp add: same_phase)
    obtain k where k: "k \<le> n" "head_loop m dst src n = (cpy m dst src k, dst + k, src + k, n - k)"
      "n - k = 0 \<or> (dst + k) mod 4 = 0" using head_loop_correct [OF dis ph, of m] by (elim exE conjE) (rule that)
    have ph': "(dst + k) mod 4 = (src + k) mod 4" using ph by (metis mod_add_left_eq)
    have disk: "disjoint_ranges (dst + k) (src + k) (n - k)" using disjoint_shift [of dst src k "n - k"] dis k(1) by simp
    have "\<exists>j \<le> n - k. quad_loop (cpy m dst src k) (dst + k) (src + k) (n - k) =
        Some (cpy (cpy m dst src k) (dst + k) (src + k) j, dst + k + j, src + k + j, n - k - j) \<and>
        (n - k - j = 0 \<or> (dst + k + j) mod 4 = 0 \<and> (src + k + j) mod 4 = 0)"
    proof (cases "n - k = 0")
      case True
      then show ?thesis by (subst quad_loop.simps) simp
    next
      case False
      then have al: "(dst + k) mod 4 = 0" "(src + k) mod 4 = 0" using k(3) ph' by simp_all
      from quad_loop_correct [OF disk this, of "cpy m dst src k"] al show ?thesis by (auto simp: mod_add_eq)
    qed
    then obtain j where j: "j \<le> n - k" "quad_loop (cpy m dst src k) (dst + k) (src + k) (n - k) =
        Some (cpy m dst src (k + j), dst + (k + j), src + (k + j), n - (k + j))"
      "n - (k + j) = 0 \<or> (dst + (k + j)) mod 4 = 0 \<and> (src + (k + j)) mod 4 = 0"
      using cpy_split [of dst src k _ m] disjoint_mono [OF dis] k(1) by (auto simp: add.assoc)
    let ?q = "k + j"
    have q: "?q \<le> n" using j(1) k(1) by simp
    have disq: "disjoint_ranges (dst + ?q) (src + ?q) (n - ?q)" using disjoint_shift [of dst src ?q "n - ?q"] dis q by simp
    have "\<exists>i \<le> n - ?q. word_loop (cpy m dst src ?q) (dst + ?q) (src + ?q) (n - ?q) =
        Some (cpy (cpy m dst src ?q) (dst + ?q) (src + ?q) i, dst + ?q + i, src + ?q + i, n - ?q - i)"
    proof (cases "n - ?q = 0")
      case True
      then show ?thesis by (subst word_loop.simps) simp
    next
      case False
      then have "(dst + ?q) mod 4 = 0" "(src + ?q) mod 4 = 0" using j(3) by simp_all
      then show ?thesis by (rule word_loop_correct [OF disq])
    qed
    then obtain i where i: "i \<le> n - ?q" "word_loop (cpy m dst src ?q) (dst + ?q) (src + ?q) (n - ?q) =
        Some (cpy (cpy m dst src ?q) (dst + ?q) (src + ?q) i, dst + ?q + i, src + ?q + i, n - ?q - i)" by (elim exE conjE) (rule that)
    have split_i: "cpy (cpy m dst src ?q) (dst + ?q) (src + ?q) i = cpy m dst src (?q + i)"
      by (rule cpy_split [OF disjoint_mono [OF dis]]) (use i(1) q in simp)
    have "byte_loop (cpy m dst src (?q + i)) (dst + (?q + i)) (src + (?q + i)) (n - (?q + i)) = cpy m dst src n"
    proof -
      have le: "?q + i \<le> n" using i(1) q by simp
      have "disjoint_ranges (dst + (?q + i)) (src + (?q + i)) (n - (?q + i))"
        using disjoint_shift [of dst src "?q + i" "n - (?q + i)"] dis le by simp
      then show ?thesis using byte_loop_correct cpy_split [of dst src "?q + i" "n - (?q + i)" m] dis le by simp
    qed
    then have "alp_fast_memcpy_core m dst src n = Some (cpy m dst src n, dst)"
      using True k(2) j(2) i(2) split_i by (simp add: alp_fast_memcpy_core_def add.assoc)
    then show ?thesis by (simp add: cpy_def)
  qed
qed

theorem fast_memcpy_copies_witness:
  "\<exists>m'. alp_fast_memcpy_core (\<lambda>a. of_nat a) 101 37 27 = Some (m', 101) \<and> m' 101 = 37 \<and> m' 127 = 63 \<and> m' 128 = 128 \<and> m' 100 = 100"
  using fast_memcpy_copies [of 101 27 37 "\<lambda>a. of_nat a"] by simp

end
