(* ===== verification/Rpc_Channel.thy ===== *)
theory Rpc_Channel
  imports Slot_Claim
begin

text \<open>
  The channel word of the RPC dispatcher (\<^verbatim>\<open>src/rpc_dispatch.c\<close>, \<^verbatim>\<open>src/backends/rpc/rpc_ops.h\<close>): a
  lifecycle in bits 31--30 and the count of operations in flight in bits 29--0 of one atomic word,
  and the three-step close protocol built on it.  First the operations on the word as the code has
  them, one compare-exchange at a time; then a slot under concurrent use by any number of threads,
  as a step relation whose steps are the atomic accesses.
\<close>

section \<open>The word\<close>

definition ALP_RPC_CHAN_LC_MASK :: u32 where "ALP_RPC_CHAN_LC_MASK = push_bit 30 3"
definition ALP_RPC_CHAN_CNT_MASK :: u32 where "ALP_RPC_CHAN_CNT_MASK = push_bit 30 1 - 1"
definition ALP_RPC_CHAN_LC_UNOPENED :: u32 where "ALP_RPC_CHAN_LC_UNOPENED = push_bit 30 0"
definition ALP_RPC_CHAN_LC_OPEN :: u32 where "ALP_RPC_CHAN_LC_OPEN = push_bit 30 1"
definition ALP_RPC_CHAN_LC_CLOSING :: u32 where "ALP_RPC_CHAN_LC_CLOSING = push_bit 30 2"

text \<open>One round of the two compare-exchange loops: the value the thread holds and the word as it is.
  A round ends the call with its answer, or goes on with the refreshed value.  \<open>fails\<close> is a spurious
  failure of the weak compare-exchange.\<close>

datatype cas_round = Round_Answer bool u32 | Round_Retry u32

definition rpc_op_enter_round :: "bool \<Rightarrow> u32 \<Rightarrow> u32 \<Rightarrow> cas_round" where
  "rpc_op_enter_round fails word chan_word =
     (if word AND ALP_RPC_CHAN_LC_MASK \<noteq> ALP_RPC_CHAN_LC_OPEN then Round_Answer False chan_word
      else if chan_word = word \<and> \<not> fails then Round_Answer True (word + 1)
      else Round_Retry chan_word)"

definition rpc_op_leave :: "u32 \<Rightarrow> u32" where
  "rpc_op_leave chan_word = chan_word - 1"

definition rpc_begin_close_round :: "bool \<Rightarrow> u32 \<Rightarrow> u32 \<Rightarrow> cas_round" where
  "rpc_begin_close_round fails word chan_word =
     (if word AND ALP_RPC_CHAN_LC_MASK \<noteq> ALP_RPC_CHAN_LC_OPEN then Round_Answer False chan_word
      else if chan_word = word \<and> \<not> fails
        then Round_Answer True ((word AND ALP_RPC_CHAN_CNT_MASK) OR ALP_RPC_CHAN_LC_CLOSING)
      else Round_Retry chan_word)"

definition rpc_drained :: "u32 \<Rightarrow> bool" where
  "rpc_drained chan_word \<longleftrightarrow> chan_word AND ALP_RPC_CHAN_CNT_MASK = 0"

section \<open>A channel under concurrent use\<close>

datatype alp_rpc_shutdown_result = ALP_RPC_SHUTDOWN_DONE | ALP_RPC_SHUTDOWN_DEFERRED

text \<open>Where a thread is, between two atomic accesses.\<close>

datatype rpc_pc =
    R_Idle
  | R_Entering u32      \<comment> \<open>in the loop of \<open>_rpc_op_enter\<close>, holding a value of the word\<close>
  | R_In_Op             \<comment> \<open>inside a backend operation\<close>
  | R_Electing u32      \<comment> \<open>in the loop of \<open>_rpc_begin_close\<close>\<close>
  | R_Shutdown          \<comment> \<open>won the election, inside the backend's shutdown\<close>
  | R_Draining          \<comment> \<open>in \<open>_rpc_drain\<close>\<close>
  | R_Destroying        \<comment> \<open>inside the backend's destroy\<close>
  | R_Releasing         \<comment> \<open>word stored UNOPENED, slot not released yet\<close>
  | R_Claimed           \<comment> \<open>claimed the slot, fields not zeroed yet\<close>
  | R_Opening           \<comment> \<open>fields zeroed, inside the backend's open\<close>

text \<open>\<open>rs_deferred\<close> is the backend's promise of a deferred close: its worker has still to call
  \<^verbatim>\<open>alp_rpc_close_finalize\<close>, once.\<close>

record rstate =
  rs_word :: u32
  rs_in_use :: bool
  rs_deferred :: bool
  rs_pc :: "nat \<Rightarrow> rpc_pc"

definition rs_init :: rstate where
  "rs_init = \<lparr>rs_word = 0, rs_in_use = False, rs_deferred = False, rs_pc = (\<lambda>_. R_Idle)\<rparr>"

abbreviation rgoto :: "nat \<Rightarrow> rpc_pc \<Rightarrow> rstate \<Rightarrow> rstate" where
  "rgoto t p s \<equiv> s\<lparr>rs_pc := (rs_pc s)(t := p)\<rparr>"

inductive rstep :: "nat \<Rightarrow> rstate \<Rightarrow> rstate \<Rightarrow> bool" for N :: nat where
  enter_load: "t < N \<Longrightarrow> rs_pc s t = R_Idle \<Longrightarrow> rstep N s (rgoto t (R_Entering (rs_word s)) s)"
| enter_retry: "t < N \<Longrightarrow> rs_pc s t = R_Entering v \<Longrightarrow> rpc_op_enter_round fails v (rs_word s) = Round_Retry v' \<Longrightarrow>
    rstep N s (rgoto t (R_Entering v') s)"
| enter_refuse: "t < N \<Longrightarrow> rs_pc s t = R_Entering v \<Longrightarrow> rpc_op_enter_round fails v (rs_word s) = Round_Answer False w \<Longrightarrow>
    rstep N s (rgoto t R_Idle (s\<lparr>rs_word := w\<rparr>))"
| enter_accept: "t < N \<Longrightarrow> rs_pc s t = R_Entering v \<Longrightarrow> rpc_op_enter_round fails v (rs_word s) = Round_Answer True w \<Longrightarrow>
    rstep N s (rgoto t R_In_Op (s\<lparr>rs_word := w\<rparr>))"
| leave: "t < N \<Longrightarrow> rs_pc s t = R_In_Op \<Longrightarrow> rstep N s (rgoto t R_Idle (s\<lparr>rs_word := rpc_op_leave (rs_word s)\<rparr>))"
| close_load: "t < N \<Longrightarrow> rs_pc s t = R_Idle \<Longrightarrow> rstep N s (rgoto t (R_Electing (rs_word s)) s)"
| close_retry: "t < N \<Longrightarrow> rs_pc s t = R_Electing v \<Longrightarrow> rpc_begin_close_round fails v (rs_word s) = Round_Retry v' \<Longrightarrow>
    rstep N s (rgoto t (R_Electing v') s)"
| close_lose: "t < N \<Longrightarrow> rs_pc s t = R_Electing v \<Longrightarrow> rpc_begin_close_round fails v (rs_word s) = Round_Answer False w \<Longrightarrow>
    rstep N s (rgoto t R_Idle (s\<lparr>rs_word := w\<rparr>))"
| close_win: "t < N \<Longrightarrow> rs_pc s t = R_Electing v \<Longrightarrow> rpc_begin_close_round fails v (rs_word s) = Round_Answer True w \<Longrightarrow>
    rstep N s (rgoto t R_Shutdown (s\<lparr>rs_word := w\<rparr>))"
| shutdown_done: "t < N \<Longrightarrow> rs_pc s t = R_Shutdown \<Longrightarrow> rstep N s (rgoto t R_Draining s)"
| shutdown_deferred: "t < N \<Longrightarrow> rs_pc s t = R_Shutdown \<Longrightarrow> rstep N s (rgoto t R_Idle (s\<lparr>rs_deferred := True\<rparr>))"
| finalize: "t < N \<Longrightarrow> rs_pc s t = R_Idle \<Longrightarrow> rs_deferred s \<Longrightarrow> rstep N s (rgoto t R_Draining (s\<lparr>rs_deferred := False\<rparr>))"
| drained: "t < N \<Longrightarrow> rs_pc s t = R_Draining \<Longrightarrow> rpc_drained (rs_word s) \<Longrightarrow> rstep N s (rgoto t R_Destroying s)"
| destroyed: "t < N \<Longrightarrow> rs_pc s t = R_Destroying \<Longrightarrow>
    rstep N s (rgoto t R_Releasing (s\<lparr>rs_word := ALP_RPC_CHAN_LC_UNOPENED\<rparr>))"
| release: "t < N \<Longrightarrow> rs_pc s t = R_Releasing \<Longrightarrow>
    rstep N s (rgoto t R_Idle (s\<lparr>rs_in_use := alp_slot_release (rs_in_use s)\<rparr>))"
| claim: "t < N \<Longrightarrow> rs_pc s t = R_Idle \<Longrightarrow> alp_slot_try_claim (rs_in_use s) = (True, u) \<Longrightarrow>
    rstep N s (rgoto t R_Claimed (s\<lparr>rs_in_use := u\<rparr>))"
| zeroed: "t < N \<Longrightarrow> rs_pc s t = R_Claimed \<Longrightarrow> rstep N s (rgoto t R_Opening (s\<lparr>rs_word := 0\<rparr>))"
| open_failed: "t < N \<Longrightarrow> rs_pc s t = R_Opening \<Longrightarrow>
    rstep N s (rgoto t R_Idle (s\<lparr>rs_in_use := alp_slot_release (rs_in_use s)\<rparr>))"
| opened: "t < N \<Longrightarrow> rs_pc s t = R_Opening \<Longrightarrow> rstep N s (rgoto t R_Idle (s\<lparr>rs_word := ALP_RPC_CHAN_LC_OPEN\<rparr>))"

inductive rreach :: "nat \<Rightarrow> rstate \<Rightarrow> bool" for N :: nat where
  rreach_init: "rreach N rs_init"
| rreach_step: "rreach N s \<Longrightarrow> rstep N s s' \<Longrightarrow> rreach N s'"

section \<open>Reading the word\<close>

text \<open>The word of lifecycle \<open>k\<close> with \<open>n\<close> operations in flight.\<close>

definition word_of :: "nat \<Rightarrow> nat \<Rightarrow> u32" where
  "word_of k n = of_nat (k * 2 ^ 30 + n)"

lemma unat_word_of: "k < 4 \<Longrightarrow> n < 2 ^ 30 \<Longrightarrow> unat (word_of k n) = k * 2 ^ 30 + n"
proof -
  assume "k < 4" "n < 2 ^ 30"
  then have "k * 2 ^ 30 + n < 2 ^ 32" by simp
  then show ?thesis unfolding word_of_def unat_of_nat by (intro mod_less) simp
qed

lemma cnt_mask_eq: "ALP_RPC_CHAN_CNT_MASK = mask 30"
  unfolding ALP_RPC_CHAN_CNT_MASK_def mask_eq_exp_minus_1 push_bit_eq_mult by simp

lemma lc_mask_eq: "ALP_RPC_CHAN_LC_MASK = NOT (mask 30)"
  unfolding ALP_RPC_CHAN_LC_MASK_def mask_eq_exp_minus_1 push_bit_eq_mult by simp

lemma word_of_low:
  assumes "k < 4" "n < 2 ^ 30"
  shows "take_bit 30 (word_of k n) = of_nat n"
proof -
  have "n < 2 ^ 32" using assms(2) by simp
  moreover have "unat (take_bit 30 (word_of k n)) = take_bit 30 (k * 2 ^ 30 + n)"
    unfolding unsigned_take_bit_eq unat_word_of [OF assms] ..
  ultimately have "unat (take_bit 30 (word_of k n)) = unat (of_nat n :: u32)"
    using assms(2) by (simp add: take_bit_eq_mod unat_of_nat)
  then show ?thesis by (rule unsigned_word_eqI)
qed

lemma word_of_count: "k < 4 \<Longrightarrow> n < 2 ^ 30 \<Longrightarrow> word_of k n AND ALP_RPC_CHAN_CNT_MASK = of_nat n"
  using word_of_low by (simp add: cnt_mask_eq take_bit_eq_mask)

lemma split_word: "x AND NOT m = x - (x AND m)" for x m :: "'a::len word"
proof -
  have "(x AND NOT m) AND (x AND m) = 0" by (rule bit_word_eqI) (simp add: bit_simps)
  then have "(x AND NOT m) + (x AND m) = (x AND NOT m) OR (x AND m)" by (rule disjunctive_add_eq_or)
  also have "\<dots> = x" by (rule bit_word_eqI) (auto simp: bit_simps)
  finally show ?thesis by (simp add: eq_diff_eq)
qed

lemma word_of_lifecycle:
  assumes "k < 4" "n < 2 ^ 30"
  shows "word_of k n AND ALP_RPC_CHAN_LC_MASK = word_of k 0"
proof -
  have "word_of k n AND ALP_RPC_CHAN_LC_MASK = word_of k n - of_nat n"
    unfolding lc_mask_eq split_word using word_of_low [OF assms] by (simp add: take_bit_eq_mask)
  then show ?thesis by (simp add: word_of_def)
qed

lemma word_of_eq_lifecycle: "word_of k 0 = word_of l 0 \<longleftrightarrow> k = l" if "k < 4" "l < 4"
proof
  assume "word_of k 0 = word_of l 0"
  then have "unat (word_of k 0) = unat (word_of l 0)" by (rule arg_cong)
  then show "k = l" unfolding unat_word_of [OF that(1) zero_less_power [OF zero_less_numeral]]
      unat_word_of [OF that(2) zero_less_power [OF zero_less_numeral]] by simp
qed simp

lemma lifecycle_words:
  "ALP_RPC_CHAN_LC_UNOPENED = word_of 0 0" "ALP_RPC_CHAN_LC_OPEN = word_of 1 0" "ALP_RPC_CHAN_LC_CLOSING = word_of 2 0"
  by (simp_all add: ALP_RPC_CHAN_LC_UNOPENED_def ALP_RPC_CHAN_LC_OPEN_def ALP_RPC_CHAN_LC_CLOSING_def word_of_def push_bit_eq_mult)

lemma word_of_closing:
  assumes "n < 2 ^ 30"
  shows "of_nat n OR ALP_RPC_CHAN_LC_CLOSING = word_of 2 n"
proof -
  have "of_nat n AND ALP_RPC_CHAN_LC_CLOSING = (of_nat n AND mask 30) AND ALP_RPC_CHAN_LC_CLOSING"
    using word_of_count [of 0 n] assms by (simp add: word_of_def cnt_mask_eq)
  also have "\<dots> = of_nat n AND (mask 30 AND ALP_RPC_CHAN_LC_CLOSING)" by (simp add: and.assoc)
  also have "mask 30 AND ALP_RPC_CHAN_LC_CLOSING = 0"
    unfolding ALP_RPC_CHAN_LC_CLOSING_def mask_eq_exp_minus_1 push_bit_eq_mult by simp
  finally have "of_nat n AND ALP_RPC_CHAN_LC_CLOSING = 0" by simp
  then have "of_nat n OR ALP_RPC_CHAN_LC_CLOSING = of_nat n + ALP_RPC_CHAN_LC_CLOSING" by (rule disjunctive_add_eq_or [symmetric])
  then show ?thesis by (simp add: lifecycle_words word_of_def)
qed

section \<open>The invariant\<close>

text \<open>The thread that owns the slot's next transition, and the lifecycle it has put in the word.\<close>

fun r_owner :: "rpc_pc \<Rightarrow> bool" where
  "r_owner R_Idle = False" | "r_owner (R_Entering _) = False" | "r_owner R_In_Op = False" | "r_owner (R_Electing _) = False"
| "r_owner _ = True"

definition r_past_drain :: "rpc_pc \<Rightarrow> bool" where
  "r_past_drain p \<longleftrightarrow> p \<in> {R_Destroying, R_Releasing, R_Claimed, R_Opening}"

definition r_lifecycle :: "rpc_pc \<Rightarrow> nat" where
  "r_lifecycle p = (if p \<in> {R_Shutdown, R_Draining, R_Destroying} then 2 else 0)"

lemma r_pc_simps [simp]:
  "r_past_drain R_Destroying" "r_past_drain R_Releasing" "r_past_drain R_Claimed" "r_past_drain R_Opening"
  "\<not> r_past_drain R_Shutdown" "\<not> r_past_drain R_Draining"
  "r_lifecycle R_Shutdown = 2" "r_lifecycle R_Draining = 2" "r_lifecycle R_Destroying = 2"
  "r_lifecycle R_Releasing = 0" "r_lifecycle R_Claimed = 0" "r_lifecycle R_Opening = 0" "r_lifecycle p < 4"
  by (simp_all add: r_past_drain_def r_lifecycle_def)

definition ops_inside :: "nat \<Rightarrow> (nat \<Rightarrow> rpc_pc) \<Rightarrow> nat" where
  "ops_inside N f = card {t \<in> {..<N}. f t = R_In_Op}"

text \<open>With the owner \<open>own\<close>: it is the only one; the word is its lifecycle (or that of a slot nobody
  is changing) with the number of operations inside; and past the drain, as in a free slot, there
  are none.\<close>

definition slot_lifecycle :: "nat option \<Rightarrow> bool \<Rightarrow> bool \<Rightarrow> (nat \<Rightarrow> rpc_pc) \<Rightarrow> nat" where
  "slot_lifecycle own used deferred f =
     (case own of Some t \<Rightarrow> r_lifecycle (f t) | None \<Rightarrow> if deferred then 2 else if used then 1 else 0)"

definition slot_quiet :: "nat option \<Rightarrow> bool \<Rightarrow> (nat \<Rightarrow> rpc_pc) \<Rightarrow> bool" where
  "slot_quiet own used f \<longleftrightarrow> (case own of Some t \<Rightarrow> r_past_drain (f t) | None \<Rightarrow> \<not> used)"

definition rinv_own :: "nat \<Rightarrow> nat option \<Rightarrow> rstate \<Rightarrow> bool" where
  "rinv_own N own s \<longleftrightarrow>
     (\<forall>t. N \<le> t \<longrightarrow> rs_pc s t = R_Idle) \<and> (\<forall>t. r_owner (rs_pc s t) \<longleftrightarrow> own = Some t) \<and>
     (own \<noteq> None \<longrightarrow> rs_in_use s \<and> \<not> rs_deferred s) \<and> (rs_deferred s \<longrightarrow> rs_in_use s) \<and>
     rs_word s = word_of (slot_lifecycle own (rs_in_use s) (rs_deferred s) (rs_pc s)) (ops_inside N (rs_pc s)) \<and>
     (slot_quiet own (rs_in_use s) (rs_pc s) \<longrightarrow> ops_inside N (rs_pc s) = 0)"

definition rinv :: "nat \<Rightarrow> rstate \<Rightarrow> bool" where
  "rinv N s \<longleftrightarrow> (\<exists>own. rinv_own N own s)"

lemma ops_inside_bound: "ops_inside N f \<le> N"
  unfolding ops_inside_def using card_mono [of "{..<N}" "{t \<in> {..<N}. f t = R_In_Op}"] by fastforce

lemma ops_inside_update:
  assumes "t < N"
  shows "ops_inside N (f(t := p)) + (if f t = R_In_Op then 1 else 0) = ops_inside N f + (if p = R_In_Op then 1 else 0)"
  unfolding ops_inside_def using card_fun_upd [OF assms, of "\<lambda>p. p = R_In_Op" f p] .

lemma ops_inside_same [simp]: "t < N \<Longrightarrow> f t \<noteq> R_In_Op \<Longrightarrow> p \<noteq> R_In_Op \<Longrightarrow> ops_inside N (f(t := p)) = ops_inside N f"
  using ops_inside_update [of t N f p] by simp

lemma word_of_Suc: "word_of k n + 1 = word_of k (Suc n)" "word_of k (Suc n) - 1 = word_of k n"
  by (simp_all add: word_of_def)

lemma rinv_init: "rinv N rs_init"
  by (auto simp: rinv_def rinv_own_def rs_init_def slot_lifecycle_def slot_quiet_def word_of_def ops_inside_def intro!: exI [of _ None])

text \<open>The word of an open slot: nobody owns it and no close is deferred.\<close>

lemma open_word:
  assumes "rinv_own N own s" "N < 2 ^ 30" "rs_word s AND ALP_RPC_CHAN_LC_MASK = ALP_RPC_CHAN_LC_OPEN"
  shows "own = None" "rs_in_use s" "\<not> rs_deferred s" "rs_word s = word_of 1 (ops_inside N (rs_pc s))"
proof -
  let ?k = "slot_lifecycle own (rs_in_use s) (rs_deferred s) (rs_pc s)"
  have k: "?k < 4" by (simp add: slot_lifecycle_def split: option.split)
  have n: "ops_inside N (rs_pc s) < 2 ^ 30" using ops_inside_bound [of N "rs_pc s"] assms(2) by (rule le_less_trans)
  have w: "rs_word s = word_of ?k (ops_inside N (rs_pc s))" using assms(1) by (simp add: rinv_own_def)
  then have "word_of ?k 0 = word_of 1 0" using word_of_lifecycle [OF k n] assms(3) by (simp add: lifecycle_words)
  then have one: "?k = 1" using word_of_eq_lifecycle [OF k, of 1] by simp
  then show "own = None" "rs_in_use s" "\<not> rs_deferred s"
    by (auto simp: slot_lifecycle_def r_lifecycle_def split: option.splits if_splits)
  show "rs_word s = word_of 1 (ops_inside N (rs_pc s))" using w one by simp
qed

text \<open>A thread that neither owns the slot nor is inside moves without effect.\<close>

lemma rinv_bystander:
  assumes "rinv_own N own s" "t < N" "\<not> r_owner (rs_pc s t)" "rs_pc s t \<noteq> R_In_Op" "\<not> r_owner p" "p \<noteq> R_In_Op"
    and "rs_pc s' = (rs_pc s)(t := p)" "rs_word s' = rs_word s" "rs_in_use s' = rs_in_use s" "rs_deferred s' = rs_deferred s"
  shows "rinv N s'"
proof -
  have "own \<noteq> Some t" using assms(1,3) by (auto simp: rinv_own_def)
  then have "slot_lifecycle own u d ((rs_pc s)(t := p)) = slot_lifecycle own u d (rs_pc s)"
    "slot_quiet own u ((rs_pc s)(t := p)) = slot_quiet own u (rs_pc s)" for u d
    by (auto simp: slot_lifecycle_def slot_quiet_def split: option.split)
  then have "rinv_own N own s'" using assms by (auto simp: rinv_own_def)
  then show ?thesis unfolding rinv_def by blast
qed

text \<open>The owner, or a thread that becomes it, moves and stores the word of its new lifecycle.\<close>

lemma rinv_owner_moves:
  assumes "rinv_own N own s" "t < N" "own = None \<or> own = Some t" "rs_pc s t \<noteq> R_In_Op" "r_owner p"
    and "r_past_drain p \<Longrightarrow> ops_inside N (rs_pc s) = 0"
    and "rs_pc s' = (rs_pc s)(t := p)" "rs_word s' = word_of (r_lifecycle p) (ops_inside N (rs_pc s))"
      "rs_in_use s'" "\<not> rs_deferred s'"
  shows "rinv N s'"
proof -
  have "p \<noteq> R_In_Op" using assms(5) by auto
  then have "rinv_own N (Some t) s'" using assms by (auto simp: rinv_own_def slot_lifecycle_def slot_quiet_def)
  then show ?thesis unfolding rinv_def by blast
qed

text \<open>The owner gives the slot up, idle.\<close>

lemma rinv_owner_leaves:
  assumes "rinv_own N (Some t) s" "t < N" "rs_deferred s' \<longrightarrow> rs_in_use s'" "\<not> rs_in_use s' \<Longrightarrow> ops_inside N (rs_pc s) = 0"
    and "rs_pc s' = (rs_pc s)(t := R_Idle)"
      "rs_word s' = word_of (if rs_deferred s' then 2 else if rs_in_use s' then 1 else 0) (ops_inside N (rs_pc s))"
  shows "rinv N s'"
proof -
  have "r_owner (rs_pc s t)" using assms(1) by (simp add: rinv_own_def)
  then have "rs_pc s t \<noteq> R_In_Op" by auto
  then have "rinv_own N None s'" using assms by (auto simp: rinv_own_def slot_lifecycle_def slot_quiet_def)
  then show ?thesis unfolding rinv_def by blast
qed

text \<open>An operation enters an open slot, and leaves.\<close>

lemma rinv_enter:
  assumes "rinv_own N None s" "t < N" "\<not> r_owner (rs_pc s t)" "rs_pc s t \<noteq> R_In_Op" "rs_in_use s" "w = rs_word s + 1"
  shows "rinv N (rgoto t R_In_Op (s\<lparr>rs_word := w\<rparr>))"
proof -
  have "ops_inside N ((rs_pc s)(t := R_In_Op)) = Suc (ops_inside N (rs_pc s))" using ops_inside_update [OF assms(2), of "rs_pc s" R_In_Op] assms(4) by simp
  then have "rinv_own N None (rgoto t R_In_Op (s\<lparr>rs_word := w\<rparr>))"
    using assms by (auto simp: rinv_own_def slot_lifecycle_def slot_quiet_def word_of_Suc(1))
  then show ?thesis unfolding rinv_def by blast
qed

lemma rinv_leave:
  assumes "rinv_own N own s" "t < N" "rs_pc s t = R_In_Op"
  shows "rinv N (rgoto t R_Idle (s\<lparr>rs_word := rpc_op_leave (rs_word s)\<rparr>))" (is "rinv N ?s")
proof -
  define k where "k = ops_inside N ((rs_pc s)(t := R_Idle))"
  have n: "ops_inside N (rs_pc s) = Suc k"
    using ops_inside_update [OF assms(2), of "rs_pc s" R_Idle] assms(3) by (simp add: k_def)
  have "\<not> r_owner (rs_pc s t)" using assms(3) by simp
  then have o: "own \<noteq> Some t" using assms(1) by (auto simp: rinv_own_def)
  then have same: "slot_lifecycle own u d ((rs_pc s)(t := R_Idle)) = slot_lifecycle own u d (rs_pc s)"
    "slot_quiet own u ((rs_pc s)(t := R_Idle)) = slot_quiet own u (rs_pc s)" for u d
    by (auto simp: slot_lifecycle_def slot_quiet_def split: option.split)
  have i: "\<forall>t. N \<le> t \<longrightarrow> rs_pc s t = R_Idle" "\<forall>t. r_owner (rs_pc s t) \<longleftrightarrow> own = Some t"
    "own \<noteq> None \<longrightarrow> rs_in_use s \<and> \<not> rs_deferred s" "rs_deferred s \<longrightarrow> rs_in_use s"
    "rs_word s = word_of (slot_lifecycle own (rs_in_use s) (rs_deferred s) (rs_pc s)) (Suc k)"
    "\<not> slot_quiet own (rs_in_use s) (rs_pc s)"
    using assms(1) unfolding rinv_own_def n by auto
  have "rinv_own N own ?s"
    unfolding rinv_own_def using i o same by (simp add: k_def [symmetric] rpc_op_leave_def word_of_Suc(2))
  then show ?thesis unfolding rinv_def by blast
qed

lemma owner_of: "rinv_own N own s \<Longrightarrow> r_owner (rs_pc s t) \<Longrightarrow> rinv_own N (Some t) s"
  by (simp add: rinv_own_def)

lemma owned_word:
  assumes "rinv_own N (Some t) s"
  shows "rs_word s = word_of (r_lifecycle (rs_pc s t)) (ops_inside N (rs_pc s))" "rs_in_use s" "\<not> rs_deferred s"
    "r_past_drain (rs_pc s t) \<Longrightarrow> ops_inside N (rs_pc s) = 0"
  using assms by (auto simp: rinv_own_def slot_lifecycle_def slot_quiet_def)

lemma unowned_word:
  assumes "rinv_own N own s"
  shows "rs_deferred s \<Longrightarrow> own = None \<and> rs_in_use s \<and> rs_word s = word_of 2 (ops_inside N (rs_pc s))"
    and "\<not> rs_in_use s \<Longrightarrow> own = None \<and> \<not> rs_deferred s \<and> rs_word s = word_of 0 0 \<and> ops_inside N (rs_pc s) = 0"
  using assms by (auto simp: rinv_own_def slot_lifecycle_def slot_quiet_def)

lemmas round_defs = rpc_op_enter_round_def rpc_begin_close_round_def

lemma rinv_step:
  assumes st: "rstep N s s'" and i: "rinv_own N own s" and N: "N < 2 ^ 30"
  shows "rinv N s'"
proof -
  have n: "ops_inside N (rs_pc s) < 2 ^ 30" using ops_inside_bound [of N "rs_pc s"] N by (rule le_less_trans)
  from st show ?thesis
  proof cases
    case (enter_load t)
    then show ?thesis by (intro rinv_bystander [OF i, of t "R_Entering (rs_word s)"]) simp_all
  next
    case (enter_retry t v fails v')
    then show ?thesis by (intro rinv_bystander [OF i, of t "R_Entering v'"]) simp_all
  next
    case (enter_refuse t v fails w)
    then show ?thesis by (intro rinv_bystander [OF i, of t R_Idle]) (auto simp: round_defs split: if_splits)
  next
    case (enter_accept t v fails w)
    then have "rs_word s AND ALP_RPC_CHAN_LC_MASK = ALP_RPC_CHAN_LC_OPEN" "w = rs_word s + 1"
      by (auto simp: round_defs split: if_splits)
    then show ?thesis using rinv_enter [of N s t] open_word [OF i N] i enter_accept by auto
  next
    case (leave t)
    then show ?thesis using rinv_leave [OF i] by simp
  next
    case (close_load t)
    then show ?thesis by (intro rinv_bystander [OF i, of t "R_Electing (rs_word s)"]) simp_all
  next
    case (close_retry t v fails v')
    then show ?thesis by (intro rinv_bystander [OF i, of t "R_Electing v'"]) simp_all
  next
    case (close_lose t v fails w)
    then show ?thesis by (intro rinv_bystander [OF i, of t R_Idle]) (auto simp: round_defs split: if_splits)
  next
    case (close_win t v fails w)
    then have o: "rs_word s AND ALP_RPC_CHAN_LC_MASK = ALP_RPC_CHAN_LC_OPEN"
      "w = (rs_word s AND ALP_RPC_CHAN_CNT_MASK) OR ALP_RPC_CHAN_LC_CLOSING"
      by (auto simp: round_defs split: if_splits)
    then have "w = word_of 2 (ops_inside N (rs_pc s))"
      using open_word(4) [OF i N o(1)] word_of_count [OF _ n, of 1] word_of_closing [OF n] by simp
    then show ?thesis
      using close_win open_word(1-3) [OF i N o(1)] by (intro rinv_owner_moves [OF i, of t R_Shutdown]) simp_all
  next
    case (shutdown_done t)
    then have o: "rinv_own N (Some t) s" using owner_of [OF i] by simp
    then show ?thesis using shutdown_done owned_word [OF o] by (intro rinv_owner_moves [OF o, of t R_Draining]) simp_all
  next
    case (shutdown_deferred t)
    then have o: "rinv_own N (Some t) s" using owner_of [OF i] by simp
    then show ?thesis using shutdown_deferred owned_word [OF o] by (intro rinv_owner_leaves [OF o]) simp_all
  next
    case (finalize t)
    then show ?thesis using unowned_word(1) [OF i] by (intro rinv_owner_moves [OF i, of t R_Draining]) simp_all
  next
    case (drained t)
    then have o: "rinv_own N (Some t) s" using owner_of [OF i] by simp
    then have "of_nat (ops_inside N (rs_pc s)) = (0 :: u32)"
      using drained owned_word(1) [OF o] word_of_count [OF _ n, of 2] by (simp add: rpc_drained_def)
    then have "ops_inside N (rs_pc s) = 0" using n by (auto simp: word_of_nat_eq_0_iff dest: dvd_imp_le)
    then show ?thesis using drained owned_word [OF o] by (intro rinv_owner_moves [OF o, of t R_Destroying]) simp_all
  next
    case (destroyed t)
    then have o: "rinv_own N (Some t) s" using owner_of [OF i] by simp
    then show ?thesis
      using destroyed owned_word [OF o] by (intro rinv_owner_moves [OF o, of t R_Releasing]) (simp_all add: lifecycle_words)
  next
    case (release t)
    then have o: "rinv_own N (Some t) s" using owner_of [OF i] by simp
    then show ?thesis using release owned_word [OF o] by (intro rinv_owner_leaves [OF o]) (simp_all add: alp_slot_release_def)
  next
    case (claim t u)
    then have "\<not> rs_in_use s" "u" by (auto simp: alp_slot_try_claim_def split: if_splits)
    then show ?thesis using claim unowned_word(2) [OF i] by (intro rinv_owner_moves [OF i, of t R_Claimed]) simp_all
  next
    case (zeroed t)
    then have o: "rinv_own N (Some t) s" using owner_of [OF i] by simp
    then show ?thesis
      using zeroed owned_word [OF o] by (intro rinv_owner_moves [OF o, of t R_Opening]) (simp_all add: word_of_def)
  next
    case (open_failed t)
    then have o: "rinv_own N (Some t) s" using owner_of [OF i] by simp
    then show ?thesis using open_failed owned_word [OF o] by (intro rinv_owner_leaves [OF o]) (simp_all add: alp_slot_release_def)
  next
    case (opened t)
    then have o: "rinv_own N (Some t) s" using owner_of [OF i] by simp
    then show ?thesis
      using opened owned_word [OF o] by (intro rinv_owner_leaves [OF o]) (simp_all add: lifecycle_words)
  qed
qed

lemma rreach_inv: "rreach N s \<Longrightarrow> N < 2 ^ 30 \<Longrightarrow> rinv N s"
proof (induction rule: rreach.induct)
  case (rreach_step s s')
  then show ?case using rinv_step unfolding rinv_def by blast
qed (rule rinv_init)

text \<open>A close that drains runs to the release of the slot once the operations inside have left.\<close>

lemma inside_exists:
  assumes "0 < ops_inside N f"
  obtains u where "u < N" "f u = R_In_Op"
proof -
  have "{t \<in> {..<N}. f t = R_In_Op} \<noteq> {}" using assms unfolding ops_inside_def by (metis card.empty less_irrefl)
  then show thesis using that by blast
qed

lemma draining_releases:
  assumes "rinv N s" "N < 2 ^ 30" "t < N" "rs_pc s t = R_Draining"
  shows "\<exists>s'. (rstep N)\<^sup>*\<^sup>* s s' \<and> rs_pc s' t = R_Idle \<and> \<not> rs_in_use s'"
  using assms
proof (induction "ops_inside N (rs_pc s)" arbitrary: s)
  case 0
  have o: "rinv_own N (Some t) s" using 0(2,5) owner_of [of N _ s t] unfolding rinv_def by auto
  have "rpc_drained (rs_word s)" using owned_word(1) [OF o] 0 word_of_count [of 2 0] by (simp add: rpc_drained_def)
  then have 1: "rstep N s (rgoto t R_Destroying s)" (is "rstep N s ?s1") using 0 by (intro rstep.drained) simp_all
  have 2: "rstep N ?s1 (rgoto t R_Releasing (?s1\<lparr>rs_word := ALP_RPC_CHAN_LC_UNOPENED\<rparr>))" (is "rstep N ?s1 ?s2")
    using 0 by (intro rstep.destroyed) simp_all
  have "rstep N ?s2 (rgoto t R_Idle (?s2\<lparr>rs_in_use := alp_slot_release (rs_in_use ?s2)\<rparr>))" (is "rstep N ?s2 ?s3")
    using 0 by (intro rstep.release) simp_all
  then have "(rstep N)\<^sup>*\<^sup>* s ?s3" using 1 2 by (meson converse_rtranclp_into_rtranclp r_into_rtranclp)
  then show ?case by (intro exI [of _ ?s3]) (simp add: alp_slot_release_def)
next
  case (Suc n)
  then obtain u where u: "u < N" "rs_pc s u = R_In_Op" using inside_exists [of N "rs_pc s"] by auto
  let ?s = "rgoto u R_Idle (s\<lparr>rs_word := rpc_op_leave (rs_word s)\<rparr>)"
  have st: "rstep N s ?s" using u by (rule rstep.leave)
  then have "rinv N ?s" using rinv_step [OF _ _ Suc.prems(2)] Suc.prems(1) unfolding rinv_def by blast
  moreover have "u \<noteq> t" using u Suc.prems(4) by auto
  moreover have "n = ops_inside N (rs_pc ?s)" using ops_inside_update [OF u(1), of "rs_pc s" R_Idle] u(2) Suc.hyps(2) by simp
  ultimately have "\<exists>s'. (rstep N)\<^sup>*\<^sup>* ?s s' \<and> rs_pc s' t = R_Idle \<and> \<not> rs_in_use s'"
    using Suc.hyps(1) [of ?s] Suc.prems by simp
  then show ?case using st by (meson converse_rtranclp_into_rtranclp)
qed

section \<open>The property\<close>



end
