(* ===== verification/Rpc_Dispatch.thy ===== *)
theory Rpc_Dispatch
  imports Rpc_Channel Pool_Core
begin

text \<open>
  The RPC dispatcher's public surface (\<^verbatim>\<open>src/rpc_dispatch.c\<close>), one call at a time: open, subscribe,
  unsubscribe, send, call, link liveness, the close with its two outcomes, capabilities.  The
  channel word and its interleavings are the theory \<open>Rpc_Channel\<close>.  A method name is a string or
  \<open>None\<close> for NULL; a callback or user pointer is the number of its address; a payload is its bytes
  with its length apart, as the code takes them.
\<close>

section \<open>State\<close>

abbreviation (input) MAX_RPC_HANDLES :: nat where "MAX_RPC_HANDLES \<equiv> 2"

datatype alp_rpc_link_state = ALP_RPC_LINK_DOWN | ALP_RPC_LINK_UP | ALP_RPC_LINK_LOST

record rpc_config =
  rcf_name :: "string option"
  rcf_src_ept :: u32
  rcf_dst_ept :: u32
  rcf_mbox_ch :: u32

record rpc_state =
  rst_cfg :: rpc_config
  rst_be_data :: "nat option"
  rst_owner :: "nat option"

definition zero_rpc_state :: rpc_state where
  "zero_rpc_state = \<lparr>rst_cfg = \<lparr>rcf_name = None, rcf_src_ept = 0, rcf_dst_ept = 0, rcf_mbox_ch = 0\<rparr>, rst_be_data = None, rst_owner = None\<rparr>"

record 'w rpc_ops =
  rpo_open :: "(rpc_config \<Rightarrow> rpc_state \<Rightarrow> alp_capabilities \<Rightarrow> 'w \<Rightarrow> alp_status \<times> rpc_state \<times> alp_capabilities \<times> 'w) option"
  rpo_subscribe :: "(string \<Rightarrow> nat option \<Rightarrow> nat option \<Rightarrow> rpc_state \<Rightarrow> 'w \<Rightarrow> alp_status \<times> rpc_state \<times> 'w) option"
  rpo_unsubscribe :: "(string \<Rightarrow> rpc_state \<Rightarrow> 'w \<Rightarrow> alp_status \<times> rpc_state \<times> 'w) option"
  rpo_send :: "(string \<Rightarrow> bytes option \<Rightarrow> nat \<Rightarrow> rpc_state \<Rightarrow> 'w \<Rightarrow> alp_status \<times> rpc_state \<times> 'w) option"
  rpo_call :: "(string \<Rightarrow> bytes option \<Rightarrow> nat \<Rightarrow> bytes option \<Rightarrow> nat option \<Rightarrow> u32 \<Rightarrow> rpc_state \<Rightarrow> 'w \<Rightarrow>
    (alp_status \<times> bytes option \<times> nat option) \<times> rpc_state \<times> 'w) option"
  rpo_shutdown :: "(rpc_state \<Rightarrow> 'w \<Rightarrow> alp_rpc_shutdown_result \<times> rpc_state \<times> 'w) option"
  rpo_destroy :: "(rpc_state \<Rightarrow> 'w \<Rightarrow> rpc_state \<times> 'w) option"

record 'w rpc_channel =
  ch_ops :: "'w rpc_ops option"
  ch_state :: rpc_state
  ch_backend :: "nat option"
  ch_cached_caps :: alp_capabilities
  ch_link_cb :: "nat option"
  ch_link_user :: "nat option"
  ch_link_state :: alp_rpc_link_state
  ch_word :: u32
  ch_in_use :: bool

type_synonym 'w rpc_pool = "'w rpc_channel list"

definition zero_channel :: "bool \<Rightarrow> 'w rpc_channel" where
  "zero_channel used = \<lparr>ch_ops = None, ch_state = zero_rpc_state, ch_backend = None, ch_cached_caps = zero_caps,
     ch_link_cb = None, ch_link_user = None, ch_link_state = ALP_RPC_LINK_DOWN, ch_word = 0, ch_in_use = used\<rparr>"

fun alloc_rpc :: "'w rpc_pool \<Rightarrow> (nat \<times> 'w rpc_pool) option" where
  "alloc_rpc [] = None"
| "alloc_rpc (h # hs) =
     (case alp_slot_try_claim (ch_in_use h) of
        (True, u) \<Rightarrow> Some (0, zero_channel u # hs)
      | (False, _) \<Rightarrow> map_option (\<lambda>(i, hs). (Suc i, h # hs)) (alloc_rpc hs))"

section \<open>The guard, one call at a time\<close>

text \<open>With no other thread the compare-exchange of a freshly loaded word succeeds at once.\<close>

definition rpc_op_enter :: "u32 \<Rightarrow> bool \<times> u32" where
  "rpc_op_enter w = (case rpc_op_enter_round False w w of Round_Answer b w \<Rightarrow> (b, w) | Round_Retry w \<Rightarrow> (False, w))"

definition rpc_begin_close :: "u32 \<Rightarrow> bool \<times> u32" where
  "rpc_begin_close w = (case rpc_begin_close_round False w w of Round_Answer b w \<Rightarrow> (b, w) | Round_Retry w \<Rightarrow> (False, w))"

text \<open>The body of a guarded call, given the channel as the body sees it.\<close>

definition rpc_guarded :: "nat option \<Rightarrow> 'r \<Rightarrow> ('w rpc_channel \<Rightarrow> 'w \<Rightarrow> 'r \<times> 'w rpc_channel \<times> 'w) \<Rightarrow> 'w rpc_pool \<Rightarrow> 'w \<Rightarrow> 'r \<times> 'w rpc_pool \<times> 'w" where
  "rpc_guarded h refused body pool w =
     (case h of
        None \<Rightarrow> (refused, pool, w)
      | Some i \<Rightarrow>
          (case rpc_op_enter (ch_word (pool ! i)) of
             (False, _) \<Rightarrow> (refused, pool, w)
           | (True, word) \<Rightarrow>
               (let (r, ch, w) = body ((pool ! i)\<lparr>ch_word := word\<rparr>) w
                in (r, pool[i := ch\<lparr>ch_word := rpc_op_leave (ch_word ch)\<rparr>], w))))"

definition empty_name :: "string option \<Rightarrow> bool" where
  "empty_name s \<longleftrightarrow> (case s of None \<Rightarrow> True | Some s \<Rightarrow> s = [])"

text \<open>A backend operation of the table, or \<open>ALP_ERR_NOT_IMPLEMENTED\<close>.\<close>

definition rpc_delegate :: "('w rpc_ops \<Rightarrow> (rpc_state \<Rightarrow> 'w \<Rightarrow> 'r \<times> rpc_state \<times> 'w) option) \<Rightarrow> 'r \<Rightarrow> 'w rpc_channel \<Rightarrow> 'w \<Rightarrow>
    'r \<times> 'w rpc_channel \<times> 'w" where
  "rpc_delegate sel missing ch w =
     (case Option.bind (ch_ops ch) sel of
        None \<Rightarrow> (missing, ch, w)
      | Some f \<Rightarrow> (let (r, st, w) = f (ch_state ch) w in (r, ch\<lparr>ch_state := st\<rparr>, w)))"

section \<open>Open and close\<close>

definition alp_rpc_open ::
  "('w rpc_ops, 'w) pool_build \<Rightarrow> rpc_config option \<Rightarrow> 'w rpc_pool \<Rightarrow> 'w \<Rightarrow> nat option \<times> alp_status \<times> 'w rpc_pool \<times> 'w" where
  "alp_rpc_open pb cfg pool w =
     (case cfg of
        None \<Rightarrow> (None, ALP_ERR_INVAL, pool, w)
      | Some cfg \<Rightarrow>
          if empty_name (rcf_name cfg) then (None, ALP_ERR_INVAL, pool, w) else
          (case alp_backend_select (pb_mem pb) (pb_classes pb) (Some ''rpc'') (Some (pb_soc pb)) of
             None \<Rightarrow> (None, ALP_ERR_NOT_PRESENT_ON_THIS_SOC, pool, w)
           | Some be \<Rightarrow>
               (case be_ops (pb_mem pb be) of
                  None \<Rightarrow> (None, ALP_ERR_NOT_IMPLEMENTED, pool, w)
                | Some ops \<Rightarrow>
                    (case rpo_open ops of
                       None \<Rightarrow> (None, ALP_ERR_NOT_IMPLEMENTED, pool, w)
                     | Some f \<Rightarrow>
                         (case alloc_rpc pool of
                            None \<Rightarrow> (None, ALP_ERR_NOMEM, pool, w)
                          | Some (i, pool) \<Rightarrow>
                              (let caps = zero_caps\<lparr>cap_flags := be_base_caps (pb_mem pb be), cap_class_flags := be_base_class_flags (pb_mem pb be)\<rparr>;
                                   ch = (pool ! i)\<lparr>ch_backend := Some be, ch_ops := Some ops,
                                          ch_state := (ch_state (pool ! i))\<lparr>rst_cfg := cfg, rst_owner := Some i\<rparr>\<rparr>;
                                   (rc, st, caps, w) = f cfg (ch_state ch) caps w;
                                   ch = ch\<lparr>ch_state := st\<rparr> in
                               if rc \<noteq> ALP_OK then (None, rc, pool[i := ch\<lparr>ch_in_use := alp_slot_release (ch_in_use ch)\<rparr>], w)
                               else (Some i, ALP_OK, pool[i := ch\<lparr>ch_cached_caps := caps, ch_word := ALP_RPC_CHAN_LC_OPEN\<rparr>], w)))))))"

text \<open>Drain, destroy, UNOPENED, release; \<open>None\<close> is a drain that waits for an operation in flight.\<close>

definition rpc_finalize :: "nat \<Rightarrow> 'w rpc_pool \<Rightarrow> 'w \<Rightarrow> ('w rpc_pool \<times> 'w) option" where
  "rpc_finalize i pool w =
     (if \<not> rpc_drained (ch_word (pool ! i)) then None
      else
        (let ((), ch, w) = rpc_delegate (\<lambda>ops. map_option (\<lambda>f st w. ((), f st w)) (rpo_destroy ops)) () (pool ! i) w
         in Some (pool[i := ch\<lparr>ch_word := ALP_RPC_CHAN_LC_UNOPENED, ch_in_use := alp_slot_release (ch_in_use ch)\<rparr>], w)))"

definition alp_rpc_close_finalize :: "nat option \<Rightarrow> 'w rpc_pool \<Rightarrow> 'w \<Rightarrow> ('w rpc_pool \<times> 'w) option" where
  "alp_rpc_close_finalize ch pool w = (case ch of None \<Rightarrow> Some (pool, w) | Some i \<Rightarrow> rpc_finalize i pool w)"

definition alp_rpc_close :: "nat option \<Rightarrow> 'w rpc_pool \<Rightarrow> 'w \<Rightarrow> ('w rpc_pool \<times> 'w) option" where
  "alp_rpc_close h pool w =
     (case h of
        None \<Rightarrow> Some (pool, w)
      | Some i \<Rightarrow>
          (case rpc_begin_close (ch_word (pool ! i)) of
             (False, _) \<Rightarrow> Some (pool, w)
           | (True, word) \<Rightarrow>
               (let (result, ch, w) = rpc_delegate rpo_shutdown ALP_RPC_SHUTDOWN_DONE ((pool ! i)\<lparr>ch_word := word\<rparr>) w;
                    pool = pool[i := ch] in
                case result of
                  ALP_RPC_SHUTDOWN_DEFERRED \<Rightarrow> Some (pool, w)
                | ALP_RPC_SHUTDOWN_DONE \<Rightarrow> rpc_finalize i pool w)))"

section \<open>Operations\<close>

definition alp_rpc_subscribe ::
  "nat option \<Rightarrow> string option \<Rightarrow> nat option \<Rightarrow> nat option \<Rightarrow> 'w rpc_pool \<Rightarrow> 'w \<Rightarrow> alp_status \<times> 'w rpc_pool \<times> 'w" where
  "alp_rpc_subscribe h method cb user =
     rpc_guarded h ALP_ERR_NOT_READY
       (\<lambda>ch w. if empty_name method then (ALP_ERR_INVAL, ch, w)
               else rpc_delegate (\<lambda>ops. map_option (\<lambda>f. f (the method) cb user) (rpo_subscribe ops)) ALP_ERR_NOT_IMPLEMENTED ch w)"

definition alp_rpc_unsubscribe :: "nat option \<Rightarrow> string option \<Rightarrow> 'w rpc_pool \<Rightarrow> 'w \<Rightarrow> alp_status \<times> 'w rpc_pool \<times> 'w" where
  "alp_rpc_unsubscribe h method =
     rpc_guarded h ALP_ERR_NOT_READY
       (\<lambda>ch w. if empty_name method then (ALP_ERR_INVAL, ch, w)
               else rpc_delegate (\<lambda>ops. map_option (\<lambda>f. f (the method)) (rpo_unsubscribe ops)) ALP_ERR_NOT_IMPLEMENTED ch w)"

text \<open>The notification of a backend; the result is the callback it makes, if any.\<close>

definition alp_rpc_notify_link ::
  "nat option \<Rightarrow> alp_rpc_link_state \<Rightarrow> 'w rpc_pool \<Rightarrow> (nat \<times> alp_rpc_link_state \<times> nat option) option \<times> 'w rpc_pool" where
  "alp_rpc_notify_link ch state pool =
     (case ch of
        None \<Rightarrow> (None, pool)
      | Some i \<Rightarrow>
          if state = ALP_RPC_LINK_LOST \<and> ch_link_state (pool ! i) \<noteq> ALP_RPC_LINK_UP then (None, pool)
          else (map_option (\<lambda>cb. (cb, state, ch_link_user (pool ! i))) (ch_link_cb (pool ! i)),
                pool[i := (pool ! i)\<lparr>ch_link_state := state\<rparr>]))"

definition alp_rpc_set_link_callback ::
  "nat option \<Rightarrow> nat option \<Rightarrow> nat option \<Rightarrow> 'w rpc_pool \<Rightarrow> 'w \<Rightarrow> alp_status \<times> 'w rpc_pool \<times> 'w" where
  "alp_rpc_set_link_callback h cb user =
     rpc_guarded h ALP_ERR_NOT_READY (\<lambda>ch w. (ALP_OK, ch\<lparr>ch_link_user := user, ch_link_cb := cb\<rparr>, w))"

definition alp_rpc_link_state_op ::
  "nat option \<Rightarrow> alp_rpc_link_state option \<Rightarrow> 'w rpc_pool \<Rightarrow> 'w \<Rightarrow> (alp_status \<times> alp_rpc_link_state option) \<times> 'w rpc_pool \<times> 'w" where
  "alp_rpc_link_state_op h out_state =
     rpc_guarded h (ALP_ERR_NOT_READY, out_state)
       (\<lambda>ch w. case out_state of None \<Rightarrow> ((ALP_ERR_INVAL, None), ch, w) | Some _ \<Rightarrow> ((ALP_OK, Some (ch_link_state ch)), ch, w))"

definition alp_rpc_send ::
  "nat option \<Rightarrow> string option \<Rightarrow> bytes option \<Rightarrow> nat \<Rightarrow> 'w rpc_pool \<Rightarrow> 'w \<Rightarrow> alp_status \<times> 'w rpc_pool \<times> 'w" where
  "alp_rpc_send h method payload len =
     rpc_guarded h ALP_ERR_NOT_READY
       (\<lambda>ch w. if empty_name method then (ALP_ERR_INVAL, ch, w)
               else if payload = None \<and> len > 0 then (ALP_ERR_INVAL, ch, w)
               else if ch_link_state ch = ALP_RPC_LINK_LOST then (ALP_ERR_NOT_READY, ch, w)
               else rpc_delegate (\<lambda>ops. map_option (\<lambda>f. f (the method) payload len) (rpo_send ops)) ALP_ERR_NOT_IMPLEMENTED ch w)"

definition alp_rpc_call ::
  "nat option \<Rightarrow> string option \<Rightarrow> bytes option \<Rightarrow> nat \<Rightarrow> bytes option \<Rightarrow> nat option \<Rightarrow> u32 \<Rightarrow> 'w rpc_pool \<Rightarrow> 'w \<Rightarrow>
   (alp_status \<times> bytes option \<times> nat option) \<times> 'w rpc_pool \<times> 'w" where
  "alp_rpc_call h method req req_len resp resp_len timeout_ms =
     rpc_guarded h (ALP_ERR_NOT_READY, resp, resp_len)
       (\<lambda>ch w. if empty_name method then ((ALP_ERR_INVAL, resp, resp_len), ch, w)
               else if req = None \<and> req_len > 0 then ((ALP_ERR_INVAL, resp, resp_len), ch, w)
               else if resp \<noteq> None \<and> resp_len = None then ((ALP_ERR_INVAL, resp, resp_len), ch, w)
               else if ch_link_state ch = ALP_RPC_LINK_LOST then ((ALP_ERR_NOT_READY, resp, resp_len), ch, w)
               else rpc_delegate (\<lambda>ops. map_option (\<lambda>f. f (the method) req req_len resp resp_len timeout_ms) (rpo_call ops))
                      (ALP_ERR_NOT_IMPLEMENTED, resp, resp_len) ch w)"

definition alp_rpc_capabilities :: "nat option \<Rightarrow> 'w rpc_pool \<Rightarrow> alp_capabilities option" where
  "alp_rpc_capabilities h pool = map_option (\<lambda>i. ch_cached_caps (pool ! i)) h"

section \<open>Link liveness\<close>

text \<open>A run of notifications: the callbacks made and the pool.\<close>

fun notify_all ::
  "nat \<Rightarrow> alp_rpc_link_state list \<Rightarrow> 'w rpc_pool \<Rightarrow> (nat \<times> alp_rpc_link_state \<times> nat option) list \<times> 'w rpc_pool" where
  "notify_all i [] pool = ([], pool)"
| "notify_all i (n # ns) pool =
     (let (cb, pool) = alp_rpc_notify_link (Some i) n pool; (cbs, pool) = notify_all i ns pool
      in ((case cb of None \<Rightarrow> [] | Some c \<Rightarrow> [c]) @ cbs, pool))"

text \<open>The link as the interface documents it: LOST only from UP.\<close>

definition link_next :: "alp_rpc_link_state \<Rightarrow> alp_rpc_link_state \<Rightarrow> alp_rpc_link_state" where
  "link_next l n = (if n = ALP_RPC_LINK_LOST \<and> l \<noteq> ALP_RPC_LINK_UP then l else n)"

lemma notify_all_link:
  assumes "i < length pool" "notify_all i ns pool = (cbs, pool')"
  shows "pool' = pool[i := (pool ! i)\<lparr>ch_link_state := fold (\<lambda>n l. link_next l n) ns (ch_link_state (pool ! i))\<rparr>]"
  using assms
proof (induction ns arbitrary: pool cbs)
  case Nil
  have "(pool ! i)\<lparr>ch_link_state := ch_link_state (pool ! i)\<rparr> = pool ! i" by (cases "pool ! i") simp
  then show ?case using Nil by simp
next
  case (Cons n ns)
  obtain cb p where n: "alp_rpc_notify_link (Some i) n pool = (cb, p)" by (metis prod.exhaust)
  then obtain cs where c: "notify_all i ns p = (cs, pool')" using Cons.prems(2) by (auto split: prod.splits)
  have same: "(pool ! i)\<lparr>ch_link_state := ch_link_state (pool ! i)\<rparr> = pool ! i" by (cases "pool ! i") simp
  have p: "p = pool[i := (pool ! i)\<lparr>ch_link_state := link_next (ch_link_state (pool ! i)) n\<rparr>]"
    using n by (auto simp: alp_rpc_notify_link_def link_next_def same split: if_splits)
  then have "i < length p" using Cons.prems(1) by simp
  then show ?case using Cons.IH [OF _ c] Cons.prems(1) p by simp
qed

text \<open>The link is LOST exactly after an UP followed by LOST reports alone.\<close>

lemma link_lost_iff:
  assumes "l0 \<noteq> ALP_RPC_LINK_LOST"
  shows "fold (\<lambda>n l. link_next l n) ns l0 = ALP_RPC_LINK_LOST \<longleftrightarrow>
    (\<exists>a n. l0 # ns = a @ ALP_RPC_LINK_UP # replicate (Suc n) ALP_RPC_LINK_LOST)"
proof (induction ns rule: rev_induct)
  case Nil
  have "l0 # [] \<noteq> a @ ALP_RPC_LINK_UP # replicate (Suc n) ALP_RPC_LINK_LOST" for a n by (cases a) auto
  then show ?case using assms by simp
next
  case (snoc x ns)
  let ?l = "fold (\<lambda>n l. link_next l n) ns l0"
  have up: "?l = ALP_RPC_LINK_UP \<longleftrightarrow> last (l0 # ns) = ALP_RPC_LINK_UP"
  proof (induction ns rule: rev_induct)
    case (snoc y ys)
    then show ?case by (auto simp: link_next_def)
  qed simp
  have split: "l0 # ns @ [ALP_RPC_LINK_LOST] = a @ ALP_RPC_LINK_UP # replicate (Suc n) ALP_RPC_LINK_LOST \<longleftrightarrow>
      l0 # ns = a @ ALP_RPC_LINK_UP # replicate n ALP_RPC_LINK_LOST" for a n
  proof -
    have "a @ ALP_RPC_LINK_UP # replicate (Suc n) ALP_RPC_LINK_LOST = (a @ ALP_RPC_LINK_UP # replicate n ALP_RPC_LINK_LOST) @ [ALP_RPC_LINK_LOST]"
      by (simp add: replicate_append_same)
    then show ?thesis by (metis append1_eq_conv append_Cons)
  qed
  show ?case
  proof (cases "x = ALP_RPC_LINK_LOST")
    case True
    have "(\<exists>a n. l0 # ns = a @ ALP_RPC_LINK_UP # replicate n ALP_RPC_LINK_LOST) \<longleftrightarrow>
      last (l0 # ns) = ALP_RPC_LINK_UP \<or> (\<exists>a n. l0 # ns = a @ ALP_RPC_LINK_UP # replicate (Suc n) ALP_RPC_LINK_LOST)"
      (is "?L \<longleftrightarrow> ?R")
    proof
      assume ?L
      then obtain a n where "l0 # ns = a @ ALP_RPC_LINK_UP # replicate n ALP_RPC_LINK_LOST" by blast
      then show ?R
      proof (cases n)
        case (Suc m)
        then show ?thesis using \<open>l0 # ns = a @ ALP_RPC_LINK_UP # replicate n ALP_RPC_LINK_LOST\<close> by blast
      qed simp
    next
      assume ?R
      moreover have "l0 # ns = butlast (l0 # ns) @ [last (l0 # ns)]" by (rule append_butlast_last_id [symmetric]) simp
      ultimately show ?L by (metis append_Nil2 replicate_0)
    qed
    moreover have "link_next ?l x = ALP_RPC_LINK_LOST \<longleftrightarrow> ?l = ALP_RPC_LINK_UP \<or> ?l = ALP_RPC_LINK_LOST"
      using True by (auto simp: link_next_def)
    ultimately show ?thesis using snoc True up split by simp
  next
    case False
    have "l0 # ns @ [x] \<noteq> a @ ALP_RPC_LINK_UP # replicate (Suc n) ALP_RPC_LINK_LOST" for a n
    proof
      assume "l0 # ns @ [x] = a @ ALP_RPC_LINK_UP # replicate (Suc n) ALP_RPC_LINK_LOST"
      then have "last (l0 # ns @ [x]) = last (a @ ALP_RPC_LINK_UP # replicate (Suc n) ALP_RPC_LINK_LOST)" by (rule arg_cong)
      then show False using False by (auto split: if_splits)
    qed
    then show ?thesis using False by (simp add: link_next_def)
  qed
qed

lemma op_enter_word: "rpc_op_enter w = (b, w') \<Longrightarrow> w' = (if b then w + 1 else w)"
  by (auto simp: rpc_op_enter_def rpc_op_enter_round_def split: if_splits)

text \<open>A guarded call on an open channel: the body's channel, with the word as it was.\<close>

lemma rpc_guarded_open:
  assumes "rpc_op_enter (ch_word (pool ! i)) = (True, v)" "body ((pool ! i)\<lparr>ch_word := v\<rparr>) w = (r, ch, w')" "ch_word ch = v"
  shows "rpc_guarded (Some i) refused body pool w = (r, pool[i := ch\<lparr>ch_word := ch_word (pool ! i)\<rparr>], w')"
  using assms op_enter_word [OF assms(1)] by (simp add: rpc_guarded_def rpc_op_leave_def)

lemma same_channel: "ch\<lparr>ch_word := v, ch_word := ch_word ch\<rparr> = ch"
  by (cases ch) simp

lemma rpc_guarded_keeps:
  assumes "rpc_op_enter (ch_word (pool ! i)) = (True, v)" "body ((pool ! i)\<lparr>ch_word := v\<rparr>) w = (r, (pool ! i)\<lparr>ch_word := v\<rparr>, w')"
  shows "rpc_guarded (Some i) refused body pool w = (r, pool, w')"
proof -
  have "pool[i := (pool ! i)\<lparr>ch_word := v, ch_word := ch_word (pool ! i)\<rparr>] = pool" unfolding same_channel by (rule list_update_id)
  then show ?thesis using rpc_guarded_open [where body = body, OF assms] by simp
qed


definition sample_rpc_ops :: "nat rpc_ops" where
  "sample_rpc_ops = \<lparr>rpo_open = None, rpo_subscribe = None, rpo_unsubscribe = None,
     rpo_send = Some (\<lambda>m p n st w. (ALP_OK, st, w + n)), rpo_call = None, rpo_shutdown = None, rpo_destroy = None\<rparr>"

definition sample_channel :: "nat rpc_channel" where
  "sample_channel = (zero_channel True)\<lparr>ch_ops := Some sample_rpc_ops, ch_word := ALP_RPC_CHAN_LC_OPEN\<rparr>"


end
