(* ===== verification/Model_Select.thy ===== *)
theory Model_Select
  imports Alp_Prelude
begin

text \<open>
  The choice of a target of a parsed \<^verbatim>\<open>.alpmodel\<close> package for a device
  (\<^verbatim>\<open>src/backends/inference/alp_model_select.c\<close>, types from \<^verbatim>\<open>include/alp/model.h\<close>).  A NUL-terminated
  character array is the string up to its NUL; a blob pointer is its offset in the package.
\<close>

section \<open>Data\<close>

datatype alp_inference_backend =
    ALP_INFERENCE_BACKEND_AUTO
  | ALP_INFERENCE_BACKEND_CPU
  | ALP_INFERENCE_BACKEND_ETHOS_U
  | ALP_INFERENCE_BACKEND_DRPAI
  | ALP_INFERENCE_BACKEND_DEEPX_DXM1

datatype alp_inference_model_format =
    ALP_INFERENCE_MODEL_TFLITE
  | ALP_INFERENCE_MODEL_VELA
  | ALP_INFERENCE_MODEL_DRPAI
  | ALP_INFERENCE_MODEL_DXNN
  | ALP_INFERENCE_MODEL_EXECUTORCH
  | ALP_INFERENCE_MODEL_ONNX

abbreviation (input) ALP_MODEL_STR_MAX :: nat where "ALP_MODEL_STR_MAX \<equiv> 32"
abbreviation (input) ALP_MODEL_MAX_TARGETS :: nat where "ALP_MODEL_MAX_TARGETS \<equiv> 8"

record model_target =
  mt_backend :: string
  mt_silicon_ref :: string
  mt_blob_format :: string
  mt_accel_config :: string
  mt_arena_bytes :: u32
  mt_req_sram_kib :: u32
  mt_blob :: "nat option"
  mt_blob_len :: u32

record alp_model =
  md_name :: string
  md_src_sha :: bytes
  md_flags :: u16
  md_n_targets :: nat
  md_targets :: "model_target list"

record select_env =
  se_soc_ref :: "string option"
  se_avail_silicon :: "string list"
  se_arena_sram_kib :: u32
  se_auto_order :: "alp_inference_backend list"

record select_result =
  sr_target_index :: nat
  sr_backend :: alp_inference_backend
  sr_format :: alp_inference_model_format
  sr_arena_bytes :: u32
  sr_arena_fit_unverified :: bool

section \<open>Names\<close>

definition backend_enum :: "string \<Rightarrow> alp_inference_backend" where
  "backend_enum s =
     (if s = ''cpu'' then ALP_INFERENCE_BACKEND_CPU
      else if s = ''ethos_u'' then ALP_INFERENCE_BACKEND_ETHOS_U
      else if s = ''drpai'' then ALP_INFERENCE_BACKEND_DRPAI
      else if s = ''deepx_dxm1'' then ALP_INFERENCE_BACKEND_DEEPX_DXM1
      else ALP_INFERENCE_BACKEND_AUTO)"

definition fmt_enum :: "string \<Rightarrow> alp_inference_model_format option" where
  "fmt_enum s =
     (if s = ''tflite'' then Some ALP_INFERENCE_MODEL_TFLITE
      else if s = ''vela_tflite'' then Some ALP_INFERENCE_MODEL_VELA
      else if s = ''drpai_dir'' then Some ALP_INFERENCE_MODEL_DRPAI
      else if s = ''dxnn'' then Some ALP_INFERENCE_MODEL_DXNN
      else if s = ''executorch'' then Some ALP_INFERENCE_MODEL_EXECUTORCH
      else if s = ''onnx'' then Some ALP_INFERENCE_MODEL_ONNX
      else None)"

text \<open>The comma-separated order; \<open>room\<close> is what is left of the output array.\<close>

function order_scan :: "string \<Rightarrow> nat \<Rightarrow> alp_inference_backend list" where
  "order_scan csv room =
     (if csv = [] \<or> room = 0 then [] else
      let len = length (takeWhile (\<lambda>c. c \<noteq> CHR '','') csv);
          be = backend_enum (take len csv);
          rest = (if len < length csv then drop (len + 1) csv else drop len csv) in
      if 0 < len \<and> len < ALP_MODEL_STR_MAX \<and> be \<noteq> ALP_INFERENCE_BACKEND_AUTO then
        (if be = ALP_INFERENCE_BACKEND_CPU then [be] else be # order_scan rest (room - 1))
      else order_scan rest room)"
  by pat_completeness auto
termination
  by (relation "measure (\<lambda>(csv, _). length csv)") (auto simp: Suc_le_eq dest: le_neq_implies_less [OF length_takeWhile_le])

declare order_scan.simps [simp del]

definition alp_auto_order_parse :: "string option \<Rightarrow> nat \<Rightarrow> alp_inference_backend list" where
  "alp_auto_order_parse csv room = (case csv of None \<Rightarrow> [] | Some csv \<Rightarrow> order_scan csv room)"

section \<open>Selection\<close>

text \<open>Position in the order, or its length.\<close>

definition inference_rank :: "alp_inference_backend \<Rightarrow> select_env \<Rightarrow> nat" where
  "inference_rank be env = (if se_auto_order env \<noteq> [] then length (takeWhile (\<lambda>b. b \<noteq> be) (se_auto_order env)) else 0)"

definition silicon_available :: "string \<Rightarrow> select_env \<Rightarrow> bool" where
  "silicon_available ref e \<longleftrightarrow> ref = ''*'' \<or> se_soc_ref e = Some ref \<or> ref \<in> set (se_avail_silicon e)"

definition fits :: "model_target \<Rightarrow> select_env \<Rightarrow> bool" where
  "fits t e \<longleftrightarrow> se_arena_sram_kib e = 0 \<or> mt_req_sram_kib t \<le> se_arena_sram_kib e"

text \<open>The loop over the targets: best, cpu, any_backend, cpu_no_fit.\<close>

type_synonym target_state = "nat option \<times> nat option \<times> bool \<times> bool"

definition target_step :: "model_target list \<Rightarrow> select_env \<Rightarrow> alp_inference_backend \<Rightarrow> nat \<Rightarrow> target_state \<Rightarrow> target_state" where
  "target_step ts env requested i = (\<lambda>(best, cpu, any_backend, cpu_no_fit).
     let t = ts ! i; be = backend_enum (mt_backend t) in
     if be = ALP_INFERENCE_BACKEND_AUTO then (best, cpu, any_backend, cpu_no_fit)
     else if \<not> silicon_available (mt_silicon_ref t) env then (best, cpu, any_backend, cpu_no_fit)
     else if be = ALP_INFERENCE_BACKEND_CPU then
       (if fits t env then (best, Some i, any_backend, cpu_no_fit) else (best, cpu, any_backend, True))
     else if requested \<noteq> ALP_INFERENCE_BACKEND_AUTO \<and> be \<noteq> requested then (best, cpu, any_backend, cpu_no_fit)
     else if \<not> fits t env then (best, cpu, True, cpu_no_fit)
     else (case best of
             None \<Rightarrow> (Some i, cpu, True, cpu_no_fit)
           | Some b \<Rightarrow>
               if inference_rank be env < inference_rank (backend_enum (mt_backend (ts ! b))) env
               then (Some i, cpu, True, cpu_no_fit) else (best, cpu, True, cpu_no_fit)))"

definition target_loop :: "model_target list \<Rightarrow> select_env \<Rightarrow> alp_inference_backend \<Rightarrow> nat \<Rightarrow> target_state" where
  "target_loop ts env requested n = fold (target_step ts env requested) [0..<n] (None, None, False, False)"

text \<open>The \<open>out\<close> argument is returned updated on success.\<close>

definition alp_model_select ::
  "alp_model option \<Rightarrow> select_env option \<Rightarrow> alp_inference_backend \<Rightarrow> select_result option \<Rightarrow> alp_status \<times> select_result option" where
  "alp_model_select m env requested out =
     (case (m, env, out) of
        (Some m, Some env, Some out0) \<Rightarrow>
          if md_n_targets m = 0 then (ALP_ERR_INVAL, out) else
          (let ts = md_targets m; n = md_n_targets m;
               (best, cpu, any_backend, cpu_no_fit) = target_loop ts env requested n in
           if requested \<noteq> ALP_INFERENCE_BACKEND_AUTO \<and> requested \<noteq> ALP_INFERENCE_BACKEND_CPU \<and> best = None \<and> \<not> any_backend \<and>
              \<not> (\<exists>i \<in> set [0..<n]. backend_enum (mt_backend (ts ! i)) = requested)
           then (ALP_ERR_NOT_FOUND, out) else
           let best = (if best = None \<and> (requested = ALP_INFERENCE_BACKEND_AUTO \<or> requested = ALP_INFERENCE_BACKEND_CPU)
                       then cpu else best) in
           case best of
             None \<Rightarrow> (if any_backend \<or> cpu_no_fit then ALP_ERR_NO_FIT else ALP_ERR_NO_BACKEND, out)
           | Some b \<Rightarrow>
               (case fmt_enum (mt_blob_format (ts ! b)) of
                  None \<Rightarrow> (ALP_ERR_INVAL, out)
                | Some fmt \<Rightarrow>
                    (ALP_OK, Some \<lparr>sr_target_index = b, sr_backend = backend_enum (mt_backend (ts ! b)), sr_format = fmt,
                       sr_arena_bytes = mt_arena_bytes (ts ! b), sr_arena_fit_unverified = (se_arena_sram_kib env = 0)\<rparr>)))
      | _ \<Rightarrow> (ALP_ERR_INVAL, out))"

text \<open>A package of four targets and a device they are matched against.\<close>

definition sample_target :: "string \<Rightarrow> string \<Rightarrow> string \<Rightarrow> u32 \<Rightarrow> model_target" where
  "sample_target be sil fmt kib = \<lparr>mt_backend = be, mt_silicon_ref = sil, mt_blob_format = fmt, mt_accel_config = [],
     mt_arena_bytes = 4096, mt_req_sram_kib = kib, mt_blob = Some 24, mt_blob_len = 8\<rparr>"

definition sample_model :: alp_model where
  "sample_model = \<lparr>md_name = ''m'', md_src_sha = replicate 32 0, md_flags = 0, md_n_targets = 4, md_targets =
     [sample_target ''cpu'' ''*'' ''tflite'' 64, sample_target ''ethos_u'' ''e8'' ''vela_tflite'' 2048,
      sample_target ''deepx_dxm1'' ''dxm1'' ''dxnn'' 16, sample_target ''ethos_u'' ''e8'' ''vela_tflite'' 512]\<rparr>"

definition sample_env :: select_env where
  "sample_env = \<lparr>se_soc_ref = Some ''e8'', se_avail_silicon = [''dxm1''], se_arena_sram_kib = 1024,
     se_auto_order = alp_auto_order_parse (Some ''ethos_u,deepx_dxm1,cpu'') 4\<rparr>"

section \<open>What is selected\<close>

definition npu_target :: "model_target list \<Rightarrow> select_env \<Rightarrow> alp_inference_backend \<Rightarrow> nat \<Rightarrow> bool" where
  "npu_target ts env requested i \<longleftrightarrow>
     (let be = backend_enum (mt_backend (ts ! i)) in
      be \<noteq> ALP_INFERENCE_BACKEND_AUTO \<and> be \<noteq> ALP_INFERENCE_BACKEND_CPU \<and> silicon_available (mt_silicon_ref (ts ! i)) env \<and>
      (requested = ALP_INFERENCE_BACKEND_AUTO \<or> be = requested))"

definition cpu_target :: "model_target list \<Rightarrow> select_env \<Rightarrow> nat \<Rightarrow> bool" where
  "cpu_target ts env i \<longleftrightarrow>
     backend_enum (mt_backend (ts ! i)) = ALP_INFERENCE_BACKEND_CPU \<and> silicon_available (mt_silicon_ref (ts ! i)) env"

abbreviation rank_at :: "model_target list \<Rightarrow> select_env \<Rightarrow> nat \<Rightarrow> nat" where
  "rank_at ts env i \<equiv> inference_rank (backend_enum (mt_backend (ts ! i))) env"

definition first_best :: "model_target list \<Rightarrow> select_env \<Rightarrow> nat set \<Rightarrow> nat option \<Rightarrow> bool" where
  "first_best ts env S b \<longleftrightarrow>
     (case b of None \<Rightarrow> S = {}
      | Some j \<Rightarrow> j \<in> S \<and> (\<forall>i \<in> S. rank_at ts env j < rank_at ts env i \<or> rank_at ts env j = rank_at ts env i \<and> j \<le> i))"

definition last_of :: "nat set \<Rightarrow> nat option \<Rightarrow> bool" where
  "last_of S b \<longleftrightarrow> (case b of None \<Rightarrow> S = {} | Some j \<Rightarrow> j \<in> S \<and> (\<forall>i \<in> S. i \<le> j))"

text \<open>One round of the loop, in these terms.\<close>

lemma target_step_cases:
  "target_step ts env requested i (b, c, a, f) =
     (if cpu_target ts env i then (if fits (ts ! i) env then (b, Some i, a, f) else (b, c, a, True))
      else if npu_target ts env requested i then
        (if fits (ts ! i) env
         then ((case b of None \<Rightarrow> Some i | Some j \<Rightarrow> if rank_at ts env i < rank_at ts env j then Some i else Some j), c, True, f)
         else (b, c, True, f))
      else (b, c, a, f))"
  by (auto simp: target_step_def cpu_target_def npu_target_def Let_def split: option.split)

lemma first_best_insert:
  assumes "first_best ts env S b" "\<forall>i \<in> S. i < n"
  shows "first_best ts env (insert n S) (case b of None \<Rightarrow> Some n | Some j \<Rightarrow> if rank_at ts env n < rank_at ts env j then Some n else Some j)"
proof (cases b)
  case (Some j)
  then have j: "j \<in> S" "\<And>i. i \<in> S \<Longrightarrow> rank_at ts env j < rank_at ts env i \<or> rank_at ts env j = rank_at ts env i \<and> j \<le> i"
    using assms(1) by (auto simp: first_best_def)
  then show ?thesis using Some assms(2) by (fastforce simp: first_best_def)
qed (use assms(1) in \<open>simp add: first_best_def\<close>)

lemma target_loop_spec:
  "case target_loop ts env requested n of (best, cpu, any, nofit) \<Rightarrow>
    first_best ts env {i. i < n \<and> npu_target ts env requested i \<and> fits (ts ! i) env} best \<and>
    last_of {i. i < n \<and> cpu_target ts env i \<and> fits (ts ! i) env} cpu \<and>
    (any \<longleftrightarrow> (\<exists>i < n. npu_target ts env requested i)) \<and>
    (nofit \<longleftrightarrow> (\<exists>i < n. cpu_target ts env i \<and> \<not> fits (ts ! i) env))"
proof (induction n)
  case 0
  then show ?case by (simp add: target_loop_def first_best_def last_of_def)
next
  case (Suc n)
  obtain b c a f where l: "target_loop ts env requested n = (b, c, a, f)" by (metis prod_cases4)
  let ?F = "{i. i < n \<and> npu_target ts env requested i \<and> fits (ts ! i) env}" and ?C = "{i. i < n \<and> cpu_target ts env i \<and> fits (ts ! i) env}"
  have IH: "first_best ts env ?F b" "last_of ?C c" "a \<longleftrightarrow> (\<exists>i < n. npu_target ts env requested i)"
    "f \<longleftrightarrow> (\<exists>i < n. cpu_target ts env i \<and> \<not> fits (ts ! i) env)" using Suc.IH l by simp_all
  have less: "i < Suc n \<longleftrightarrow> i = n \<or> i < n" for i by auto
  have S: "{i. i < Suc n \<and> P i} = (if P n then insert n {i. i < n \<and> P i} else {i. i < n \<and> P i})" for P
    by (auto simp: less)
  have E: "(\<exists>i < Suc n. P i) \<longleftrightarrow> P n \<or> (\<exists>i < n. P i)" for P by (auto simp: less)
  have cn: "cpu_target ts env n \<Longrightarrow> \<not> npu_target ts env requested n" by (simp add: cpu_target_def npu_target_def Let_def)
  have new: "first_best ts env (insert n ?F)
      (case b of None \<Rightarrow> Some n | Some j \<Rightarrow> if rank_at ts env n < rank_at ts env j then Some n else Some j)"
    using IH(1) by (rule first_best_insert) simp
  have cpu: "last_of (insert n ?C) (Some n)" by (auto simp: last_of_def)
  have "target_loop ts env requested (Suc n) = target_step ts env requested n (b, c, a, f)" using l by (simp add: target_loop_def)
  then show ?case using IH new cpu cn unfolding target_step_cases S E by auto
qed

text \<open>What a successful selection says about the target it names.\<close>

lemma model_select_ok:
  assumes "alp_model_select (Some m) (Some env) requested (Some out) = (ALP_OK, sel)"
  obtains i where "i < md_n_targets m" "fits (md_targets m ! i) env"
    "npu_target (md_targets m) env requested i \<or>
     (requested = ALP_INFERENCE_BACKEND_AUTO \<or> requested = ALP_INFERENCE_BACKEND_CPU) \<and> cpu_target (md_targets m) env i"
    "\<exists>fmt. fmt_enum (mt_blob_format (md_targets m ! i)) = Some fmt \<and>
       sel = Some \<lparr>sr_target_index = i, sr_backend = backend_enum (mt_backend (md_targets m ! i)), sr_format = fmt,
         sr_arena_bytes = mt_arena_bytes (md_targets m ! i), sr_arena_fit_unverified = (se_arena_sram_kib env = 0)\<rparr>"
proof -
  obtain best cpu any nofit where l: "target_loop (md_targets m) env requested (md_n_targets m) = (best, cpu, any, nofit)"
    by (metis prod_cases4)
  note spec = target_loop_spec [where ts = "md_targets m" and env = env and requested = requested and n = "md_n_targets m", unfolded l prod.case]
  have "best = Some i \<Longrightarrow> i < md_n_targets m \<and> npu_target (md_targets m) env requested i \<and> fits (md_targets m ! i) env"
    "cpu = Some i \<Longrightarrow> i < md_n_targets m \<and> cpu_target (md_targets m) env i \<and> fits (md_targets m ! i) env" for i
    using spec by (auto simp: first_best_def last_of_def)
  moreover obtain i where "(if best = None \<and> (requested = ALP_INFERENCE_BACKEND_AUTO \<or> requested = ALP_INFERENCE_BACKEND_CPU)
      then cpu else best) = Some i"
    "\<exists>fmt. fmt_enum (mt_blob_format (md_targets m ! i)) = Some fmt \<and>
       sel = Some \<lparr>sr_target_index = i, sr_backend = backend_enum (mt_backend (md_targets m ! i)), sr_format = fmt,
         sr_arena_bytes = mt_arena_bytes (md_targets m ! i), sr_arena_fit_unverified = (se_arena_sram_kib env = 0)\<rparr>"
    using assms unfolding alp_model_select_def by (auto simp: l Let_def split: if_splits option.splits)
  ultimately show ?thesis using that by (metis (full_types))
qed

text \<open>The order the parser reads: at most \<open>room\<close> known backends, CPU only at the end.\<close>

lemma order_scan_shape:
  "length (order_scan csv room) \<le> room \<and> ALP_INFERENCE_BACKEND_AUTO \<notin> set (order_scan csv room) \<and>
   ALP_INFERENCE_BACKEND_CPU \<notin> set (butlast (order_scan csv room))"
proof (induction csv room rule: order_scan.induct)
  case (1 csv room)
  show ?case
  proof (cases "csv = [] \<or> room = 0")
    case True
    then show ?thesis by (simp add: order_scan.simps)
  next
    case False
    let ?len = "length (takeWhile (\<lambda>c. c \<noteq> CHR '','') csv)"
    let ?be = "backend_enum (take ?len csv)" and ?rest = "if ?len < length csv then drop (?len + 1) csv else drop ?len csv"
    let ?known = "0 < ?len \<and> ?len < ALP_MODEL_STR_MAX \<and> ?be \<noteq> ALP_INFERENCE_BACKEND_AUTO"
    note IH = 1 [OF False refl refl refl]
    have eq: "order_scan csv room =
      (if ?known then (if ?be = ALP_INFERENCE_BACKEND_CPU then [?be] else ?be # order_scan ?rest (room - 1)) else order_scan ?rest room)"
      by (subst order_scan.simps) (simp only: False if_False Let_def)
    show ?thesis
    proof (cases ?known)
      case True
      show ?thesis
      proof (cases "?be = ALP_INFERENCE_BACKEND_CPU")
        case cpu: True
        have "order_scan csv room = [ALP_INFERENCE_BACKEND_CPU]" by (subst eq, subst if_P [OF True], subst if_P [OF cpu]) (simp only: cpu)
        then show ?thesis using False by (simp add: Suc_le_eq)
      next
        case cpu: False
        have "order_scan csv room = ?be # order_scan ?rest (room - 1)" unfolding eq if_P [OF True] if_not_P [OF cpu] ..
        then show ?thesis using IH(1) [OF True cpu] True cpu False by auto
      qed
    next
      case skip: False
      show ?thesis unfolding eq if_not_P [OF skip] using IH(2) [OF skip] .
    qed
  qed
qed

text \<open>
  C14. The selector's choice and its refusals are exact.  Among the targets whose backend is known,
  whose silicon is available and, for an explicit request, whose backend is the requested one, it
  picks the first of the best-ranked that fit; failing that, for AUTO or CPU only, the last CPU
  target that fits.  With no such target it leaves the result alone and answers NOT_FOUND when an
  explicitly requested NPU is nowhere in the package, NO_FIT when an available target was too large,
  and NO_BACKEND otherwise; a chosen target of an unknown format is refused, never guessed.
\<close>

theorem model_select_exact:
  assumes "md_n_targets m \<noteq> 0"
  shows "let ts = md_targets m; n = md_n_targets m; F = {i. i < n \<and> npu_target ts env requested i \<and> fits (ts ! i) env};
      C = {i. i < n \<and> cpu_target ts env i \<and> fits (ts ! i) env};
      floor = (requested = ALP_INFERENCE_BACKEND_AUTO \<or> requested = ALP_INFERENCE_BACKEND_CPU) in
    (\<forall>b. first_best ts env F (Some b) \<or> F = {} \<and> floor \<and> last_of C (Some b) \<longrightarrow>
       alp_model_select (Some m) (Some env) requested (Some out) =
         (case fmt_enum (mt_blob_format (ts ! b)) of
            None \<Rightarrow> (ALP_ERR_INVAL, Some out)
          | Some fmt \<Rightarrow> (ALP_OK, Some \<lparr>sr_target_index = b, sr_backend = backend_enum (mt_backend (ts ! b)), sr_format = fmt,
              sr_arena_bytes = mt_arena_bytes (ts ! b), sr_arena_fit_unverified = (se_arena_sram_kib env = 0)\<rparr>))) \<and>
    (F = {} \<and> (floor \<longrightarrow> C = {}) \<longrightarrow>
       alp_model_select (Some m) (Some env) requested (Some out) =
         (if \<not> floor \<and> (\<forall>i < n. backend_enum (mt_backend (ts ! i)) \<noteq> requested) then ALP_ERR_NOT_FOUND
          else if \<exists>i < n. npu_target ts env requested i \<or> cpu_target ts env i \<and> \<not> fits (ts ! i) env then ALP_ERR_NO_FIT
          else ALP_ERR_NO_BACKEND, Some out))"
proof -
  define ts n where "ts = md_targets m" and "n = md_n_targets m"
  define F C where "F = {i. i < n \<and> npu_target ts env requested i \<and> fits (ts ! i) env}" and "C = {i. i < n \<and> cpu_target ts env i \<and> fits (ts ! i) env}"
  obtain best cpu any nofit where l: "target_loop ts env requested n = (best, cpu, any, nofit)" by (metis prod_cases4)
  have spec: "first_best ts env F best" "last_of C cpu" "any \<longleftrightarrow> (\<exists>i < n. npu_target ts env requested i)"
    "nofit \<longleftrightarrow> (\<exists>i < n. cpu_target ts env i \<and> \<not> fits (ts ! i) env)"
    using target_loop_spec [where ts = ts and env = env and requested = requested and n = n] l by (simp_all add: F_def C_def)
  have present: "(\<exists>i < n. backend_enum (mt_backend (ts ! i)) = requested)" if "any" "requested \<noteq> ALP_INFERENCE_BACKEND_AUTO"
    using that spec(3) by (auto simp: npu_target_def Let_def)
  have one: "best = Some b" if "first_best ts env F (Some b)" for b
  proof (cases best)
    case (Some j)
    then have "j \<in> F" "b \<in> F" "rank_at ts env j < rank_at ts env b \<or> rank_at ts env j = rank_at ts env b \<and> j \<le> b"
      "rank_at ts env b < rank_at ts env j \<or> rank_at ts env b = rank_at ts env j \<and> b \<le> j"
      using spec(1) that by (auto simp: first_best_def)
    then have "j = b" by linarith
    then show ?thesis using Some by simp
  qed (use spec(1) that in \<open>simp add: first_best_def\<close>)
  have last: "cpu = Some b" if "last_of C (Some b)" for b
    using spec(2) that by (cases cpu) (auto simp: last_of_def intro: antisym)
  have none: "best = None \<longleftrightarrow> F = {}" "cpu = None \<longleftrightarrow> C = {}"
    using spec(1,2) by (auto simp: first_best_def last_of_def split: option.splits)
  let ?floor = "requested = ALP_INFERENCE_BACKEND_AUTO \<or> requested = ALP_INFERENCE_BACKEND_CPU"
  let ?there = "\<exists>i < n. backend_enum (mt_backend (ts ! i)) = requested"
  define answer where "answer b = (case fmt_enum (mt_blob_format (ts ! b)) of
      None \<Rightarrow> (ALP_ERR_INVAL, Some out)
    | Some fmt \<Rightarrow> (ALP_OK, Some \<lparr>sr_target_index = b, sr_backend = backend_enum (mt_backend (ts ! b)), sr_format = fmt,
        sr_arena_bytes = mt_arena_bytes (ts ! b), sr_arena_fit_unverified = (se_arena_sram_kib env = 0)\<rparr>))" for b
  have sel: "alp_model_select (Some m) (Some env) requested (Some out) =
    (if \<not> ?floor \<and> best = None \<and> \<not> any \<and> \<not> ?there then (ALP_ERR_NOT_FOUND, Some out)
     else case (if best = None \<and> ?floor then cpu else best) of
        None \<Rightarrow> (if any \<or> nofit then ALP_ERR_NO_FIT else ALP_ERR_NO_BACKEND, Some out)
      | Some b \<Rightarrow> answer b)"
    using assms l unfolding alp_model_select_def answer_def ts_def n_def by (cases requested; cases best) (simp_all add: Let_def atLeast0LessThan lessThan_def)
  have chosen: "alp_model_select (Some m) (Some env) requested (Some out) = answer b"
    if "first_best ts env F (Some b) \<or> F = {} \<and> ?floor \<and> last_of C (Some b)" for b
    using that sel one [of b] last [of b] none by auto
  have refused: "alp_model_select (Some m) (Some env) requested (Some out) =
      (if \<not> ?floor \<and> \<not> ?there then ALP_ERR_NOT_FOUND else if any \<or> nofit then ALP_ERR_NO_FIT else ALP_ERR_NO_BACKEND, Some out)"
    if "F = {}" "?floor \<longrightarrow> C = {}"
    using that sel none present by auto
  have anyeq: "(\<exists>i < n. npu_target ts env requested i \<or> cpu_target ts env i \<and> \<not> fits (ts ! i) env) \<longleftrightarrow> any \<or> nofit"
    using spec(3,4) by blast
  have thereeq: "(\<forall>i < n. backend_enum (mt_backend (ts ! i)) \<noteq> requested) \<longleftrightarrow> \<not> ?there" by blast
  show ?thesis
    unfolding Let_def ts_def [symmetric] n_def [symmetric] F_def [symmetric] C_def [symmetric] answer_def [symmetric] anyeq thereeq
    by (intro conjI allI impI, rule chosen, assumption, rule refused) blast+
qed

lemma sample_order:
  "se_auto_order sample_env = [ALP_INFERENCE_BACKEND_ETHOS_U, ALP_INFERENCE_BACKEND_DEEPX_DXM1, ALP_INFERENCE_BACKEND_CPU]"
  by (simp add: sample_env_def alp_auto_order_parse_def order_scan.simps backend_enum_def)

theorem model_select_exact_witness:
  "let out = \<lparr>sr_target_index = 0, sr_backend = ALP_INFERENCE_BACKEND_AUTO, sr_format = ALP_INFERENCE_MODEL_TFLITE,
       sr_arena_bytes = 0, sr_arena_fit_unverified = True\<rparr> in
   md_n_targets sample_model \<noteq> 0 \<and>
   alp_model_select (Some sample_model) (Some sample_env) ALP_INFERENCE_BACKEND_AUTO (Some out) =
     (ALP_OK, Some \<lparr>sr_target_index = 3, sr_backend = ALP_INFERENCE_BACKEND_ETHOS_U, sr_format = ALP_INFERENCE_MODEL_VELA,
        sr_arena_bytes = 4096, sr_arena_fit_unverified = False\<rparr>) \<and>
   alp_model_select (Some sample_model) (Some sample_env) ALP_INFERENCE_BACKEND_DRPAI (Some out) = (ALP_ERR_NOT_FOUND, Some out)"
proof -
  have n: "md_n_targets sample_model \<noteq> 0" by (simp add: sample_model_def)
  have four: "i < 4 \<longleftrightarrow> i = 0 \<or> i = 1 \<or> i = 2 \<or> i = (3::nat)" for i by auto
  let ?ts = "md_targets sample_model"
  have auto: "{i. i < 4 \<and> npu_target ?ts sample_env ALP_INFERENCE_BACKEND_AUTO i \<and> fits (?ts ! i) sample_env} = {2, 3}"
    by (auto simp: four npu_target_def fits_def silicon_available_def backend_enum_def sample_model_def sample_env_def sample_target_def)
  have absent: "\<forall>i < 4. backend_enum (mt_backend (?ts ! i)) \<noteq> ALP_INFERENCE_BACKEND_DRPAI"
    by (auto simp: four backend_enum_def sample_model_def sample_target_def)
  have drpai: "{i. i < 4 \<and> npu_target ?ts sample_env ALP_INFERENCE_BACKEND_DRPAI i \<and> fits (?ts ! i) sample_env} = {}"
    using absent by (auto simp: npu_target_def Let_def)
  have best: "first_best ?ts sample_env {2, 3} (Some 3)"
    by (simp add: first_best_def inference_rank_def sample_order) (simp add: sample_model_def sample_target_def backend_enum_def)
  have four_targets: "md_n_targets sample_model = 4" by (simp add: sample_model_def)
  have target: "fmt_enum (mt_blob_format (?ts ! 3)) = Some ALP_INFERENCE_MODEL_VELA" "mt_arena_bytes (?ts ! 3) = 4096"
    "backend_enum (mt_backend (?ts ! 3)) = ALP_INFERENCE_BACKEND_ETHOS_U" "se_arena_sram_kib sample_env \<noteq> 0"
    by (simp_all add: sample_model_def sample_target_def fmt_enum_def backend_enum_def sample_env_def)
  define out where "out = \<lparr>sr_target_index = 0, sr_backend = ALP_INFERENCE_BACKEND_AUTO, sr_format = ALP_INFERENCE_MODEL_TFLITE,
    sr_arena_bytes = 0, sr_arena_fit_unverified = True\<rparr>"
  note exact = model_select_exact [OF n, where env = sample_env and out = out, unfolded Let_def four_targets]
  note chosen = exact [where requested = ALP_INFERENCE_BACKEND_AUTO, THEN conjunct1, unfolded auto, rule_format, where b = 3, OF disjI1, OF best]
  note refused = exact [where requested = ALP_INFERENCE_BACKEND_DRPAI, THEN conjunct2, unfolded drpai]
  show ?thesis unfolding Let_def out_def [symmetric] using n chosen refused absent target by simp
qed

end
