(* ===== verification/Model_Package.thy ===== *)
theory Model_Package
  imports Model_Select "HOL-Library.Monad_Syntax"
begin

text \<open>
  The reader of \<^verbatim>\<open>.alpmodel\<close> packages (\<^verbatim>\<open>alp_model_parse\<close> and its decoders in \<^verbatim>\<open>src/common/alp_model.c\<close>) and
  the loader on top of it (\<^verbatim>\<open>alp_inference_open_alpmodel\<close> in \<^verbatim>\<open>src/common/alp_model_loader.c\<close>).  The CBOR
  library is a parameter: a record of the calls the reader makes, over its own decoder state.  A read
  outside the package is \<open>None\<close>.  The decoding loops carry fuel; running out of it is \<open>None\<close> as well.
\<close>

section \<open>The CBOR library\<close>

record 'z zcbor =
  zc_new :: "bytes \<Rightarrow> 'z"
  zc_map_start :: "'z \<Rightarrow> bool \<times> 'z"
  zc_map_end :: "'z \<Rightarrow> bool \<times> 'z"
  zc_list_start :: "'z \<Rightarrow> bool \<times> 'z"
  zc_list_end :: "'z \<Rightarrow> bool \<times> 'z"
  zc_at_end :: "'z \<Rightarrow> bool"
  zc_tstr :: "'z \<Rightarrow> bytes option \<times> 'z"
  zc_bstr :: "'z \<Rightarrow> bytes option \<times> 'z"
  zc_uint32 :: "u32 \<Rightarrow> 'z \<Rightarrow> bool \<times> u32 \<times> 'z"
  zc_any_skip :: "'z \<Rightarrow> bool \<times> 'z"

text \<open>What termination relies on: a text string or the start of a map is at least one byte of payload,
  and no call gives payload back.\<close>

definition zcbor_progress :: "'z zcbor \<Rightarrow> ('z \<Rightarrow> nat) \<Rightarrow> bool" where
  "zcbor_progress Z left \<longleftrightarrow>
     (\<forall>b. left (zc_new Z b) \<le> length b) \<and>
     (\<forall>z. fst (zc_map_start Z z) \<longrightarrow> left (snd (zc_map_start Z z)) < left z) \<and>
     (\<forall>z. fst (zc_tstr Z z) \<noteq> None \<longrightarrow> left (snd (zc_tstr Z z)) < left z) \<and>
     (\<forall>z. left (snd (zc_map_start Z z)) \<le> left z \<and> left (snd (zc_map_end Z z)) \<le> left z \<and>
          left (snd (zc_list_start Z z)) \<le> left z \<and> left (snd (zc_list_end Z z)) \<le> left z \<and>
          left (snd (zc_tstr Z z)) \<le> left z \<and> left (snd (zc_bstr Z z)) \<le> left z \<and> left (snd (zc_any_skip Z z)) \<le> left z) \<and>
     (\<forall>v z. left (snd (snd (zc_uint32 Z v z))) \<le> left z)"

section \<open>Decoding the manifest\<close>

text \<open>\<^verbatim>\<open>char\<close> arrays filled from a text string of the manifest.\<close>

definition text_of :: "bytes \<Rightarrow> string" where
  "text_of v = map (\<lambda>b. char_of (unat b)) v"

definition copy_tstr :: "bytes \<Rightarrow> nat \<Rightarrow> string" where
  "copy_tstr v cap = takeWhile (\<lambda>c. c \<noteq> CHR 0x00) (text_of (take (cap - 1) v))"

text \<open>The shape the three map decoders share: start the map, decode key after key with \<open>body\<close>, end the map.\<close>

fun cbor_keys ::
  "nat \<Rightarrow> 'z zcbor \<Rightarrow> (string \<Rightarrow> 'z \<Rightarrow> 's \<Rightarrow> (bool \<times> 'z \<times> 's) option) \<Rightarrow> bool \<Rightarrow> 'z \<Rightarrow> 's \<Rightarrow> (bool \<times> 'z \<times> 's) option" where
  "cbor_keys 0 Z body ok zs s = None"
| "cbor_keys (Suc n) Z body ok zs s =
     (if \<not> ok \<or> zc_at_end Z zs then Some (ok, zs, s)
      else case zc_tstr Z zs of
        (None, zs) \<Rightarrow> Some (False, zs, s)
      | (Some key, zs) \<Rightarrow> do {
          (ok, zs, s) \<leftarrow> body (text_of key) zs s;
          cbor_keys n Z body ok zs s
        })"

definition cbor_map ::
  "nat \<Rightarrow> 'z zcbor \<Rightarrow> (string \<Rightarrow> 'z \<Rightarrow> 's \<Rightarrow> (bool \<times> 'z \<times> 's) option) \<Rightarrow> 'z \<Rightarrow> 's \<Rightarrow> (bool \<times> 'z \<times> 's) option" where
  "cbor_map fuel Z body zs s = do {
     let (ok, zs) = zc_map_start Z zs;
     (ok, zs, s) \<leftarrow> cbor_keys fuel Z body ok zs s;
     if ok then (let (ok, zs) = zc_map_end Z zs in Some (ok, zs, s)) else Some (False, zs, s)
   }"

definition cbor_skip :: "'z zcbor \<Rightarrow> 'z \<Rightarrow> 's \<Rightarrow> (bool \<times> 'z \<times> 's) option" where
  "cbor_skip Z zs s = (let (ok, zs) = zc_any_skip Z zs in Some (ok, zs, s))"

definition cbor_text :: "'z zcbor \<Rightarrow> 'z \<Rightarrow> (string \<Rightarrow> 's) \<Rightarrow> 's \<Rightarrow> (bool \<times> 'z \<times> 's) option" where
  "cbor_text Z zs upd s =
     (case zc_tstr Z zs of (None, zs) \<Rightarrow> Some (False, zs, s) | (Some v, zs) \<Rightarrow> Some (True, zs, upd (copy_tstr v ALP_MODEL_STR_MAX)))"

definition requires_key :: "'z zcbor \<Rightarrow> string \<Rightarrow> 'z \<Rightarrow> model_target \<Rightarrow> (bool \<times> 'z \<times> model_target) option" where
  "requires_key Z key zs t =
     (if key = ''sram_kib'' then
        (let (ok, v, zs) = zc_uint32 Z (mt_req_sram_kib t) zs in Some (ok, zs, t\<lparr>mt_req_sram_kib := v\<rparr>))
      else cbor_skip Z zs t)"

definition decode_requires :: "nat \<Rightarrow> 'z zcbor \<Rightarrow> 'z \<Rightarrow> model_target \<Rightarrow> (bool \<times> 'z \<times> model_target) option" where
  "decode_requires fuel Z zs t = cbor_map fuel Z (requires_key Z) zs t"

definition target_key ::
  "nat \<Rightarrow> 'z zcbor \<Rightarrow> string \<Rightarrow> 'z \<Rightarrow> model_target \<times> u32 \<Rightarrow> (bool \<times> 'z \<times> model_target \<times> u32) option" where
  "target_key fuel Z key zs = (\<lambda>(t, bi).
     if key = ''backend'' then cbor_text Z zs (\<lambda>v. (t\<lparr>mt_backend := v\<rparr>, bi)) (t, bi)
     else if key = ''silicon_ref'' then cbor_text Z zs (\<lambda>v. (t\<lparr>mt_silicon_ref := v\<rparr>, bi)) (t, bi)
     else if key = ''blob_format'' then cbor_text Z zs (\<lambda>v. (t\<lparr>mt_blob_format := v\<rparr>, bi)) (t, bi)
     else if key = ''accel_config'' then cbor_text Z zs (\<lambda>v. (t\<lparr>mt_accel_config := v\<rparr>, bi)) (t, bi)
     else if key = ''arena'' then
       (let (ok, v, zs) = zc_uint32 Z (mt_arena_bytes t) zs in Some (ok, zs, t\<lparr>mt_arena_bytes := v\<rparr>, bi))
     else if key = ''requires'' then do { (ok, zs, t) \<leftarrow> decode_requires fuel Z zs t; Some (ok, zs, t, bi) }
     else if key = ''blob'' then (let (ok, v, zs) = zc_uint32 Z bi zs in Some (ok, zs, t, v))
     else cbor_skip Z zs (t, bi))"

definition decode_target ::
  "nat \<Rightarrow> 'z zcbor \<Rightarrow> 'z \<Rightarrow> model_target \<times> u32 \<Rightarrow> (bool \<times> 'z \<times> model_target \<times> u32) option" where
  "decode_target fuel Z zs tb = cbor_map fuel Z (target_key fuel Z) zs tb"

text \<open>The list of targets; \<open>idx\<close> is the array of blob indices.\<close>

type_synonym parse_state = "alp_model \<times> u32 list"

fun target_list ::
  "nat \<Rightarrow> nat \<Rightarrow> 'z zcbor \<Rightarrow> bool \<Rightarrow> 'z \<Rightarrow> parse_state \<Rightarrow> (bool \<times> 'z \<times> parse_state) option" where
  "target_list 0 fuel Z ok zs s = None"
| "target_list (Suc n) fuel Z ok zs (m, idx) =
     (if \<not> ok \<or> zc_at_end Z zs \<or> md_n_targets m \<ge> ALP_MODEL_MAX_TARGETS then Some (ok, zs, m, idx)
      else do {
        let i = md_n_targets m;
        (ok, zs, t, bi) \<leftarrow> decode_target fuel Z zs (md_targets m ! i, idx ! i);
        let m = m\<lparr>md_targets := (md_targets m)[i := t]\<rparr>;
        let idx = idx[i := bi];
        target_list n fuel Z ok zs (if ok then m\<lparr>md_n_targets := i + 1\<rparr> else m, idx)
      })"

definition model_key :: "nat \<Rightarrow> 'z zcbor \<Rightarrow> string \<Rightarrow> 'z \<Rightarrow> parse_state \<Rightarrow> (bool \<times> 'z \<times> parse_state) option" where
  "model_key fuel Z key zs = (\<lambda>(m, idx).
     if key = ''name'' then cbor_text Z zs (\<lambda>v. (m\<lparr>md_name := v\<rparr>, idx)) (m, idx)
     else if key = ''src_sha'' then
       (case zc_bstr Z zs of
          (None, zs) \<Rightarrow> Some (False, zs, m, idx)
        | (Some v, zs) \<Rightarrow> Some (True, zs, if length v = 32 then m\<lparr>md_src_sha := v\<rparr> else m, idx))
     else if key = ''targets'' then do {
       let (ok, zs) = zc_list_start Z zs;
       (ok, zs, s) \<leftarrow> target_list fuel fuel Z ok zs (m, idx);
       if ok then (let (ok, zs) = zc_list_end Z zs in Some (ok, zs, s)) else Some (False, zs, s)
     }
     else cbor_skip Z zs (m, idx))"

section \<open>The package\<close>

abbreviation (input) HDR_SIZE :: nat where "HDR_SIZE \<equiv> 24"
abbreviation (input) ALP_MODEL_CONTAINER_V :: u16 where "ALP_MODEL_CONTAINER_V \<equiv> 1"

definition ALP_MODEL_MAGIC :: bytes where
  "ALP_MODEL_MAGIC = map of_char ''ALPM''"

definition rd_u16 :: "bytes \<Rightarrow> nat \<Rightarrow> u16 option" where
  "rd_u16 p off = map_option (le_word 2) (read_at p off 2)"

definition rd_u32 :: "bytes \<Rightarrow> nat \<Rightarrow> u32 option" where
  "rd_u32 p off = map_option (le_word 4) (read_at p off 4)"

definition zero_target :: model_target where
  "zero_target = \<lparr>mt_backend = [], mt_silicon_ref = [], mt_blob_format = [], mt_accel_config = [],
     mt_arena_bytes = 0, mt_req_sram_kib = 0, mt_blob = None, mt_blob_len = 0\<rparr>"

definition zero_model :: alp_model where
  "zero_model = \<lparr>md_name = [], md_src_sha = replicate 32 0, md_flags = 0, md_n_targets = 0,
     md_targets = replicate ALP_MODEL_MAX_TARGETS zero_target\<rparr>"

text \<open>The loop that binds each target to the blob its index names, from target \<open>i\<close> on.\<close>

fun bind_blobs :: "bytes \<Rightarrow> nat \<Rightarrow> u32 \<Rightarrow> u32 list \<Rightarrow> nat list \<Rightarrow> alp_model \<Rightarrow> (alp_status \<times> alp_model) option" where
  "bind_blobs data tbl_off blob_count idx [] m = Some (ALP_OK, m)"
| "bind_blobs data tbl_off blob_count idx (i # is) m =
     (let bi = idx ! i; e = tbl_off + unat bi * 8 in
      if bi \<ge> blob_count then Some (ALP_ERR_INVAL, m)
      else do {
        boff \<leftarrow> rd_u32 data e;
        blen \<leftarrow> rd_u32 data (e + 4);
        if unat boff > length data \<or> unat blen > length data - unat boff then Some (ALP_ERR_INVAL, m)
        else bind_blobs data tbl_off blob_count idx is
               (m\<lparr>md_targets := (md_targets m)[i := (md_targets m ! i)\<lparr>mt_blob := Some (unat boff), mt_blob_len := blen\<rparr>]\<rparr>)
      })"

definition alp_model_parse ::
  "nat \<Rightarrow> 'z zcbor \<Rightarrow> bytes option \<Rightarrow> alp_model option \<Rightarrow> (alp_status \<times> alp_model option) option" where
  "alp_model_parse fuel Z data out =
     (case (data, out) of
        (Some data, Some _) \<Rightarrow>
          if length data < HDR_SIZE then Some (ALP_ERR_INVAL, out) else do {
            magic \<leftarrow> read_at data 0 4;
            if magic \<noteq> ALP_MODEL_MAGIC then Some (ALP_ERR_INVAL, out) else do {
              version \<leftarrow> rd_u16 data 4;
              if version \<noteq> ALP_MODEL_CONTAINER_V then Some (ALP_ERR_VERSION, out) else do {
                flags \<leftarrow> rd_u16 data 6;
                let m = zero_model\<lparr>md_flags := flags\<rparr>;
                mft_off \<leftarrow> rd_u32 data 8;
                mft_len \<leftarrow> rd_u32 data 12;
                tbl_off \<leftarrow> rd_u32 data 16;
                blob_count \<leftarrow> rd_u32 data 20;
                if unat mft_off > length data \<or> unat mft_len > length data - unat mft_off then Some (ALP_ERR_INVAL, Some m)
                else if unat tbl_off > length data \<or> unat blob_count > (length data - unat tbl_off) div 8 then Some (ALP_ERR_INVAL, Some m)
                else do {
                  mft \<leftarrow> read_at data (unat mft_off) (unat mft_len);
                  (ok, zs, m, idx) \<leftarrow> cbor_map fuel Z (model_key fuel Z) (zc_new Z mft) (m, replicate ALP_MODEL_MAX_TARGETS (- 1));
                  if \<not> ok then Some (ALP_ERR_INVAL, Some m) else do {
                    (rc, m) \<leftarrow> bind_blobs data (unat tbl_off) blob_count idx [0..<md_n_targets m] m;
                    Some (rc, Some m)
                  }
                }
              }
            }
          }
      | _ \<Rightarrow> Some (ALP_ERR_INVAL, out))"

section \<open>The loader\<close>

text \<open>Build-time constants are arguments of the loader: the order string, the host reference when an
  engine backend is compiled in, the further silicon, and the arena budget.\<close>

record model_open_opts =
  oo_data :: "bytes option"
  oo_backend :: alp_inference_backend
  oo_arena :: "nat option"
  oo_arena_bytes :: nat

record inference_config =
  ic_model_data :: "nat option"
  ic_model_size :: nat
  ic_format :: alp_inference_model_format
  ic_backend :: alp_inference_backend
  ic_arena_bytes :: nat
  ic_arena :: "nat option"
  ic_accel_unit_mask :: u32

abbreviation (input) ALP_AUTO_ORDER_MAX :: nat where "ALP_AUTO_ORDER_MAX \<equiv> 4"

record build_config =
  bc_auto_order_csv :: string
  bc_soc_ref :: "string option"
  bc_avail_silicon :: "string list"
  bc_arena_sram_kib :: u32

definition zero_result :: select_result where
  "zero_result = \<lparr>sr_target_index = 0, sr_backend = ALP_INFERENCE_BACKEND_AUTO, sr_format = ALP_INFERENCE_MODEL_TFLITE,
     sr_arena_bytes = 0, sr_arena_fit_unverified = False\<rparr>"

text \<open>The handle (\<open>None\<close> is \<^verbatim>\<open>NULL\<close>) and the last error; \<open>inference_open\<close> is \<^verbatim>\<open>alp_inference_open\<close>.\<close>

definition alp_inference_open_alpmodel ::
  "nat \<Rightarrow> 'z zcbor \<Rightarrow> build_config \<Rightarrow> (inference_config \<Rightarrow> alp_status \<Rightarrow> 'h option \<times> alp_status) \<Rightarrow>
   model_open_opts option \<Rightarrow> alp_status \<Rightarrow> ('h option \<times> alp_status) option" where
  "alp_inference_open_alpmodel fuel Z bc inference_open opts err =
     (case opts of
        None \<Rightarrow> Some (None, ALP_ERR_INVAL)
      | Some opts \<Rightarrow>
          (case oo_data opts of
             None \<Rightarrow> Some (None, ALP_ERR_NOSUPPORT)
           | Some data \<Rightarrow>
               if length data = 0 then Some (None, ALP_ERR_INVAL)
               else if oo_arena opts \<noteq> None \<and> oo_arena_bytes opts = 0 then Some (None, ALP_ERR_INVAL)
               else do {
                 let order = alp_auto_order_parse (Some (bc_auto_order_csv bc)) ALP_AUTO_ORDER_MAX;
                 (rc, mdl) \<leftarrow> alp_model_parse fuel Z (Some data) (Some zero_model);
                 if rc \<noteq> ALP_OK then Some (None, rc) else do {
                   let env = \<lparr>se_soc_ref = bc_soc_ref bc, se_avail_silicon = bc_avail_silicon bc,
                              se_arena_sram_kib = bc_arena_sram_kib bc, se_auto_order = order\<rparr>;
                   let (rc, sel) = alp_model_select mdl (Some env) (oo_backend opts) (Some zero_result);
                   if rc \<noteq> ALP_OK then Some (None, rc) else do {
                     mdl \<leftarrow> mdl;
                     sel \<leftarrow> sel;
                     let t = md_targets mdl ! sr_target_index sel;
                     Some (inference_open
                       \<lparr>ic_model_data = mt_blob t, ic_model_size = unat (mt_blob_len t), ic_format = sr_format sel,
                        ic_backend = sr_backend sel,
                        ic_arena_bytes = (if oo_arena_bytes opts \<noteq> 0 then oo_arena_bytes opts else unat (sr_arena_bytes sel)),
                        ic_arena = oo_arena opts, ic_accel_unit_mask = 0\<rparr> err)
                   }
                 }
               }))"

section \<open>Decoding ends, and keeps the structure well formed\<close>

definition target_wf :: "model_target \<Rightarrow> bool" where
  "target_wf t \<longleftrightarrow> length (mt_backend t) < ALP_MODEL_STR_MAX \<and> length (mt_silicon_ref t) < ALP_MODEL_STR_MAX \<and>
     length (mt_blob_format t) < ALP_MODEL_STR_MAX \<and> length (mt_accel_config t) < ALP_MODEL_STR_MAX"

definition model_wf :: "alp_model \<Rightarrow> bool" where
  "model_wf m \<longleftrightarrow> length (md_name m) < ALP_MODEL_STR_MAX \<and> length (md_src_sha m) = 32 \<and>
     length (md_targets m) = ALP_MODEL_MAX_TARGETS \<and> md_n_targets m \<le> ALP_MODEL_MAX_TARGETS \<and> list_all target_wf (md_targets m)"

definition parse_wf :: "parse_state \<Rightarrow> bool" where
  "parse_wf = (\<lambda>(m, idx). model_wf m \<and> length idx = ALP_MODEL_MAX_TARGETS)"

text \<open>A decoding step that returns, gives no payload back and keeps \<open>I\<close>; one that, besides, consumes
  payload when it succeeds.\<close>

definition settles :: "('z \<Rightarrow> nat) \<Rightarrow> ('s \<Rightarrow> bool) \<Rightarrow> 'z \<Rightarrow> (bool \<times> 'z \<times> 's) option \<Rightarrow> bool" where
  "settles left I zs r \<longleftrightarrow> (\<exists>ok zs' s'. r = Some (ok, zs', s') \<and> left zs' \<le> left zs \<and> I s')"

definition advances :: "('z \<Rightarrow> nat) \<Rightarrow> 'z \<Rightarrow> (bool \<times> 'z \<times> 's) option \<Rightarrow> bool" where
  "advances left zs r \<longleftrightarrow> (\<forall>zs' s'. r = Some (True, zs', s') \<longrightarrow> left zs' < left zs)"

lemma settles_simps [simp]:
  "settles left I zs (Some (ok, zs', s')) \<longleftrightarrow> left zs' \<le> left zs \<and> I s'" "\<not> settles left I zs None"
  by (auto simp: settles_def)

lemma settlesE:
  assumes "settles left I zs r" obtains ok zs' s' where "r = Some (ok, zs', s')" "left zs' \<le> left zs" "I s'"
  using assms by (auto simp: settles_def)

lemma settles_later: "settles left I zs' r \<Longrightarrow> left zs' \<le> left zs \<Longrightarrow> settles left I zs r"
  by (auto simp: settles_def)

lemma progress_laws:
  assumes "zcbor_progress Z left"
  shows "zc_map_start Z zs = (True, zs') \<Longrightarrow> left zs' < left zs" "zc_tstr Z zs = (Some v, zs') \<Longrightarrow> left zs' < left zs"
    "zc_map_start Z zs = (ok, zs') \<Longrightarrow> left zs' \<le> left zs" "zc_map_end Z zs = (ok, zs') \<Longrightarrow> left zs' \<le> left zs"
    "zc_list_start Z zs = (ok, zs') \<Longrightarrow> left zs' \<le> left zs" "zc_list_end Z zs = (ok, zs') \<Longrightarrow> left zs' \<le> left zs"
    "zc_tstr Z zs = (w, zs') \<Longrightarrow> left zs' \<le> left zs" "zc_bstr Z zs = (w, zs') \<Longrightarrow> left zs' \<le> left zs"
    "zc_any_skip Z zs = (ok, zs') \<Longrightarrow> left zs' \<le> left zs" "zc_uint32 Z x zs = (ok, y, zs') \<Longrightarrow> left zs' \<le> left zs"
    "left (zc_new Z b) \<le> length b"
  using assms unfolding zcbor_progress_def by (metis fst_conv snd_conv option.distinct(1))+

lemma cbor_keys_settles:
  assumes "zcbor_progress Z left" and body: "\<And>k zs s. left zs < B \<Longrightarrow> I s \<Longrightarrow> settles left I zs (body k zs s)"
    and "left zs < n" "left zs < B" "I s"
  shows "settles left I zs (cbor_keys n Z body ok zs s)"
  using assms(3-)
proof (induction n arbitrary: ok zs s)
  case (Suc n)
  note laws = progress_laws [OF assms(1)]
  show ?case
  proof (cases "\<not> ok \<or> zc_at_end Z zs")
    case False
    obtain w zs1 where t: "zc_tstr Z zs = (w, zs1)" by fastforce
    show ?thesis
    proof (cases w)
      case None
      then show ?thesis using Suc.prems False t laws(7) [OF t] by simp
    next
      case (Some key)
      then have less: "left zs1 < left zs" using t laws(2) by simp
      then obtain ok2 zs2 s2 where b: "body (text_of key) zs1 s = Some (ok2, zs2, s2)" "left zs2 \<le> left zs1" "I s2"
        using body [of zs1 s "text_of key"] Suc.prems by (auto elim: settlesE)
      then have "settles left I zs2 (cbor_keys n Z body ok2 zs2 s2)" using less Suc.prems by (intro Suc.IH) auto
      then show ?thesis using False t Some b less by (simp add: settles_later)
    qed
  qed (use Suc.prems in simp)
qed simp

lemma cbor_map_settles:
  assumes P: "zcbor_progress Z left" and body: "\<And>k zs s. left zs < B \<Longrightarrow> I s \<Longrightarrow> settles left I zs (body k zs s)"
    and "left zs < fuel" "left zs < B" "I s"
  shows "settles left I zs (cbor_map fuel Z body zs s) \<and> advances left zs (cbor_map fuel Z body zs s)"
proof -
  note laws = progress_laws [OF P]
  obtain ok1 zs1 where ms: "zc_map_start Z zs = (ok1, zs1)" by fastforce
  have le: "left zs1 \<le> left zs" using laws(3) [OF ms] .
  then have "settles left I zs1 (cbor_keys fuel Z body ok1 zs1 s)"
    by (intro cbor_keys_settles [OF P, where B = B]) (use body assms(3-) in auto)
  then obtain ok2 zs2 s2 where k: "cbor_keys fuel Z body ok1 zs1 s = Some (ok2, zs2, s2)" "left zs2 \<le> left zs1" "I s2"
    by (rule settlesE)
  have stop: "ok2 \<Longrightarrow> ok1" using k(1) by (cases fuel) (auto split: if_splits)
  obtain ok3 zs3 where me: "zc_map_end Z zs2 = (ok3, zs3)" by fastforce
  show ?thesis
    using ms k me le laws(4) [OF me] laws(1) [of zs zs1] stop by (auto simp: cbor_map_def settles_def advances_def split: if_splits)
qed

lemma target_wf_upd [simp]:
  "target_wf (t\<lparr>mt_req_sram_kib := v\<rparr>) = target_wf t" "target_wf (t\<lparr>mt_arena_bytes := v\<rparr>) = target_wf t"
  "target_wf (t\<lparr>mt_blob := b, mt_blob_len := v\<rparr>) = target_wf t"
  "target_wf t \<Longrightarrow> length x < ALP_MODEL_STR_MAX \<Longrightarrow> target_wf (t\<lparr>mt_backend := x\<rparr>)"
  "target_wf t \<Longrightarrow> length x < ALP_MODEL_STR_MAX \<Longrightarrow> target_wf (t\<lparr>mt_silicon_ref := x\<rparr>)"
  "target_wf t \<Longrightarrow> length x < ALP_MODEL_STR_MAX \<Longrightarrow> target_wf (t\<lparr>mt_blob_format := x\<rparr>)"
  "target_wf t \<Longrightarrow> length x < ALP_MODEL_STR_MAX \<Longrightarrow> target_wf (t\<lparr>mt_accel_config := x\<rparr>)"
  by (auto simp: target_wf_def)

lemma copy_tstr_length [simp]: "0 < cap \<Longrightarrow> length (copy_tstr v cap) < cap"
  using length_takeWhile_le [of "\<lambda>c. c \<noteq> CHR 0x00" "text_of (take (cap - 1) v)"]
  by (simp add: copy_tstr_def text_of_def) linarith

lemma cbor_skip_settles: "zcbor_progress Z left \<Longrightarrow> I s \<Longrightarrow> settles left I zs (cbor_skip Z zs s)"
  by (auto simp: cbor_skip_def dest: progress_laws(9) split: prod.split)

lemma cbor_text_settles:
  assumes "zcbor_progress Z left" "I s" "\<And>v. length v < ALP_MODEL_STR_MAX \<Longrightarrow> I (upd v)"
  shows "settles left I zs (cbor_text Z zs upd s)"
  using assms by (auto simp: cbor_text_def dest: progress_laws(7) split: prod.split option.split)

lemma decode_requires_settles:
  assumes P: "zcbor_progress Z left" and "left zs < fuel" "target_wf t"
  shows "settles left target_wf zs (decode_requires fuel Z zs t)"
proof -
  have "settles left target_wf zs (requires_key Z k zs t)" if "target_wf t" for k zs t
    using that by (auto simp: requires_key_def cbor_skip_settles [OF P] dest: progress_laws(10) [OF P] split: prod.split)
  then show ?thesis unfolding decode_requires_def
    by (intro cbor_map_settles [OF P, where B = fuel, THEN conjunct1]) (use assms in auto)
qed

lemma target_key_settles:
  assumes P: "zcbor_progress Z left" and "left zs < fuel" "target_wf (fst tb)"
  shows "settles left (target_wf \<circ> fst) zs (target_key fuel Z k zs tb)"
proof -
  obtain t bi where tb: "tb = (t, bi)" by (cases tb)
  obtain ok zs' t' where r: "decode_requires fuel Z zs t = Some (ok, zs', t')" "left zs' \<le> left zs" "target_wf t'"
    using decode_requires_settles [OF P assms(2), of t] assms tb by (auto elim: settlesE)
  have str: "settles left (target_wf \<circ> fst) zs (cbor_text Z zs (\<lambda>v. (f v, bi)) (t, bi))"
    if "\<And>v. length v < ALP_MODEL_STR_MAX \<Longrightarrow> target_wf (f v)" for f
    using that assms tb by (intro cbor_text_settles [OF P]) auto
  have num: "zc_uint32 Z x zs = (ok, y, zs') \<Longrightarrow> left zs' \<le> left zs" for x ok y zs' using progress_laws(10) [OF P] .
  show ?thesis
    using assms tb by (auto simp: target_key_def r str cbor_skip_settles [OF P] Let_def dest: num split: prod.split)
qed

lemma decode_target_settles:
  assumes P: "zcbor_progress Z left" and "left zs < fuel" "target_wf (fst tb)"
  shows "settles left (target_wf \<circ> fst) zs (decode_target fuel Z zs tb) \<and> advances left zs (decode_target fuel Z zs tb)"
  unfolding decode_target_def
  by (rule cbor_map_settles [OF P, where B = fuel]) (use assms target_key_settles [OF P] in auto)

lemma parse_wf_target:
  assumes "parse_wf (m, idx)" "target_wf t" "n \<le> ALP_MODEL_MAX_TARGETS"
  shows "parse_wf (m\<lparr>md_targets := (md_targets m)[i := t], md_n_targets := n\<rparr>, idx[j := bi])"
    "parse_wf (m\<lparr>md_targets := (md_targets m)[i := t]\<rparr>, idx[j := bi])"
  using assms by (auto simp: parse_wf_def model_wf_def list_all_iff dest!: set_update_subset_insert [THEN subsetD])

lemma target_list_settles:
  assumes P: "zcbor_progress Z left" and "Suc (left zs) < n" "left zs < fuel" "parse_wf s"
  shows "settles left parse_wf zs (target_list n fuel Z ok zs s)"
  using assms(2-)
proof (induction n arbitrary: ok zs s)
  case (Suc n)
  obtain m idx where s: "s = (m, idx)" by (cases s)
  show ?case
  proof (cases "\<not> ok \<or> zc_at_end Z zs \<or> md_n_targets m \<ge> ALP_MODEL_MAX_TARGETS")
    case False
    let ?i = "md_n_targets m"
    have wf: "target_wf (md_targets m ! ?i)" using Suc.prems False s by (simp add: parse_wf_def model_wf_def list_all_length)
    obtain ok1 zs1 t bi where d: "decode_target fuel Z zs (md_targets m ! ?i, idx ! ?i) = Some (ok1, zs1, t, bi)"
      "left zs1 \<le> left zs" "target_wf t" and adv: "ok1 \<Longrightarrow> left zs1 < left zs"
      using decode_target_settles [OF P Suc.prems(2), of "(md_targets m ! ?i, idx ! ?i)"] wf
      by (auto simp: advances_def elim!: settlesE)
    let ?s = "(if ok1 then m\<lparr>md_targets := (md_targets m)[?i := t], md_n_targets := ?i + 1\<rparr> else m\<lparr>md_targets := (md_targets m)[?i := t]\<rparr>,
      idx[?i := bi])"
    have wf': "parse_wf ?s" using parse_wf_target [OF _ d(3), of m idx "?i + 1" ?i ?i bi] Suc.prems(3) False s by auto
    have "settles left parse_wf zs1 (target_list n fuel Z ok1 zs1 ?s)"
    proof (cases ok1)
      case True
      then show ?thesis using Suc.prems d adv wf' by (intro Suc.IH) auto
    next
      case stop: False
      then show ?thesis using wf' Suc.prems d by (cases n) auto
    qed
    then show ?thesis using False s d(1,2) by (simp add: Let_def settles_later)
  qed (use Suc.prems s in auto)
qed simp

lemma model_key_settles:
  assumes P: "zcbor_progress Z left" and "Suc (left zs) < fuel" "parse_wf s"
  shows "settles left parse_wf zs (model_key fuel Z k zs s)"
proof -
  obtain m idx where s: "s = (m, idx)" by (cases s)
  note laws = progress_laws [OF P]
  have str: "settles left parse_wf zs (cbor_text Z zs (\<lambda>v. (m\<lparr>md_name := v\<rparr>, idx)) (m, idx))"
    using assms s by (intro cbor_text_settles [OF P]) (auto simp: parse_wf_def model_wf_def)
  obtain w zs1 where b: "zc_bstr Z zs = (w, zs1)" by fastforce
  obtain ok2 zs2 where l: "zc_list_start Z zs = (ok2, zs2)" by fastforce
  have "settles left parse_wf zs2 (target_list fuel fuel Z ok2 zs2 (m, idx))"
    using laws(5) [OF l] assms s by (intro target_list_settles [OF P]) auto
  then obtain ok3 zs3 s3 where t: "target_list fuel fuel Z ok2 zs2 (m, idx) = Some (ok3, zs3, s3)" "left zs3 \<le> left zs" "parse_wf s3"
    using laws(5) [OF l] by (auto elim: settlesE)
  obtain ok4 zs4 where e: "zc_list_end Z zs3 = (ok4, zs4)" by fastforce
  have "left zs4 \<le> left zs" using laws(6) [OF e] t(2) by simp
  moreover have "parse_wf (m\<lparr>md_src_sha := v\<rparr>, idx)" if "length v = 32" for v using that assms(3) s by (simp add: parse_wf_def model_wf_def)
  ultimately show ?thesis
    using assms(3) s str b l t e laws(8) [OF b] cbor_skip_settles [OF P, of parse_wf "(m, idx)" zs]
    by (simp add: model_key_def split: option.split)
qed

lemma bind_blobs_spec:
  assumes "unat blob_count \<le> (length data - tbl_off) div 8" "tbl_off \<le> length data" and "distinct is"
    and "model_wf m" "\<forall>i \<in> set is. i < ALP_MODEL_MAX_TARGETS"
  shows "\<exists>rc m'. bind_blobs data tbl_off blob_count idx is m = Some (rc, m') \<and> model_wf m' \<and> md_n_targets m' = md_n_targets m \<and>
    (\<forall>j. j \<notin> set is \<longrightarrow> md_targets m' ! j = md_targets m ! j) \<and>
    (rc = ALP_OK \<longrightarrow> (\<forall>i \<in> set is. idx ! i < blob_count \<and>
       (\<exists>b. mt_blob (md_targets m' ! i) = Some b \<and> b + unat (mt_blob_len (md_targets m' ! i)) \<le> length data)))"
  using assms(3-)
proof (induction "is" arbitrary: m)
  case (Cons i js)
  let ?e = "tbl_off + unat (idx ! i) * 8"
  show ?case
  proof (cases "idx ! i \<ge> blob_count")
    case False
    then have "unat (idx ! i) < unat blob_count" by (simp add: word_le_nat_alt not_le)
    then have "?e + 8 \<le> length data" using assms by linarith
    then obtain boff blen where rds: "rd_u32 data ?e = Some boff" "rd_u32 data (?e + 4) = Some blen" by (simp add: rd_u32_def)
    show ?thesis
    proof (cases "unat boff > length data \<or> unat blen > length data - unat boff")
      case fit: False
      let ?t = "(md_targets m ! i)\<lparr>mt_blob := Some (unat boff), mt_blob_len := blen\<rparr>"
      let ?m = "m\<lparr>md_targets := (md_targets m)[i := ?t]\<rparr>"
      have i: "i < length (md_targets m)" using Cons.prems by (simp add: model_wf_def)
      then have wf: "model_wf ?m" using Cons.prems(2)
        by (auto simp: model_wf_def list_all_iff dest!: set_update_subset_insert [THEN subsetD])
      obtain rc m' where r: "bind_blobs data tbl_off blob_count idx js ?m = Some (rc, m')" "model_wf m'" "md_n_targets m' = md_n_targets m"
        "\<forall>j. j \<notin> set js \<longrightarrow> md_targets m' ! j = (md_targets m)[i := ?t] ! j"
        "rc = ALP_OK \<longrightarrow> (\<forall>i \<in> set js. idx ! i < blob_count \<and>
           (\<exists>b. mt_blob (md_targets m' ! i) = Some b \<and> b + unat (mt_blob_len (md_targets m' ! i)) \<le> length data))"
        using Cons.IH [OF _ wf] Cons.prems by auto
      have "md_targets m' ! i = ?t" using r(4) Cons.prems(1) i by simp
      moreover have "unat boff + unat blen \<le> length data" using fit by linarith
      moreover have "bind_blobs data tbl_off blob_count idx (i # js) m = bind_blobs data tbl_off blob_count idx js ?m"
        using False fit rds by (simp add: Let_def)
      ultimately show ?thesis using r False by (simp only: r(1)) auto
    qed (use False rds Cons.prems in \<open>auto simp: Let_def\<close>)
  qed (use Cons.prems in \<open>auto simp: Let_def\<close>)
qed simp

lemma model_parse_spec:
  assumes "zcbor_progress Z left" "Suc (length data) < fuel"
  shows "\<exists>rc m. alp_model_parse fuel Z (Some data) (Some out) = Some (rc, Some m) \<and> (m = out \<or> model_wf m) \<and>
    (rc = ALP_OK \<longrightarrow> model_wf m \<and>
       (\<forall>i < md_n_targets m. \<exists>b. mt_blob (md_targets m ! i) = Some b \<and> b + unat (mt_blob_len (md_targets m ! i)) \<le> length data))"
proof (cases "length data < HDR_SIZE")
  case False
  then obtain v f a b c d where rds: "read_at data 0 4 = Some (mem_read data 0 4)" "rd_u16 data 4 = Some v" "rd_u16 data 6 = Some f"
    "rd_u32 data 8 = Some a" "rd_u32 data 12 = Some b" "rd_u32 data 16 = Some c" "rd_u32 data 20 = Some d"
    by (simp add: rd_u16_def rd_u32_def)
  let ?m = "zero_model\<lparr>md_flags := f\<rparr>"
  have wf: "model_wf ?m" by (simp add: model_wf_def zero_model_def zero_target_def target_wf_def list_all_iff)
  consider (bad) "mem_read data 0 4 \<noteq> ALP_MODEL_MAGIC \<or> v \<noteq> ALP_MODEL_CONTAINER_V"
    | (range) "mem_read data 0 4 = ALP_MODEL_MAGIC" "v = ALP_MODEL_CONTAINER_V"
        "unat a > length data \<or> unat b > length data - unat a \<or> unat c > length data \<or> unat d > (length data - unat c) div 8"
    | (good) "mem_read data 0 4 = ALP_MODEL_MAGIC" "v = ALP_MODEL_CONTAINER_V"
        "unat a + unat b \<le> length data" "unat c \<le> length data" "unat d \<le> (length data - unat c) div 8" by linarith
  then show ?thesis
  proof cases
    case good
    let ?r = "cbor_map fuel Z (model_key fuel Z) (zc_new Z (mem_read data (unat a) (unat b))) (?m, replicate ALP_MODEL_MAX_TARGETS (- 1))"
    have "left (zc_new Z (mem_read data (unat a) (unat b))) \<le> length data"
      using progress_laws(11) [OF assms(1), of "mem_read data (unat a) (unat b)"] good by simp
    then have "settles left parse_wf (zc_new Z (mem_read data (unat a) (unat b))) ?r"
      using cbor_map_settles [OF assms(1), where B = "fuel - 1" and I = parse_wf and body = "model_key fuel Z"] model_key_settles [OF assms(1)]
        assms(2) wf by (auto simp: parse_wf_def)
    then obtain ok zs m idx where r: "?r = Some (ok, zs, m, idx)" "model_wf m" by (auto simp: parse_wf_def elim!: settlesE)
    then have "\<forall>i \<in> set [0..<md_n_targets m]. i < ALP_MODEL_MAX_TARGETS" by (simp add: model_wf_def)
    from bind_blobs_spec [OF good(5,4) _ r(2) this, of idx]
    obtain rc m' where bb: "bind_blobs data (unat c) d idx [0..<md_n_targets m] m = Some (rc, m')" "model_wf m'"
      "md_n_targets m' = md_n_targets m" "rc = ALP_OK \<longrightarrow> (\<forall>i < md_n_targets m. idx ! i < d \<and>
        (\<exists>b. mt_blob (md_targets m' ! i) = Some b \<and> b + unat (mt_blob_len (md_targets m' ! i)) \<le> length data))" by auto
    have ok: "\<not> length data < unat a" "\<not> length data - unat a < unat b" using good(3) by linarith+
    show ?thesis using False rds good ok r bb by (cases ok) (simp_all add: alp_model_parse_def)
  next
    case range
    then have "alp_model_parse fuel Z (Some data) (Some out) = Some (ALP_ERR_INVAL, Some ?m)"
      using False rds by (auto simp: alp_model_parse_def Let_def)
    then show ?thesis using wf by simp
  qed (use False rds in \<open>auto simp: alp_model_parse_def\<close>)
qed (simp add: alp_model_parse_def)

text \<open>
  C15. Whatever bytes a package holds, reading it ends, never reads outside the buffer, and leaves a
  well-formed structure: names of at most 31 characters, a 32-byte digest, at most eight targets.
  Success means that every target names a blob of the table and that its blob lies inside the package;
  in particular a target whose map has no \<^verbatim>\<open>blob\<close> key, which keeps index \<^verbatim>\<open>UINT32_MAX\<close>, is refused.  The
  decoder only has to consume payload with each text string and map header.
\<close>

theorem model_parse_in_bounds:
  assumes "zcbor_progress Z left" "Suc (length data) < fuel"
  shows "\<exists>rc m. alp_model_parse fuel Z (Some data) (Some out) = Some (rc, Some m) \<and> (m = out \<or> model_wf m) \<and>
    (rc = ALP_OK \<longrightarrow> model_wf m \<and>
       (\<forall>i < md_n_targets m. \<exists>b. mt_blob (md_targets m ! i) = Some b \<and> b + unat (mt_blob_len (md_targets m ! i)) \<le> length data))"
  using assms by (rule model_parse_spec)

text \<open>A decoder for definite strings below 24 bytes, integers below 24 and indefinite maps and lists, and
  a package of one CPU target it reads.\<close>

definition take_byte :: "u8 \<Rightarrow> bytes \<Rightarrow> bool \<times> bytes" where
  "take_byte x z = (case z of [] \<Rightarrow> (False, []) | y # r \<Rightarrow> if y = x then (True, r) else (False, z))"

definition take_str :: "nat \<Rightarrow> bytes \<Rightarrow> bytes option \<times> bytes" where
  "take_str major z =
     (case z of [] \<Rightarrow> (None, [])
      | y # r \<Rightarrow> let n = unat y - major in
          if major \<le> unat y \<and> n < 24 \<and> n \<le> length r then (Some (take n r), drop n r) else (None, z))"

definition take_uint :: "u32 \<Rightarrow> bytes \<Rightarrow> bool \<times> u32 \<times> bytes" where
  "take_uint v z = (case z of [] \<Rightarrow> (False, v, []) | y # r \<Rightarrow> if y < 24 then (True, ucast y, r) else (False, v, z))"

definition small_zcbor :: "bytes zcbor" where
  "small_zcbor = \<lparr>zc_new = (\<lambda>b. b), zc_map_start = take_byte 0xBF, zc_map_end = take_byte 0xFF, zc_list_start = take_byte 0x9F,
     zc_list_end = take_byte 0xFF, zc_at_end = (\<lambda>z. z = [] \<or> hd z = 0xFF), zc_tstr = take_str 0x60, zc_bstr = take_str 0x40,
     zc_uint32 = take_uint, zc_any_skip = (\<lambda>z. case take_str 0x60 z of (None, z) \<Rightarrow> (False, z) | (Some _, z) \<Rightarrow> (True, z))\<rparr>"

definition small_package :: bytes where
  "small_package =
     map of_char ''ALPM'' @ [1, 0, 0, 0] @ [32, 0, 0, 0] @ [72, 0, 0, 0] @ [24, 0, 0, 0] @ [1, 0, 0, 0] @ [104, 0, 0, 0] @ [2, 0, 0, 0] @
     [0xBF, 0x67] @ map of_char ''targets'' @ [0x9F, 0xBF, 0x67] @ map of_char ''backend'' @ [0x63] @ map of_char ''cpu'' @
     [0x6B] @ map of_char ''silicon_ref'' @ [0x61] @ map of_char ''*'' @
     [0x6B] @ map of_char ''blob_format'' @ [0x66] @ map of_char ''tflite'' @ [0x65] @ map of_char ''arena'' @ [9] @
     [0x64] @ map of_char ''blob'' @ [0, 0xFF, 0xFF, 0xFF] @ [0xAA, 0xBB]"

lemma take_laws:
  "fst (take_byte x z) \<Longrightarrow> length (snd (take_byte x z)) < length z" "length (snd (take_byte x z)) \<le> length z"
  "fst (take_str k z) \<noteq> None \<Longrightarrow> length (snd (take_str k z)) < length z" "length (snd (take_str k z)) \<le> length z"
  "length (snd (snd (take_uint v z))) \<le> length z"
  by (auto simp: take_byte_def take_str_def take_uint_def Let_def split: list.split)

lemma small_progress: "zcbor_progress small_zcbor length"
proof -
  have "take_str 0x60 z = (w, z') \<Longrightarrow> length z' \<le> length z" for z w z' by (metis take_laws(4) snd_conv)
  then show ?thesis unfolding zcbor_progress_def small_zcbor_def by (auto simp: take_laws split: prod.split option.split)
qed

theorem model_parse_in_bounds_witness:
  "zcbor_progress small_zcbor length \<and> Suc (length small_package) < 200 \<and>
   (\<exists>rc m. alp_model_parse 200 small_zcbor (Some small_package) (Some zero_model) = Some (rc, Some m) \<and> rc = ALP_OK \<and>
      md_n_targets m = 1 \<and> model_wf m)"
proof -
  have len: "Suc (length small_package) < 200" by code_simp
  have run: "map_option (\<lambda>(rc, m). (rc = ALP_OK, map_option md_n_targets m))
      (alp_model_parse 200 small_zcbor (Some small_package) (Some zero_model)) = Some (True, Some 1)"
    by code_simp
  show ?thesis
    using model_parse_in_bounds [OF small_progress len, of zero_model] run small_progress len by auto
qed


definition small_opts :: model_open_opts where
  "small_opts = \<lparr>oo_data = Some small_package, oo_backend = ALP_INFERENCE_BACKEND_CPU, oo_arena = Some 7, oo_arena_bytes = 512\<rparr>"

definition small_build :: build_config where
  "small_build = \<lparr>bc_auto_order_csv = ''ethos_u,cpu'', bc_soc_ref = None, bc_avail_silicon = [], bc_arena_sram_kib = 64\<rparr>"


end
