(* ===== verification/Mproc_Frame.thy ===== *)
theory Mproc_Frame
  imports Checked_Arith "HOL-Library.Monad_Syntax"
begin

text \<open>
  The framing of mailbox messages (\<^verbatim>\<open>src/common/proto/alp_mproc_frame.c\<close>): a magic, a sequence number and
  a length, little endian, then the payload.  \<open>size_t\<close> is a word of any width.  A pointer is an optional
  buffer; \<open>None\<close> as the result of a call is an access outside one of the buffers.  An output parameter
  is passed in and returned, as an optional value where the code allows \<^verbatim>\<open>NULL\<close>.
\<close>

section \<open>Encoding and decoding\<close>

abbreviation (input) ALP_MPROC_FRAME_MAGIC :: u32 where "ALP_MPROC_FRAME_MAGIC \<equiv> 0x46504D41"
abbreviation (input) ALP_MPROC_FRAME_HEADER_BYTES :: "'a::len word" where "ALP_MPROC_FRAME_HEADER_BYTES \<equiv> 12"

text \<open>A checked write.\<close>

definition wr :: "bytes \<Rightarrow> nat \<Rightarrow> bytes \<Rightarrow> bytes option" where
  "wr p off b = (if off + length b \<le> length p then Some (mem_write p off b) else None)"

definition frame_put_u32_le :: "bytes \<Rightarrow> nat \<Rightarrow> u32 \<Rightarrow> bytes option" where
  "frame_put_u32_le dst off v =
     wr dst off [ucast (v AND 0xFF), ucast (drop_bit 8 v AND 0xFF), ucast (drop_bit 16 v AND 0xFF), ucast (drop_bit 24 v AND 0xFF)]"

definition frame_get_u32_le :: "bytes \<Rightarrow> nat \<Rightarrow> u32 option" where
  "frame_get_u32_le src off =
     (if off + 4 \<le> length src then
        Some (ucast (src ! off) OR push_bit 8 (ucast (src ! (off + 1))) OR push_bit 16 (ucast (src ! (off + 2))) OR
              push_bit 24 (ucast (src ! (off + 3))))
      else None)"

text \<open>The status, the output buffer and the frame length.\<close>

definition alp_mproc_frame_encode ::
  "u32 \<Rightarrow> bytes option \<Rightarrow> 'a::len word \<Rightarrow> bytes option \<Rightarrow> 'a word \<Rightarrow> 'a word option \<Rightarrow>
   (alp_status \<times> bytes option \<times> 'a word option) option" where
  "alp_mproc_frame_encode sequence payload payload_len out out_cap out_len =
     (let zeroed = map_option (\<lambda>_. 0) out_len;
          (narrow, payload_len_u32) = alp_size_to_u32 payload_len 0 in
      case out of
        None \<Rightarrow> Some (ALP_ERR_INVAL, out, zeroed)
      | Some p \<Rightarrow>
          if payload = None \<and> payload_len > 0 then Some (ALP_ERR_INVAL, out, zeroed)
          else if \<not> narrow then Some (ALP_ERR_INVAL, out, zeroed)
          else if \<not> alp_size_range_valid ALP_MPROC_FRAME_HEADER_BYTES payload_len out_cap then Some (ALP_ERR_NOMEM, out, zeroed)
          else do {
            let framed = ALP_MPROC_FRAME_HEADER_BYTES + payload_len;
            p \<leftarrow> frame_put_u32_le p 0 ALP_MPROC_FRAME_MAGIC;
            p \<leftarrow> frame_put_u32_le p 4 sequence;
            p \<leftarrow> frame_put_u32_le p 8 payload_len_u32;
            p \<leftarrow> (if payload_len > 0 then do { b \<leftarrow> payload; b \<leftarrow> read_at b 0 (unat payload_len); wr p (unat (ALP_MPROC_FRAME_HEADER_BYTES :: 'a word)) b }
                  else Some p);
            Some (ALP_OK, Some p, map_option (\<lambda>_. framed) out_len)
          })"

text \<open>The status, the sequence number, the offset of the payload in the frame and its length.\<close>

definition alp_mproc_frame_decode ::
  "bytes option \<Rightarrow> 'a::len word \<Rightarrow> (alp_status \<times> u32 \<times> nat option \<times> 'a word) option" where
  "alp_mproc_frame_decode frame frame_len =
     (case frame of
        None \<Rightarrow> Some (ALP_ERR_INVAL, 0, None, 0)
      | Some f \<Rightarrow>
          if frame_len < ALP_MPROC_FRAME_HEADER_BYTES then Some (ALP_ERR_IO, 0, None, 0)
          else do {
            magic \<leftarrow> frame_get_u32_le f 0;
            if magic \<noteq> ALP_MPROC_FRAME_MAGIC then Some (ALP_ERR_IO, 0, None, 0)
            else do {
              seq \<leftarrow> frame_get_u32_le f 4;
              len \<leftarrow> frame_get_u32_le f 8;
              if ucast len > frame_len - ALP_MPROC_FRAME_HEADER_BYTES then Some (ALP_ERR_IO, 0, None, 0)
              else Some (ALP_OK, seq, Some (unat (ALP_MPROC_FRAME_HEADER_BYTES :: 'a word)), ucast len)
            }
          })"

section \<open>Round trip\<close>

text \<open>Both helpers in terms of the little-endian words of the prelude.\<close>

lemma low_byte: "ucast (w AND 0xFF) = (ucast w :: u8)" for w :: u32
proof (rule bit_word_eqI)
  have m: "(0xFF :: u32) = mask 8" by (simp add: mask_eq_exp_minus_1)
  show "bit (ucast (w AND 0xFF) :: u8) n \<longleftrightarrow> bit (ucast w :: u8) n" if "n < LENGTH(8)" for n
    using that unfolding m by (auto simp: bit_ucast_iff bit_and_iff bit_mask_iff)
qed

lemma frame_put_eq: "frame_put_u32_le dst off v = wr dst off (le_bytes 4 v)"
  by (simp add: frame_put_u32_le_def low_byte le_bytes_def upt_rec numeral_eq_Suc)

lemma frame_get_eq: "frame_get_u32_le src off = map_option (le_word 4) (read_at src off 4)"
  by (simp add: frame_get_u32_le_def read_at_def le_word_def mem_read_nth upt_rec or.assoc numeral_eq_Suc)

lemma wr_some [simp]: "off + length b \<le> length p \<Longrightarrow> wr p off b = Some (mem_write p off b)"
  by (simp add: wr_def)

lemma header_width: "16 \<le> LENGTH('a::len) \<Longrightarrow> unat (ALP_MPROC_FRAME_HEADER_BYTES :: 'a word) = 12"
  using power_increasing [of 16 "LENGTH('a)" "2 :: nat"] by (simp add: unat_numeral take_bit_nat_eq_self)

text \<open>Decoding arbitrary bytes stays inside them, and so does the payload it reports.\<close>

lemma decode_in_bounds:
  fixes frame_len :: "'a::len word"
  assumes "16 \<le> LENGTH('a)" "unat frame_len \<le> length f"
  shows "\<exists>rc seq off len. alp_mproc_frame_decode (Some f) frame_len = Some (rc, seq, off, len) \<and>
    (case off of None \<Rightarrow> rc \<noteq> ALP_OK \<and> len = 0 | Some k \<Rightarrow> rc = ALP_OK \<and> k + unat len \<le> unat frame_len)"
proof (cases "frame_len < 12")
  case False
  then have "12 \<le> unat frame_len" "unat (frame_len - 12) = unat frame_len - 12"
    using header_width [OF assms(1)] by (simp_all add: word_less_nat_alt unat_sub_if_size not_less)
  then show ?thesis using False assms(2) header_width [OF assms(1)]
    by (auto simp: alp_mproc_frame_decode_def frame_get_eq word_less_nat_alt not_less)
qed (simp add: alp_mproc_frame_decode_def)

text \<open>
  C17. A mailbox frame survives the round trip and neither side leaves its buffers.  Given a payload
  of the stated length and an output buffer of the stated capacity, the encoder answers OK exactly
  when the length fits the 32-bit field and header and payload fit the capacity; the frame it then
  reports decodes to the same sequence number and payload.  Otherwise the buffer is untouched and the
  reported length is zero.  No capacity or length makes the sum of header and payload wrap.
\<close>

theorem mproc_frame_roundtrip:
  fixes payload_len out_cap :: "'a::len word"
  assumes "16 \<le> LENGTH('a)" "unat payload_len = length payload" "unat out_cap \<le> length out"
  shows "if length payload < 2 ^ 32 \<and> 12 + length payload \<le> unat out_cap then
       (\<exists>p framed. alp_mproc_frame_encode sequence (Some payload) payload_len (Some out) out_cap (Some any) = Some (ALP_OK, Some p, Some framed) \<and>
          unat framed = 12 + length payload \<and> length p = length out \<and> drop (unat framed) p = drop (unat framed) out \<and>
          alp_mproc_frame_decode (Some p) framed = Some (ALP_OK, sequence, Some 12, payload_len) \<and>
          mem_read p 12 (unat payload_len) = payload)
     else (\<exists>rc. rc \<noteq> ALP_OK \<and> alp_mproc_frame_encode sequence (Some payload) payload_len (Some out) out_cap (Some any) = Some (rc, Some out, Some 0))"
proof (cases "length payload < 2 ^ 32 \<and> 12 + length payload \<le> unat out_cap")
  case True
  note twelve = header_width [OF assms(1)]
  have "unat out_cap < 2 ^ LENGTH('a)" by (rule unsigned_less)
  then have "12 + unat payload_len < 2 ^ LENGTH('a)" using True assms(2) by linarith
  then have framed: "unat (12 + payload_len) = 12 + length payload" using twelve assms(2) by (simp add: unat_word_ariths)
  have len: "12 + length payload \<le> length out" using True assms(3) by linarith
  let ?l = "of_nat (unat payload_len) :: u32"
  let ?p = "le_bytes 4 ALP_MPROC_FRAME_MAGIC @ le_bytes 4 sequence @ le_bytes 4 ?l @ payload @ drop (12 + length payload) out"
  have u32: "alp_size_to_u32 payload_len 0 = (True, ?l)" using True assms(2) by (simp add: size_to_u32_eq)
  have enc: "alp_mproc_frame_encode sequence (Some payload) payload_len (Some out) out_cap (Some any) = Some (ALP_OK, Some ?p, Some (12 + payload_len))"
    using True len twelve assms(2) u32 unfolding alp_mproc_frame_encode_def frame_put_eq
    by (auto simp: range_valid_iff mem_write_def mem_read_def word_gt_0 add.commute)
  have "of_nat (length payload) = payload_len" by (simp flip: assms(2))
  then have "ucast ?l = payload_len" using True assms(2) by (simp add: unsigned_of_nat take_bit_nat_eq_self)
  moreover have "\<not> payload_len > 12 + payload_len - 12" by simp
  moreover have "\<not> 12 + payload_len < 12" using framed twelve by (simp add: word_less_nat_alt)
  ultimately have "alp_mproc_frame_decode (Some ?p) (12 + payload_len) = Some (ALP_OK, sequence, Some 12, payload_len)"
    using twelve unfolding alp_mproc_frame_decode_def frame_get_eq
    by (simp add: read_at_def mem_read_def le_word_bytes)
  then show ?thesis using True enc framed len assms(2) by (auto simp: mem_read_def)
next
  case False
  obtain narrow l where e: "alp_size_to_u32 payload_len 0 = (narrow, l)" by fastforce
  have "\<not> narrow \<or> \<not> alp_size_range_valid 12 payload_len out_cap"
    using e False assms(2) header_width [OF assms(1)] by (auto simp: size_to_u32_eq range_valid_iff split: if_splits)
  then show ?thesis unfolding if_not_P [OF False] using e by (cases narrow) (auto simp: alp_mproc_frame_encode_def Let_def)
qed

theorem mproc_frame_roundtrip_witness:
  "16 \<le> LENGTH(32) \<and>
   (\<exists>p framed. alp_mproc_frame_encode 7 (Some [1, 2, 3]) (3 :: 32 word) (Some (replicate 20 0)) 16 (Some 9) = Some (ALP_OK, Some p, Some framed) \<and>
      alp_mproc_frame_decode (Some p) framed = Some (ALP_OK, 7, Some 12, 3) \<and> mem_read p 12 3 = [1, 2, 3])"
  using mproc_frame_roundtrip [where payload_len = "3 :: 32 word" and payload = "[1, 2, 3]" and out = "replicate 20 0" and out_cap = 16
    and sequence = 7 and any = 9] by auto

end
