(* ===== verification/Eeprom_24c128.thy ===== *)
theory Eeprom_24c128
  imports Checked_Arith
begin

text \<open>
  The 24C128 EEPROM driver (\<^verbatim>\<open>chips/eeprom_24c128/eeprom_24c128.c\<close>).  The I2C controller is a parameter: a
  function from the transfers so far and the next transfer to its status and, for a read, the bytes it
  put into the buffer.  The transfers the driver makes are recorded in order, so that what reaches the
  device is part of every statement.  A null context is \<open>None\<close>; \<open>size_t\<close> is a word of any width.
\<close>

section \<open>Transfers\<close>

datatype i2c_xfer =
    I2cWrite u8 bytes
  | I2cWriteRead u8 bytes nat
  | DelayUs nat
  | DelayMs nat

type_synonym i2c_log = "i2c_xfer list"
type_synonym i2c_bus = "i2c_log \<Rightarrow> i2c_xfer \<Rightarrow> alp_status \<times> bytes"

definition i2c_write :: "i2c_bus \<Rightarrow> u8 \<Rightarrow> bytes \<Rightarrow> i2c_log \<Rightarrow> alp_status \<times> i2c_log" where
  "i2c_write bus addr p tr = (fst (bus tr (I2cWrite addr p)), tr @ [I2cWrite addr p])"

text \<open>The controller may fill any prefix of the read buffer.\<close>

definition i2c_write_read :: "i2c_bus \<Rightarrow> u8 \<Rightarrow> bytes \<Rightarrow> bytes \<Rightarrow> i2c_log \<Rightarrow> alp_status \<times> bytes \<times> i2c_log" where
  "i2c_write_read bus addr p buf tr =
     (let x = I2cWriteRead addr p (length buf); (s, resp) = bus tr x in
      (s, take (length buf) resp @ drop (length resp) buf, tr @ [x]))"

section \<open>The driver\<close>

abbreviation (input) EEPROM_24C128_BYTES :: "'a::len word" where "EEPROM_24C128_BYTES \<equiv> 16384"
abbreviation (input) EEPROM_24C128_PAGE_BYTES :: nat where "EEPROM_24C128_PAGE_BYTES \<equiv> 64"
abbreviation (input) EEPROM_24C128_ALT_ADDR_OFFSET :: u8 where "EEPROM_24C128_ALT_ADDR_OFFSET \<equiv> 8"
abbreviation (input) EEPROM_24C128_SECURE_PAGE_BYTES :: nat where "EEPROM_24C128_SECURE_PAGE_BYTES \<equiv> 64"
abbreviation (input) EEPROM_24C128_UNIQUE_ID_BYTES :: nat where "EEPROM_24C128_UNIQUE_ID_BYTES \<equiv> 16"
abbreviation (input) EEPROM_WRITE_POLL_MAX :: nat where "EEPROM_WRITE_POLL_MAX \<equiv> 20"
abbreviation (input) EEPROM_WRITE_POLL_STEP_US :: nat where "EEPROM_WRITE_POLL_STEP_US \<equiv> 1000"
abbreviation (input) EEPROM_LOCK_WAIT_MS :: nat where "EEPROM_LOCK_WAIT_MS \<equiv> 20"
abbreviation (input) EEPROM_IDENTITY_SEL_SECURE_PAGE :: u8 where "EEPROM_IDENTITY_SEL_SECURE_PAGE \<equiv> 0"
abbreviation (input) EEPROM_IDENTITY_SEL_UNIQUE_ID :: u8 where "EEPROM_IDENTITY_SEL_UNIQUE_ID \<equiv> 2"
abbreviation (input) EEPROM_IDENTITY_SEL_LOCK_STATUS :: u8 where "EEPROM_IDENTITY_SEL_LOCK_STATUS \<equiv> 4"
abbreviation (input) EEPROM_IDENTITY_SEL_DEVICE_CONFIG :: u8 where "EEPROM_IDENTITY_SEL_DEVICE_CONFIG \<equiv> 6"

record eeprom =
  ep_initialised :: bool
  ep_bus :: "i2c_bus option"
  ep_addr :: u8

record eeprom_identity =
  ei_secure_page_valid :: bool
  ei_secure_page :: bytes
  ei_unique_id_valid :: bool
  ei_unique_id :: bytes
  ei_lock_valid :: bool
  ei_secure_page_locked :: bool
  ei_lock_status :: u8
  ei_device_config_valid :: bool
  ei_device_config :: u8

definition zero_identity :: eeprom_identity where
  "zero_identity = \<lparr>ei_secure_page_valid = False, ei_secure_page = replicate EEPROM_24C128_SECURE_PAGE_BYTES 0,
     ei_unique_id_valid = False, ei_unique_id = replicate EEPROM_24C128_UNIQUE_ID_BYTES 0, ei_lock_valid = False,
     ei_secure_page_locked = False, ei_lock_status = 0, ei_device_config_valid = False, ei_device_config = 0\<rparr>"

text \<open>Transfers of an initialised context; its bus is never null then, see \<open>eeprom_ready\<close> below.\<close>

definition ep_write :: "eeprom \<Rightarrow> u8 \<Rightarrow> bytes \<Rightarrow> i2c_log \<Rightarrow> alp_status \<times> i2c_log" where
  "ep_write c addr p tr = i2c_write (the (ep_bus c)) addr p tr"

definition ep_write_read :: "eeprom \<Rightarrow> u8 \<Rightarrow> bytes \<Rightarrow> bytes \<Rightarrow> i2c_log \<Rightarrow> alp_status \<times> bytes \<times> i2c_log" where
  "ep_write_read c addr p buf tr = i2c_write_read (the (ep_bus c)) addr p buf tr"

text \<open>The polling loop, with \<open>n\<close> rounds left.\<close>

fun poll_rounds :: "nat \<Rightarrow> eeprom \<Rightarrow> u8 \<Rightarrow> i2c_log \<Rightarrow> alp_status \<times> i2c_log" where
  "poll_rounds 0 c addr tr = (ALP_ERR_TIMEOUT, tr)"
| "poll_rounds (Suc n) c addr tr =
     (let (s, tr) = ep_write c addr [0, 0] tr in
      if s = ALP_OK then (ALP_OK, tr) else poll_rounds n c addr (tr @ [DelayUs EEPROM_WRITE_POLL_STEP_US]))"

definition poll_for_ack_at :: "eeprom \<Rightarrow> u8 \<Rightarrow> i2c_log \<Rightarrow> alp_status \<times> i2c_log" where
  "poll_for_ack_at = poll_rounds EEPROM_WRITE_POLL_MAX"

definition eeprom_24c128_init ::
  "eeprom option \<Rightarrow> i2c_bus option \<Rightarrow> u8 \<Rightarrow> i2c_log \<Rightarrow> alp_status \<times> eeprom option \<times> i2c_log" where
  "eeprom_24c128_init ctx bus addr_7bit tr =
     (case (ctx, bus) of
        (Some _, Some b) \<Rightarrow>
          if addr_7bit < 0x50 \<or> addr_7bit > 0x57 then (ALP_ERR_INVAL, ctx, tr)
          else let c = \<lparr>ep_initialised = False, ep_bus = bus, ep_addr = addr_7bit\<rparr>;
                   (s, _, tr) = i2c_write_read b addr_7bit [0, 0] [0] tr in
               if s \<noteq> ALP_OK then (ALP_ERR_NOT_READY, Some c, tr)
               else (ALP_OK, Some (c\<lparr>ep_initialised := True\<rparr>), tr)
      | _ \<Rightarrow> (ALP_ERR_INVAL, ctx, tr))"

definition pointer_bytes :: "u16 \<Rightarrow> bytes" where
  "pointer_bytes offset = [ucast (drop_bit 8 offset), ucast (offset AND 0xFF)]"

text \<open>\<open>out\<close> is the caller's buffer; \<open>len\<close> its length as the caller states it.\<close>

definition eeprom_24c128_read ::
  "eeprom option \<Rightarrow> u16 \<Rightarrow> bytes option \<Rightarrow> 'a::len word \<Rightarrow> i2c_log \<Rightarrow> alp_status \<times> bytes option \<times> i2c_log" where
  "eeprom_24c128_read ctx offset out len tr =
     (case ctx of
        None \<Rightarrow> (ALP_ERR_NOT_READY, out, tr)
      | Some c \<Rightarrow>
          if \<not> ep_initialised c then (ALP_ERR_NOT_READY, out, tr)
          else if out = None \<and> len > 0 then (ALP_ERR_INVAL, out, tr)
          else if \<not> alp_size_range_valid (ucast offset) len EEPROM_24C128_BYTES then (ALP_ERR_OUT_OF_RANGE, out, tr)
          else if len = 0 then (ALP_OK, out, tr)
          else let buf = the out;
                   (s, got, tr) = ep_write_read c (ep_addr c) (pointer_bytes offset) (take (unat len) buf) tr in
               (s, Some (got @ drop (unat len) buf), tr))"

text \<open>One of the four objects behind the second header.\<close>

definition read_object :: "eeprom \<Rightarrow> u8 \<Rightarrow> bytes \<Rightarrow> i2c_log \<Rightarrow> bool \<times> bytes \<times> i2c_log" where
  "read_object c sel buf tr =
     (let (s, got, tr) = ep_write_read c (ep_addr c + EEPROM_24C128_ALT_ADDR_OFFSET) [sel, 0] buf tr in (s = ALP_OK, got, tr))"

definition eeprom_24c128_read_identity ::
  "eeprom option \<Rightarrow> eeprom_identity option \<Rightarrow> i2c_log \<Rightarrow> alp_status \<times> eeprom_identity option \<times> i2c_log" where
  "eeprom_24c128_read_identity ctx out tr =
     (case (ctx, out) of
        (Some c, Some _) \<Rightarrow>
          if \<not> ep_initialised c then (ALP_ERR_NOT_READY, out, tr)
          else let z = zero_identity;
                   (v1, page, tr) = read_object c EEPROM_IDENTITY_SEL_SECURE_PAGE (ei_secure_page z) tr;
                   (v2, uid, tr) = read_object c EEPROM_IDENTITY_SEL_UNIQUE_ID (ei_unique_id z) tr;
                   (v3, lock, tr) = read_object c EEPROM_IDENTITY_SEL_LOCK_STATUS [0] tr;
                   (v4, conf, tr) = read_object c EEPROM_IDENTITY_SEL_DEVICE_CONFIG [0] tr in
               (ALP_OK,
                Some \<lparr>ei_secure_page_valid = v1, ei_secure_page = page, ei_unique_id_valid = v2, ei_unique_id = uid,
                  ei_lock_valid = v3, ei_secure_page_locked = (v3 \<and> hd lock AND 0x02 \<noteq> 0), ei_lock_status = (if v3 then hd lock else 0),
                  ei_device_config_valid = v4, ei_device_config = hd conf\<rparr>, tr)
      | _ \<Rightarrow> (ALP_ERR_INVAL, out, tr))"

text \<open>The page loop, over the data still to be sent.\<close>

function write_pages :: "eeprom \<Rightarrow> u16 \<Rightarrow> bytes \<Rightarrow> i2c_log \<Rightarrow> alp_status \<times> i2c_log" where
  "write_pages c offset data tr =
     (if data = [] then (ALP_OK, tr)
      else
        let page_remaining = EEPROM_24C128_PAGE_BYTES - unat offset mod EEPROM_24C128_PAGE_BYTES;
            chunk = (if length data < page_remaining then length data else page_remaining);
            (s, tr) = ep_write c (ep_addr c) (pointer_bytes offset @ take chunk data) tr in
        if s \<noteq> ALP_OK then (s, tr)
        else let (s, tr) = poll_for_ack_at c (ep_addr c) tr in
             if s \<noteq> ALP_OK then (s, tr)
             else write_pages c (offset + of_nat chunk) (drop chunk data) tr)"
  by pat_completeness auto
termination
  by (relation "measure (\<lambda>(_, _, data, _). length data)") (auto simp: diff_less)

declare write_pages.simps [simp del]

definition eeprom_24c128_write ::
  "eeprom option \<Rightarrow> u16 \<Rightarrow> bytes option \<Rightarrow> 'a::len word \<Rightarrow> i2c_log \<Rightarrow> alp_status \<times> i2c_log" where
  "eeprom_24c128_write ctx offset data len tr =
     (case ctx of
        None \<Rightarrow> (ALP_ERR_NOT_READY, tr)
      | Some c \<Rightarrow>
          if \<not> ep_initialised c then (ALP_ERR_NOT_READY, tr)
          else if data = None \<and> len > 0 then (ALP_ERR_INVAL, tr)
          else if \<not> alp_size_range_valid (ucast offset) len EEPROM_24C128_BYTES then (ALP_ERR_OUT_OF_RANGE, tr)
          else if len = 0 then (ALP_OK, tr)
          else write_pages c offset (take (unat len) (the data)) tr)"

definition eeprom_24c128_secure_page_write ::
  "eeprom option \<Rightarrow> bytes option \<Rightarrow> nat \<Rightarrow> i2c_log \<Rightarrow> alp_status \<times> i2c_log" where
  "eeprom_24c128_secure_page_write ctx data len tr =
     (case ctx of
        None \<Rightarrow> (ALP_ERR_NOT_READY, tr)
      | Some c \<Rightarrow>
          if \<not> ep_initialised c then (ALP_ERR_NOT_READY, tr)
          else case data of
            None \<Rightarrow> (ALP_ERR_INVAL, tr)
          | Some d \<Rightarrow>
              if len \<noteq> EEPROM_24C128_SECURE_PAGE_BYTES then (ALP_ERR_INVAL, tr)
              else let alt_addr = ep_addr c + EEPROM_24C128_ALT_ADDR_OFFSET;
                       (s, tr) = ep_write c alt_addr ([EEPROM_IDENTITY_SEL_SECURE_PAGE, 0] @ take EEPROM_24C128_SECURE_PAGE_BYTES d) tr in
                   if s \<noteq> ALP_OK then (s, tr) else poll_for_ack_at c alt_addr tr)"

definition eeprom_24c128_secure_page_lock :: "eeprom option \<Rightarrow> i2c_log \<Rightarrow> alp_status \<times> i2c_log" where
  "eeprom_24c128_secure_page_lock ctx tr =
     (case ctx of
        None \<Rightarrow> (ALP_ERR_NOT_READY, tr)
      | Some c \<Rightarrow>
          if \<not> ep_initialised c then (ALP_ERR_NOT_READY, tr)
          else let alt_addr = ep_addr c + EEPROM_24C128_ALT_ADDR_OFFSET;
                   (s, tr) = ep_write c alt_addr [EEPROM_IDENTITY_SEL_LOCK_STATUS, 0, 0xFF] tr in
               if s \<noteq> ALP_OK then (s, tr)
               else let tr = tr @ [DelayMs EEPROM_LOCK_WAIT_MS];
                        (s, lock, tr) = ep_write_read c alt_addr [EEPROM_IDENTITY_SEL_LOCK_STATUS, 0] [0] tr in
                    if s \<noteq> ALP_OK then (s, tr)
                    else if hd lock AND 0x02 = 0 then (ALP_ERR_IO, tr)
                    else (ALP_OK, tr))"

definition eeprom_24c128_deinit :: "eeprom option \<Rightarrow> eeprom option" where
  "eeprom_24c128_deinit ctx = map_option (\<lambda>c. c\<lparr>ep_initialised := False, ep_bus := None\<rparr>) ctx"

section \<open>What reaches the array\<close>

text \<open>A data frame programs the page its address lies in and wraps at the end of that page, as the header
  of the driver warns; a frame without data, as the polling sends, programs nothing.\<close>

type_synonym array = "nat \<Rightarrow> u8"

definition page_program :: "nat \<Rightarrow> bytes \<Rightarrow> array \<Rightarrow> array" where
  "page_program addr p mem =
     fold (\<lambda>i m. m((addr - addr mod EEPROM_24C128_PAGE_BYTES) + (addr + i) mod EEPROM_24C128_PAGE_BYTES := p ! i)) [0..<length p] mem"

definition array_step :: "u8 \<Rightarrow> i2c_xfer \<Rightarrow> array \<Rightarrow> array" where
  "array_step addr x mem =
     (case x of I2cWrite a (hi # lo # p) \<Rightarrow> if a = addr then page_program (256 * unat hi + unat lo) p mem else mem | _ \<Rightarrow> mem)"

definition array_after :: "u8 \<Rightarrow> i2c_log \<Rightarrow> array \<Rightarrow> array" where
  "array_after addr xs mem = fold (array_step addr) xs mem"

definition overlay :: "array \<Rightarrow> nat \<Rightarrow> bytes \<Rightarrow> array" where
  "overlay mem off p = (\<lambda>a. if off \<le> a \<and> a < off + length p then p ! (a - off) else mem a)"

lemma array_after_append [simp]: "array_after addr (xs @ ys) mem = array_after addr ys (array_after addr xs mem)"
  by (simp add: array_after_def)

lemma overlay_append: "overlay (overlay mem off p) (off + length p) q = overlay mem off (p @ q)"
  by (auto simp: overlay_def nth_append fun_eq_iff)

lemma overlay_nil [simp]: "overlay mem off [] = mem"
  by (auto simp: overlay_def fun_eq_iff)

lemma page_program_fits:
  assumes "off mod 64 + length p \<le> 64"
  shows "page_program off p mem = overlay mem off p"
proof -
  let ?f = "\<lambda>i m. m((off - off mod 64) + (off + i) mod 64 := p ! i)"
  have "fold ?f [0..<n] mem = overlay mem off (take n p)" if "n \<le> length p" for n
    using that
  proof (induction n)
    case (Suc n)
    have "(off + n) mod 64 = off mod 64 + n"
    proof -
      have "(off + n) mod 64 = (off mod 64 + n) mod 64" by (simp add: mod_add_left_eq)
      moreover have "off mod 64 + n < 64" using Suc.prems assms by linarith
      ultimately show ?thesis by simp
    qed
    then have "off - off mod 64 + (off + n) mod 64 = off + n" by (simp add: add.assoc [symmetric])
    moreover have "fold ?f [0..<Suc n] mem = ?f n (overlay mem off (take n p))"
      by (subst Suc.IH [symmetric]) (use Suc.prems in simp_all)
    ultimately have "fold ?f [0..<Suc n] mem = (overlay mem off (take n p))(off + n := p ! n)" by (simp only:)
    also have "\<dots> = overlay mem off (take (Suc n) p)"
      using Suc.prems by (auto simp: overlay_def fun_eq_iff nth_append take_Suc_conv_app_nth less_Suc_eq)
    finally show ?case .
  qed simp
  from this [of "length p"] show ?thesis by (simp add: page_program_def)
qed

lemma pointer_value:
  "pointer_bytes off = [hi, lo] \<Longrightarrow> 256 * unat hi + unat lo = unat off"
proof -
  have "unat off < 2 ^ LENGTH(16)" by (rule unsigned_less)
  then have "unat (ucast (drop_bit 8 off) :: u8) = unat off div 256"
    by (simp add: unsigned_ucast_eq unsigned_take_bit_eq drop_bit_eq_div take_bit_eq_mod unat_div)
  moreover have "unat (ucast (off AND 0xFF) :: u8) = unat off mod 256"
  proof -
    have m: "(0xFF :: u16) = mask 8" by (simp add: mask_eq_exp_minus_1)
    show ?thesis unfolding m by (simp add: unsigned_ucast_eq unsigned_take_bit_eq take_bit_eq_mod unat_mod flip: take_bit_eq_mask)
  qed
  ultimately show "pointer_bytes off = [hi, lo] \<Longrightarrow> 256 * unat hi + unat lo = unat off" by (auto simp: pointer_bytes_def)
qed

text \<open>Polling: only empty frames to the polled address, and delays.\<close>

definition poll_log :: "u8 \<Rightarrow> i2c_log \<Rightarrow> bool" where
  "poll_log addr xs \<longleftrightarrow> (\<forall>x \<in> set xs. x = I2cWrite addr [0, 0] \<or> x = DelayUs EEPROM_WRITE_POLL_STEP_US)"

lemma poll_rounds_log:
  "\<exists>xs. snd (poll_rounds n c addr tr) = tr @ xs \<and> poll_log addr xs \<and> length xs \<le> 2 * n"
proof (induction n arbitrary: tr)
  case (Suc n)
  obtain s where w: "ep_write c addr [0, 0] tr = (s, tr @ [I2cWrite addr [0, 0]])" by (simp add: ep_write_def i2c_write_def)
  obtain xs where "snd (poll_rounds n c addr (tr @ [I2cWrite addr [0, 0], DelayUs EEPROM_WRITE_POLL_STEP_US])) =
      (tr @ [I2cWrite addr [0, 0], DelayUs EEPROM_WRITE_POLL_STEP_US]) @ xs" "poll_log addr xs" "length xs \<le> 2 * n"
    using Suc.IH by blast
  then show ?case using w by (cases "s = ALP_OK") (auto simp: poll_log_def)
qed (auto simp: poll_log_def)

lemma poll_for_ack_log:
  obtains xs where "snd (poll_for_ack_at c addr tr) = tr @ xs" "poll_log addr xs"
  using poll_rounds_log unfolding poll_for_ack_at_def by blast

lemma page_program_nil [simp]: "page_program a [] mem = mem"
  by (simp add: page_program_def)

lemma array_after_poll: "poll_log addr xs \<Longrightarrow> array_after addr' xs mem = mem"
  by (induction xs arbitrary: mem) (auto simp: poll_log_def array_after_def array_step_def)

text \<open>What a run of the page loop added to the log: frames to the array that program a prefix of the data.\<close>

definition pages_sent :: "eeprom \<Rightarrow> nat \<Rightarrow> bytes \<Rightarrow> i2c_log \<Rightarrow> alp_status \<times> i2c_log \<Rightarrow> bool" where
  "pages_sent c off data tr r \<longleftrightarrow>
     (\<exists>xs k. snd r = tr @ xs \<and> k \<le> length data \<and> (fst r = ALP_OK \<longrightarrow> k = length data) \<and>
        (\<forall>mem. array_after (ep_addr c) xs mem = overlay mem off (take k data)) \<and>
        (\<forall>x \<in> set xs. (\<exists>p. x = I2cWrite (ep_addr c) p) \<or> x = DelayUs EEPROM_WRITE_POLL_STEP_US))"

lemma pages_sentI:
  assumes "snd r = tr @ xs" "k \<le> length data" "fst r = ALP_OK \<Longrightarrow> k = length data"
    "\<And>mem. array_after (ep_addr c) xs mem = overlay mem off (take k data)"
    "\<forall>x \<in> set xs. (\<exists>p. x = I2cWrite (ep_addr c) p) \<or> x = DelayUs EEPROM_WRITE_POLL_STEP_US"
  shows "pages_sent c off data tr r"
  using assms unfolding pages_sent_def by blast

lemma pages_sent_cons:
  assumes "pages_sent c (off + n) (drop n data) (tr @ ys) r" "n \<le> length data"
    "\<And>mem. array_after (ep_addr c) ys mem = overlay mem off (take n data)"
    "\<forall>x \<in> set ys. (\<exists>p. x = I2cWrite (ep_addr c) p) \<or> x = DelayUs EEPROM_WRITE_POLL_STEP_US"
  shows "pages_sent c off data tr r"
proof -
  obtain xs k where r: "snd r = (tr @ ys) @ xs" "k \<le> length (drop n data)" "fst r = ALP_OK \<longrightarrow> k = length (drop n data)"
    "\<And>mem. array_after (ep_addr c) xs mem = overlay mem (off + n) (take k (drop n data))"
    "\<forall>x \<in> set xs. (\<exists>p. x = I2cWrite (ep_addr c) p) \<or> x = DelayUs EEPROM_WRITE_POLL_STEP_US"
    using assms(1) unfolding pages_sent_def by blast
  show ?thesis
  proof (rule pages_sentI [where xs = "ys @ xs" and k = "n + k"])
    show "array_after (ep_addr c) (ys @ xs) mem = overlay mem off (take (n + k) data)" for mem
      using overlay_append [of mem off "take n data" "take k (drop n data)"] assms(2) r(4) assms(3) by (simp add: take_add min_absorb2)
  qed (use r assms in auto)
qed

lemma write_pages_sent:
  assumes "unat offset + length data \<le> 16384"
  shows "pages_sent c (unat offset) data tr (write_pages c offset data tr)"
  using assms
proof (induction c offset data tr rule: write_pages.induct)
  case (1 c offset data tr)
  show ?case
  proof (cases "data = []")
    case True
    then show ?thesis by (simp add: write_pages.simps pages_sentI [where xs = "[]" and k = 0] array_after_def)
  next
    case False
    let ?room = "64 - unat offset mod 64"
    define chunk where "chunk = (if length data < ?room then length data else ?room)"
    have room: "0 < ?room" by simp
    have chunk: "0 < chunk" "chunk \<le> length data" "unat offset mod 64 + chunk \<le> 64"
      using False room by (auto simp: chunk_def)
    let ?x = "I2cWrite (ep_addr c) (pointer_bytes offset @ take chunk data)"
    obtain s where w: "ep_write c (ep_addr c) (pointer_bytes offset @ take chunk data) tr = (s, tr @ [?x])"
      by (simp add: ep_write_def i2c_write_def)
    obtain s' xs where p: "poll_for_ack_at c (ep_addr c) (tr @ [?x]) = (s', tr @ ?x # xs)" and pl: "poll_log (ep_addr c) xs"
      using poll_for_ack_log [of c "ep_addr c" "tr @ [?x]"] by (metis prod.collapse append.assoc append_Cons append_Nil)
    obtain hi lo where hl: "pointer_bytes offset = [hi, lo]" by (simp add: pointer_bytes_def)
    have step: "array_after (ep_addr c) [?x] mem = overlay mem (unat offset) (take chunk data)" for mem
      using chunk pointer_value [OF hl] hl by (simp add: array_after_def array_step_def page_program_fits)
    have steps: "array_after (ep_addr c) (?x # xs) mem = overlay mem (unat offset) (take chunk data)" for mem
      using array_after_append [of "ep_addr c" "[?x]" xs mem] step array_after_poll [OF pl] by simp
    have frames: "\<forall>y \<in> set (?x # xs). (\<exists>p. y = I2cWrite (ep_addr c) p) \<or> y = DelayUs EEPROM_WRITE_POLL_STEP_US"
      using pl by (auto simp: poll_log_def)
    note run = write_pages.simps [of c offset data tr, unfolded Let_def chunk_def [symmetric] w prod.case]
    show ?thesis
    proof (cases "s = ALP_OK \<and> s' = ALP_OK")
      case True
      have off: "unat (offset + of_nat chunk) = unat offset + chunk"
        using "1.prems" chunk by (simp add: unat_word_ariths unat_of_nat mod_add_right_eq)
      have oks: "\<not> s \<noteq> ALP_OK" "\<not> s' \<noteq> ALP_OK" using True by simp_all
      have le: "unat (offset + of_nat chunk) + length (drop chunk data) \<le> 16384" unfolding off using "1.prems" chunk(2) by simp
      have eq: "write_pages c offset data tr = write_pages c (offset + of_nat chunk) (drop chunk data) (tr @ ?x # xs)"
        using run False True p by simp
      have "pages_sent c (unat offset + chunk) (drop chunk data) (tr @ ?x # xs) (write_pages c offset data tr)"
        unfolding eq off [symmetric] by (rule 1(1) [OF False refl chunk_def refl w [symmetric] oks(1) refl p [symmetric] oks(2) le])
      then show ?thesis by (rule pages_sent_cons) (use chunk(2) steps frames in auto)
    next
      case stop: False
      show ?thesis
      proof (cases "s = ALP_OK")
        case True
        then show ?thesis using run False stop p chunk steps frames by (intro pages_sentI [where xs = "?x # xs" and k = chunk]) auto
      next
        case fail: False
        then show ?thesis using run False chunk step by (intro pages_sentI [where xs = "[?x]" and k = chunk]) auto
      qed
    qed
  qed
qed

section \<open>Sequences of calls\<close>

datatype eeprom_call =
    CallInit "i2c_bus option" u8
  | CallRead u16 "bytes option" u32
  | CallReadIdentity "eeprom_identity option"
  | CallWrite u16 "bytes option" u32
  | CallSecurePageWrite "bytes option" nat
  | CallSecurePageLock
  | CallDeinit

fun eeprom_step :: "eeprom_call \<Rightarrow> eeprom option \<times> i2c_log \<Rightarrow> eeprom option \<times> i2c_log" where
  "eeprom_step (CallInit bus addr) (ctx, tr) = snd (eeprom_24c128_init ctx bus addr tr)"
| "eeprom_step (CallRead offset out len) (ctx, tr) = (ctx, snd (snd (eeprom_24c128_read ctx offset out len tr)))"
| "eeprom_step (CallReadIdentity out) (ctx, tr) = (ctx, snd (snd (eeprom_24c128_read_identity ctx out tr)))"
| "eeprom_step (CallWrite offset data len) (ctx, tr) = (ctx, snd (eeprom_24c128_write ctx offset data len tr))"
| "eeprom_step (CallSecurePageWrite data len) (ctx, tr) = (ctx, snd (eeprom_24c128_secure_page_write ctx data len tr))"
| "eeprom_step CallSecurePageLock (ctx, tr) = (ctx, snd (eeprom_24c128_secure_page_lock ctx tr))"
| "eeprom_step CallDeinit (ctx, tr) = (eeprom_24c128_deinit ctx, tr)"

text \<open>A context the driver set up: an array address, and a bus as long as it is initialised.\<close>

definition eeprom_ready :: "eeprom \<Rightarrow> bool" where
  "eeprom_ready c \<longleftrightarrow> (ep_initialised c \<longrightarrow> 0x50 \<le> ep_addr c \<and> ep_addr c \<le> 0x57 \<and> ep_bus c \<noteq> None)"

text \<open>The frames a sequence of calls may send: to the array, or one of the three fixed forms to the second
  header, the last two only on the matching call.\<close>

definition frame_allowed :: "eeprom_call set \<Rightarrow> i2c_xfer \<Rightarrow> bool" where
  "frame_allowed calls x \<longleftrightarrow>
     (case x of
        I2cWrite a p \<Rightarrow>
          0x50 \<le> a \<and> a \<le> 0x57 \<or>
          0x58 \<le> a \<and> a \<le> 0x5F \<and>
            (p = [0, 0] \<or> (\<exists>d. CallSecurePageWrite (Some d) 64 \<in> calls \<and> p = [0, 0] @ take 64 d) \<or>
             CallSecurePageLock \<in> calls \<and> p = [4, 0, 0xFF])
      | _ \<Rightarrow> True)"

lemma size_widths:
  assumes "16 \<le> LENGTH('a::len)"
  shows "unat (ucast (off :: u16) :: 'a word) = unat off" "unat (EEPROM_24C128_BYTES :: 'a word) = 16384"
proof -
  have le: "(2 :: nat) ^ 16 \<le> 2 ^ LENGTH('a)" using assms by (rule power_increasing) simp
  have "unat off < 2 ^ LENGTH(16)" by (rule unsigned_less)
  then have "unat off < 2 ^ LENGTH('a)" using le by simp
  then show "unat (ucast off :: 'a word) = unat off" by (simp add: unsigned_ucast_eq take_bit_nat_eq_self)
  show "unat (EEPROM_24C128_BYTES :: 'a word) = 16384" using le by (simp add: unat_numeral take_bit_nat_eq_self)
qed

lemma array_range:
  "16 \<le> LENGTH('a) \<Longrightarrow>
   alp_size_range_valid (ucast offset) len (EEPROM_24C128_BYTES :: 'a::len word) \<longleftrightarrow> unat (offset :: u16) + unat len \<le> 16384"
  by (simp only: range_valid_iff size_widths)

lemma alt_addr:
  assumes "0x50 \<le> a" "a \<le> (0x57 :: u8)"
  shows "0x58 \<le> a + 8 \<and> a + 8 \<le> 0x5F"
proof -
  have "unat (a + 8) = unat a + 8" using assms by (simp add: unat_word_ariths word_le_nat_alt)
  then show ?thesis using assms by (simp add: word_le_nat_alt)
qed

lemma write_read_log: "snd (snd (ep_write_read c a p buf tr)) = tr @ [I2cWriteRead a p (length buf)]"
  by (simp add: ep_write_read_def i2c_write_read_def Let_def split: prod.split)

lemma write_log: "snd (ep_write c a p tr) = tr @ [I2cWrite a p]"
  by (simp add: ep_write_def i2c_write_def)

lemma read_log:
  "snd (snd (eeprom_24c128_read ctx offset out len tr)) = tr \<or>
   (\<exists>c n. ctx = Some c \<and> snd (snd (eeprom_24c128_read ctx offset out len tr)) = tr @ [I2cWriteRead (ep_addr c) (pointer_bytes offset) n])"
  using write_read_log unfolding eeprom_24c128_read_def by (auto simp: Let_def split: option.split prod.split) (metis snd_conv)+

lemma read_object_log: "snd (snd (read_object c sel buf tr)) = tr @ [I2cWriteRead (ep_addr c + 8) [sel, 0] (length buf)]"
  using write_read_log [of c "ep_addr c + 8" "[sel, 0]" buf tr] by (auto simp: read_object_def Let_def split: prod.split)

lemma read_identity_log:
  "\<exists>xs. snd (snd (eeprom_24c128_read_identity ctx out tr)) = tr @ xs \<and> (\<forall>x \<in> set xs. \<exists>a p n. x = I2cWriteRead a p n)"
proof (cases "\<exists>c o'. ctx = Some c \<and> out = Some o' \<and> ep_initialised c")
  case True
  then obtain c where c: "ctx = Some c" "out \<noteq> None" "ep_initialised c" by blast
  obtain v1 b1 where 1: "read_object c 0 (ei_secure_page zero_identity) tr = (v1, b1, tr @ [I2cWriteRead (ep_addr c + 8) [0, 0] 64])"
    using read_object_log [of c 0 "ei_secure_page zero_identity" tr] by (cases "read_object c 0 (ei_secure_page zero_identity) tr") (auto simp: zero_identity_def)
  let ?t1 = "tr @ [I2cWriteRead (ep_addr c + 8) [0, 0] 64]"
  obtain v2 b2 where 2: "read_object c 2 (ei_unique_id zero_identity) ?t1 = (v2, b2, ?t1 @ [I2cWriteRead (ep_addr c + 8) [2, 0] 16])"
    using read_object_log [of c 2 "ei_unique_id zero_identity" ?t1] by (cases "read_object c 2 (ei_unique_id zero_identity) ?t1") (auto simp: zero_identity_def)
  let ?t2 = "?t1 @ [I2cWriteRead (ep_addr c + 8) [2, 0] 16]"
  obtain v3 b3 where 3: "read_object c 4 [0] ?t2 = (v3, b3, ?t2 @ [I2cWriteRead (ep_addr c + 8) [4, 0] 1])"
    using read_object_log [of c 4 "[0]" ?t2] by (cases "read_object c 4 [0] ?t2") auto
  let ?t3 = "?t2 @ [I2cWriteRead (ep_addr c + 8) [4, 0] 1]"
  obtain v4 b4 where 4: "read_object c 6 [0] ?t3 = (v4, b4, ?t3 @ [I2cWriteRead (ep_addr c + 8) [6, 0] 1])"
    using read_object_log [of c 6 "[0]" ?t3] by (cases "read_object c 6 [0] ?t3") auto
  show ?thesis using c by (auto simp: eeprom_24c128_read_identity_def Let_def 1 2 [simplified] 3 [simplified] 4 [simplified])
qed (auto simp: eeprom_24c128_read_identity_def split: option.split)

lemma secure_page_write_log:
  "\<exists>xs. snd (eeprom_24c128_secure_page_write ctx data len tr) = tr @ xs \<and>
    (\<forall>x \<in> set xs. \<exists>c d. ctx = Some c \<and> ep_initialised c \<and> data = Some d \<and> len = 64 \<and>
       (x = I2cWrite (ep_addr c + 8) ([0, 0] @ take 64 d) \<or> x = I2cWrite (ep_addr c + 8) [0, 0] \<or> x = DelayUs 1000))"
proof (cases "\<exists>c d. ctx = Some c \<and> ep_initialised c \<and> data = Some d \<and> len = 64")
  case True
  then obtain c d where c: "ctx = Some c" "ep_initialised c" "data = Some d" "len = 64" by blast
  let ?x = "I2cWrite (ep_addr c + 8) ([0, 0] @ take 64 d)"
  obtain s where w: "ep_write c (ep_addr c + 8) ([0, 0] @ take 64 d) tr = (s, tr @ [?x])" by (simp add: ep_write_def i2c_write_def)
  obtain xs where p: "snd (poll_for_ack_at c (ep_addr c + 8) (tr @ [?x])) = (tr @ [?x]) @ xs" "poll_log (ep_addr c + 8) xs"
    by (rule poll_for_ack_log)
  show ?thesis
    using c w p by (cases "s = ALP_OK") (auto simp: eeprom_24c128_secure_page_write_def Let_def poll_log_def)
qed (auto simp: eeprom_24c128_secure_page_write_def split: option.split)

lemma secure_page_lock_log:
  "\<exists>xs. snd (eeprom_24c128_secure_page_lock ctx tr) = tr @ xs \<and>
    (\<forall>x \<in> set xs. \<exists>c. ctx = Some c \<and> ep_initialised c \<and>
       (x = I2cWrite (ep_addr c + 8) [4, 0, 0xFF] \<or> x = DelayMs 20 \<or> x = I2cWriteRead (ep_addr c + 8) [4, 0] 1))"
proof (cases "\<exists>c. ctx = Some c \<and> ep_initialised c")
  case True
  then obtain c where c: "ctx = Some c" "ep_initialised c" by blast
  let ?x = "I2cWrite (ep_addr c + 8) [4, 0, 0xFF]" and ?r = "I2cWriteRead (ep_addr c + 8) [4, 0] 1"
  obtain s where w: "ep_write c (ep_addr c + 8) [4, 0, 0xFF] tr = (s, tr @ [?x])" by (simp add: ep_write_def i2c_write_def)
  obtain s' b where r: "ep_write_read c (ep_addr c + 8) [4, 0] [0] (tr @ [?x, DelayMs 20]) = (s', b, tr @ [?x, DelayMs 20, ?r])"
    using write_read_log [of c "ep_addr c + 8" "[4, 0]" "[0]" "tr @ [?x, DelayMs 20]"]
    by (cases "ep_write_read c (ep_addr c + 8) [4, 0] [0] (tr @ [?x, DelayMs 20])") auto
  show ?thesis
    using c w r by (cases "s = ALP_OK"; cases "s' = ALP_OK") (auto simp: eeprom_24c128_secure_page_lock_def Let_def)
qed (auto simp: eeprom_24c128_secure_page_lock_def split: option.split)

definition calls_inv :: "eeprom_call set \<Rightarrow> eeprom option \<times> i2c_log \<Rightarrow> bool" where
  "calls_inv calls = (\<lambda>(ctx, tr). (\<forall>c. ctx = Some c \<longrightarrow> eeprom_ready c) \<and> (\<forall>x \<in> set tr. frame_allowed calls x))"

lemma frame_allowed_simps [simp]:
  "frame_allowed calls (I2cWriteRead a p n)" "frame_allowed calls (DelayUs n)" "frame_allowed calls (DelayMs n)"
  by (simp_all add: frame_allowed_def)

lemma calls_invI:
  assumes "calls_inv calls (ctx, tr)" "snd st = tr @ xs" "\<forall>c. fst st = Some c \<longrightarrow> eeprom_ready c" "\<forall>x \<in> set xs. frame_allowed calls x"
  shows "calls_inv calls st"
  using assms by (cases st) (auto simp: calls_inv_def)

lemma eeprom_step_inv:
  assumes inv: "calls_inv calls st" and "call \<in> calls"
  shows "calls_inv calls (eeprom_step call st)"
proof (cases st)
  case (Pair ctx tr)
  have ready: "eeprom_ready c" if "ctx = Some c" for c using inv that Pair by (simp add: calls_inv_def)
  have alt: "0x58 \<le> ep_addr c + 8 \<and> ep_addr c + 8 \<le> 0x5F" if "ctx = Some c" "ep_initialised c" for c
    using ready [OF that(1)] that(2) alt_addr by (simp add: eeprom_ready_def)
  note extend = calls_invI [OF inv [unfolded Pair]]
  show ?thesis
  proof (cases call)
    case (CallInit bus addr)
    show ?thesis
    proof (cases "\<exists>c b. ctx = Some c \<and> bus = Some b \<and> \<not> (addr < 0x50 \<or> addr > 0x57)")
      case True
      then obtain c b where cb: "ctx = Some c" "bus = Some b" "\<not> (addr < 0x50 \<or> addr > 0x57)" by blast
      obtain s g where w: "i2c_write_read b addr [0, 0] [0] tr = (s, g, tr @ [I2cWriteRead addr [0, 0] 1])"
        by (cases "b tr (I2cWriteRead addr [0, 0] 1)") (auto simp: i2c_write_read_def Let_def)
      have "eeprom_step call st = (Some \<lparr>ep_initialised = (s = ALP_OK), ep_bus = bus, ep_addr = addr\<rparr>, tr @ [I2cWriteRead addr [0, 0] 1])"
        using CallInit Pair cb w by (simp add: eeprom_24c128_init_def Let_def)
      then show ?thesis using cb by (intro extend [where xs = "[I2cWriteRead addr [0, 0] 1]"]) (auto simp: eeprom_ready_def not_less)
    next
      case False
      then have "eeprom_step call st = st" using CallInit Pair by (auto simp: eeprom_24c128_init_def split: option.split)
      then show ?thesis using inv by simp
    qed
  next
    case (CallRead off out len)
    then show ?thesis using read_log [of ctx off out len tr] ready Pair extend [where xs = "[]"]
      by (auto intro: extend)
  next
    case (CallReadIdentity out)
    then show ?thesis using read_identity_log [of ctx out tr] ready Pair by (auto intro!: extend)
  next
    case (CallWrite off data len)
    show ?thesis
    proof (cases "snd (eeprom_24c128_write ctx off data len tr) = tr")
      case False
      then obtain c where c: "ctx = Some c" "ep_initialised c" "unat off + unat len \<le> 16384"
        "eeprom_24c128_write ctx off data len tr = write_pages c off (take (unat len) (the data)) tr"
        by (auto simp: eeprom_24c128_write_def array_range split: option.splits if_splits)
      have "unat off + length (take (unat len) (the data)) \<le> 16384" using c(3) by (simp add: min_def)
      from write_pages_sent [OF this, of c tr] obtain xs where "snd (eeprom_24c128_write ctx off data len tr) = tr @ xs"
        "\<forall>x \<in> set xs. (\<exists>p. x = I2cWrite (ep_addr c) p) \<or> x = DelayUs EEPROM_WRITE_POLL_STEP_US"
        unfolding c(4) pages_sent_def by blast
      then show ?thesis using c ready [OF c(1)] CallWrite Pair ready
        by (intro extend [where xs = xs]) (auto simp: frame_allowed_def eeprom_ready_def)
    qed (use inv CallWrite Pair in simp)
  next
    case (CallSecurePageWrite data len)
    obtain xs where xs: "snd (eeprom_24c128_secure_page_write ctx data len tr) = tr @ xs" and form: "\<forall>x \<in> set xs. \<exists>c d. ctx = Some c \<and>
        ep_initialised c \<and> data = Some d \<and> len = 64 \<and>
        (x = I2cWrite (ep_addr c + 8) ([0, 0] @ take 64 d) \<or> x = I2cWrite (ep_addr c + 8) [0, 0] \<or> x = DelayUs 1000)"
      using secure_page_write_log [of ctx data len tr] by blast
    have "frame_allowed calls x" if "x \<in> set xs" for x
      using bspec [OF form that] alt assms(2) CallSecurePageWrite by (auto simp: frame_allowed_def)
    then show ?thesis using CallSecurePageWrite Pair ready xs by (intro extend [where xs = xs]) auto
  next
    case CallSecurePageLock
    obtain xs where xs: "snd (eeprom_24c128_secure_page_lock ctx tr) = tr @ xs" and form: "\<forall>x \<in> set xs. \<exists>c. ctx = Some c \<and>
        ep_initialised c \<and> (x = I2cWrite (ep_addr c + 8) [4, 0, 0xFF] \<or> x = DelayMs 20 \<or> x = I2cWriteRead (ep_addr c + 8) [4, 0] 1)"
      using secure_page_lock_log [of ctx tr] by blast
    have "frame_allowed calls x" if "x \<in> set xs" for x
      using bspec [OF form that] alt assms(2) CallSecurePageLock by (auto simp: frame_allowed_def)
    then show ?thesis using CallSecurePageLock Pair ready xs by (intro extend [where xs = xs]) auto
  next
    case CallDeinit
    then show ?thesis using inv Pair by (auto simp: calls_inv_def eeprom_24c128_deinit_def eeprom_ready_def)
  qed
qed

lemma eeprom_run_inv: "calls_inv calls st \<Longrightarrow> set cs \<subseteq> calls \<Longrightarrow> calls_inv calls (fold eeprom_step cs st)"
  by (induction cs arbitrary: st) (auto simp: eeprom_step_inv)

section \<open>Properties\<close>

text \<open>A context before its first use.\<close>

definition zero_eeprom :: eeprom where
  "zero_eeprom = \<lparr>ep_initialised = False, ep_bus = None, ep_addr = 0\<rparr>"


text \<open>
  C13. A write lands where it was asked to.  The driver refuses a range outside the 16 KB array without
  touching the bus.  Otherwise it returns after finitely many transfers, all to the array address, and
  on a device that takes the frames sent, programs within one page per frame and wraps at the page end,
  their effect is that of storing a prefix of the data at the offset: no frame straddles a page, none
  aliases back.  When it answers OK the prefix is all of the data.
\<close>

theorem eeprom_write_lands:
  fixes len :: "'a::len word"
  assumes "16 \<le> LENGTH('a)" "ep_initialised c" "unat len = length data"
  shows "\<exists>s xs k. eeprom_24c128_write (Some c) offset (Some data) len tr = (s, tr @ xs) \<and> k \<le> length data \<and>
    list_all (\<lambda>x. (\<exists>p. x = I2cWrite (ep_addr c) p) \<or> x = DelayUs EEPROM_WRITE_POLL_STEP_US) xs \<and>
    array_after (ep_addr c) xs mem = overlay mem (unat offset) (take k data) \<and>
    (if unat offset + length data > 16384 then s = ALP_ERR_OUT_OF_RANGE \<and> xs = [] else s = ALP_OK \<longrightarrow> k = length data)"
proof (cases "unat offset + length data > 16384")
  case True
  then have "eeprom_24c128_write (Some c) offset (Some data) len tr = (ALP_ERR_OUT_OF_RANGE, tr @ [])"
    using assms by (simp add: eeprom_24c128_write_def array_range)
  then show ?thesis using True by (intro exI [of _ ALP_ERR_OUT_OF_RANGE] exI [of _ "[]"] exI [of _ 0]) (simp add: array_after_def)
next
  case False
  have eq: "eeprom_24c128_write (Some c) offset (Some data) len tr = write_pages c offset data tr"
    using False assms by (cases "len = 0") (simp_all add: eeprom_24c128_write_def array_range write_pages.simps)
  show ?thesis
    using write_pages_sent [of offset data c tr] False unfolding eq pages_sent_def list_all_iff by (metis not_less prod.collapse)
qed

theorem eeprom_write_lands_witness:
  "let c = \<lparr>ep_initialised = True, ep_bus = Some (\<lambda>_ _. (ALP_OK, [])), ep_addr = 0x50\<rparr>; data = replicate 10 7 in
   16 \<le> LENGTH(32) \<and> ep_initialised c \<and> unat (10 :: 32 word) = length data \<and>
   eeprom_24c128_write (Some c) 60 (Some data) (10 :: 32 word) [] =
     (ALP_OK, [I2cWrite 0x50 [0, 60, 7, 7, 7, 7], I2cWrite 0x50 [0, 0], I2cWrite 0x50 [0, 64, 7, 7, 7, 7, 7, 7], I2cWrite 0x50 [0, 0]]) \<and>
   array_after 0x50 (snd (eeprom_24c128_write (Some c) 60 (Some data) (10 :: 32 word) [])) (\<lambda>_. 0) = overlay (\<lambda>_. 0) 60 data"
proof -
  let ?c = "\<lparr>ep_initialised = True, ep_bus = Some (\<lambda>_ _. (ALP_OK, [])), ep_addr = 0x50\<rparr>" and ?d = "replicate 10 7 :: bytes"
  have run: "eeprom_24c128_write (Some ?c) 60 (Some ?d) (10 :: 32 word) [] =
     (ALP_OK, [I2cWrite 0x50 [0, 60, 7, 7, 7, 7], I2cWrite 0x50 [0, 0], I2cWrite 0x50 [0, 64, 7, 7, 7, 7, 7, 7], I2cWrite 0x50 [0, 0]])"
    by code_simp
  have "unat (10 :: 32 word) = length ?d" by simp
  from eeprom_write_lands [of ?c, OF _ _ this, of 60 "[]" "\<lambda>_. 0"] show ?thesis by (auto simp: Let_def run)
qed

end
