(* ===== verification/Crc16.thy ===== *)
theory Crc16
  imports Alp_Prelude
begin

text \<open>
  The CRC-16/CCITT-FALSE of the bridge wire protocols
  (\<^verbatim>\<open>include/alp/protocol/crc16.h\<close>): the shipped routine, which folds four bytes
  a step through four 256-entry tables and finishes byte by byte, and the bit
  loop it replaced, kept here as the reference. The tables are the source's,
  entry by entry. The lemmas show that the register update is linear over
  exclusive or and injective, that each table is the update of the previous
  one, that the routine computes the bit loop on every input and may be chained,
  and that an error confined to two neighbouring bytes always changes the CRC.
\<close>

section \<open>The reference: one bit at a time\<close>

text \<open>Polynomial \<open>0x1021\<close>, most significant bit first; \<open>crc_adv\<close> runs the eight
  steps of one byte.\<close>

definition crc_bit :: "u16 \<Rightarrow> u16" where
  "crc_bit c = (if bit c 15 then push_bit 1 c XOR 0x1021 else push_bit 1 c)"

definition crc_adv :: "u16 \<Rightarrow> u16" where
  "crc_adv c = crc_bit (crc_bit (crc_bit (crc_bit (crc_bit (crc_bit (crc_bit (crc_bit c)))))))"

definition crc_byte :: "u16 \<Rightarrow> u8 \<Rightarrow> u16" where
  "crc_byte c b = crc_adv (c XOR push_bit 8 (ucast b))"

definition crc16_bitwise :: "u16 \<Rightarrow> bytes \<Rightarrow> u16" where
  "crc16_bitwise c p = fold (\<lambda>b c. crc_byte c b) p c"

section \<open>The tables and the routine\<close>

definition crc16_table0 :: "u16 list" where
  "crc16_table0 = [
     0x0000, 0x1021, 0x2042, 0x3063, 0x4084, 0x50A5, 0x60C6, 0x70E7,
     0x8108, 0x9129, 0xA14A, 0xB16B, 0xC18C, 0xD1AD, 0xE1CE, 0xF1EF,
     0x1231, 0x0210, 0x3273, 0x2252, 0x52B5, 0x4294, 0x72F7, 0x62D6,
     0x9339, 0x8318, 0xB37B, 0xA35A, 0xD3BD, 0xC39C, 0xF3FF, 0xE3DE,
     0x2462, 0x3443, 0x0420, 0x1401, 0x64E6, 0x74C7, 0x44A4, 0x5485,
     0xA56A, 0xB54B, 0x8528, 0x9509, 0xE5EE, 0xF5CF, 0xC5AC, 0xD58D,
     0x3653, 0x2672, 0x1611, 0x0630, 0x76D7, 0x66F6, 0x5695, 0x46B4,
     0xB75B, 0xA77A, 0x9719, 0x8738, 0xF7DF, 0xE7FE, 0xD79D, 0xC7BC,
     0x48C4, 0x58E5, 0x6886, 0x78A7, 0x0840, 0x1861, 0x2802, 0x3823,
     0xC9CC, 0xD9ED, 0xE98E, 0xF9AF, 0x8948, 0x9969, 0xA90A, 0xB92B,
     0x5AF5, 0x4AD4, 0x7AB7, 0x6A96, 0x1A71, 0x0A50, 0x3A33, 0x2A12,
     0xDBFD, 0xCBDC, 0xFBBF, 0xEB9E, 0x9B79, 0x8B58, 0xBB3B, 0xAB1A,
     0x6CA6, 0x7C87, 0x4CE4, 0x5CC5, 0x2C22, 0x3C03, 0x0C60, 0x1C41,
     0xEDAE, 0xFD8F, 0xCDEC, 0xDDCD, 0xAD2A, 0xBD0B, 0x8D68, 0x9D49,
     0x7E97, 0x6EB6, 0x5ED5, 0x4EF4, 0x3E13, 0x2E32, 0x1E51, 0x0E70,
     0xFF9F, 0xEFBE, 0xDFDD, 0xCFFC, 0xBF1B, 0xAF3A, 0x9F59, 0x8F78,
     0x9188, 0x81A9, 0xB1CA, 0xA1EB, 0xD10C, 0xC12D, 0xF14E, 0xE16F,
     0x1080, 0x00A1, 0x30C2, 0x20E3, 0x5004, 0x4025, 0x7046, 0x6067,
     0x83B9, 0x9398, 0xA3FB, 0xB3DA, 0xC33D, 0xD31C, 0xE37F, 0xF35E,
     0x02B1, 0x1290, 0x22F3, 0x32D2, 0x4235, 0x5214, 0x6277, 0x7256,
     0xB5EA, 0xA5CB, 0x95A8, 0x8589, 0xF56E, 0xE54F, 0xD52C, 0xC50D,
     0x34E2, 0x24C3, 0x14A0, 0x0481, 0x7466, 0x6447, 0x5424, 0x4405,
     0xA7DB, 0xB7FA, 0x8799, 0x97B8, 0xE75F, 0xF77E, 0xC71D, 0xD73C,
     0x26D3, 0x36F2, 0x0691, 0x16B0, 0x6657, 0x7676, 0x4615, 0x5634,
     0xD94C, 0xC96D, 0xF90E, 0xE92F, 0x99C8, 0x89E9, 0xB98A, 0xA9AB,
     0x5844, 0x4865, 0x7806, 0x6827, 0x18C0, 0x08E1, 0x3882, 0x28A3,
     0xCB7D, 0xDB5C, 0xEB3F, 0xFB1E, 0x8BF9, 0x9BD8, 0xABBB, 0xBB9A,
     0x4A75, 0x5A54, 0x6A37, 0x7A16, 0x0AF1, 0x1AD0, 0x2AB3, 0x3A92,
     0xFD2E, 0xED0F, 0xDD6C, 0xCD4D, 0xBDAA, 0xAD8B, 0x9DE8, 0x8DC9,
     0x7C26, 0x6C07, 0x5C64, 0x4C45, 0x3CA2, 0x2C83, 0x1CE0, 0x0CC1,
     0xEF1F, 0xFF3E, 0xCF5D, 0xDF7C, 0xAF9B, 0xBFBA, 0x8FD9, 0x9FF8,
     0x6E17, 0x7E36, 0x4E55, 0x5E74, 0x2E93, 0x3EB2, 0x0ED1, 0x1EF0]"

definition crc16_table1 :: "u16 list" where
  "crc16_table1 = [
     0x0000, 0x3331, 0x6662, 0x5553, 0xCCC4, 0xFFF5, 0xAAA6, 0x9997,
     0x89A9, 0xBA98, 0xEFCB, 0xDCFA, 0x456D, 0x765C, 0x230F, 0x103E,
     0x0373, 0x3042, 0x6511, 0x5620, 0xCFB7, 0xFC86, 0xA9D5, 0x9AE4,
     0x8ADA, 0xB9EB, 0xECB8, 0xDF89, 0x461E, 0x752F, 0x207C, 0x134D,
     0x06E6, 0x35D7, 0x6084, 0x53B5, 0xCA22, 0xF913, 0xAC40, 0x9F71,
     0x8F4F, 0xBC7E, 0xE92D, 0xDA1C, 0x438B, 0x70BA, 0x25E9, 0x16D8,
     0x0595, 0x36A4, 0x63F7, 0x50C6, 0xC951, 0xFA60, 0xAF33, 0x9C02,
     0x8C3C, 0xBF0D, 0xEA5E, 0xD96F, 0x40F8, 0x73C9, 0x269A, 0x15AB,
     0x0DCC, 0x3EFD, 0x6BAE, 0x589F, 0xC108, 0xF239, 0xA76A, 0x945B,
     0x8465, 0xB754, 0xE207, 0xD136, 0x48A1, 0x7B90, 0x2EC3, 0x1DF2,
     0x0EBF, 0x3D8E, 0x68DD, 0x5BEC, 0xC27B, 0xF14A, 0xA419, 0x9728,
     0x8716, 0xB427, 0xE174, 0xD245, 0x4BD2, 0x78E3, 0x2DB0, 0x1E81,
     0x0B2A, 0x381B, 0x6D48, 0x5E79, 0xC7EE, 0xF4DF, 0xA18C, 0x92BD,
     0x8283, 0xB1B2, 0xE4E1, 0xD7D0, 0x4E47, 0x7D76, 0x2825, 0x1B14,
     0x0859, 0x3B68, 0x6E3B, 0x5D0A, 0xC49D, 0xF7AC, 0xA2FF, 0x91CE,
     0x81F0, 0xB2C1, 0xE792, 0xD4A3, 0x4D34, 0x7E05, 0x2B56, 0x1867,
     0x1B98, 0x28A9, 0x7DFA, 0x4ECB, 0xD75C, 0xE46D, 0xB13E, 0x820F,
     0x9231, 0xA100, 0xF453, 0xC762, 0x5EF5, 0x6DC4, 0x3897, 0x0BA6,
     0x18EB, 0x2BDA, 0x7E89, 0x4DB8, 0xD42F, 0xE71E, 0xB24D, 0x817C,
     0x9142, 0xA273, 0xF720, 0xC411, 0x5D86, 0x6EB7, 0x3BE4, 0x08D5,
     0x1D7E, 0x2E4F, 0x7B1C, 0x482D, 0xD1BA, 0xE28B, 0xB7D8, 0x84E9,
     0x94D7, 0xA7E6, 0xF2B5, 0xC184, 0x5813, 0x6B22, 0x3E71, 0x0D40,
     0x1E0D, 0x2D3C, 0x786F, 0x4B5E, 0xD2C9, 0xE1F8, 0xB4AB, 0x879A,
     0x97A4, 0xA495, 0xF1C6, 0xC2F7, 0x5B60, 0x6851, 0x3D02, 0x0E33,
     0x1654, 0x2565, 0x7036, 0x4307, 0xDA90, 0xE9A1, 0xBCF2, 0x8FC3,
     0x9FFD, 0xACCC, 0xF99F, 0xCAAE, 0x5339, 0x6008, 0x355B, 0x066A,
     0x1527, 0x2616, 0x7345, 0x4074, 0xD9E3, 0xEAD2, 0xBF81, 0x8CB0,
     0x9C8E, 0xAFBF, 0xFAEC, 0xC9DD, 0x504A, 0x637B, 0x3628, 0x0519,
     0x10B2, 0x2383, 0x76D0, 0x45E1, 0xDC76, 0xEF47, 0xBA14, 0x8925,
     0x991B, 0xAA2A, 0xFF79, 0xCC48, 0x55DF, 0x66EE, 0x33BD, 0x008C,
     0x13C1, 0x20F0, 0x75A3, 0x4692, 0xDF05, 0xEC34, 0xB967, 0x8A56,
     0x9A68, 0xA959, 0xFC0A, 0xCF3B, 0x56AC, 0x659D, 0x30CE, 0x03FF]"

definition crc16_table2 :: "u16 list" where
  "crc16_table2 = [
     0x0000, 0x3730, 0x6E60, 0x5950, 0xDCC0, 0xEBF0, 0xB2A0, 0x8590,
     0xA9A1, 0x9E91, 0xC7C1, 0xF0F1, 0x7561, 0x4251, 0x1B01, 0x2C31,
     0x4363, 0x7453, 0x2D03, 0x1A33, 0x9FA3, 0xA893, 0xF1C3, 0xC6F3,
     0xEAC2, 0xDDF2, 0x84A2, 0xB392, 0x3602, 0x0132, 0x5862, 0x6F52,
     0x86C6, 0xB1F6, 0xE8A6, 0xDF96, 0x5A06, 0x6D36, 0x3466, 0x0356,
     0x2F67, 0x1857, 0x4107, 0x7637, 0xF3A7, 0xC497, 0x9DC7, 0xAAF7,
     0xC5A5, 0xF295, 0xABC5, 0x9CF5, 0x1965, 0x2E55, 0x7705, 0x4035,
     0x6C04, 0x5B34, 0x0264, 0x3554, 0xB0C4, 0x87F4, 0xDEA4, 0xE994,
     0x1DAD, 0x2A9D, 0x73CD, 0x44FD, 0xC16D, 0xF65D, 0xAF0D, 0x983D,
     0xB40C, 0x833C, 0xDA6C, 0xED5C, 0x68CC, 0x5FFC, 0x06AC, 0x319C,
     0x5ECE, 0x69FE, 0x30AE, 0x079E, 0x820E, 0xB53E, 0xEC6E, 0xDB5E,
     0xF76F, 0xC05F, 0x990F, 0xAE3F, 0x2BAF, 0x1C9F, 0x45CF, 0x72FF,
     0x9B6B, 0xAC5B, 0xF50B, 0xC23B, 0x47AB, 0x709B, 0x29CB, 0x1EFB,
     0x32CA, 0x05FA, 0x5CAA, 0x6B9A, 0xEE0A, 0xD93A, 0x806A, 0xB75A,
     0xD808, 0xEF38, 0xB668, 0x8158, 0x04C8, 0x33F8, 0x6AA8, 0x5D98,
     0x71A9, 0x4699, 0x1FC9, 0x28F9, 0xAD69, 0x9A59, 0xC309, 0xF439,
     0x3B5A, 0x0C6A, 0x553A, 0x620A, 0xE79A, 0xD0AA, 0x89FA, 0xBECA,
     0x92FB, 0xA5CB, 0xFC9B, 0xCBAB, 0x4E3B, 0x790B, 0x205B, 0x176B,
     0x7839, 0x4F09, 0x1659, 0x2169, 0xA4F9, 0x93C9, 0xCA99, 0xFDA9,
     0xD198, 0xE6A8, 0xBFF8, 0x88C8, 0x0D58, 0x3A68, 0x6338, 0x5408,
     0xBD9C, 0x8AAC, 0xD3FC, 0xE4CC, 0x615C, 0x566C, 0x0F3C, 0x380C,
     0x143D, 0x230D, 0x7A5D, 0x4D6D, 0xC8FD, 0xFFCD, 0xA69D, 0x91AD,
     0xFEFF, 0xC9CF, 0x909F, 0xA7AF, 0x223F, 0x150F, 0x4C5F, 0x7B6F,
     0x575E, 0x606E, 0x393E, 0x0E0E, 0x8B9E, 0xBCAE, 0xE5FE, 0xD2CE,
     0x26F7, 0x11C7, 0x4897, 0x7FA7, 0xFA37, 0xCD07, 0x9457, 0xA367,
     0x8F56, 0xB866, 0xE136, 0xD606, 0x5396, 0x64A6, 0x3DF6, 0x0AC6,
     0x6594, 0x52A4, 0x0BF4, 0x3CC4, 0xB954, 0x8E64, 0xD734, 0xE004,
     0xCC35, 0xFB05, 0xA255, 0x9565, 0x10F5, 0x27C5, 0x7E95, 0x49A5,
     0xA031, 0x9701, 0xCE51, 0xF961, 0x7CF1, 0x4BC1, 0x1291, 0x25A1,
     0x0990, 0x3EA0, 0x67F0, 0x50C0, 0xD550, 0xE260, 0xBB30, 0x8C00,
     0xE352, 0xD462, 0x8D32, 0xBA02, 0x3F92, 0x08A2, 0x51F2, 0x66C2,
     0x4AF3, 0x7DC3, 0x2493, 0x13A3, 0x9633, 0xA103, 0xF853, 0xCF63]"

definition crc16_table3 :: "u16 list" where
  "crc16_table3 = [
     0x0000, 0x76B4, 0xED68, 0x9BDC, 0xCAF1, 0xBC45, 0x2799, 0x512D,
     0x85C3, 0xF377, 0x68AB, 0x1E1F, 0x4F32, 0x3986, 0xA25A, 0xD4EE,
     0x1BA7, 0x6D13, 0xF6CF, 0x807B, 0xD156, 0xA7E2, 0x3C3E, 0x4A8A,
     0x9E64, 0xE8D0, 0x730C, 0x05B8, 0x5495, 0x2221, 0xB9FD, 0xCF49,
     0x374E, 0x41FA, 0xDA26, 0xAC92, 0xFDBF, 0x8B0B, 0x10D7, 0x6663,
     0xB28D, 0xC439, 0x5FE5, 0x2951, 0x787C, 0x0EC8, 0x9514, 0xE3A0,
     0x2CE9, 0x5A5D, 0xC181, 0xB735, 0xE618, 0x90AC, 0x0B70, 0x7DC4,
     0xA92A, 0xDF9E, 0x4442, 0x32F6, 0x63DB, 0x156F, 0x8EB3, 0xF807,
     0x6E9C, 0x1828, 0x83F4, 0xF540, 0xA46D, 0xD2D9, 0x4905, 0x3FB1,
     0xEB5F, 0x9DEB, 0x0637, 0x7083, 0x21AE, 0x571A, 0xCCC6, 0xBA72,
     0x753B, 0x038F, 0x9853, 0xEEE7, 0xBFCA, 0xC97E, 0x52A2, 0x2416,
     0xF0F8, 0x864C, 0x1D90, 0x6B24, 0x3A09, 0x4CBD, 0xD761, 0xA1D5,
     0x59D2, 0x2F66, 0xB4BA, 0xC20E, 0x9323, 0xE597, 0x7E4B, 0x08FF,
     0xDC11, 0xAAA5, 0x3179, 0x47CD, 0x16E0, 0x6054, 0xFB88, 0x8D3C,
     0x4275, 0x34C1, 0xAF1D, 0xD9A9, 0x8884, 0xFE30, 0x65EC, 0x1358,
     0xC7B6, 0xB102, 0x2ADE, 0x5C6A, 0x0D47, 0x7BF3, 0xE02F, 0x969B,
     0xDD38, 0xAB8C, 0x3050, 0x46E4, 0x17C9, 0x617D, 0xFAA1, 0x8C15,
     0x58FB, 0x2E4F, 0xB593, 0xC327, 0x920A, 0xE4BE, 0x7F62, 0x09D6,
     0xC69F, 0xB02B, 0x2BF7, 0x5D43, 0x0C6E, 0x7ADA, 0xE106, 0x97B2,
     0x435C, 0x35E8, 0xAE34, 0xD880, 0x89AD, 0xFF19, 0x64C5, 0x1271,
     0xEA76, 0x9CC2, 0x071E, 0x71AA, 0x2087, 0x5633, 0xCDEF, 0xBB5B,
     0x6FB5, 0x1901, 0x82DD, 0xF469, 0xA544, 0xD3F0, 0x482C, 0x3E98,
     0xF1D1, 0x8765, 0x1CB9, 0x6A0D, 0x3B20, 0x4D94, 0xD648, 0xA0FC,
     0x7412, 0x02A6, 0x997A, 0xEFCE, 0xBEE3, 0xC857, 0x538B, 0x253F,
     0xB3A4, 0xC510, 0x5ECC, 0x2878, 0x7955, 0x0FE1, 0x943D, 0xE289,
     0x3667, 0x40D3, 0xDB0F, 0xADBB, 0xFC96, 0x8A22, 0x11FE, 0x674A,
     0xA803, 0xDEB7, 0x456B, 0x33DF, 0x62F2, 0x1446, 0x8F9A, 0xF92E,
     0x2DC0, 0x5B74, 0xC0A8, 0xB61C, 0xE731, 0x9185, 0x0A59, 0x7CED,
     0x84EA, 0xF25E, 0x6982, 0x1F36, 0x4E1B, 0x38AF, 0xA373, 0xD5C7,
     0x0129, 0x779D, 0xEC41, 0x9AF5, 0xCBD8, 0xBD6C, 0x26B0, 0x5004,
     0x9F4D, 0xE9F9, 0x7225, 0x0491, 0x55BC, 0x2308, 0xB8D4, 0xCE60,
     0x1A8E, 0x6C3A, 0xF7E6, 0x8152, 0xD07F, 0xA6CB, 0x3D17, 0x4BA3]"

text \<open>One step of the main loop: a 32-bit load, split into bytes by shifts (the
  little-endian branch), and the byte loop for what is left.\<close>

definition crc16_slice :: "u16 \<Rightarrow> bytes \<Rightarrow> u16" where
  "crc16_slice crc p =
     (let w = (le_word 4 p :: u32);
          b0 = w AND 0xFF; b1 = drop_bit 8 w AND 0xFF; b2 = drop_bit 16 w AND 0xFF; b3 = drop_bit 24 w;
          x = ucast crc XOR (push_bit 8 b0 OR b1)
      in crc16_table3 ! unat (drop_bit 8 x) XOR crc16_table2 ! unat (x AND 0xFF)
         XOR crc16_table1 ! unat b2 XOR crc16_table0 ! unat b3)"

fun crc16_tail :: "u16 \<Rightarrow> bytes \<Rightarrow> u16" where
  "crc16_tail crc [] = crc"
| "crc16_tail crc (b # p) =
     crc16_tail (push_bit 8 crc XOR crc16_table0 ! unat (ucast (drop_bit 8 crc XOR ucast b) :: u8)) p"

function alp_crc16_ccitt_false_update :: "u16 \<Rightarrow> bytes \<Rightarrow> u16" where
  "alp_crc16_ccitt_false_update crc p =
     (if 4 \<le> length p then alp_crc16_ccitt_false_update (crc16_slice crc p) (drop 4 p)
      else crc16_tail crc p)"
  by pat_completeness auto
termination by (relation "measure (\<lambda>(crc, p). length p)") auto

declare alp_crc16_ccitt_false_update.simps [simp del]

definition alp_crc16_ccitt_false :: "bytes \<Rightarrow> u16" where
  "alp_crc16_ccitt_false p = alp_crc16_ccitt_false_update 0xFFFF p"

section \<open>The register update is linear\<close>

text \<open>\<open>span_table\<close> lists the combinations of a basis in index order, so a table of a
  linear function is determined by its values at the powers of two.\<close>

definition with_bit :: "u16 \<Rightarrow> u16 list \<Rightarrow> u16 list" where
  "with_bit b t = t @ map (\<lambda>x. x XOR b) t"

fun span_table :: "u16 list \<Rightarrow> u16 list" where
  "span_table [] = [0]"
| "span_table (b # bs) = with_bit b (span_table bs)"

lemma length_span_table [simp]: "length (span_table bs) = 2 ^ length bs"
  by (induction bs) (simp_all add: with_bit_def)

definition linear16 :: "(u16 \<Rightarrow> u16) \<Rightarrow> bool" where
  "linear16 f \<longleftrightarrow> (\<forall>x y. f (x XOR y) = f x XOR f y)"

lemma linear16_zero: "linear16 f \<Longrightarrow> f 0 = 0"
  unfolding linear16_def by (metis xor.right_neutral xor_self_eq)

lemma linear16_comp: "linear16 f \<Longrightarrow> linear16 g \<Longrightarrow> linear16 (\<lambda>x. f (g x))"
  by (simp add: linear16_def)

lemma linear16_push: "linear16 (push_bit n)"
  by (simp add: linear16_def)

lemma linear16_bit: "linear16 crc_bit"
  by (auto simp: linear16_def crc_bit_def bit_xor_iff ac_simps)

lemma linear16_funpow: "linear16 f \<Longrightarrow> linear16 (f ^^ n)"
  by (induction n) (simp_all add: linear16_def)

lemma linear16_adv: "linear16 crc_adv"
  using linear16_bit by (simp add: linear16_def crc_adv_def)

lemma top_bit_xor: "k < 2 ^ n \<Longrightarrow> (word_of_nat (k + 2 ^ n) :: u16) = word_of_nat k XOR push_bit n 1"
proof -
  assume k: "k < 2 ^ n"
  have "k AND 2 ^ n = 0"
    using k by (simp add: and_exp_eq_0_iff_not_bit bit_iff_odd)
  hence "k + 2 ^ n = k XOR 2 ^ n" by (rule disjunctive_add_eq_xor)
  hence "(word_of_nat (k + 2 ^ n) :: u16) = word_of_nat (k XOR 2 ^ n)" by (rule arg_cong)
  also have "\<dots> = word_of_nat k XOR word_of_nat (2 ^ n)" by (rule of_nat_xor_eq)
  finally show ?thesis by (simp add: push_bit_eq_mult)
qed

lemma span_table_nth:
  assumes "linear16 f" and "i < 2 ^ n"
  shows "span_table (map (\<lambda>j. f (push_bit j 1)) (rev [0..<n])) ! i = f (word_of_nat i)"
  using assms(2)
proof (induction n arbitrary: i)
  case 0
  thus ?case by (simp add: linear16_zero [OF assms(1)])
next
  case (Suc n)
  show ?case
  proof (cases "i < 2 ^ n")
    case True
    thus ?thesis using Suc.IH [OF True] by (simp add: with_bit_def nth_append)
  next
    case False
    let ?k = "i - 2 ^ n"
    have k: "?k < 2 ^ n" "i = ?k + 2 ^ n" using False Suc.prems by simp_all
    have "f (word_of_nat i) = f (word_of_nat ?k) XOR f (push_bit n 1)"
      using assms(1) k(1) by (subst k(2)) (simp add: top_bit_xor linear16_def del: of_nat_add)
    thus ?thesis using False k(1) Suc.IH [OF k(1)] by (simp add: with_bit_def nth_append)
  qed
qed

lemma crc16_units: "map (\<lambda>j. push_bit 8 (push_bit j 1)) (rev [0..<8]) = ([0x8000, 0x4000, 0x2000, 0x1000, 0x800, 0x400, 0x200, 0x100] :: u16 list)"
proof -
  have "rev [0..<8] = [7, 6, 5, 4, 3, 2, 1, 0 :: nat]" by code_simp
  thus ?thesis by simp
qed

lemma crc16_basis0: "map crc_adv [0x8000, 0x4000, 0x2000, 0x1000, 0x800, 0x400, 0x200, 0x100] =
   [0x9188, 0x48C4, 0x2462, 0x1231, 0x8108, 0x4084, 0x2042, 0x1021]"
  by code_simp

lemma crc16_span0: "crc16_table0 = span_table [0x9188, 0x48C4, 0x2462, 0x1231, 0x8108, 0x4084, 0x2042, 0x1021]"
  by (simp add: crc16_table0_def with_bit_def)

lemma crc16_basis1: "map crc_adv [0x9188, 0x48C4, 0x2462, 0x1231, 0x8108, 0x4084, 0x2042, 0x1021] =
   [0x1B98, 0x0DCC, 0x06E6, 0x0373, 0x89A9, 0xCCC4, 0x6662, 0x3331]"
  by code_simp

lemma crc16_span1: "crc16_table1 = span_table [0x1B98, 0x0DCC, 0x06E6, 0x0373, 0x89A9, 0xCCC4, 0x6662, 0x3331]"
  by (simp add: crc16_table1_def with_bit_def)

lemma crc16_basis2: "map crc_adv [0x1B98, 0x0DCC, 0x06E6, 0x0373, 0x89A9, 0xCCC4, 0x6662, 0x3331] =
   [0x3B5A, 0x1DAD, 0x86C6, 0x4363, 0xA9A1, 0xDCC0, 0x6E60, 0x3730]"
  by code_simp

lemma crc16_span2: "crc16_table2 = span_table [0x3B5A, 0x1DAD, 0x86C6, 0x4363, 0xA9A1, 0xDCC0, 0x6E60, 0x3730]"
  by (simp add: crc16_table2_def with_bit_def)

lemma crc16_basis3: "map crc_adv [0x3B5A, 0x1DAD, 0x86C6, 0x4363, 0xA9A1, 0xDCC0, 0x6E60, 0x3730] =
   [0xDD38, 0x6E9C, 0x374E, 0x1BA7, 0x85C3, 0xCAF1, 0xED68, 0x76B4]"
  by code_simp

lemma crc16_span3: "crc16_table3 = span_table [0xDD38, 0x6E9C, 0x374E, 0x1BA7, 0x85C3, 0xCAF1, 0xED68, 0x76B4]"
  by (simp add: crc16_table3_def with_bit_def)


lemma crc16_basis: 
  assumes "linear16 f" and "map f (map (\<lambda>j. push_bit 8 (push_bit j 1)) (rev [0..<8])) = bs"
  shows "span_table bs ! unat (b :: u8) = f (push_bit 8 (ucast b))"
proof -
  have "unat b < 2 ^ LENGTH(8)" by (rule unsigned_less)
  hence b: "unat b < 2 ^ 8" by simp
  have w: "word_of_nat (unat b) = (ucast b :: u16)" by simp
  show ?thesis
    using span_table_nth [OF linear16_comp [OF assms(1) linear16_push [of 8]] b] assms(2)
    by (simp add: w comp_def)
qed

lemma crc16_table_nth:
  "crc16_table0 ! unat (b :: u8) = crc_adv (push_bit 8 (ucast b))"
  "crc16_table1 ! unat b = crc_adv (crc_adv (push_bit 8 (ucast b)))"
  "crc16_table2 ! unat b = crc_adv (crc_adv (crc_adv (push_bit 8 (ucast b))))"
  "crc16_table3 ! unat b = crc_adv (crc_adv (crc_adv (crc_adv (push_bit 8 (ucast b)))))"
proof -
  note lin = linear16_adv linear16_comp [OF linear16_adv linear16_adv]
  note lin3 = linear16_comp [OF linear16_adv lin(2)]
  note lin4 = linear16_comp [OF linear16_adv lin3]
  show "crc16_table0 ! unat b = crc_adv (push_bit 8 (ucast b))"
    unfolding crc16_span0 by (rule crc16_basis [OF lin(1)]) (simp only: crc16_units crc16_basis0)
  have 1: "map (\<lambda>x. crc_adv (crc_adv x)) xs = map crc_adv (map crc_adv xs)" for xs by simp
  show "crc16_table1 ! unat b = crc_adv (crc_adv (push_bit 8 (ucast b)))"
    unfolding crc16_span1
    by (rule crc16_basis [OF lin(2)]) (simp only: crc16_units 1 crc16_basis0 crc16_basis1)
  have 2: "map (\<lambda>x. crc_adv (crc_adv (crc_adv x))) xs = map crc_adv (map crc_adv (map crc_adv xs))" for xs
    by simp
  show "crc16_table2 ! unat b = crc_adv (crc_adv (crc_adv (push_bit 8 (ucast b))))"
    unfolding crc16_span2
    by (rule crc16_basis [OF lin3]) (simp only: crc16_units 2 crc16_basis0 crc16_basis1 crc16_basis2)
  have 3: "map (\<lambda>x. crc_adv (crc_adv (crc_adv (crc_adv x)))) xs =
      map crc_adv (map crc_adv (map crc_adv (map crc_adv xs)))" for xs
    by simp
  show "crc16_table3 ! unat b = crc_adv (crc_adv (crc_adv (crc_adv (push_bit 8 (ucast b)))))"
    unfolding crc16_span3
    by (rule crc16_basis [OF lin4])
      (simp only: crc16_units 3 crc16_basis0 crc16_basis1 crc16_basis2 crc16_basis3)
qed

text \<open>A byte in the low half of the register is only shifted: eight steps bring
  it to the top without a reduction.\<close>

lemma crc_adv_low: "crc_adv (ucast (b :: u8)) = push_bit 8 (ucast b)"
proof -
  have step: "crc_bit (push_bit n (ucast b)) = push_bit (Suc n) (ucast b)" if "n < 8" for n
  proof -
    have "\<not> bit b (15 - n)" using that by (intro notI) (drule bit_imp_le_length, simp)
    hence "\<not> bit (push_bit n (ucast b) :: u16) 15" by (simp add: bit_simps bit_ucast_iff)
    thus ?thesis by (simp add: crc_bit_def)
  qed
  have "(crc_bit ^^ n) (ucast b) = push_bit n (ucast b)" if "n \<le> 8" for n
    using that
  proof (induction n)
    case (Suc n)
    thus ?case using step [of n] by simp
  qed simp
  from this [of 8] show ?thesis by (simp add: crc_adv_def numeral_eq_Suc del: push_bit_eq_mult)
qed

lemma split_register: "c = push_bit 8 (ucast (ucast (drop_bit 8 c) :: u8)) XOR ucast (ucast c :: u8)"
  for c :: u16
  by (rule bit_word_eqI) (auto simp: bit_simps bit_ucast_iff)

lemma crc_adv_xor: "crc_adv (x XOR y) = crc_adv x XOR crc_adv y"
  using linear16_adv by (simp add: linear16_def)

lemma crc_adv_bytes: "crc_adv (push_bit 8 (ucast h) XOR ucast l) = crc16_table0 ! unat h XOR push_bit 8 (ucast l)"
  for h l :: u8
  by (simp only: crc_adv_xor crc_adv_low crc16_table_nth(1))

lemma crc16_tail_bitwise: "crc16_tail c p = crc16_bitwise c p"
proof (induction p arbitrary: c)
  case (Cons b p)
  let ?h = "ucast (drop_bit 8 c XOR ucast b) :: u8" and ?l = "ucast c :: u8"
  have e: "c XOR push_bit 8 (ucast b) = push_bit 8 (ucast ?h) XOR ucast ?l"
    by (rule bit_word_eqI) (auto simp: bit_simps bit_ucast_iff)
  have l: "push_bit 8 (ucast ?l) = push_bit 8 c"
    by (rule bit_word_eqI) (auto simp: bit_simps bit_ucast_iff)
  have "crc_byte c b = push_bit 8 c XOR crc16_table0 ! unat ?h"
    unfolding crc_byte_def e crc_adv_bytes l by (rule xor.commute)
  thus ?case using Cons.IH by (simp add: crc16_bitwise_def)
qed (simp add: crc16_bitwise_def)

text \<open>Four bytes at once: by linearity the register after the first two bytes is
  fed to the two upper tables, the other two bytes to the lower ones.\<close>

lemma low_byte_mask: "x AND 0xFF = take_bit 8 x" for x :: u32
  by (simp add: take_bit_eq_mask mask_eq_exp_minus_1)

lemma byte_bit_less: "bit (b :: u8) k \<Longrightarrow> k < 8"
  by (auto dest: bit_imp_le_length)

lemma register_bit_less: "bit (c :: u16) k \<Longrightarrow> k < 16"
  by (auto dest: bit_imp_le_length)

lemma le_load4:
  assumes "4 \<le> length p"
  shows "(le_word 4 p :: u32) AND 0xFF = ucast (p ! 0)"
    and "drop_bit 8 (le_word 4 p :: u32) AND 0xFF = ucast (p ! 1)"
    and "drop_bit 16 (le_word 4 p :: u32) AND 0xFF = ucast (p ! 2)"
    and "drop_bit 24 (le_word 4 p :: u32) = ucast (p ! 3)"
proof -
  have idx: "(k + 8 * i) div 8 = i" "(k + 8 * i) mod 8 = k" if "k < 8" for k i :: nat
    using that by simp_all
  have byte: "bit (drop_bit (8 * i) (le_word 4 p :: u32)) k \<longleftrightarrow> bit (p ! i) k" if "k < 8" "i < 4" for i k
    using that idx [of k i] by (simp add: bit_drop_bit_eq bit_le_word add.commute)
  show "(le_word 4 p :: u32) AND 0xFF = ucast (p ! 0)"
    using byte [of _ 0] by (intro bit_word_eqI) (auto simp: low_byte_mask bit_take_bit_iff bit_ucast_iff dest: byte_bit_less)
  show "drop_bit 8 (le_word 4 p :: u32) AND 0xFF = ucast (p ! 1)"
    using byte [of _ 1] by (intro bit_word_eqI) (auto simp: low_byte_mask bit_take_bit_iff bit_ucast_iff dest: byte_bit_less)
  show "drop_bit 16 (le_word 4 p :: u32) AND 0xFF = ucast (p ! 2)"
    using byte [of _ 2] by (intro bit_word_eqI) (auto simp: low_byte_mask bit_take_bit_iff bit_ucast_iff dest: byte_bit_less)
  have "\<not> bit (drop_bit 24 (le_word 4 p :: u32)) k" if "\<not> k < 8" for k
    using that by (auto simp: bit_drop_bit_eq bit_le_word)
  thus "drop_bit 24 (le_word 4 p :: u32) = ucast (p ! 3)"
    using byte [of _ 3] by (intro bit_word_eqI) (auto simp: bit_ucast_iff dest: byte_bit_less)
qed

lemma crc16_slice_bytes:
  assumes "4 \<le> length p"
  shows "crc16_slice c p =
    crc_byte (crc_byte (crc_byte (crc_byte c (p ! 0)) (p ! 1)) (p ! 2)) (p ! 3)"
proof -
  let ?h = "ucast (drop_bit 8 c XOR ucast (p ! 0)) :: u8" and ?l = "ucast c XOR p ! 1 :: u8"
  have x: "drop_bit 8 (ucast c XOR (push_bit 8 (ucast (p ! 0)) OR ucast (p ! 1)) :: u32) = ucast ?h"
    "(ucast c XOR (push_bit 8 (ucast (p ! 0)) OR ucast (p ! 1)) :: u32) AND 0xFF = ucast ?l"
    by (rule bit_word_eqI; auto simp: low_byte_mask bit_simps bit_ucast_iff dest: byte_bit_less register_bit_less)+
  have u: "unat (ucast b :: u32) = unat b" for b :: u8 
  proof -
    have "unat b < 2 ^ LENGTH(8)" by (rule unsigned_less)
    thus ?thesis by (simp add: unsigned_ucast_eq take_bit_nat_eq_self)
  qed
  have t: "crc16_slice c p = crc16_table3 ! unat ?h XOR crc16_table2 ! unat ?l
      XOR crc16_table1 ! unat (p ! 2) XOR crc16_table0 ! unat (p ! 3)"
    by (simp only: crc16_slice_def Let_def le_load4 [OF assms] x u)
  have e: "c XOR push_bit 8 (ucast (p ! 0)) = push_bit 8 (ucast ?h) XOR ucast (ucast c :: u8)"
    by (rule bit_word_eqI) (auto simp: bit_simps bit_ucast_iff)
  have d: "push_bit 8 (ucast ?l) = push_bit 8 (ucast (ucast c :: u8)) XOR (push_bit 8 (ucast (p ! 1)) :: u16)"
    by (rule bit_word_eqI) (auto simp: bit_simps bit_ucast_iff)
  have a: "crc_byte (crc_byte c (p ! 0)) (p ! 1) =
      crc_adv (crc_adv (push_bit 8 (ucast ?h))) XOR crc_adv (push_bit 8 (ucast ?l))"
    unfolding crc_byte_def e d crc_adv_xor crc_adv_low by (simp only: ac_simps)
  show ?thesis unfolding t a crc16_table_nth crc_byte_def [of _ "p ! 2"] crc_byte_def [of _ "p ! 3"] crc_adv_xor
    by (simp only: ac_simps)
qed

lemma crc16_four: "4 \<le> length p \<Longrightarrow>
  crc16_bitwise c p = crc16_bitwise (crc16_slice c p) (drop 4 p)"
proof -
  assume p: "4 \<le> length p"
  then obtain a b d e q where "p = a # b # d # e # q"
    by (auto simp: numeral_eq_Suc Suc_le_length_iff)
  thus ?thesis using crc16_slice_bytes [OF p, of c] by (simp add: crc16_bitwise_def numeral_eq_Suc)
qed

lemma crc16_update_bitwise: "alp_crc16_ccitt_false_update c p = crc16_bitwise c p"
proof (induction c p rule: alp_crc16_ccitt_false_update.induct)
  case (1 c p)
  show ?case
    using 1 crc16_four [of p c] crc16_tail_bitwise [of c p]
    by (simp add: alp_crc16_ccitt_false_update.simps [of c p])
qed

lemma crc16_bitwise_append: "crc16_bitwise c (p @ q) = crc16_bitwise (crc16_bitwise c p) q"
  by (simp add: crc16_bitwise_def)

text \<open>
  C24. The table-driven CRC routine computes the bit-by-bit CRC-16/CCITT-FALSE of
  its reference on every register value and every buffer, whatever its length
  modulo four, and folding a frame piecewise (header, then payload) gives the
  CRC of the whole frame.\<close>

theorem crc16_slicing_exact:
  "alp_crc16_ccitt_false_update crc p = crc16_bitwise crc p \<and>
   alp_crc16_ccitt_false_update (alp_crc16_ccitt_false_update crc p) q =
     alp_crc16_ccitt_false_update crc (p @ q) \<and>
   alp_crc16_ccitt_false p = crc16_bitwise 0xFFFF p"
  by (simp add: crc16_update_bitwise crc16_bitwise_append alp_crc16_ccitt_false_def)

section \<open>What the CRC detects\<close>

text \<open>The update is injective, so a difference in the register survives every
  further byte; two neighbouring bytes enter the register side by side, so no
  change of the pair leaves it unchanged.\<close>

lemma xor_zero: "x XOR y = 0 \<longleftrightarrow> x = y" for x y :: "'a::len word"
  by (simp add: bit_eq_iff bit_xor_iff)

lemma xor_cancel: "x XOR z = y XOR z \<longleftrightarrow> x = y" for x y z :: "'a::len word"
  by (auto simp: bit_eq_iff bit_xor_iff)

lemma crc_bit_eq_0: "crc_bit c = 0 \<longleftrightarrow> c = 0"
proof
  assume z: "crc_bit c = 0"
  have "\<not> bit (push_bit 1 c) 0" by (simp only: bit_push_bit_iff) simp
  hence "bit (crc_bit c) 0 \<longleftrightarrow> bit c 15" by (simp add: crc_bit_def bit_xor_iff)
  hence top: "\<not> bit c 15" using z by simp
  hence "push_bit 1 c = 0" using z by (simp add: crc_bit_def)
  hence sh: "bit c n = bit 0 n" if "n < 15" for n
    using that bit_push_bit_iff [of 1 c "Suc n"] by simp
  show "c = 0"
  proof (rule bit_word_eqI)
    fix n assume "n < LENGTH(16)"
    thus "bit c n = bit 0 n" using top sh [of n] by (cases "n = 15") simp_all
  qed
qed (simp add: crc_bit_def)

lemma crc_adv_eq_0: "crc_adv c = 0 \<longleftrightarrow> c = 0"
  by (simp add: crc_adv_def crc_bit_eq_0)

lemma crc_adv_inj: "crc_adv x = crc_adv y \<longleftrightarrow> x = y"
proof -
  have "crc_adv x = crc_adv y \<longleftrightarrow> crc_adv (x XOR y) = 0"
    by (simp add: crc_adv_xor xor_zero)
  thus ?thesis by (simp add: crc_adv_eq_0 xor_zero)
qed

lemma crc16_bitwise_inj: "crc16_bitwise c p = crc16_bitwise d p \<longleftrightarrow> c = d"
proof (induction p arbitrary: c d)
  case (Cons b p)
  have "crc16_bitwise c (b # p) = crc16_bitwise d (b # p) \<longleftrightarrow> crc_byte c b = crc_byte d b"
    using Cons.IH by (simp add: crc16_bitwise_def)
  also have "\<dots> \<longleftrightarrow> c XOR push_bit 8 (ucast b) = d XOR push_bit 8 (ucast b)"
    by (simp only: crc_byte_def crc_adv_inj)
  finally show ?case by (simp only: xor_cancel)
qed (simp add: crc16_bitwise_def)

lemma crc16_pair:
  "crc_byte (crc_byte c x) y = crc_adv (crc_adv (c XOR (push_bit 8 (ucast x) XOR ucast y)))"
  by (simp add: crc_byte_def crc_adv_xor crc_adv_low ac_simps)

lemma pair_bits:
  "push_bit 8 (ucast x) XOR ucast y = (push_bit 8 (ucast x') XOR ucast y' :: u16) \<longleftrightarrow> x = x' \<and> y = y'"
  for x y x' y' :: u8
proof -
  have "x = x' \<and> y = y'"
    if e: "push_bit 8 (ucast x) XOR ucast y = (push_bit 8 (ucast x') XOR ucast y' :: u16)"
  proof
    have bits: "bit (push_bit 8 (ucast x) XOR ucast y :: u16) n =
        bit (push_bit 8 (ucast x') XOR ucast y' :: u16) n" for n by (simp only: e)
    show "x = x'"
    proof (rule bit_word_eqI)
      fix n assume "n < LENGTH(8)"
      thus "bit x n = bit x' n"
        using bits [of "n + 8"] by (auto simp: bit_simps bit_ucast_iff dest: byte_bit_less)
    qed
    show "y = y'"
    proof (rule bit_word_eqI)
      fix n assume "n < LENGTH(8)"
      thus "bit y n = bit y' n" using bits [of n] by (simp add: bit_simps bit_ucast_iff)
    qed
  qed
  thus ?thesis by auto
qed

lemma crc16_pair_inj:
  "crc_byte (crc_byte c x) y = crc_byte (crc_byte c x') y' \<longleftrightarrow> x = x' \<and> y = y'"
  by (simp only: crc16_pair crc_adv_inj xor.commute [of c] xor_cancel pair_bits)

lemma crc16_burst_detected:
  assumes "[x, y] \<noteq> [x', y']"
  shows "crc16_bitwise c (a @ [x, y] @ b) \<noteq> crc16_bitwise c (a @ [x', y'] @ b)"
  using assms crc16_pair_inj
  by (simp add: crc16_bitwise_append crc16_bitwise_inj del: append_Cons) (simp add: crc16_bitwise_def)

end
