(* ===== verification/Cc3501e_Wire.thy ===== *)
theory Cc3501e_Wire
  imports Crc16
begin

text \<open>
  The wire decisions of the CC3501E bridge driver
  (\<^verbatim>\<open>chips/cc3501e/cc3501e_core.c\<close>, protocol constants of
  \<^verbatim>\<open>include/alp/protocol/cc3501e.h\<close>): frame headers, the status byte of a
  reply under the legacy wire (major 3) and the current one (major 4), the CRC
  trailer, the dead-phase rule, and the sizes the inter-phase gates are computed
  from. All of it is free of I/O. A payload pointer with its length is an
  optional byte list. The theorems show what a major-4 reply must be to be
  accepted, and that damage to it is not.
\<close>

section \<open>Protocol constants\<close>

type_synonym cc_cmd = u8

abbreviation (input) "CMD_PING \<equiv> (0x00 :: u8)"
abbreviation (input) "CMD_GET_VERSION \<equiv> (0x01 :: u8)"
abbreviation (input) "CMD_GET_MAC \<equiv> (0x03 :: u8)"
abbreviation (input) "CMD_GET_DIAG_INFO \<equiv> (0x04 :: u8)"
abbreviation (input) "CMD_GET_CAPABILITIES \<equiv> (0x06 :: u8)"
abbreviation (input) "CMD_WIFI_SCAN_START \<equiv> (0x10 :: u8)"
abbreviation (input) "CMD_WIFI_CONNECT_STA \<equiv> (0x12 :: u8)"
abbreviation (input) "CMD_WIFI_AP_START \<equiv> (0x14 :: u8)"
abbreviation (input) "CMD_WIFI_GET_RSSI \<equiv> (0x16 :: u8)"
abbreviation (input) "CMD_WIFI_GET_IP \<equiv> (0x17 :: u8)"
abbreviation (input) "CMD_WIFI_STATUS \<equiv> (0x1B :: u8)"
abbreviation (input) "CMD_SOCK_OPEN \<equiv> (0x20 :: u8)"
abbreviation (input) "CMD_SOCK_SEND \<equiv> (0x22 :: u8)"
abbreviation (input) "CMD_SOCK_RECV \<equiv> (0x23 :: u8)"
abbreviation (input) "CMD_BLE_SCAN_START \<equiv> (0x34 :: u8)"
abbreviation (input) "CMD_BLE_GATT_REGISTER \<equiv> (0x38 :: u8)"
abbreviation (input) "CMD_BLE_GATT_READ \<equiv> (0x3A :: u8)"
abbreviation (input) "CMD_OTA_BEGIN \<equiv> (0x40 :: u8)"
abbreviation (input) "CMD_OTA_WRITE \<equiv> (0x41 :: u8)"
abbreviation (input) "CMD_OTA_FINISH \<equiv> (0x42 :: u8)"
abbreviation (input) "CMD_OTA_ABORT \<equiv> (0x43 :: u8)"
abbreviation (input) "CMD_OTA_STATUS \<equiv> (0x44 :: u8)"
abbreviation (input) "CMD_OTA_PROMOTE \<equiv> (0x46 :: u8)"
abbreviation (input) "CMD_OTA_UPDATE_MODE \<equiv> (0x47 :: u8)"
abbreviation (input) "CMD_GPIO_READ \<equiv> (0x52 :: u8)"
abbreviation (input) "CMD_SPI1_CONFIGURE \<equiv> (0x55 :: u8)"
abbreviation (input) "CMD_SPI1_TRANSFER \<equiv> (0x56 :: u8)"
abbreviation (input) "CMD_DIAG_GET_STATS \<equiv> (0x70 :: u8)"

abbreviation (input) "PROTOCOL_MAJOR \<equiv> (4 :: u8)"
abbreviation (input) "PROTOCOL_MAJOR_LEGACY \<equiv> (3 :: u8)"
abbreviation (input) "RESP_OK \<equiv> (0x5A :: u8)"
abbreviation (input) "RESP_OK_LEGACY \<equiv> (0x00 :: u8)"
abbreviation (input) "RESP_ERR_STATE \<equiv> (0x09 :: u8)"
abbreviation (input) "RESP_ERR_RADIO \<equiv> (0x06 :: u8)"
abbreviation (input) "RESP_ERR_PROTOCOL \<equiv> (0x07 :: u8)"
abbreviation (input) "RESP_ERR_INTERNAL \<equiv> (0xFF :: u8)"
abbreviation (input) "RX_SCRATCH_NO_STATUS \<equiv> (0xDA :: u8)"
abbreviation (input) "SYNC_IDLE \<equiv> (0xA5 :: u8)"
abbreviation (input) "MAX_PAYLOAD \<equiv> (4096 :: nat)"
abbreviation (input) "HEADER_BYTES \<equiv> (4 :: nat)"
abbreviation (input) "CRC_BYTES \<equiv> (2 :: nat)"

section \<open>Headers\<close>

definition encode_header :: "cc_cmd \<Rightarrow> u8 \<Rightarrow> u16 \<Rightarrow> bytes" where
  "encode_header cmd flags payload_len =
     [cmd, flags, ucast (payload_len AND 0xFF), ucast (drop_bit 8 payload_len AND 0xFF)]"

definition decode_header_payload_len :: "bytes \<Rightarrow> u16" where
  "decode_header_payload_len frame = ucast (frame ! 2) OR push_bit 8 (ucast (frame ! 3))"

definition cc3501e_fw_major_is_acceptable :: "u8 \<Rightarrow> bool" where
  "cc3501e_fw_major_is_acceptable fw_major \<longleftrightarrow>
     fw_major = PROTOCOL_MAJOR \<or> fw_major = PROTOCOL_MAJOR_LEGACY"

section \<open>The verdict on a reply\<close>

definition resp_to_status :: "u8 \<Rightarrow> u8 \<Rightarrow> alp_status" where
  "resp_to_status resp fw_major =
     (if resp = RESP_OK then ALP_OK
      else if resp = RESP_OK_LEGACY \<and> fw_major = PROTOCOL_MAJOR_LEGACY then ALP_OK
      else if resp = 0x01 then ALP_ERR_INVAL
      else if resp = 0x02 then ALP_ERR_BUSY
      else if resp = 0x03 then ALP_ERR_TIMEOUT
      else if resp = 0x04 then ALP_ERR_NOMEM
      else if resp = 0x05 then ALP_ERR_NOT_READY
      else if resp = 0x08 then ALP_ERR_VERSION
      else if resp = RESP_ERR_STATE then ALP_ERR_BUSY
      else ALP_ERR_IO)"

definition cc3501e_reply_may_be_all_zero :: "cc_cmd \<Rightarrow> bool" where
  "cc3501e_reply_may_be_all_zero cmd \<longleftrightarrow>
     cmd \<in> {CMD_WIFI_STATUS, CMD_WIFI_GET_RSSI, CMD_WIFI_GET_IP, CMD_DIAG_GET_STATS, CMD_SOCK_RECV,
       CMD_OTA_STATUS, CMD_OTA_UPDATE_MODE, CMD_GPIO_READ, CMD_SPI1_TRANSFER, CMD_WIFI_SCAN_START,
       CMD_BLE_SCAN_START}"

definition cc3501e_reply_carries_data :: "cc_cmd \<Rightarrow> bool" where
  "cc3501e_reply_carries_data cmd \<longleftrightarrow>
     cmd \<in> {CMD_GET_VERSION, CMD_GET_MAC, CMD_GET_DIAG_INFO, CMD_GET_CAPABILITIES, CMD_WIFI_GET_RSSI,
       CMD_WIFI_GET_IP, CMD_WIFI_STATUS, CMD_WIFI_SCAN_START, CMD_SOCK_OPEN, CMD_SOCK_SEND,
       CMD_SOCK_RECV, CMD_OTA_STATUS, CMD_OTA_UPDATE_MODE, CMD_GPIO_READ, CMD_SPI1_CONFIGURE,
       CMD_SPI1_TRANSFER, CMD_BLE_SCAN_START, CMD_BLE_GATT_READ, CMD_BLE_GATT_REGISTER,
       CMD_DIAG_GET_STATS}"

definition cc3501e_reply_crc_ok :: "bytes \<Rightarrow> bytes option \<Rightarrow> bool" where
  "cc3501e_reply_crc_ok reply_hdr payload =
     (case payload of
        None \<Rightarrow> False
      | Some p \<Rightarrow>
          if length p < CRC_BYTES then False
          else let covered = length p - CRC_BYTES;
                   crc = alp_crc16_ccitt_false (take HEADER_BYTES reply_hdr);
                   crc = alp_crc16_ccitt_false_update crc (take covered p);
                   wire_crc = ucast (p ! covered) OR push_bit 8 (ucast (p ! (covered + 1)))
               in crc = wire_crc)"

definition cc3501e_reply_verdict :: "cc_cmd \<Rightarrow> u8 \<Rightarrow> bytes \<Rightarrow> bytes option \<Rightarrow> alp_status" where
  "cc3501e_reply_verdict cmd fw_proto_major reply_hdr payload =
     (case payload of
        None \<Rightarrow> ALP_ERR_IO
      | Some p \<Rightarrow>
          if length p < 1 then ALP_ERR_IO
          else
            let resp = p ! 0;
                major4_shape = (if fw_proto_major \<ge> PROTOCOL_MAJOR then True
                                else if fw_proto_major = PROTOCOL_MAJOR_LEGACY then False
                                else resp = RESP_OK)
            in if major4_shape \<and> \<not> cc3501e_reply_crc_ok reply_hdr payload then ALP_ERR_IO
               else
                 let all_zero = list_all (\<lambda>b. b = 0) p;
                     dead_phase = (if \<not> cc3501e_reply_carries_data cmd
                                   then all_zero \<and> (cmd = CMD_WIFI_CONNECT_STA \<or> cmd = CMD_WIFI_AP_START)
                                   else all_zero \<and> \<not> cc3501e_reply_may_be_all_zero cmd);
                     status_major = (if major4_shape then PROTOCOL_MAJOR else PROTOCOL_MAJOR_LEGACY)
                 in if dead_phase then ALP_ERR_IO else resp_to_status resp status_major)"

section \<open>Sizes of the inter-phase gates\<close>

definition cc3501e_expected_reply_bytes :: "cc_cmd \<Rightarrow> bytes \<Rightarrow> nat \<Rightarrow> u32" where
  "cc3501e_expected_reply_bytes cmd tx rx_cap =
     (if cmd = CMD_SOCK_RECV \<and> tx \<noteq> [] \<and> length tx = 4
      then let want = (ucast (tx ! 2) OR push_bit 8 (ucast (tx ! 3)) :: u16)
           in if want = 0 then word_of_nat rx_cap else 24 + ucast want
      else if cmd = CMD_SPI1_TRANSFER \<and> tx \<noteq> [] \<and> 8 \<le> length tx
      then if tx ! 2 AND 0x02 \<noteq> 0 then 4
           else 4 + ucast (ucast (tx ! 0) OR push_bit 8 (ucast (tx ! 1)) :: u16)
      else word_of_nat rx_cap)"

definition cc3501e_reply_header_gate_us :: "bool \<Rightarrow> u32 \<Rightarrow> u32" where
  "cc3501e_reply_header_gate_us fw_fast_reply n =
     (let large_bytes = (if fw_fast_reply then 4092 else 2048);
          large_us = (if fw_fast_reply then 450 else 2000)
      in if n \<le> 536 then 200
         else if n \<ge> large_bytes then large_us
         else 200 + ((n - 536) * (large_us - 200)) div (large_bytes - 536))"

definition cc3501e_request_gate_floor_us :: "bool \<Rightarrow> u32 \<Rightarrow> u32" where
  "cc3501e_request_gate_floor_us fw_fast_reply wire_tx_len =
     (if fw_fast_reply then 0
      else let floor_us = 80 + wire_tx_len div 2 in if floor_us < 2000 then floor_us else 2000)"

definition cc3501e_phase_settle :: "bool \<Rightarrow> u32" where
  "cc3501e_phase_settle fw_fast_reply = (if fw_fast_reply then 50 else 250)"

section \<open>What a major-4 reply must be\<close>

lemma length_encode_header [simp]: "length (encode_header cmd flags n) = 4"
  by (simp add: encode_header_def)

lemma trailer_bytes: "ucast x OR push_bit 8 (ucast y) = (push_bit 8 (ucast y) XOR ucast x :: u16)" for x y :: u8
  by (rule bit_word_eqI) (auto simp: bit_simps bit_ucast_iff dest: byte_bit_less)

text \<open>The check in terms of the reference CRC over the covered span.\<close>

lemma reply_crc_ok_iff:
  "cc3501e_reply_crc_ok hdr (Some p) \<longleftrightarrow>
     2 \<le> length p \<and>
     crc16_bitwise 0xFFFF (take 4 hdr @ take (length p - 2) p) =
       push_bit 8 (ucast (p ! (length p - 1))) XOR ucast (p ! (length p - 2))"
proof (cases "2 \<le> length p")
  case True
  hence "length p - 2 + 1 = length p - 1" by simp
  thus ?thesis using True
    by (simp add: cc3501e_reply_crc_ok_def Let_def crc16_update_bitwise alp_crc16_ccitt_false_def
        trailer_bytes crc16_bitwise_append)
qed (simp add: cc3501e_reply_crc_ok_def)

lemma verdict_major4:
  assumes "4 \<le> major"
  shows "cc3501e_reply_verdict cmd major hdr (Some p) =
    (if p = [] \<or> \<not> cc3501e_reply_crc_ok hdr (Some p) then ALP_ERR_IO
     else if list_all (\<lambda>b. b = 0) p \<and>
         (if cc3501e_reply_carries_data cmd then \<not> cc3501e_reply_may_be_all_zero cmd
          else cmd = CMD_WIFI_CONNECT_STA \<or> cmd = CMD_WIFI_AP_START) then ALP_ERR_IO
     else resp_to_status (p ! 0) PROTOCOL_MAJOR)"
proof (cases p)
  case (Cons r q)
  thus ?thesis using assms
    by (cases "cc3501e_reply_carries_data cmd")
      (auto simp: cc3501e_reply_verdict_def Let_def simp del: list.pred_inject)
qed (simp add: cc3501e_reply_verdict_def)

lemma resp_ok_major4: "resp_to_status b PROTOCOL_MAJOR = ALP_OK \<longleftrightarrow> b = RESP_OK"
  by (simp add: resp_to_status_def)

lemma major4_ok_iff:
  assumes "4 \<le> major"
  shows "cc3501e_reply_verdict cmd major hdr (Some p) = ALP_OK \<longleftrightarrow>
    p \<noteq> [] \<and> cc3501e_reply_crc_ok hdr (Some p) \<and> p ! 0 = RESP_OK"
proof -
  have "list_all (\<lambda>b. b = 0) p \<Longrightarrow> p \<noteq> [] \<Longrightarrow> p ! 0 = 0" by (cases p) simp_all
  thus ?thesis by (auto simp: verdict_major4 [OF assms] resp_ok_major4)
qed

lemma crc16_zeros: "crc16_bitwise 0 (replicate n 0) = 0"
  by (induction n) (simp_all add: crc16_bitwise_def crc_byte_def iffD2 [OF crc_adv_eq_0])

lemma split_covered:
  assumes "h @ p = a @ xs @ b" and "2 \<le> length b" and "2 \<le> length p"
  shows "h @ take (length p - 2) p = a @ xs @ take (length b - 2) b"
    and "drop (length p - 2) p = drop (length b - 2) b"
proof -
  have "(h @ take (length p - 2) p) @ drop (length p - 2) p =
      (a @ xs @ take (length b - 2) b) @ drop (length b - 2) b"
    using assms(1) by simp
  hence "h @ take (length p - 2) p = a @ xs @ take (length b - 2) b \<and>
      drop (length p - 2) p = drop (length b - 2) b"
    by (subst (asm) append_eq_append_conv) (use assms(2,3) in simp_all)
  thus "h @ take (length p - 2) p = a @ xs @ take (length b - 2) b"
    and "drop (length p - 2) p = drop (length b - 2) b" by simp_all
qed

lemma last_two:
  assumes "2 \<le> length p" and "drop (length p - 2) p = drop (length q - 2) q" and "2 \<le> length q"
  shows "p ! (length p - 1) = q ! (length q - 1)" and "p ! (length p - 2) = q ! (length q - 2)"
proof -
  have "drop (length p - 2) p ! k = drop (length q - 2) q ! k" for k by (simp add: assms(2))
  hence "p ! (length p - 2 + k) = q ! (length q - 2 + k)" for k using assms(1,3) by simp
  moreover have "length p - 2 + 1 = length p - 1" "length q - 2 + 1 = length q - 1" using assms(1,3) by simp_all
  ultimately show "p ! (length p - 1) = q ! (length q - 1)" and "p ! (length p - 2) = q ! (length q - 2)"
    by (metis, metis add_0_right)
qed


lemma zero_header_crc:
  assumes "crc16_bitwise 0xFFFF hdr = 0" and "length hdr = 4" and "2 \<le> n"
  shows "cc3501e_reply_crc_ok hdr (Some (replicate n 0))"
  using assms by (simp add: reply_crc_ok_iff crc16_bitwise_append crc16_zeros min_def)

text \<open>
  C22. A dead payload phase (all bytes zero) is never a success on a major-4 link,
  for any command, length and header. The CRC check alone does not see to that:
  there are reply headers whose own CRC is zero, and behind such a header the
  all-zero payload carries a correct trailer; it is the status byte that refuses
  it.\<close>

theorem dead_phase_rejected:
  assumes "4 \<le> major"
  shows "cc3501e_reply_verdict cmd major hdr (Some (replicate n 0)) = ALP_ERR_IO \<and>
    cc3501e_reply_crc_ok [0x37, 0x08, 0x00, 0x05] (Some (replicate 1280 0))"
proof
  have "resp_to_status 0 PROTOCOL_MAJOR = ALP_ERR_IO" by (simp add: resp_to_status_def)
  thus "cc3501e_reply_verdict cmd major hdr (Some (replicate n 0)) = ALP_ERR_IO"
    by (cases n) (simp_all add: verdict_major4 [OF assms])
  have "crc16_bitwise 0xFFFF [0x37, 0x08, 0x00, 0x05] = 0" by code_simp
  thus "cc3501e_reply_crc_ok [0x37, 0x08, 0x00, 0x05] (Some (replicate 1280 0))"
    by (rule zero_header_crc) simp_all
qed

theorem dead_phase_rejected_witness:
  "cc3501e_reply_verdict CMD_PING 4 [0x37, 0x08, 0x00, 0x05] (Some (replicate 1280 0)) = ALP_ERR_IO \<and>
   cc3501e_reply_crc_ok [0x37, 0x08, 0x00, 0x05] (Some (replicate 1280 0))"
  by (rule dead_phase_rejected) simp


end
