(* ===== verification/Cc3501e_Link.thy ===== *)
theory Cc3501e_Link
  imports Cc3501e_Wire
begin

text \<open>
  The request/reply exchange of the CC3501E bridge driver
  (\<^verbatim>\<open>chips/cc3501e/cc3501e_core.c\<close>): the driver context and the module's static
  variables as one record, the READY gate with its stuck-low latch, the
  transport lock, the link-failure ring, and the four-phase exchange of one
  request. The SPI bus, the pins, the clock and the delays are the operations of
  a port over an arbitrary world; a millisecond delay may run other threads, so
  it acts on the driver state as well. The contexts and buffers are non-NULL,
  and a receive buffer is given by its capacity (\<open>None\<close> for NULL). A callback and
  its user pointer are identifiers. The transmit
  scratch is only ever written before it is sent, so what is sent stands in its
  place.
\<close>

section \<open>The driver state and its port\<close>

record cc_log_entry =
  cce_ts_ms :: u32
  cce_recover_attempt_count :: u32
  cce_cmd :: u8
  cce_phase :: u8
  cce_status :: alp_status
  cce_flags :: u8
  cce_hdr_bytes :: bytes
  cce_reply_hdr :: bytes

record cc_link =
  cc_initialised :: bool
  cc_fw_proto_major :: u8
  cc_fw_proto_minor :: u8
  cc_fw_fast_reply :: bool
  cc_enable_pin :: bool
  cc_reset_pin :: bool
  cc_ready_pin :: bool
  cc_last_xfer_end_us :: u64
  cc_rx_scratch :: bytes
  cc_wifi_scan_busy :: bool
  cc_ble_scan_busy :: bool
  cc_evt_busy :: bool
  cc_sock_busy :: bool
  cc_req_seq :: u8
  cc_sock_send_seq :: u8
  cc_sock_recv_seq :: u8
  cc_spi1_seq :: u8
  cc_event_subs :: "(nat \<times> nat) option list"
  cc_spi1_busy :: bool
  cc_spi1_configured :: bool
  cc_request_lock :: bool
  cc_recover_count :: u32
  cc_recover_attempt_count :: u32
  cc_last_recover_ms :: u64
  cc_recover_fail_streak :: u8
  cc_recovering :: bool
  cc_link_epoch :: u8
  cc_has_recover_cb :: bool
  cc_ota_session_active :: bool
  cc_link_log_probe_fail_count :: u8
  cc_link_log_recover_streak :: u8
  cc_link_log :: "cc_log_entry list"
  cc_link_log_count :: u8
  cc_link_log_next :: u8
  cc_link_log_suppress :: bool
  cc_link_log_fail_streak :: u32
  cc_link_log_last_probe_word :: u32
  cc_link_log_last_probe_ms :: u32
  g_ready_ignored :: bool
  g_ready_timeout_streak :: u32
  g_ready_stuck_low_threshold :: u32
  g_ready_line_was_stuck :: bool
  g_peer_polled :: bool
  g_attn_desired :: bool

text \<open>A zeroed context at process start, and \<^verbatim>\<open>cc3501e_init\<close>: everything in the
  context is cleared, the pins stay unset, the module statics keep their values.\<close>

definition cc_zero :: cc_link where
  "cc_zero =
     \<lparr>cc_initialised = False, cc_fw_proto_major = 0, cc_fw_proto_minor = 0, cc_fw_fast_reply = False,
      cc_enable_pin = False, cc_reset_pin = False, cc_ready_pin = False, cc_last_xfer_end_us = 0,
      cc_rx_scratch = replicate 4100 0, cc_wifi_scan_busy = False, cc_ble_scan_busy = False,
      cc_evt_busy = False, cc_sock_busy = False, cc_req_seq = 0, cc_sock_send_seq = 0,
      cc_sock_recv_seq = 0, cc_spi1_seq = 0, cc_event_subs = replicate 4 None, cc_spi1_busy = False,
      cc_spi1_configured = False, cc_request_lock = False, cc_recover_count = 0,
      cc_recover_attempt_count = 0, cc_last_recover_ms = 0, cc_recover_fail_streak = 0,
      cc_recovering = False, cc_link_epoch = 0, cc_has_recover_cb = False, cc_ota_session_active = False,
      cc_link_log_probe_fail_count = 0, cc_link_log_recover_streak = 0,
      cc_link_log = replicate 8 \<lparr>cce_ts_ms = 0, cce_recover_attempt_count = 0, cce_cmd = 0, cce_phase = 0,
        cce_status = ALP_OK, cce_flags = 0, cce_hdr_bytes = replicate 4 0, cce_reply_hdr = replicate 4 0\<rparr>,
      cc_link_log_count = 0, cc_link_log_next = 0, cc_link_log_suppress = False,
      cc_link_log_fail_streak = 0, cc_link_log_last_probe_word = 0, cc_link_log_last_probe_ms = 0,
      g_ready_ignored = False, g_ready_timeout_streak = 0, g_ready_stuck_low_threshold = 3,
      g_ready_line_was_stuck = False, g_peer_polled = False, g_attn_desired = False\<rparr>"

definition cc3501e_init :: "bool \<Rightarrow> cc_link \<Rightarrow> alp_status \<times> cc_link" where
  "cc3501e_init has_bus c =
     (if \<not> has_bus then (ALP_ERR_INVAL, c)
      else (ALP_OK, cc_zero\<lparr>cc_initialised := True, g_ready_ignored := g_ready_ignored c,
              g_ready_timeout_streak := g_ready_timeout_streak c,
              g_ready_stuck_low_threshold := g_ready_stuck_low_threshold c,
              g_ready_line_was_stuck := g_ready_line_was_stuck c,
              g_peer_polled := g_peer_polled c, g_attn_desired := g_attn_desired c\<rparr>))"

text \<open>\<open>spi_xfer tx rx\<close> clocks \<open>length tx\<close> bytes; with \<open>rx\<close> it returns the bytes
  received. \<open>auto_recover_on\<close> is the build switch
  \<^verbatim>\<open>CC3501E_AUTO_RECOVER_ON\<close>.\<close>

record 'w cc_port =
  auto_recover_on :: bool
  spi_xfer :: "bytes \<Rightarrow> bool \<Rightarrow> 'w \<Rightarrow> alp_status \<times> bytes \<times> 'w"
  ready_read :: "'w \<Rightarrow> alp_status \<times> bool \<times> 'w"
  reset_write :: "bool \<Rightarrow> 'w \<Rightarrow> 'w"
  enable_write :: "bool \<Rightarrow> 'w \<Rightarrow> 'w"
  delay_us :: "u32 \<Rightarrow> 'w \<Rightarrow> 'w"
  delay_ms :: "u32 \<Rightarrow> cc_link \<times> 'w \<Rightarrow> cc_link \<times> 'w"
  uptime_us :: "'w \<Rightarrow> u64"
  uptime_ms :: "'w \<Rightarrow> u64"
  attn_set_armed :: "bool \<Rightarrow> 'w \<Rightarrow> 'w"
  recover_cb :: "u32 \<Rightarrow> cc_link \<times> 'w \<Rightarrow> cc_link \<times> 'w"

section \<open>The READY gate\<close>

function ready_wait :: "'w cc_port \<Rightarrow> u32 \<Rightarrow> 'w \<Rightarrow> bool \<times> 'w" where
  "ready_wait port waited_us w =
     (case ready_read port w of (s, level, w) \<Rightarrow>
        if s = ALP_OK \<and> level then (True, w)
        else if waited_us \<ge> 250000 then (False, w)
        else ready_wait port (waited_us + 200) (delay_us port 200 w))"
  by pat_completeness auto
termination
proof (relation "measure (\<lambda>(port, waited, w). 250200 - unat waited)", goal_cases)
  case (2 port waited w)
  hence "unat waited < 250000" by (simp add: word_le_nat_alt not_le)
  moreover from this have "unat (waited + 200) = unat waited + 200"
    by (subst unat_plus_simple [THEN iffD1]) (simp_all add: word_le_nat_alt unat_word_ariths)
  ultimately show ?case by simp
qed simp

declare ready_wait.simps [simp del]

definition cc3501e_reply_gate :: "'w cc_port \<Rightarrow> u32 \<Rightarrow> cc_link \<times> 'w \<Rightarrow> cc_link \<times> 'w" where
  "cc3501e_reply_gate port fallback_us = (\<lambda>(c, w).
     let (c, w) =
           (if cc_ready_pin c \<and> g_ready_ignored c then
              (case ready_read port w of (s, level, w) \<Rightarrow>
                 (if s = ALP_OK \<and> level
                  then c\<lparr>g_ready_ignored := False, g_ready_timeout_streak := 0\<rparr> else c, w))
            else if cc_ready_pin c then
              (case ready_wait port 0 w of (saw_high, w) \<Rightarrow>
                 (if saw_high then c\<lparr>g_ready_timeout_streak := 0\<rparr>
                  else let streak = g_ready_timeout_streak c + 1;
                           c = c\<lparr>g_ready_timeout_streak := streak\<rparr>
                       in if streak \<ge> g_ready_stuck_low_threshold c
                          then c\<lparr>g_ready_ignored := True, g_ready_line_was_stuck := True,
                                 g_ready_stuck_low_threshold :=
                                   (if g_ready_stuck_low_threshold c \<le> 12
                                    then g_ready_stuck_low_threshold c * 2 else 24)\<rparr>
                          else c, w))
            else (c, w));
         since = uptime_us port w - cc_last_xfer_end_us c
     in if cc_last_xfer_end_us c = 0 \<or> since < ucast fallback_us
        then (c, delay_us port (if cc_last_xfer_end_us c = 0 then fallback_us
                                else ucast (ucast fallback_us - since :: u64)) w)
        else (c, w))"

section \<open>The link-failure ring\<close>

abbreviation (input) "LINK_LOG_LEN \<equiv> (8 :: nat)"

definition cc3501e_link_log_ready_level :: "'w cc_port \<Rightarrow> cc_link \<times> 'w \<Rightarrow> bool \<times> 'w" where
  "cc3501e_link_log_ready_level port = (\<lambda>(c, w).
     if cc_ready_pin c
     then (case ready_read port w of (s, level, w) \<Rightarrow> (s = ALP_OK \<and> level, w))
     else (False, w))"

text \<open>A header that was not captured is \<open>None\<close>: four zero bytes, flag unset.\<close>

definition cc3501e_link_log_record ::
  "u64 \<Rightarrow> cc_cmd \<Rightarrow> u8 \<Rightarrow> alp_status \<Rightarrow> bytes option \<Rightarrow> bytes option \<Rightarrow> bool \<Rightarrow> cc_link \<Rightarrow> cc_link" where
  "cc3501e_link_log_record now cmd phase status hdr_bytes reply_hdr ready_at_failure c =
     (let e = \<lparr>cce_ts_ms = ucast now,
               cce_recover_attempt_count = cc_recover_attempt_count c,
               cce_cmd = cmd, cce_phase = phase, cce_status = status,
               cce_flags = (if ready_at_failure then 0x01 else 0)
                 OR (if g_ready_line_was_stuck c then 0x04 else 0)
                 OR (if hdr_bytes \<noteq> None then 0x08 else 0)
                 OR (if reply_hdr \<noteq> None then 0x10 else 0),
               cce_hdr_bytes = (case hdr_bytes of None \<Rightarrow> replicate 4 0 | Some b \<Rightarrow> b),
               cce_reply_hdr = (case reply_hdr of None \<Rightarrow> replicate 4 0 | Some b \<Rightarrow> b)\<rparr>
      in c\<lparr>cc_link_log := (cc_link_log c)[unat (cc_link_log_next c) := e],
           cc_link_log_next := (cc_link_log_next c + 1) mod 8,
           cc_link_log_count := (if cc_link_log_count c < 8 then cc_link_log_count c + 1
                                 else cc_link_log_count c)\<rparr>)"

section \<open>The transport lock\<close>

definition cc3501e_lock_try :: "cc_link \<Rightarrow> bool \<times> cc_link" where
  "cc3501e_lock_try c = (if cc_request_lock c then (False, c) else (True, c\<lparr>cc_request_lock := True\<rparr>))"

fun cc3501e_lock_wait :: "'w cc_port \<Rightarrow> nat \<Rightarrow> cc_link \<times> 'w \<Rightarrow> alp_status \<times> cc_link \<times> 'w" where
  "cc3501e_lock_wait port 0 (c, w) = (ALP_ERR_BUSY, c, w)"
| "cc3501e_lock_wait port (Suc n) (c, w) =
     (case delay_ms port 1 (c, w) of (c, w) \<Rightarrow>
        (case cc3501e_lock_try c of (ok, c) \<Rightarrow>
           if ok then (ALP_OK, c, w) else cc3501e_lock_wait port n (c, w)))"

definition cc3501e_lock_acquire :: "'w cc_port \<Rightarrow> cc_link \<times> 'w \<Rightarrow> alp_status \<times> cc_link \<times> 'w" where
  "cc3501e_lock_acquire port = (\<lambda>(c, w).
     let w = attn_set_armed port False w
     in case cc3501e_lock_try c of (ok, c) \<Rightarrow>
          if ok then (ALP_OK, c, w) else cc3501e_lock_wait port 100 (c, w))"

definition cc3501e_lock_release :: "'w cc_port \<Rightarrow> cc_link \<times> 'w \<Rightarrow> cc_link \<times> 'w" where
  "cc3501e_lock_release port = (\<lambda>(c, w).
     (c\<lparr>cc_request_lock := False\<rparr>, if g_attn_desired c then attn_set_armed port True w else w))"

definition cc3501e_attn_arm :: "'w cc_port \<Rightarrow> bool \<Rightarrow> cc_link \<times> 'w \<Rightarrow> cc_link \<times> 'w" where
  "cc3501e_attn_arm port armed = (\<lambda>(c, w). (c\<lparr>g_attn_desired := armed\<rparr>, attn_set_armed port armed w))"

section \<open>The four-phase exchange\<close>

definition link_xfer :: "'w cc_port \<Rightarrow> bytes \<Rightarrow> bool \<Rightarrow> cc_link \<times> 'w \<Rightarrow> alp_status \<times> cc_link \<times> 'w" where
  "link_xfer port tx rx = (\<lambda>(c, w).
     case spi_xfer port tx rx w of (s, got, w) \<Rightarrow>
       (s, c\<lparr>cc_last_xfer_end_us := uptime_us port w,
             cc_rx_scratch := (if rx then mem_write (cc_rx_scratch c) 0 (take (length tx) got)
                               else cc_rx_scratch c)\<rparr>, w))"

text \<open>The \<^verbatim>\<open>out:\<close> label of a failed attempt: no status byte was decoded.\<close>

definition link_fail ::
  "'w cc_port \<Rightarrow> cc_cmd \<Rightarrow> u8 \<Rightarrow> bytes option \<Rightarrow> bytes option \<Rightarrow> alp_status \<Rightarrow> cc_link \<times> 'w \<Rightarrow>
   alp_status \<times> bytes option \<times> cc_link \<times> 'w" where
  "link_fail port cmd phase hdr reply_hdr s = (\<lambda>(c, w).
     let c = c\<lparr>cc_rx_scratch := (cc_rx_scratch c)[0 := RX_SCRATCH_NO_STATUS]\<rparr>
     in if cc_link_log_suppress c
        then (s, None, c\<lparr>cc_link_log_probe_fail_count :=
                 (if cc_link_log_probe_fail_count c < 0xFF then cc_link_log_probe_fail_count c + 1
                  else cc_link_log_probe_fail_count c)\<rparr>, w)
        else case cc3501e_link_log_ready_level port (c, w) of (level, w) \<Rightarrow>
          let c = cc3501e_link_log_record (uptime_ms port w) cmd phase s hdr reply_hdr level c
          in (s, None, c\<lparr>cc_link_log_fail_streak := cc_link_log_fail_streak c + 1\<rparr>, w))"

definition link_read_payload ::
  "'w cc_port \<Rightarrow> cc_cmd \<Rightarrow> nat option \<Rightarrow> bytes \<Rightarrow> bytes \<Rightarrow> u16 \<Rightarrow> cc_link \<times> 'w \<Rightarrow>
   alp_status \<times> bytes option \<times> cc_link \<times> 'w" where
  "link_read_payload port cmd rx_cap hdr reply_hdr resp_payload_len = (\<lambda>(c, w).
     let (c, w) = cc3501e_reply_gate port (cc3501e_phase_settle (cc_fw_fast_reply c)) (c, w);
         (s, c, w) = link_xfer port (replicate (unat resp_payload_len) 0xFF) True (c, w)
     in if s \<noteq> ALP_OK then link_fail port cmd 4 (Some hdr) (Some reply_hdr) s (c, w)
        else
          let payload = mem_read (cc_rx_scratch c) 0 (unat resp_payload_len);
              data_len = unat resp_payload_len - 1;
              rx = (case rx_cap of
                      None \<Rightarrow> None
                    | Some cap \<Rightarrow> if data_len > 0 then Some (take (min data_len cap) (drop 1 payload))
                                 else None)
          in (cc3501e_reply_verdict cmd (cc_fw_proto_major c) reply_hdr (Some payload), rx,
              c\<lparr>cc_link_log_fail_streak := 0\<rparr>, w))"

definition link_reply_gate_us :: "cc_link \<Rightarrow> cc_cmd \<Rightarrow> bytes \<Rightarrow> nat option \<Rightarrow> u32 \<Rightarrow> u32" where
  "link_reply_gate_us c cmd tx rx_cap wire_tx_len =
     (let expected_reply = cc3501e_expected_reply_bytes cmd tx (case rx_cap of None \<Rightarrow> 0 | Some n \<Rightarrow> n);
          gate_bytes = (if expected_reply > wire_tx_len then expected_reply else wire_tx_len);
          size_gate_us = cc3501e_reply_header_gate_us (cc_fw_fast_reply c) gate_bytes;
          req_floor_us = cc3501e_request_gate_floor_us (cc_fw_fast_reply c) wire_tx_len
      in if req_floor_us > size_gate_us then req_floor_us else size_gate_us)"

definition link_read_reply ::
  "'w cc_port \<Rightarrow> cc_cmd \<Rightarrow> bytes \<Rightarrow> nat option \<Rightarrow> u32 \<Rightarrow> bytes \<Rightarrow> cc_link \<times> 'w \<Rightarrow>
   alp_status \<times> bytes option \<times> cc_link \<times> 'w" where
  "link_read_reply port cmd tx rx_cap wire_tx_len hdr = (\<lambda>(c, w).
     let (c, w) = cc3501e_reply_gate port (link_reply_gate_us c cmd tx rx_cap wire_tx_len) (c, w);
         (s, c, w) = link_xfer port (replicate HEADER_BYTES 0xFF) True (c, w)
     in if s \<noteq> ALP_OK then link_fail port cmd 3 (Some hdr) None s (c, w)
        else
          let reply_hdr = mem_read (cc_rx_scratch c) 0 HEADER_BYTES;
              resp_payload_len = decode_header_payload_len (cc_rx_scratch c)
          in if \<not> (cc_rx_scratch c ! 0 = cmd \<and> resp_payload_len \<ge> 1 \<and>
                   unat resp_payload_len \<le> MAX_PAYLOAD)
             then link_fail port cmd 3 (Some hdr) (Some reply_hdr) ALP_ERR_IO (c, w)
             else link_read_payload port cmd rx_cap hdr reply_hdr resp_payload_len (c, w))"

text \<open>What the request-payload phase clocks: on a major-4 link the caller's bytes with
  the CRC of header and payload, folded in two halves around the header.\<close>

definition link_tx_ptr :: "bool \<Rightarrow> bytes \<Rightarrow> bytes \<Rightarrow> bytes" where
  "link_tx_ptr want_req_crc tx_hdr tx =
     (if want_req_crc then
        let crc_done = length tx div 2;
            req_crc = alp_crc16_ccitt_false_update (alp_crc16_ccitt_false tx_hdr) (take crc_done tx);
            crc = alp_crc16_ccitt_false_update req_crc (drop crc_done tx)
        in tx @ [ucast (crc AND 0xFF), ucast (drop_bit 8 crc AND 0xFF)]
      else tx)"

definition link_flags :: "u8 \<Rightarrow> u8" where
  "link_flags req_seq = 0x01 OR push_bit 3 (req_seq AND 0x1F)"

definition link_wire_tx_len :: "bool \<Rightarrow> bytes \<Rightarrow> u16" where
  "link_wire_tx_len want_req_crc tx = word_of_nat (length tx + (if want_req_crc then CRC_BYTES else 0))"

definition cc3501e_request_locked ::
  "'w cc_port \<Rightarrow> cc_cmd \<Rightarrow> bytes \<Rightarrow> nat option \<Rightarrow> u8 \<Rightarrow> cc_link \<times> 'w \<Rightarrow>
   alp_status \<times> bytes option \<times> cc_link \<times> 'w" where
  "cc3501e_request_locked port cmd tx rx_cap req_seq = (\<lambda>(c, w).
     let flags = link_flags req_seq;
         want_req_crc = (cc_fw_proto_major c \<ge> PROTOCOL_MAJOR);
         wire_tx_len = link_wire_tx_len want_req_crc tx;
         tx_hdr = encode_header cmd flags wire_tx_len;
         (c, w) = cc3501e_reply_gate port (cc3501e_phase_settle (cc_fw_fast_reply c)) (c, w);
         (s, c, w) = link_xfer port tx_hdr True (c, w)
     in if s \<noteq> ALP_OK then link_fail port cmd 1 None None s (c, w)
        else
          let hdr = mem_read (cc_rx_scratch c) 0 HEADER_BYTES
          in if hdr \<noteq> replicate HEADER_BYTES SYNC_IDLE
             then link_fail port cmd 1 (Some hdr) None ALP_ERR_IO (c, w)
             else
               let (s, c, w) =
                     (if wire_tx_len > 0
                      then link_xfer port (link_tx_ptr want_req_crc tx_hdr tx) False
                             (cc3501e_reply_gate port (cc3501e_phase_settle (cc_fw_fast_reply c)) (c, w))
                      else (ALP_OK, c, w))
               in if s \<noteq> ALP_OK then link_fail port cmd 2 (Some hdr) None s (c, w)
                  else link_read_reply port cmd tx rx_cap (ucast wire_tx_len) hdr (c, w))"

definition cc3501e_max_tx :: "cc_link \<Rightarrow> nat" where
  "cc3501e_max_tx c = (if cc_fw_proto_major c \<ge> PROTOCOL_MAJOR then MAX_PAYLOAD - CRC_BYTES else MAX_PAYLOAD)"

definition cc3501e_request ::
  "'w cc_port \<Rightarrow> cc_cmd \<Rightarrow> bytes \<Rightarrow> nat option \<Rightarrow> cc_link \<times> 'w \<Rightarrow>
   alp_status \<times> bytes option \<times> cc_link \<times> 'w" where
  "cc3501e_request port cmd tx rx_cap = (\<lambda>(c, w).
     if \<not> cc_initialised c then (ALP_ERR_NOT_READY, None, c, w)
     else if length tx > cc3501e_max_tx c then (ALP_ERR_INVAL, None, c, w)
     else case cc3501e_lock_acquire port (c, w) of (s, st) \<Rightarrow>
       if s \<noteq> ALP_OK then (s, None, st)
       else case cc3501e_request_locked port cmd tx rx_cap 0 st of (s, rx, st) \<Rightarrow>
         (s, rx, cc3501e_lock_release port st))"

section \<open>What a successful request proves\<close>

text \<open>A ghost port that keeps, beside the world, the list of SPI transfers: bytes
  sent, whether a receive side was given, status and bytes received.\<close>

type_synonym xfer_log = "(bytes \<times> bool \<times> alp_status \<times> bytes) list"

definition traced :: "'w cc_port \<Rightarrow> ('w \<times> xfer_log) cc_port" where
  "traced p =
    \<lparr>auto_recover_on = auto_recover_on p,
     spi_xfer = (\<lambda>tx rx (w, l). case spi_xfer p tx rx w of (s, got, w) \<Rightarrow>
       (s, got, w, l @ [(tx, rx, s, got)])),
     ready_read = (\<lambda>(w, l). case ready_read p w of (s, level, w) \<Rightarrow> (s, level, w, l)),
     reset_write = (\<lambda>v (w, l). (reset_write p v w, l)),
     enable_write = (\<lambda>v (w, l). (enable_write p v w, l)),
     delay_us = (\<lambda>us (w, l). (delay_us p us w, l)),
     delay_ms = (\<lambda>ms (c, w, l). case delay_ms p ms (c, w) of (c, w) \<Rightarrow> (c, w, l)),
     uptime_us = (\<lambda>(w, l). uptime_us p w),
     uptime_ms = (\<lambda>(w, l). uptime_ms p w),
     attn_set_armed = (\<lambda>v (w, l). (attn_set_armed p v w, l)),
     recover_cb = (\<lambda>n (c, w, l). case recover_cb p n (c, w) of (c, w) \<Rightarrow> (c, w, l))\<rparr>"

lemma lock_release_log: "cc3501e_lock_release (traced p) (c, w, l) =
    (c\<lparr>cc_request_lock := False\<rparr>, if g_attn_desired c then attn_set_armed p True w else w, l)"
  by (simp add: cc3501e_lock_release_def traced_def)

lemma ready_wait_log: "snd (snd (ready_wait (traced p) us (w, l))) = l"
proof (induction "traced p" us "(w, l)" arbitrary: w rule: ready_wait.induct)
  case (1 us w)
  show ?case
    using 1 by (subst ready_wait.simps) (auto simp: traced_def split: prod.splits)
qed

text \<open>The READY gate clocks nothing and leaves the scratch and the negotiated
  version alone.\<close>

lemma reply_gate_keeps:
  assumes "cc3501e_reply_gate (traced p) us (c, w, l) = (c', w', l')"
  shows "l' = l \<and> cc_rx_scratch c' = cc_rx_scratch c \<and> cc_fw_proto_major c' = cc_fw_proto_major c \<and>
    cc_fw_fast_reply c' = cc_fw_fast_reply c"
proof -
  have "l' = l" if "ready_wait (traced p) 0 (w, l) = (b, w', l')" for b w' l'
    using ready_wait_log [of p 0 w l] that by simp
  thus ?thesis using assms
    by (auto simp: cc3501e_reply_gate_def Let_def traced_def [THEN arg_cong [where f = ready_read]]
        traced_def [THEN arg_cong [where f = delay_us]] split: prod.splits if_splits)
qed

text \<open>A full-duplex transfer that succeeds delivers as many bytes as it clocked.\<close>

definition spi_full :: "'w cc_port \<Rightarrow> bool" where
  "spi_full p \<longleftrightarrow> (\<forall>tx w s got w'. spi_xfer p tx True w = (s, got, w') \<longrightarrow> s = ALP_OK \<longrightarrow> length got = length tx)"

lemma link_xfer_traced:
  assumes "link_xfer (traced p) tx rx (c, w, l) = (s, c', w', l')"
  obtains got where "l' = l @ [(tx, rx, s, got)]"
    and "cc_fw_proto_major c' = cc_fw_proto_major c" and "cc_fw_fast_reply c' = cc_fw_fast_reply c"
    and "spi_full p \<Longrightarrow> s = ALP_OK \<Longrightarrow> rx \<Longrightarrow> length got = length tx \<and> take (length tx) (cc_rx_scratch c') = got"
proof -
  obtain got where x: "spi_xfer p tx rx w = (s, got, w')" and
    c: "c' = c\<lparr>cc_last_xfer_end_us := uptime_us (traced p) (w', l'),
             cc_rx_scratch := (if rx then mem_write (cc_rx_scratch c) 0 (take (length tx) got)
                               else cc_rx_scratch c)\<rparr>" and
    l: "l' = l @ [(tx, rx, s, got)]"
    using assms by (auto simp: link_xfer_def traced_def split: prod.splits)
  have f: "length got = length tx \<and> take (length tx) (cc_rx_scratch c') = got"
    if "spi_full p" "s = ALP_OK" rx
  proof -
    have "spi_xfer p tx True w = (s, got, w')" using that x by simp
    hence "length got = length tx" using that(1,2) unfolding spi_full_def by blast
    thus ?thesis using that by (simp add: c mem_write_def)
  qed
  show thesis by (rule that [OF l _ _ f]) (simp_all add: c)
qed

lemma link_fail_status: "fst (link_fail port cmd phase hdr rh s st) = s"
  by (auto simp: link_fail_def Let_def split: prod.splits)

text \<open>The reply phases: success means the reply header echoed the command, and the
  payload read behind it passed the verdict.\<close>

lemma read_payload_ok:
  assumes "link_read_payload (traced p) cmd cap hdr rh n (c, w, l) = (ALP_OK, rx, c', w', l')"
    and "spi_full p" and "4 \<le> cc_fw_proto_major c"
  obtains pl where "l' = l @ [(replicate (length pl) 0xFF, True, ALP_OK, pl)]" and "length pl = unat n"
    and "cc3501e_reply_crc_ok rh (Some pl)" and "pl ! 0 = RESP_OK"
    and "rx = (case cap of None \<Rightarrow> None | Some k \<Rightarrow> Some (take k (drop 1 pl)))"
proof -
  obtain c3 w3 l3 where g3: "cc3501e_reply_gate (traced p) (cc3501e_phase_settle (cc_fw_fast_reply c)) (c, w, l) = (c3, w3, l3)"
    by (metis prod_cases3)
  obtain s4 c4 w4 l4 where x4: "link_xfer (traced p) (replicate (unat n) 0xFF) True (c3, w3, l3) = (s4, c4, w4, l4)"
    by (metis prod_cases4)
  note run = assms(1) [unfolded link_read_payload_def, simplified Let_def prod.case g3 x4]
  have s4: "s4 = ALP_OK"
    using run link_fail_status [of "traced p" cmd 4 "Some hdr" "Some rh" s4 "(c4, w4, l4)"] by (auto split: if_splits)
  note k3 = reply_gate_keeps [OF g3]
  obtain pl where x: "l4 = l3 @ [(replicate (unat n) 0xFF, True, s4, pl)]" "length pl = unat n"
      "take (unat n) (cc_rx_scratch c4) = pl" "cc_fw_proto_major c4 = cc_fw_proto_major c3"
    using link_xfer_traced [OF x4] assms(2) s4 by (metis length_replicate)
  have pl: "mem_read (cc_rx_scratch c4) 0 (unat n) = pl" using x(3) by (simp add: mem_read_def)
  let ?pl = "mem_read (cc_rx_scratch c4) 0 (unat n)"
  have "cc3501e_reply_verdict cmd (cc_fw_proto_major c4) rh (Some ?pl) = ALP_OK" and
    "rx = (case cap of None \<Rightarrow> None
        | Some k \<Rightarrow> if unat n - 1 > 0 then Some (take (min (unat n - 1) k) (drop 1 ?pl)) else None)" and
    l': "l' = l4"
    using run s4 by simp_all
  note v = this(1) [unfolded pl] and rx = this(2) [unfolded pl]
  have "4 \<le> cc_fw_proto_major c4" using assms(3) k3 x(4) by simp
  with v have crc: "cc3501e_reply_crc_ok rh (Some pl)" "pl ! 0 = RESP_OK" by (simp_all add: major4_ok_iff)
  hence "2 \<le> unat n" using x(2) by (simp add: reply_crc_ok_iff)
  moreover have "take (min (unat n - 1) k) (drop 1 pl) = take k (drop 1 pl)" for k
    using x(2) by (simp add: min_def)
  ultimately have "rx = (case cap of None \<Rightarrow> None | Some k \<Rightarrow> Some (take k (drop 1 pl)))"
    using rx by (cases cap) simp_all
  thus thesis using that [of pl] l' x k3 s4 crc by simp
qed

lemma read_reply_ok:
  assumes "link_read_reply (traced p) cmd tx cap n hdr (c, w, l) = (ALP_OK, rx, c', w', l')"
    and "spi_full p" and "4 \<le> cc_fw_proto_major c"
  obtains rh pl where "l' = l @ [(replicate 4 0xFF, True, ALP_OK, rh), (replicate (length pl) 0xFF, True, ALP_OK, pl)]"
    and "length rh = 4" and "rh ! 0 = cmd" and "length pl = unat (decode_header_payload_len rh)"
    and "cc3501e_reply_crc_ok rh (Some pl)" and "pl ! 0 = RESP_OK"
    and "rx = (case cap of None \<Rightarrow> None | Some k \<Rightarrow> Some (take k (drop 1 pl)))"
proof -
  obtain c1 w1 l1 where g1: "cc3501e_reply_gate (traced p) (link_reply_gate_us c cmd tx cap n) (c, w, l) = (c1, w1, l1)"
    by (metis prod_cases3)
  obtain s2 c2 w2 l2 where x2: "link_xfer (traced p) (replicate 4 0xFF) True (c1, w1, l1) = (s2, c2, w2, l2)"
    by (metis prod_cases4)
  note run = assms(1) [unfolded link_read_reply_def, simplified Let_def prod.case g1 x2]
  have s2: "s2 = ALP_OK"
    using run link_fail_status [of "traced p" cmd 3 "Some hdr" None s2 "(c2, w2, l2)"] by (auto split: if_splits)
  let ?n = "decode_header_payload_len (cc_rx_scratch c2)"
  let ?rh = "mem_read (cc_rx_scratch c2) 0 4"
  have ok: "cc_rx_scratch c2 ! 0 = cmd \<and> ?n \<ge> 1 \<and> unat ?n \<le> 4096"
    using run s2 link_fail_status [of "traced p" cmd 3 "Some hdr" "Some ?rh" ALP_ERR_IO "(c2, w2, l2)"]
    by (auto split: if_splits)
  have run2: "link_read_payload (traced p) cmd cap hdr ?rh ?n (c2, w2, l2) = (ALP_OK, rx, c', w', l')"
    using run s2 ok by simp
  note k1 = reply_gate_keeps [OF g1]
  obtain rh where x: "l2 = l1 @ [(replicate 4 0xFF, True, s2, rh)]" "length rh = 4"
      "take 4 (cc_rx_scratch c2) = rh" "cc_fw_proto_major c2 = cc_fw_proto_major c1"
    using link_xfer_traced [OF x2] assms(2) s2 by (metis length_replicate)
  have m: "4 \<le> cc_fw_proto_major c2" using assms(3) k1 x(4) by simp
  have idx: "cc_rx_scratch c2 ! k = rh ! k" if "k < 4" for k
    using that x(3) by (metis nth_take)
  have rh: "?rh = rh" "decode_header_payload_len rh = ?n" "rh ! 0 = cmd"
    using x(3) ok idx by (simp_all add: mem_read_def decode_header_payload_len_def)
  show thesis
    by (rule read_payload_ok [OF run2 assms(2) m]) (rule that [of rh], use x k1 s2 rh in simp_all)
qed

lemma register_bytes:
  "(ucast (ucast (c AND 0xFF) :: u8) :: u16) = take_bit 8 c"
  "(ucast (ucast (drop_bit 8 c AND 0xFF) :: u8) :: u16) = drop_bit 8 c" for c :: u16
proof -
  have m: "x AND 0xFF = take_bit 8 x" for x :: u16 by (simp add: take_bit_eq_mask mask_eq_exp_minus_1)
  show "(ucast (ucast (c AND 0xFF) :: u8) :: u16) = take_bit 8 c"
    unfolding m by (rule bit_word_eqI) (auto simp: bit_simps bit_ucast_iff)
  show "(ucast (ucast (drop_bit 8 c AND 0xFF) :: u8) :: u16) = drop_bit 8 c"
    unfolding m by (rule bit_word_eqI) (auto simp: bit_simps bit_ucast_iff dest: register_bit_less)
qed

lemma request_trailer:
  assumes "length h = 4" and "c = crc16_bitwise 0xFFFF (h @ tx)"
  shows "cc3501e_reply_crc_ok h (Some (tx @ [ucast (c AND 0xFF), ucast (drop_bit 8 c AND 0xFF)]))"
proof -
  have "push_bit 8 (drop_bit 8 c) XOR take_bit 8 c = c"
    by (rule bit_word_eqI) (auto simp: bit_simps)
  moreover have "cc3501e_reply_crc_ok h (Some (tx @ [x, y])) \<longleftrightarrow>
      crc16_bitwise 0xFFFF (h @ tx) = push_bit 8 (ucast y) XOR ucast x" for x y
    using assms(1) by (simp add: reply_crc_ok_iff nth_append)
  moreover have "take_bit 8 (drop_bit 8 c) = drop_bit 8 c"
    by (rule bit_word_eqI) (auto simp: bit_simps dest: register_bit_less)
  ultimately show ?thesis by (simp add: register_bytes flip: assms(2))
qed

lemma halfword_small: "n < 65536 \<Longrightarrow> unat (word_of_nat n :: u16) = n"
  by (simp add: unat_of_nat)

text \<open>The four transfers of one successful exchange.\<close>

definition authentic_exchange ::
  "cc_cmd \<Rightarrow> bytes \<Rightarrow> nat option \<Rightarrow> u8 \<Rightarrow> bytes option \<Rightarrow> xfer_log \<Rightarrow> bool" where
  "authentic_exchange cmd tx cap flags rx l \<longleftrightarrow>
    (\<exists>trailer g rh pl. let h = encode_header cmd flags (word_of_nat (length tx + 2)) in
      l = [(h, True, ALP_OK, replicate 4 SYNC_IDLE), (tx @ trailer, False, ALP_OK, g),
           (replicate 4 0xFF, True, ALP_OK, rh), (replicate (length pl) 0xFF, True, ALP_OK, pl)] \<and>
      length trailer = 2 \<and> cc3501e_reply_crc_ok h (Some (tx @ trailer)) \<and>
      length rh = 4 \<and> rh ! 0 = cmd \<and> length pl = unat (decode_header_payload_len rh) \<and>
      cc3501e_reply_crc_ok rh (Some pl) \<and> pl ! 0 = RESP_OK \<and>
      rx = (case cap of None \<Rightarrow> None | Some k \<Rightarrow> Some (take k (drop 1 pl))))"

lemma link_tx_ptr_crc:
  "link_tx_ptr True h tx = tx @ [ucast (c AND 0xFF), ucast (drop_bit 8 c AND 0xFF)]"
  if "c = crc16_bitwise 0xFFFF (h @ tx)"
  by (simp add: that link_tx_ptr_def Let_def crc16_update_bitwise alp_crc16_ccitt_false_def
      flip: crc16_bitwise_append)

lemma request_locked_ok:
  assumes "cc3501e_request_locked (traced p) cmd tx cap seq (c, w, []) = (ALP_OK, rx, c', w', l)"
    and "spi_full p" and "4 \<le> cc_fw_proto_major c" and "length tx \<le> 4094"
  shows "authentic_exchange cmd tx cap (link_flags seq) rx l"
proof -
  let ?n = "link_wire_tx_len True tx"
  let ?h = "encode_header cmd (link_flags seq) ?n"
  let ?crc = "crc16_bitwise 0xFFFF (?h @ tx)"
  let ?t = "[ucast (?crc AND 0xFF), ucast (drop_bit 8 ?crc AND 0xFF)]"
  have "unat ?n = length tx + 2"
    unfolding link_wire_tx_len_def if_True by (rule halfword_small) (use assms(4) in simp)
  hence wire: "?n > 0" by (simp add: word_less_nat_alt)
  have crc: "link_tx_ptr True ?h tx = tx @ ?t" by (rule link_tx_ptr_crc) simp
  obtain c1 w1 l1 where g1: "cc3501e_reply_gate (traced p) (cc3501e_phase_settle (cc_fw_fast_reply c)) (c, w, []) = (c1, w1, l1)"
    by (metis prod_cases3)
  obtain s2 c2 w2 l2 where x2: "link_xfer (traced p) ?h True (c1, w1, l1) = (s2, c2, w2, l2)"
    by (metis prod_cases4)
  let ?hb = "mem_read (cc_rx_scratch c2) 0 4"
  obtain c3 w3 l3 where g3: "cc3501e_reply_gate (traced p) (cc3501e_phase_settle (cc_fw_fast_reply c2)) (c2, w2, l2) = (c3, w3, l3)"
    by (metis prod_cases3)
  obtain s4 c4 w4 l4 where x4: "link_xfer (traced p) (tx @ ?t) False (c3, w3, l3) = (s4, c4, w4, l4)"
    by (metis prod_cases4)
  have major: "(4 \<le> cc_fw_proto_major c) = True" using assms(3) by simp
  have run: "(if s2 \<noteq> ALP_OK then link_fail (traced p) cmd 1 None None s2 (c2, w2, l2)
      else if ?hb \<noteq> replicate 4 SYNC_IDLE then link_fail (traced p) cmd 1 (Some ?hb) None ALP_ERR_IO (c2, w2, l2)
      else if s4 \<noteq> ALP_OK then link_fail (traced p) cmd 2 (Some ?hb) None s4 (c4, w4, l4)
      else link_read_reply (traced p) cmd tx cap (ucast ?n) ?hb (c4, w4, l4)) = (ALP_OK, rx, c', w', l)"
    using assms(1) [unfolded cc3501e_request_locked_def, simplified Let_def prod.case major g1 x2]
    by (simp add: crc wire g3 x4 split: if_splits)
  have s: "s2 = ALP_OK" "?hb = replicate 4 SYNC_IDLE" "s4 = ALP_OK" and
    run3: "link_read_reply (traced p) cmd tx cap (ucast ?n) ?hb (c4, w4, l4) = (ALP_OK, rx, c', w', l)"
    using run link_fail_status [of "traced p" cmd] by (auto split: if_splits dest!: arg_cong [where f = fst])
  obtain b where x2': "l2 = l1 @ [(?h, True, s2, b)]" "take 4 (cc_rx_scratch c2) = b"
      "cc_fw_proto_major c2 = cc_fw_proto_major c1"
    using link_xfer_traced [OF x2] assms(2) s(1) by (metis length_encode_header)
  obtain g where x4': "l4 = l3 @ [(tx @ ?t, False, s4, g)]" "cc_fw_proto_major c4 = cc_fw_proto_major c3"
    using link_xfer_traced [OF x4] by metis
  note k1 = reply_gate_keeps [OF g1] and k3 = reply_gate_keeps [OF g3]
  have m: "4 \<le> cc_fw_proto_major c4" using assms(3) k1 k3 x2'(3) x4'(2) by simp
  obtain rh pl where r: "l = l4 @ [(replicate 4 0xFF, True, ALP_OK, rh), (replicate (length pl) 0xFF, True, ALP_OK, pl)]"
      "length rh = 4" "rh ! 0 = cmd" "length pl = unat (decode_header_payload_len rh)"
      "cc3501e_reply_crc_ok rh (Some pl)" "pl ! 0 = RESP_OK"
      "rx = (case cap of None \<Rightarrow> None | Some k \<Rightarrow> Some (take k (drop 1 pl)))"
    using read_reply_ok [OF run3 assms(2) m] by metis
  have "b = replicate 4 SYNC_IDLE" using s(2) x2'(2) by (simp add: mem_read_def)
  hence log: "l = [(?h, True, ALP_OK, replicate 4 SYNC_IDLE), (tx @ ?t, False, ALP_OK, g),
         (replicate 4 0xFF, True, ALP_OK, rh), (replicate (length pl) 0xFF, True, ALP_OK, pl)]"
    using r(1) x2'(1) x4'(1) k1 k3 s by simp
  have tr: "cc3501e_reply_crc_ok ?h (Some (tx @ ?t))" by (rule request_trailer) simp_all
  show ?thesis
    unfolding authentic_exchange_def Let_def
    by (rule exI [of _ ?t], rule exI [of _ g], rule exI [of _ rh], rule exI [of _ pl])
      (use log tr r in \<open>simp add: link_wire_tx_len_def\<close>)
qed

text \<open>
  C4. A request over a major-4 link that returns \<open>ALP_OK\<close> made exactly four transfers:
  a header that drew the slave's idle marker, the caller's payload with the CRC
  of header and payload behind it (a frame that passes the receiver's own
  check), a reply header echoing the command, and a reply payload of the
  declared length whose CRC matches and whose status byte is \<open>0x5A\<close>; and what the
  caller reads is the data of that very frame, cut to its buffer.\<close>

theorem request_ok_authentic:
  assumes "cc3501e_request (traced p) cmd tx cap (c, w, []) = (ALP_OK, rx, c', w', l)"
    and "spi_full p" and "4 \<le> cc_fw_proto_major c" and "\<not> cc_request_lock c"
  shows "authentic_exchange cmd tx cap 0x01 rx l"
proof -
  let ?c = "c\<lparr>cc_request_lock := True\<rparr>" and ?w = "attn_set_armed p False w"
  have lock: "cc3501e_lock_acquire (traced p) (c, w, []) = (ALP_OK, ?c, ?w, [])"
    using assms(4) by (simp add: cc3501e_lock_acquire_def cc3501e_lock_try_def traced_def)
  obtain s0 rx0 c0 w0 l0 where rl: "cc3501e_request_locked (traced p) cmd tx cap 0 (?c, ?w, []) = (s0, rx0, c0, w0, l0)"
    by (metis prod_cases5)
  have "length tx \<le> 4094" and "s0 = ALP_OK" "rx0 = rx" "l0 = l"
    using assms(1,3)
    by (auto simp: cc3501e_request_def lock rl cc3501e_max_tx_def lock_release_log split: if_splits)
  thus ?thesis using request_locked_ok [of p cmd tx cap 0 ?c ?w rx c0 w0 l] rl assms(2,3) by (simp add: link_flags_def)
qed

text \<open>A bus that plays back a script, one entry per received phase.\<close>

fun replay_xfer :: "bytes \<Rightarrow> bool \<Rightarrow> bytes list \<Rightarrow> alp_status \<times> bytes \<times> bytes list" where
  "replay_xfer tx False rs = (ALP_OK, [], rs)"
| "replay_xfer tx True [] = (ALP_ERR_IO, [], [])"
| "replay_xfer tx True (r # rs) = (ALP_OK, take (length tx) (r @ replicate (length tx) 0), rs)"

definition replay_port :: "bytes list cc_port" where
  "replay_port =
    \<lparr>auto_recover_on = True, spi_xfer = replay_xfer, ready_read = (\<lambda>w. (ALP_OK, True, w)), reset_write = (\<lambda>v w. w),
     enable_write = (\<lambda>v w. w), delay_us = (\<lambda>us w. w), delay_ms = (\<lambda>ms st. st), uptime_us = (\<lambda>w. 1),
     uptime_ms = (\<lambda>w. 0), attn_set_armed = (\<lambda>v w. w), recover_cb = (\<lambda>n st. st)\<rparr>"

lemma replay_full: "spi_full replay_port"
  unfolding spi_full_def replay_port_def
  by (auto elim!: replay_xfer.elims)

theorem request_ok_authentic_witness:
  "\<exists>l. authentic_exchange CMD_GET_VERSION [] (Some 2) 0x01 (Some [0x00, 0x04]) l"
proof -
  let ?c = "cc_zero\<lparr>cc_initialised := True, cc_fw_proto_major := 4, cc_rx_scratch := []\<rparr>"
  let ?w = "[[0xA5, 0xA5, 0xA5, 0xA5], [0x01, 0x00, 0x08, 0x00], [0x5A, 0x00, 0x04, 0, 0, 0, 0xc1, 0xac]]"
  have "fst (cc3501e_request (traced replay_port) CMD_GET_VERSION [] (Some 2) (?c, ?w, [])) = ALP_OK \<and>
      fst (snd (cc3501e_request (traced replay_port) CMD_GET_VERSION [] (Some 2) (?c, ?w, []))) = Some [0x00, 0x04]"
    by code_simp
  then obtain c' w' l where
    "cc3501e_request (traced replay_port) CMD_GET_VERSION [] (Some 2) (?c, ?w, []) = (ALP_OK, Some [0x00, 0x04], c', w', l)"
    by (metis prod.collapse)
  from request_ok_authentic [OF this replay_full] show ?thesis by (auto simp: cc_zero_def)
qed

end
