(* ===== verification/Cc3501e_Recover.thy ===== *)
theory Cc3501e_Recover
  imports Cc3501e_Link
begin

text \<open>
  The rest of the CC3501E core driver on top of the exchange
  (\<^verbatim>\<open>chips/cc3501e/cc3501e_core.c\<close>, \<^verbatim>\<open>chips/cc3501e/cc3501e_diag.c\<close>): the
  single-shot helpers, the warm and the cold reset with the version gate, the
  link probe and the recovery it may start, and the poll-by-repeat loop every
  worker-routed operation runs. The loop waits for a clock it does not own, so
  it is a partial function; the poll gaps and the post-success guard have their
  default values (1 ms doubling to 50 ms, and none).
\<close>

type_synonym 'w cc_st = "cc_link \<times> 'w"

section \<open>Small helpers of the state\<close>

definition on_ctx :: "(cc_link \<Rightarrow> cc_link) \<Rightarrow> 'w cc_st \<Rightarrow> 'w cc_st" where
  "on_ctx f = (\<lambda>(c, w). (f c, w))"

definition on_world :: "('w \<Rightarrow> 'w) \<Rightarrow> 'w cc_st \<Rightarrow> 'w cc_st" where
  "on_world f = (\<lambda>(c, w). (c, f w))"

section \<open>Link-log readers\<close>

definition with_lock :: "'w cc_port \<Rightarrow> (alp_status \<Rightarrow> 'r) \<Rightarrow> (cc_link \<Rightarrow> 'r) \<Rightarrow> 'w cc_st \<Rightarrow> 'r \<times> 'w cc_st" where
  "with_lock port busy f st =
     (case cc3501e_lock_acquire port st of (s, st) \<Rightarrow>
        if s \<noteq> ALP_OK then (busy s, st)
        else (f (fst st), cc3501e_lock_release port st))"

definition cc3501e_link_log_count :: "'w cc_port \<Rightarrow> 'w cc_st \<Rightarrow> u8 \<times> 'w cc_st" where
  "cc3501e_link_log_count port = with_lock port (\<lambda>_. 0) cc_link_log_count"

definition cc3501e_link_log_get ::
  "'w cc_port \<Rightarrow> u8 \<Rightarrow> 'w cc_st \<Rightarrow> (alp_status \<times> cc_log_entry option) \<times> 'w cc_st" where
  "cc3501e_link_log_get port idx = with_lock port (\<lambda>s. (s, None)) (\<lambda>c.
     if idx \<ge> cc_link_log_count c then (ALP_ERR_INVAL, None)
     else let oldest = (if cc_link_log_count c < 8 then 0 else cc_link_log_next c)
          in (ALP_OK, Some (cc_link_log c ! ((unat oldest + unat idx) mod 8))))"

definition cc3501e_link_log_fail_streak :: "'w cc_port \<Rightarrow> 'w cc_st \<Rightarrow> u32 \<times> 'w cc_st" where
  "cc3501e_link_log_fail_streak port = with_lock port (\<lambda>_. 0) cc_link_log_fail_streak"

definition cc3501e_link_log_recover_streak :: "'w cc_port \<Rightarrow> 'w cc_st \<Rightarrow> u8 \<times> 'w cc_st" where
  "cc3501e_link_log_recover_streak port = with_lock port (\<lambda>_. 0) cc_link_log_recover_streak"

definition cc3501e_link_log_probe_fail_count :: "'w cc_port \<Rightarrow> 'w cc_st \<Rightarrow> u8 \<times> 'w cc_st" where
  "cc3501e_link_log_probe_fail_count port = with_lock port (\<lambda>_. 0) cc_link_log_probe_fail_count"

section \<open>Single-shot helpers\<close>

definition cc3501e_ping :: "'w cc_port \<Rightarrow> 'w cc_st \<Rightarrow> alp_status \<times> 'w cc_st" where
  "cc3501e_ping port st = (case cc3501e_request port CMD_PING [] None st of (s, rx, st) \<Rightarrow> (s, st))"

definition cc3501e_soft_reset :: "'w cc_port \<Rightarrow> 'w cc_st \<Rightarrow> alp_status \<times> 'w cc_st" where
  "cc3501e_soft_reset port st = (case cc3501e_request port 0x02 [] None st of (s, rx, st) \<Rightarrow> (s, st))"

text \<open>What a caller's zeroed reply buffer holds after a reply of at most its size.\<close>

definition rx_len :: "bytes option \<Rightarrow> nat" where
  "rx_len rx = (case rx of None \<Rightarrow> 0 | Some d \<Rightarrow> length d)"

definition rx_byte :: "bytes option \<Rightarrow> nat \<Rightarrow> u8" where
  "rx_byte rx i = (case rx of None \<Rightarrow> 0 | Some d \<Rightarrow> if i < length d then d ! i else 0)"

definition rx_le16 :: "bytes option \<Rightarrow> nat \<Rightarrow> u16" where
  "rx_le16 rx i = ucast (rx_byte rx i) OR push_bit 8 (ucast (rx_byte rx (i + 1)))"

definition rx_le32 :: "bytes option \<Rightarrow> nat \<Rightarrow> u32" where
  "rx_le32 rx i = ucast (rx_byte rx i) OR push_bit 8 (ucast (rx_byte rx (i + 1)))
     OR push_bit 16 (ucast (rx_byte rx (i + 2))) OR push_bit 24 (ucast (rx_byte rx (i + 3)))"

definition cc3501e_get_version :: "'w cc_port \<Rightarrow> 'w cc_st \<Rightarrow> (alp_status \<times> u16 option) \<times> 'w cc_st" where
  "cc3501e_get_version port st =
     (case cc3501e_request port CMD_GET_VERSION [] (Some 2) st of (s, rx, st) \<Rightarrow>
        if s \<noteq> ALP_OK then ((s, None), st)
        else if rx_len rx < 2 then ((ALP_ERR_IO, None), st)
        else ((ALP_OK, Some (rx_le16 rx 0)), st))"

definition cc3501e_get_capabilities :: "'w cc_port \<Rightarrow> 'w cc_st \<Rightarrow> (alp_status \<times> u32) \<times> 'w cc_st" where
  "cc3501e_get_capabilities port st =
     (case cc3501e_request port CMD_GET_CAPABILITIES [] (Some 8) st of (s, rx, st) \<Rightarrow>
        if s \<noteq> ALP_OK then ((s, 0), st)
        else if rx_len rx < 4 then ((ALP_ERR_IO, 0), st)
        else ((ALP_OK, rx_le32 rx 0), st))"

definition cc3501e_stream_write :: "'w cc_port \<Rightarrow> bytes option \<Rightarrow> nat \<Rightarrow> 'w cc_st \<Rightarrow> alp_status \<times> 'w cc_st" where
  "cc3501e_stream_write port data len st =
     (if data = None \<and> len > 0 then (ALP_ERR_INVAL, st)
      else if len > MAX_PAYLOAD - HEADER_BYTES then (ALP_ERR_INVAL, st)
      else case cc3501e_request port 0x45 (case data of None \<Rightarrow> [] | Some d \<Rightarrow> take len d) None st of
             (s, rx, st) \<Rightarrow> (s, st))"

record cc_diag_info =
  di_fw_version :: u16
  di_reset_cause :: u8
  di_role :: u8
  di_uptime_ms :: u32
  di_free_heap_bytes :: u32
  di_last_error :: u8
  di_reserved :: bytes
  di_dhcp_state :: u8
  di_netif_status :: u8

definition cc3501e_diag_info :: "'w cc_port \<Rightarrow> 'w cc_st \<Rightarrow> (alp_status \<times> cc_diag_info option) \<times> 'w cc_st" where
  "cc3501e_diag_info port st =
     (case cc3501e_request port CMD_GET_DIAG_INFO [] (Some 18) st of (s, rx, st) \<Rightarrow>
        if s \<noteq> ALP_OK then ((s, None), st)
        else if rx_len rx < 16 then ((ALP_ERR_IO, None), st)
        else let info = \<lparr>di_fw_version = rx_le16 rx 0, di_reset_cause = rx_byte rx 2, di_role = rx_byte rx 3,
                         di_uptime_ms = rx_le32 rx 4, di_free_heap_bytes = rx_le32 rx 8,
                         di_last_error = rx_byte rx 12,
                         di_reserved = [rx_byte rx 13, rx_byte rx 14, rx_byte rx 15],
                         di_dhcp_state = rx_byte rx 16, di_netif_status = rx_byte rx 17\<rparr>
             in ((ALP_OK, Some info),
                 on_ctx (\<lambda>c. c\<lparr>cc_link_log_last_probe_word := di_free_heap_bytes info,
                               cc_link_log_last_probe_ms := ucast (uptime_ms port (snd st))\<rparr>) st))"

record cc_diag_stats =
  ds_frames_ok :: u32
  ds_frames_err :: u32
  ds_has_worker_counters :: bool
  ds_worker_execs :: u32
  ds_retry_latch_hits :: u32

definition cc3501e_diag_stats :: "'w cc_port \<Rightarrow> 'w cc_st \<Rightarrow> (alp_status \<times> cc_diag_stats option) \<times> 'w cc_st" where
  "cc3501e_diag_stats port st =
     (case cc3501e_request port CMD_DIAG_GET_STATS [] (Some 16) st of (s, rx, st) \<Rightarrow>
        if s \<noteq> ALP_OK then ((s, None), st)
        else if rx_len rx < 8 then ((ALP_ERR_IO, None), st)
        else let more = (rx_len rx \<ge> 16)
             in ((ALP_OK, Some \<lparr>ds_frames_ok = rx_le32 rx 0, ds_frames_err = rx_le32 rx 4,
                   ds_has_worker_counters = more,
                   ds_worker_execs = (if more then rx_le32 rx 8 else 0),
                   ds_retry_latch_hits = (if more then rx_le32 rx 12 else 0)\<rparr>), st))"

definition cc3501e_diag_log_level :: "'w cc_port \<Rightarrow> u8 \<Rightarrow> 'w cc_st \<Rightarrow> alp_status \<times> 'w cc_st" where
  "cc3501e_diag_log_level port level st =
     (case cc3501e_request port 0x71 [level] None st of (s, rx, st) \<Rightarrow> (s, st))"

section \<open>Resets and the version gate\<close>

definition cc3501e_power_off :: "'w cc_port \<Rightarrow> 'w cc_st \<Rightarrow> alp_status \<times> 'w cc_st" where
  "cc3501e_power_off port st =
     (if \<not> cc_enable_pin (fst st) then (ALP_ERR_NOT_PRESENT_ON_THIS_SOC, st)
      else (ALP_OK,
            on_ctx (\<lambda>c. c\<lparr>cc_initialised := False\<rparr>)
              (on_world (enable_write port False)
                (if cc_reset_pin (fst st) then on_world (reset_write port False) st else st))))"

definition cc3501e_hard_reset :: "'w cc_port \<Rightarrow> 'w cc_st \<Rightarrow> alp_status \<times> 'w cc_st" where
  "cc3501e_hard_reset port st =
     (if \<not> cc_reset_pin (fst st) then (ALP_ERR_NOSUPPORT, st)
      else let st = on_ctx (\<lambda>c. c\<lparr>cc_ota_session_active := False\<rparr>) st;
               st = on_world (reset_write port False) st;
               st = delay_ms port 50 st;
               st = on_world (reset_write port True) st;
               st = delay_ms port 3500 st
           in (ALP_OK, st))"

fun reset_get_version :: "'w cc_port \<Rightarrow> nat \<Rightarrow> 'w cc_st \<Rightarrow> (alp_status \<times> u16 option) \<times> 'w cc_st" where
  "reset_get_version port 0 st = cc3501e_get_version port st"
| "reset_get_version port (Suc n) st =
     (case cc3501e_get_version port st of ((vs, v), st) \<Rightarrow>
        if vs = ALP_OK then ((vs, v), st)
        else reset_get_version port n (delay_ms port 200 st))"

definition cc3501e_reset :: "'w cc_port \<Rightarrow> 'w cc_st \<Rightarrow> alp_status \<times> 'w cc_st" where
  "cc3501e_reset port st =
     (if \<not> cc_reset_pin (fst st) \<or> \<not> cc_enable_pin (fst st) then (ALP_ERR_NOSUPPORT, st)
      else
        let st = on_ctx (\<lambda>c. c\<lparr>cc_ota_session_active := False\<rparr>) st;
            st = on_world (enable_write port False) (on_world (reset_write port False) st);
            st = delay_ms port 50 st;
            st = delay_ms port 100 (on_world (enable_write port True) st);
            st = delay_ms port 1 (on_world (reset_write port False) st);
            st = delay_ms port 1500 (on_world (reset_write port True) st)
        in case cc3501e_hard_reset port st of (s, st) \<Rightarrow>
          if s \<noteq> ALP_OK then (s, st)
          else
            let prior_major = cc_fw_proto_major (fst st);
                prior_minor = cc_fw_proto_minor (fst st);
                st = on_ctx (\<lambda>c. c\<lparr>cc_initialised := True, cc_fw_proto_major := 0, cc_fw_proto_minor := 0,
                                 cc_fw_fast_reply := False\<rparr>) st
            in case reset_get_version port 2 st of ((vs, version), st) \<Rightarrow>
              if vs \<noteq> ALP_OK then
                (if prior_major = 0
                 then (ALP_ERR_TIMEOUT, on_ctx (\<lambda>c. c\<lparr>cc_initialised := False\<rparr>) st)
                 else (ALP_OK, on_ctx (\<lambda>c. c\<lparr>cc_fw_proto_major := prior_major,
                                           cc_fw_proto_minor := prior_minor\<rparr>) st))
              else
                let fw_version = (case version of None \<Rightarrow> 0 | Some v \<Rightarrow> v);
                    fw_major = (ucast (drop_bit 8 fw_version) :: u8);
                    fw_minor = (ucast fw_version :: u8)
                in if \<not> cc3501e_fw_major_is_acceptable fw_major
                   then (ALP_ERR_VERSION, on_ctx (\<lambda>c. c\<lparr>cc_initialised := False, cc_fw_proto_major := fw_major,
                                                      cc_fw_proto_minor := fw_minor\<rparr>) st)
                   else
                     let st = on_ctx (\<lambda>c. c\<lparr>cc_fw_proto_major := fw_major, cc_fw_proto_minor := fw_minor\<rparr>) st
                     in case cc3501e_get_capabilities port st of ((cs, caps), st) \<Rightarrow>
                       (ALP_OK, if cs = ALP_OK \<and> caps AND 0x1000 \<noteq> 0
                                then on_ctx (\<lambda>c. c\<lparr>cc_fw_fast_reply := True\<rparr>) st else st))"

section \<open>Recovery\<close>

definition cc3501e_recover_clear_stale_state :: "cc_link \<Rightarrow> cc_link" where
  "cc3501e_recover_clear_stale_state c =
     c\<lparr>cc_sock_busy := False, cc_wifi_scan_busy := False, cc_ble_scan_busy := False, cc_evt_busy := False,
       cc_spi1_busy := False, cc_spi1_configured := False,
       cc_link_epoch := (if cc_link_epoch c \<ge> 0xFF then 1 else cc_link_epoch c + 1)\<rparr>"

text \<open>The confirmation under the held lock: PING, then GET_VERSION and the version gate.\<close>

definition recover_confirm :: "'w cc_port \<Rightarrow> 'w cc_st \<Rightarrow> alp_status \<times> 'w cc_st" where
  "recover_confirm port st =
     (case cc3501e_request_locked port CMD_PING [] None 0 st of (final, rx, st) \<Rightarrow>
        if final \<noteq> ALP_OK then (final, st)
        else case cc3501e_request_locked port CMD_GET_VERSION [] (Some 2) 0 st of (vs, rx, st) \<Rightarrow>
          if vs = ALP_OK \<and> rx_len rx \<ge> 2 then
            let fw_version = rx_le16 rx 0;
                fw_major = (ucast (drop_bit 8 fw_version) :: u8);
                fw_minor = (ucast fw_version :: u8)
            in if cc3501e_fw_major_is_acceptable fw_major
               then (ALP_OK, on_ctx (\<lambda>c. cc3501e_recover_clear_stale_state
                               (c\<lparr>cc_fw_proto_major := fw_major, cc_fw_proto_minor := fw_minor\<rparr>)) st)
               else (ALP_ERR_VERSION, on_ctx (\<lambda>c. c\<lparr>cc_fw_proto_major := 0, cc_fw_proto_minor := 0,
                                                  cc_initialised := False\<rparr>) st)
          else (ALP_OK, on_ctx cc3501e_recover_clear_stale_state st))"

definition cc3501e_recover :: "'w cc_port \<Rightarrow> 'w cc_st \<Rightarrow> alp_status \<times> 'w cc_st" where
  "cc3501e_recover port st =
     (if cc_ota_session_active (fst st) then (ALP_ERR_BUSY, st)
      else if \<not> cc_reset_pin (fst st) then (ALP_ERR_NOSUPPORT, st)
      else if cc_recovering (fst st) then (ALP_ERR_BUSY, st)
      else
        let st = on_ctx (\<lambda>c. c\<lparr>cc_recovering := True,
                   cc_link_log_recover_streak :=
                     (if cc_link_log_fail_streak c > 0xFF then 0xFF else ucast (cc_link_log_fail_streak c))\<rparr>) st
        in case cc3501e_lock_acquire port st of (ls, st) \<Rightarrow>
          if ls \<noteq> ALP_OK
          then (ls, on_ctx (\<lambda>c. c\<lparr>cc_last_recover_ms := uptime_ms port (snd st), cc_recovering := False\<rparr>) st)
          else
            case cc3501e_hard_reset port st of (rs, st) \<Rightarrow>
            case (if rs \<noteq> ALP_OK then
                    (case cc3501e_reset port (snd (cc3501e_power_off port (cc3501e_lock_release port st))) of
                       (final, st) \<Rightarrow>
                         (final, if final = ALP_OK then on_ctx cc3501e_recover_clear_stale_state st else st))
                  else (case recover_confirm port st of (final, st) \<Rightarrow> (final, cc3501e_lock_release port st)))
            of (final, st) \<Rightarrow>
              let st = on_ctx (\<lambda>c. c\<lparr>cc_last_recover_ms := uptime_ms port (snd st),
                                     cc_recover_attempt_count := cc_recover_attempt_count c + 1\<rparr>) st;
                  st = (if final = ALP_OK then
                          (let st = on_ctx (\<lambda>c. c\<lparr>cc_recover_fail_streak := 0,
                                      cc_recover_count := cc_recover_count c + 1\<rparr>) st
                           in if cc_has_recover_cb (fst st)
                              then recover_cb port (cc_recover_count (fst st)) st else st)
                        else if cc_recover_fail_streak (fst st) < 0xFF
                        then on_ctx (\<lambda>c. c\<lparr>cc_recover_fail_streak := cc_recover_fail_streak c + 1\<rparr>) st
                        else st)
              in (final, on_ctx (\<lambda>c. c\<lparr>cc_recovering := False\<rparr>) st))"

text \<open>The in-band resync: its transfers bypass the scratch buffers, and their bytes
  are dropped.\<close>

definition raw_xfer :: "'w cc_port \<Rightarrow> bytes \<Rightarrow> 'w cc_st \<Rightarrow> 'w cc_st" where
  "raw_xfer port tx = on_world (\<lambda>w. case spi_xfer port tx True w of (s, got, w) \<Rightarrow> w)"

definition cc3501e_link_resync :: "'w cc_port \<Rightarrow> bool \<Rightarrow> 'w cc_st \<Rightarrow> bool \<times> 'w cc_st" where
  "cc3501e_link_resync port stall_first st =
     (case cc3501e_lock_acquire port st of (s, st) \<Rightarrow>
        if s \<noteq> ALP_OK then (False, st)
        else
          let st = (if stall_first then delay_ms port 300 (raw_xfer port [CMD_PING, 0x01, 0x10, 0x00] st) else st);
              resync = raw_xfer port [0xFF, 0xFF, 0xFF, 0xFF];
              st = delay_ms port 150 (resync (resync (resync st)))
          in (True, cc3501e_lock_release port st))"

fun recover_cooldown_ms :: "nat \<Rightarrow> u32 \<Rightarrow> u32" where
  "recover_cooldown_ms 0 cooldown_ms = cooldown_ms"
| "recover_cooldown_ms (Suc n) cooldown_ms =
     (if cooldown_ms \<ge> 300000 div 2 then 300000 else recover_cooldown_ms n (cooldown_ms * 2))"

text \<open>\<open>link_probe n i\<close>: \<open>n\<close> tries left, \<open>i\<close> made so far, of 24.\<close>

fun link_probe :: "'w cc_port \<Rightarrow> nat \<Rightarrow> nat \<Rightarrow> 'w cc_st \<Rightarrow> bool \<times> 'w cc_st" where
  "link_probe port 0 i st = (False, st)"
| "link_probe port (Suc n) i st =
     (case cc3501e_ping port st of (s, st) \<Rightarrow>
        if s = ALP_OK then (True, st)
        else case (if i < 3 then cc3501e_link_resync port (i = 1) st else (False, st)) of (resynced, st) \<Rightarrow>
          link_probe port n (i + 1) (if resynced then st else if i + 1 < 24 then delay_ms port 500 st else st))"

definition cc3501e_link_check_and_recover :: "'w cc_port \<Rightarrow> 'w cc_st \<Rightarrow> alp_status \<times> 'w cc_st" where
  "cc3501e_link_check_and_recover port st =
     (let c = fst st in
      if \<not> auto_recover_on port then (ALP_OK, st)
      else if \<not> cc_reset_pin c then (ALP_OK, st)
      else if cc_ota_session_active c then (ALP_OK, st)
      else if cc_recover_attempt_count c > 0 \<and>
              uptime_ms port (snd st) - cc_last_recover_ms c <
                ucast (recover_cooldown_ms (unat (cc_recover_fail_streak c)) 30000) then (ALP_OK, st)
      else if cc_recovering c then (ALP_OK, st)
      else
        let st = on_ctx (\<lambda>c. c\<lparr>cc_link_log_suppress := True, cc_link_log_probe_fail_count := 0\<rparr>) st;
            attempts_before_probe = cc_recover_attempt_count (fst st)
        in case link_probe port 24 0 st of (link_ok, st) \<Rightarrow>
          let st = on_ctx (\<lambda>c. c\<lparr>cc_link_log_suppress := False\<rparr>) st
          in if link_ok then (ALP_OK, st)
             else if cc_recover_attempt_count (fst st) \<noteq> attempts_before_probe then (ALP_OK, st)
             else cc3501e_recover port st)"

definition cc3501e_set_recover_callback :: "bool \<Rightarrow> 'w cc_st \<Rightarrow> 'w cc_st" where
  "cc3501e_set_recover_callback has_cb = on_ctx (\<lambda>c. c\<lparr>cc_has_recover_cb := has_cb\<rparr>)"

definition cc3501e_ready_line_was_stuck :: "'w cc_st \<Rightarrow> bool" where
  "cc3501e_ready_line_was_stuck st = g_ready_line_was_stuck (fst st)"

text \<open>After deinit the bus pointer is gone too; every operation is refused before it
  would be used.\<close>

definition cc3501e_deinit :: "'w cc_st \<Rightarrow> 'w cc_st" where
  "cc3501e_deinit = on_ctx (\<lambda>c. c\<lparr>cc_initialised := False\<rparr>)"

section \<open>Poll by repeat\<close>

definition cc3501e_poll_exit ::
  "'w cc_port \<Rightarrow> alp_status \<Rightarrow> bool \<Rightarrow> bytes option \<Rightarrow> 'w cc_st \<Rightarrow> alp_status \<times> bytes option \<times> 'w cc_st" where
  "cc3501e_poll_exit port s no_status rx st =
     (s, rx, if (s = ALP_ERR_IO \<or> s = ALP_ERR_TIMEOUT) \<and> no_status
             then snd (cc3501e_link_check_and_recover port st) else st)"

definition next_poll_gap :: "u32 \<Rightarrow> u32" where
  "next_poll_gap gap = (if gap < 50 then (if gap * 2 > 50 then 50 else gap * 2) else gap)"

definition poll_gap :: "'w cc_port \<Rightarrow> u64 \<Rightarrow> u32 \<Rightarrow> 'w cc_st \<Rightarrow> u32" where
  "poll_gap port deadline_ms next_gap_ms st =
     (let remaining_ms = (ucast (deadline_ms - uptime_ms port (snd st)) :: u32)
      in if remaining_ms < next_gap_ms then remaining_ms else next_gap_ms)"

text \<open>\<open>seen\<close> is \<^verbatim>\<open>any_status_decoded\<close>; \<open>prev\<close> is what the caller's buffer and length
  held after the previous attempt; each attempt starts by zeroing the length.\<close>

partial_function (option) poll_loop ::
  "'w cc_port \<Rightarrow> cc_cmd \<Rightarrow> bytes \<Rightarrow> nat option \<Rightarrow> u64 \<Rightarrow> u8 \<Rightarrow> u16 option \<Rightarrow> u32 \<Rightarrow> bool \<Rightarrow> bool \<Rightarrow>
   bytes option \<Rightarrow> 'w cc_st \<Rightarrow> (alp_status \<times> bytes option \<times> 'w cc_st) option" where
  "poll_loop port cmd tx cap deadline_ms req_seq handle gap seen first prev st =
     (case cc3501e_lock_acquire port st of (s, st) \<Rightarrow>
        if s \<noteq> ALP_OK then
          (if first then Some (s, prev, st)
           else if uptime_ms port (snd st) \<ge> deadline_ms
           then Some (cc3501e_poll_exit port ALP_ERR_TIMEOUT (\<not> seen) prev st)
           else poll_loop port cmd tx cap deadline_ms req_seq handle (next_poll_gap gap) seen False prev
                  (delay_ms port (poll_gap port deadline_ms gap st) st))
        else if (case handle of None \<Rightarrow> False | Some h \<Rightarrow> ucast (drop_bit 8 h) \<noteq> cc_link_epoch (fst st))
        then Some (ALP_ERR_NOT_READY, prev, cc3501e_lock_release port st)
        else
          case cc3501e_request_locked port cmd tx cap req_seq st of (s, rx, st) \<Rightarrow>
            let b = cc_rx_scratch (fst st) ! 0;
                terminal_reject = (s = ALP_ERR_BUSY \<and> b = RESP_ERR_STATE);
                terminal_decoded_io = (s = ALP_ERR_IO \<and>
                  (b = RESP_ERR_RADIO \<or> b = RESP_ERR_PROTOCOL \<or> b = RESP_ERR_INTERNAL));
                seen = (seen \<or> b \<noteq> RX_SCRATCH_NO_STATUS);
                st = cc3501e_lock_release port st
            in if terminal_reject \<or> terminal_decoded_io then Some (cc3501e_poll_exit port s (\<not> seen) rx st)
               else if s \<noteq> ALP_ERR_BUSY \<and> s \<noteq> ALP_ERR_IO then Some (cc3501e_poll_exit port s (\<not> seen) rx st)
               else if uptime_ms port (snd st) \<ge> deadline_ms
               then Some (cc3501e_poll_exit port ALP_ERR_TIMEOUT (\<not> seen) rx st)
               else poll_loop port cmd tx cap deadline_ms req_seq handle (next_poll_gap gap) seen False rx
                      (delay_ms port (poll_gap port deadline_ms gap st) st))"

definition poll_by_repeat_seq ::
  "'w cc_port \<Rightarrow> cc_cmd \<Rightarrow> bytes \<Rightarrow> nat option \<Rightarrow> u32 \<Rightarrow> u8 \<Rightarrow> u16 option \<Rightarrow> 'w cc_st \<Rightarrow>
   (alp_status \<times> bytes option \<times> 'w cc_st) option" where
  "poll_by_repeat_seq port cmd tx cap timeout_ms req_seq handle st =
     (if \<not> cc_initialised (fst st) then Some (ALP_ERR_NOT_READY, None, st)
      else if length tx > cc3501e_max_tx (fst st) then Some (ALP_ERR_INVAL, None, st)
      else poll_loop port cmd tx cap (uptime_ms port (snd st) + ucast timeout_ms) req_seq handle 1 False True None st)"

definition alloc_req_seq :: "'w cc_st \<Rightarrow> u8 \<times> 'w cc_st" where
  "alloc_req_seq st =
     (if cc_initialised (fst st)
      then let n = (if cc_req_seq (fst st) \<ge> 31 then 1 else cc_req_seq (fst st) + 1)
           in (n, on_ctx (\<lambda>c. c\<lparr>cc_req_seq := n\<rparr>) st)
      else (0, st))"

definition poll_by_repeat ::
  "'w cc_port \<Rightarrow> cc_cmd \<Rightarrow> bytes \<Rightarrow> nat option \<Rightarrow> u32 \<Rightarrow> 'w cc_st \<Rightarrow>
   (alp_status \<times> bytes option \<times> 'w cc_st) option" where
  "poll_by_repeat port cmd tx cap timeout_ms st =
     (case alloc_req_seq st of (req_seq, st) \<Rightarrow>
        poll_by_repeat_seq port cmd tx cap timeout_ms req_seq None st)"

definition poll_by_repeat_handle ::
  "'w cc_port \<Rightarrow> cc_cmd \<Rightarrow> bytes \<Rightarrow> nat option \<Rightarrow> u32 \<Rightarrow> u16 \<Rightarrow> 'w cc_st \<Rightarrow>
   (alp_status \<times> bytes option \<times> 'w cc_st) option" where
  "poll_by_repeat_handle port cmd tx cap timeout_ms handle st =
     (case alloc_req_seq st of (req_seq, st) \<Rightarrow>
        poll_by_repeat_seq port cmd tx cap timeout_ms req_seq (Some handle) st)"

definition cc3501e_set_peer_polled :: "bool \<Rightarrow> 'w cc_st \<Rightarrow> 'w cc_st" where
  "cc3501e_set_peer_polled v = on_ctx (\<lambda>c. c\<lparr>g_peer_polled := v\<rparr>)"

section \<open>Re-synchronisation by walking the idle marker\<close>

fun sync_walk :: "'w cc_port \<Rightarrow> nat \<Rightarrow> nat \<Rightarrow> u8 \<Rightarrow> 'w cc_st \<Rightarrow> alp_status \<times> u8 \<times> 'w cc_st" where
  "sync_walk port 0 r rx st = (ALP_ERR_TIMEOUT, rx, st)"
| "sync_walk port (Suc n) r rx (c, w) =
     (case spi_xfer port [0xFF] True w of (s, got, w) \<Rightarrow>
        let rx = (if got = [] then rx else got ! 0)
        in if s \<noteq> ALP_OK then (ALP_ERR_IO, rx, c, w)
           else if rx = SYNC_IDLE
           then (if r + 1 \<ge> 2 * HEADER_BYTES then (ALP_OK, rx, c, w)
                 else sync_walk port n (r + 1) rx (c, w))
           else sync_walk port n 0 rx (c, w))"

fun sync_attempts :: "'w cc_port \<Rightarrow> nat \<Rightarrow> u8 \<Rightarrow> 'w cc_st \<Rightarrow> alp_status \<times> 'w cc_st" where
  "sync_attempts port 0 rx st = (ALP_ERR_TIMEOUT, st)"
| "sync_attempts port (Suc n) rx st =
     (case sync_walk port (2 * (HEADER_BYTES + MAX_PAYLOAD)) 0 rx st of (rc, rx, st) \<Rightarrow>
        if rc = ALP_ERR_TIMEOUT then sync_attempts port n rx (delay_ms port 1 st) else (rc, st))"

definition cc3501e_sync :: "'w cc_port \<Rightarrow> u32 \<Rightarrow> 'w cc_st \<Rightarrow> alp_status \<times> 'w cc_st" where
  "cc3501e_sync port timeout_ms st =
     (if \<not> cc_initialised (fst st) then (ALP_ERR_NOT_READY, st)
      else case cc3501e_lock_acquire port st of (lrc, st) \<Rightarrow>
        if lrc \<noteq> ALP_OK then (lrc, st)
        else case sync_attempts port (if timeout_ms > 0 then unat timeout_ms else 1) 0 st of (rc, st) \<Rightarrow>
          (rc, cc3501e_lock_release port st))"

section \<open>The poll loop returns\<close>

text \<open>What the loop needs of the clock: no operation sets it back, and a delay
  lets at least its own length pass. The uptime is read up to \<open>2 ^ 63\<close> ms, the
  range of the signed 64-bit count it is taken from, and has no room above it.\<close>

definition clk :: "'w cc_port \<Rightarrow> 'w \<Rightarrow> nat" where
  "clk p w = min (unat (uptime_ms p w)) (2 ^ 63)"

definition clock_ok :: "'w cc_port \<Rightarrow> bool" where
  "clock_ok p \<longleftrightarrow>
     (\<forall>tx rx w. clk p w \<le> clk p (snd (snd (spi_xfer p tx rx w)))) \<and>
     (\<forall>w. clk p w \<le> clk p (snd (snd (ready_read p w)))) \<and>
     (\<forall>us w. clk p w \<le> clk p (delay_us p us w)) \<and>
     (\<forall>v w. clk p w \<le> clk p (attn_set_armed p v w)) \<and>
     (\<forall>ms st. min (clk p (snd st) + unat ms) (2 ^ 63) \<le> clk p (snd (delay_ms p ms st)))"

definition now_ms :: "'w cc_port \<Rightarrow> 'w cc_st \<Rightarrow> nat" where
  "now_ms p st = clk p (snd st)"

lemma clk_le: "clk p w \<le> 2 ^ 63"
  by (simp add: clk_def)

lemma clock_okD:
  assumes "clock_ok p"
  shows "spi_xfer p tx rx w = (s, got, w') \<Longrightarrow> clk p w \<le> clk p w'"
    and "ready_read p w = (s, level, w') \<Longrightarrow> clk p w \<le> clk p w'"
    and "clk p w \<le> clk p (delay_us p us w)"
    and "clk p w \<le> clk p (attn_set_armed p v w)"
    and "min (now_ms p st + unat ms) (2 ^ 63) \<le> now_ms p (delay_ms p ms st)"
    and "now_ms p st \<le> now_ms p (delay_ms p ms st)"
proof -
  show 5: "min (now_ms p st + unat ms) (2 ^ 63) \<le> now_ms p (delay_ms p ms st)" for st ms
    using assms unfolding clock_ok_def now_ms_def by metis
  show "now_ms p st \<le> now_ms p (delay_ms p ms st)"
    using 5 [of st ms] clk_le [of p "snd st"] by (simp add: now_ms_def)
qed (use assms in \<open>unfold clock_ok_def, metis snd_conv\<close>)+

lemma ready_wait_time:
  "clock_ok p \<Longrightarrow> ready_wait p us w = (b, w') \<Longrightarrow> clk p w \<le> clk p w'"
proof (induction p us w rule: ready_wait.induct)
  case (1 p us w)
  obtain s level w1 where r: "ready_read p w = (s, level, w1)" by (metis prod_cases3)
  note le = clock_okD(2) [OF 1(2) r] clock_okD(3) [OF 1(2), of w1 200]
  show ?case
    using 1(1) [OF r [symmetric] refl _ _ 1(2)] 1(3) r le
    by (subst (asm) (2) ready_wait.simps) (auto split: if_splits)
qed

lemma reply_gate_time:
  assumes "clock_ok p"
  shows "now_ms p st \<le> now_ms p (cc3501e_reply_gate p us st)"
proof -
  obtain c w where st: "st = (c, w)" by (cases st)
  obtain s level w1 where r: "ready_read p w = (s, level, w1)" by (metis prod_cases3)
  obtain b w2 where q: "ready_wait p 0 w = (b, w2)" by (cases "ready_wait p 0 w")
  note le = clock_okD(2) [OF assms r] ready_wait_time [OF assms q]
  have d: "clk p v \<le> clk p (delay_us p n v)" for n v
    by (rule clock_okD(3) [OF assms])
  show ?thesis
    using le d order_trans [OF _ d]
    by (simp add: st cc3501e_reply_gate_def now_ms_def r q Let_def split: if_splits)
qed

lemma link_xfer_time:
  assumes "clock_ok p"
  shows "now_ms p st \<le> now_ms p (snd (link_xfer p tx rx st))"
  using clock_okD(1) [OF assms]
  by (cases st) (auto simp: link_xfer_def now_ms_def split: prod.splits)

lemma link_fail_time:
  assumes "clock_ok p"
  shows "now_ms p st \<le> now_ms p (snd (snd (link_fail p cmd phase hdr rh s st)))"
  using clock_okD(2) [OF assms]
  by (cases st) (auto simp: link_fail_def cc3501e_link_log_ready_level_def now_ms_def Let_def split: prod.splits)

text \<open>The same facts for destructed results, as the exchange produces them.\<close>

lemma phase_times:
  assumes "clock_ok p"
  shows "cc3501e_reply_gate p us st = (c, w) \<Longrightarrow> now_ms p st \<le> now_ms p (c, w)"
    and "link_xfer p tx rx st = (s, c, w) \<Longrightarrow> now_ms p st \<le> now_ms p (c, w)"
    and "now_ms p st \<le> now_ms p st1 \<Longrightarrow> now_ms p st \<le> now_ms p (snd (snd (link_fail p cmd phase hdr rh s' st1)))"
  using reply_gate_time [OF assms, of st us] link_xfer_time [OF assms, of st tx rx]
    link_fail_time [OF assms, of st1 cmd phase hdr rh s'] by auto

lemma read_payload_time:
  assumes "clock_ok p"
  shows "now_ms p st \<le> now_ms p (snd (snd (link_read_payload p cmd cap hdr rh n st)))"
proof -
  obtain c w where st: "st = (c, w)" by (cases st)
  obtain c1 w1 where g: "cc3501e_reply_gate p (cc3501e_phase_settle (cc_fw_fast_reply c)) (c, w) = (c1, w1)"
    by (metis prod.exhaust)
  obtain s c2 w2 where x: "link_xfer p (replicate (unat n) 0xFF) True (c1, w1) = (s, c2, w2)" by (metis prod_cases3)
  have le: "now_ms p st \<le> now_ms p (c2, w2)"
    using phase_times(1) [OF assms g] phase_times(2) [OF assms x] st by simp
  thus ?thesis using phase_times(3) [OF assms le]
    by (simp add: st link_read_payload_def g x now_ms_def Let_def)
qed

lemma read_reply_time:
  assumes "clock_ok p"
  shows "now_ms p st \<le> now_ms p (snd (snd (link_read_reply p cmd tx cap n hdr st)))"
proof -
  obtain c w where st: "st = (c, w)" by (cases st)
  obtain c1 w1 where g: "cc3501e_reply_gate p (link_reply_gate_us c cmd tx cap n) (c, w) = (c1, w1)"
    by (metis prod.exhaust)
  obtain s c2 w2 where x: "link_xfer p (replicate 4 0xFF) True (c1, w1) = (s, c2, w2)" by (metis prod_cases3)
  have le: "now_ms p st \<le> now_ms p (c2, w2)"
    using phase_times(1) [OF assms g] phase_times(2) [OF assms x] st by simp
  thus ?thesis using phase_times(3) [OF assms le] order_trans [OF le read_payload_time [OF assms]]
    by (simp add: st link_read_reply_def g x Let_def)
qed

lemma request_locked_time:
  assumes "clock_ok p"
  shows "now_ms p st \<le> now_ms p (snd (snd (cc3501e_request_locked p cmd tx cap seq st)))"
proof -
  obtain c w where st: "st = (c, w)" by (cases st)
  let ?m = "4 \<le> cc_fw_proto_major c"
  let ?h = "encode_header cmd (link_flags seq) (link_wire_tx_len ?m tx)"
  obtain c1 w1 where g: "cc3501e_reply_gate p (cc3501e_phase_settle (cc_fw_fast_reply c)) (c, w) = (c1, w1)"
    by (metis prod.exhaust)
  obtain s c2 w2 where x: "link_xfer p ?h True (c1, w1) = (s, c2, w2)" by (metis prod_cases3)
  obtain s' c3 w3 where y: "(if link_wire_tx_len ?m tx > 0
      then link_xfer p (link_tx_ptr ?m ?h tx) False
             (cc3501e_reply_gate p (cc3501e_phase_settle (cc_fw_fast_reply c2)) (c2, w2))
      else (ALP_OK, c2, w2)) = (s', c3, w3)" by (metis prod_cases3)
  have le: "now_ms p st \<le> now_ms p (c2, w2)"
    using phase_times(1) [OF assms g] phase_times(2) [OF assms x] st by simp
  have "now_ms p (c2, w2) \<le> now_ms p (c3, w3)"
  proof (cases "link_wire_tx_len ?m tx > 0")
    case True
    with y have "link_xfer p (link_tx_ptr ?m ?h tx) False
        (cc3501e_reply_gate p (cc3501e_phase_settle (cc_fw_fast_reply c2)) (c2, w2)) = (s', c3, w3)" by simp
    from phase_times(2) [OF assms this] show ?thesis
      by (rule order_trans [OF reply_gate_time [OF assms]])
  qed (use y in simp)
  hence le': "now_ms p st \<le> now_ms p (c3, w3)" using le by simp
  show ?thesis
    using phase_times(3) [OF assms le] phase_times(3) [OF assms le'] order_trans [OF le' read_reply_time [OF assms]]
    by (simp add: st cc3501e_request_locked_def g x y Let_def)
qed

lemma lock_wait_time:
  assumes "clock_ok p"
  shows "now_ms p (c, w) \<le> now_ms p (snd (cc3501e_lock_wait p n (c, w)))"
proof (induction n arbitrary: c w)
  case (Suc n)
  obtain c1 w1 where d: "delay_ms p 1 (c, w) = (c1, w1)" by (metis prod.exhaust)
  have "now_ms p (c, w) \<le> now_ms p (c1, w1)" using clock_okD(6) [OF assms, of "(c, w)" 1] by (simp add: d)
  thus ?case using Suc.IH [of c1 w1] by (auto simp: d cc3501e_lock_try_def now_ms_def)
qed simp

lemma lock_acquire_time:
  assumes "clock_ok p"
  shows "now_ms p st \<le> now_ms p (snd (cc3501e_lock_acquire p st))"
proof -
  obtain c w where st: "st = (c, w)" by (cases st)
  let ?w = "attn_set_armed p False w"
  have "now_ms p st \<le> now_ms p (c, ?w)" using clock_okD(4) [OF assms] by (simp add: st now_ms_def)
  thus ?thesis using lock_wait_time [OF assms, of c ?w 100]
    by (auto simp: st cc3501e_lock_acquire_def cc3501e_lock_try_def Let_def now_ms_def)
qed

lemma lock_release_time:
  assumes "clock_ok p"
  shows "now_ms p st \<le> now_ms p (cc3501e_lock_release p st)"
  using clock_okD(4) [OF assms]
  by (cases st) (auto simp: cc3501e_lock_release_def now_ms_def)

text \<open>One more attempt starts only before the deadline, and after a delay of at
  least a millisecond.\<close>

lemma poll_gap_pos:
  assumes "\<not> deadline \<le> uptime_ms p (snd st)" and "unat deadline < unat (uptime_ms p (snd st)) + 2 ^ 32" and "gap > 0"
  shows "1 \<le> unat (poll_gap p deadline gap st)"
proof -
  let ?d = "deadline - uptime_ms p (snd st)"
  have lt: "unat (uptime_ms p (snd st)) < unat deadline" using assms(1) by (simp add: word_le_nat_alt)
  hence d: "unat ?d = unat deadline - unat (uptime_ms p (snd st))"
    by (simp add: unat_sub word_le_nat_alt)
  hence "unat ?d < 2 ^ 32" "0 < unat ?d" using assms(2) lt by simp_all
  hence "unat (ucast ?d :: u32) = unat ?d"
    by (simp add: unsigned_ucast_eq take_bit_nat_eq_self)
  hence "(ucast ?d :: u32) \<noteq> 0" using \<open>0 < unat ?d\<close> by (metis unat_0 less_irrefl)
  hence "poll_gap p deadline gap st \<noteq> 0" using assms(3) by (auto simp: poll_gap_def Let_def word_gt_0)
  thus ?thesis by (simp add: unat_gt_0 Suc_le_eq)
qed

lemma next_poll_gap_pos:
  assumes "0 < gap" "gap \<le> 50"
  shows "0 < next_poll_gap gap \<and> next_poll_gap gap \<le> 50"
proof -
  have g: "0 < unat gap" "unat gap \<le> 50" using assms by (simp_all add: word_le_nat_alt unat_gt_0 word_gt_0)
  hence "unat (gap * 2) = unat gap * 2" by (simp add: unat_word_ariths)
  thus ?thesis using g assms by (auto simp: next_poll_gap_def word_less_nat_alt word_le_nat_alt)
qed

lemma poll_step:
  assumes "clock_ok p" and "\<not> deadline \<le> uptime_ms p (snd st1)" and "now_ms p st \<le> now_ms p st1"
    and "unat deadline < 2 ^ 63" and "unat deadline < now_ms p st + 2 ^ 32" and "0 < gap"
  shows "now_ms p st < now_ms p (delay_ms p (poll_gap p deadline gap st1) st1)"
    and "now_ms p st < unat deadline"
proof -
  have up: "unat (uptime_ms p (snd st1)) < unat deadline" using assms(2) by (simp add: word_le_nat_alt)
  hence now: "now_ms p st1 = unat (uptime_ms p (snd st1))" using assms(4) by (simp add: now_ms_def clk_def)
  have "1 \<le> unat (poll_gap p deadline gap st1)"
    by (rule poll_gap_pos [OF assms(2) _ assms(6)]) (use assms(3,5) now in linarith)
  thus "now_ms p st < now_ms p (delay_ms p (poll_gap p deadline gap st1) st1)"
    using clock_okD(5) [OF assms(1), of st1 "poll_gap p deadline gap st1"] assms(3,4) up now by linarith
  show "now_ms p st < unat deadline" using assms(3) up now by linarith
qed

lemma poll_loop_returns:
  assumes "clock_ok p" and "unat deadline < 2 ^ 63"
    and "0 < gap" and "gap \<le> 50" and "unat deadline < now_ms p st + 2 ^ 32"
  shows "\<exists>r. poll_loop p cmd tx cap deadline seq handle gap seen first prev st = Some r"
  using assms(3-)
proof (induction "unat deadline - now_ms p st" arbitrary: gap seen first prev st rule: less_induct)
  case less
  have again: "\<exists>r. poll_loop p cmd tx cap deadline seq handle (next_poll_gap gap) seen' False prev'
      (delay_ms p (poll_gap p deadline gap st1) st1) = Some r"
    if "now_ms p st \<le> now_ms p st1" "\<not> deadline \<le> uptime_ms p (snd st1)" for st1 seen' prev'
  proof -
    note step = poll_step [OF assms(1) that(2,1) assms(2) less.prems(3,1)]
    show ?thesis
      by (rule less.hyps) (use step next_poll_gap_pos [OF less.prems(1,2)] less.prems(3) in linarith)+
  qed
  obtain s st1 where l: "cc3501e_lock_acquire p st = (s, st1)" by (metis prod.exhaust)
  obtain s2 rx st2 where r: "cc3501e_request_locked p cmd tx cap seq st1 = (s2, rx, st2)" by (metis prod_cases3)
  let ?st3 = "cc3501e_lock_release p st2"
  have t1: "now_ms p st \<le> now_ms p st1" using lock_acquire_time [OF assms(1), of st] l by simp
  have t3: "now_ms p st \<le> now_ms p ?st3"
    using t1 request_locked_time [OF assms(1), of st1 cmd tx cap seq] lock_release_time [OF assms(1), of st2] r
    by simp
  have again1: "poll_loop p cmd tx cap deadline seq handle (next_poll_gap gap) seen' False prev'
      (delay_ms p (poll_gap p deadline gap st1) st1) \<noteq> None"
    if "\<not> deadline \<le> uptime_ms p (snd st1)" for seen' prev' using again [OF t1 that] by blast
  have again3: "poll_loop p cmd tx cap deadline seq handle (next_poll_gap gap) seen' False prev'
      (delay_ms p (poll_gap p deadline gap ?st3) ?st3) \<noteq> None"
    if "\<not> deadline \<le> uptime_ms p (snd ?st3)" for seen' prev' using again [OF t3 that] by blast
  have "poll_loop p cmd tx cap deadline seq handle gap seen first prev st \<noteq> None"
    by (subst poll_loop.simps) (simp add: l r Let_def again1 again3 del: not_None_eq)
  thus ?case by blast
qed

text \<open>
  C8. The poll-by-repeat loop returns: whatever the peer and the lock do, over a
  clock that runs, an operation with any timeout ends with a status, so no
  wedged or silent bridge can hang its caller.\<close>

theorem poll_by_repeat_returns:
  assumes "clock_ok p" and "unat (uptime_ms p (snd st)) + unat timeout_ms < 2 ^ 63"
  shows "\<exists>s rx st'. poll_by_repeat p cmd tx cap timeout_ms st = Some (s, rx, st')"
proof -
  obtain q st1 where q: "alloc_req_seq st = (q, st1)" by (metis prod.exhaust)
  hence a: "alloc_req_seq st = (q, st1)" "snd st1 = snd st"
    by (cases st; auto simp: alloc_req_seq_def on_ctx_def Let_def split: if_splits)+
  let ?d = "uptime_ms p (snd st1) + ucast timeout_ms"
  have "unat timeout_ms < 2 ^ 32" using unsigned_less [of timeout_ms, where 'a = nat] by simp
  moreover from this have "unat ?d = unat (uptime_ms p (snd st)) + unat timeout_ms"
    using assms(2) a(2) by (simp add: unat_word_ariths unsigned_ucast_eq take_bit_nat_eq_self)
  ultimately have "\<exists>r. poll_loop p cmd tx cap ?d q None 1 False True None st1 = Some r"
    by (intro poll_loop_returns [OF assms(1)]) (use assms(2) a(2) in \<open>simp_all add: now_ms_def clk_def\<close>)
  thus ?thesis by (auto simp: poll_by_repeat_def a poll_by_repeat_seq_def)
qed

text \<open>A port whose world is the time and whose bus never answers.\<close>

definition dead_port :: "u64 cc_port" where
  "dead_port =
    \<lparr>auto_recover_on = False, spi_xfer = (\<lambda>tx rx w. (ALP_ERR_IO, [], w)), ready_read = (\<lambda>w. (ALP_OK, True, w)),
     reset_write = (\<lambda>v w. w), enable_write = (\<lambda>v w. w), delay_us = (\<lambda>us w. w),
     delay_ms = (\<lambda>ms (c, w). (c, if unat w + unat ms < 2 ^ 63 then w + ucast ms else 2 ^ 63)),
     uptime_us = (\<lambda>w. w), uptime_ms = (\<lambda>w. w), attn_set_armed = (\<lambda>v w. w), recover_cb = (\<lambda>n st. st)\<rparr>"

lemma dead_clock: "clock_ok dead_port"
proof -
  have "unat (w + ucast ms) = unat w + unat ms" if "unat w + unat ms < 2 ^ 63" for w :: u64 and ms :: u32
  proof -
    have "unat ms < 2 ^ 32" using unsigned_less [of ms, where 'a = nat] by simp
    thus ?thesis using that by (simp add: unat_word_ariths unsigned_ucast_eq take_bit_nat_eq_self)
  qed
  thus ?thesis by (auto simp: clock_ok_def dead_port_def clk_def)
qed

theorem poll_by_repeat_returns_witness:
  "\<exists>s rx st'. poll_by_repeat dead_port CMD_PING [] None 5000
     (cc_zero\<lparr>cc_initialised := True\<rparr>, 1000) = Some (s, rx, st')"
  by (rule poll_by_repeat_returns [OF dead_clock]) (simp add: dead_port_def)

end
