(* ===== verification/Cc3501e_Ota.thy ===== *)
theory Cc3501e_Ota
  imports Cc3501e_Recover Checked_Arith "HOL-Library.Monad_Syntax"
begin

text \<open>
  The firmware-update client of the CC3501E driver
  (\<^verbatim>\<open>chips/cc3501e/cc3501e_ota.c\<close>): update mode, BEGIN, the chunked WRITE stream
  with its hold-off and its re-synchronisation, FINISH, PROMOTE and the status
  read they all confirm against. The entry points of the core it calls form the
  record \<open>ota_link\<close>, and \<open>ota_link_of\<close> is the core's own. A poll may never return,
  so every operation built on one is an option; so is the confirm loop of
  update mode, whose budget is a wrapping 32-bit count. The bridge firmware is
  not part of the repository: what it promises, as
  \<^verbatim>\<open>include/alp/protocol/cc3501e.h\<close> and \<^verbatim>\<open>include/alp/chips/cc3501e/ota.h\<close> document
  it, is the hypothesis \<open>ota_device\<close>.
\<close>

section \<open>The link the client uses\<close>

record 'w ota_link =
  ol_request :: "cc_cmd \<Rightarrow> bytes \<Rightarrow> nat option \<Rightarrow> 'w cc_st \<Rightarrow> alp_status \<times> bytes option \<times> 'w cc_st"
  ol_poll :: "cc_cmd \<Rightarrow> bytes \<Rightarrow> nat option \<Rightarrow> u32 \<Rightarrow> 'w cc_st \<Rightarrow> (alp_status \<times> bytes option \<times> 'w cc_st) option"
  ol_diag_info :: "'w cc_st \<Rightarrow> (alp_status \<times> cc_diag_info option) \<times> 'w cc_st"
  ol_hard_reset :: "'w cc_st \<Rightarrow> alp_status \<times> 'w cc_st"
  ol_delay_ms :: "u32 \<Rightarrow> 'w cc_st \<Rightarrow> 'w cc_st"

definition ota_link_of :: "'w cc_port \<Rightarrow> 'w ota_link" where
  "ota_link_of port =
     \<lparr>ol_request = cc3501e_request port, ol_poll = poll_by_repeat port, ol_diag_info = cc3501e_diag_info port,
      ol_hard_reset = cc3501e_hard_reset port, ol_delay_ms = delay_ms port\<rparr>"

section \<open>Status and settling\<close>

abbreviation (input) "OTA_IDLE \<equiv> (0 :: u8)"
abbreviation (input) "OTA_WRITING \<equiv> (1 :: u8)"
abbreviation (input) "OTA_STAGED \<equiv> (2 :: u8)"
abbreviation (input) "OTA_ERROR \<equiv> (3 :: u8)"
abbreviation (input) "PENDING_STAGED \<equiv> (2 :: u8)"
abbreviation (input) "PENDING_TRIAL \<equiv> (3 :: u8)"
abbreviation (input) "PENDING_UNKNOWN \<equiv> (0xFF :: u8)"

record ota_status =
  os_state :: u8
  os_reserved :: bytes
  os_bytes_written :: u32
  os_total_len :: u32
  os_pending :: u8
  os_reserved2 :: "bytes option"

text \<open>\<open>os_reserved2\<close> is \<open>None\<close> where the code leaves the caller's bytes alone.\<close>

definition cc3501e_ota_status ::
  "'w ota_link \<Rightarrow> u32 \<Rightarrow> 'w cc_st \<Rightarrow> ((alp_status \<times> ota_status option) \<times> 'w cc_st) option" where
  "cc3501e_ota_status lk timeout_ms st = do {
     (s, reply, st) \<leftarrow> ol_poll lk CMD_OTA_STATUS [] (Some 16) timeout_ms st;
     Some (if s \<noteq> ALP_OK then ((s, None), st)
           else if rx_len reply < 12 then ((ALP_ERR_IO, None), st)
           else ((ALP_OK, Some \<lparr>os_state = rx_byte reply 0,
                    os_reserved = [rx_byte reply 1, rx_byte reply 2, rx_byte reply 3],
                    os_bytes_written = rx_le32 reply 4, os_total_len = rx_le32 reply 8,
                    os_pending = (if rx_len reply \<ge> 16 then rx_byte reply 12 else PENDING_UNKNOWN),
                    os_reserved2 = (if rx_len reply \<ge> 16
                      then Some [rx_byte reply 13, rx_byte reply 14, rx_byte reply 15] else None)\<rparr>), st))
   }"

definition ota_poll_ms :: "u32 \<Rightarrow> u32" where
  "ota_poll_ms timeout_ms = (if timeout_ms < 200 then timeout_ms else 200)"

text \<open>One round of a bounded confirm loop charges the sleep and the poll frame, so
  its budget is used up.\<close>

lemma ota_budget:
  assumes "\<not> budget \<le> waited" and "budget \<le> 600000"
  shows "unat (waited + (50 + ota_poll_ms t)) = unat waited + 50 + unat (ota_poll_ms t)"
proof -
  have "unat (ota_poll_ms t) \<le> 200" "unat waited < 600000"
    using assms by (auto simp: ota_poll_ms_def word_le_nat_alt word_less_nat_alt)
  thus ?thesis by (simp add: unat_word_ariths)
qed

function ota_settle_loop ::
  "'w ota_link \<Rightarrow> u8 \<Rightarrow> u32 \<Rightarrow> u32 \<Rightarrow> 'w cc_st \<Rightarrow> (alp_status \<times> 'w cc_st) option" where
  "ota_settle_loop lk want timeout_ms waited st =
     (case cc3501e_ota_status lk (ota_poll_ms timeout_ms) st of
        None \<Rightarrow> None
      | Some ((s, out), st) \<Rightarrow>
          if s = ALP_OK \<and> map_option os_state out = Some want then Some (ALP_OK, st)
          else if s = ALP_OK \<and> map_option os_state out = Some OTA_ERROR then Some (ALP_ERR_IO, st)
          else if waited \<ge> 60000 then Some (ALP_ERR_TIMEOUT, st)
          else ota_settle_loop lk want timeout_ms (waited + (50 + ota_poll_ms timeout_ms))
                 (ol_delay_ms lk 50 st))"
  by pat_completeness auto
termination
proof (relation "measure (\<lambda>(lk, want, t, waited, st). 60000 - unat waited)", goal_cases)
  case (2 lk want t waited st)
  hence b: "\<not> 60000 \<le> waited" by simp
  hence "unat waited < 60000" by (simp add: word_le_nat_alt)
  thus ?case using ota_budget [OF b] by simp
qed simp

declare ota_settle_loop.simps [simp del]

definition ota_settled_as :: "'w ota_link \<Rightarrow> u8 \<Rightarrow> u32 \<Rightarrow> 'w cc_st \<Rightarrow> (alp_status \<times> 'w cc_st) option" where
  "ota_settled_as lk want timeout_ms st = ota_settle_loop lk want timeout_ms 0 st"

section \<open>BEGIN\<close>

definition ota_le32 :: "u32 \<Rightarrow> bytes" where
  "ota_le32 v = [ucast (v AND 0xFF), ucast (drop_bit 8 v AND 0xFF), ucast (drop_bit 16 v AND 0xFF),
                 ucast (drop_bit 24 v AND 0xFF)]"

definition cc3501e_ota_begin :: "'w ota_link \<Rightarrow> u32 \<Rightarrow> u32 \<Rightarrow> 'w cc_st \<Rightarrow> (alp_status \<times> 'w cc_st) option" where
  "cc3501e_ota_begin lk total_len timeout_ms st =
     (if \<not> g_peer_polled (fst st) then Some (ALP_ERR_NOT_READY, st)
      else case ol_request lk CMD_OTA_BEGIN (ota_le32 total_len) None st of (s, _, st) \<Rightarrow> do {
        (settled, st) \<leftarrow> ota_settled_as lk OTA_WRITING timeout_ms
          (if s \<noteq> ALP_OK \<and> s \<noteq> ALP_ERR_BUSY then ol_delay_ms lk 180000 st else st);
        if settled = ALP_OK then Some (ALP_OK, st)
        else if settled = ALP_ERR_IO then Some (ALP_ERR_IO, st)
        else if s = ALP_ERR_BUSY then do {
          (settled, st) \<leftarrow> ota_settled_as lk OTA_WRITING timeout_ms (ol_delay_ms lk 180000 st);
          if settled = ALP_OK then Some (ALP_OK, st)
          else if settled = ALP_ERR_IO then Some (ALP_ERR_IO, st)
          else Some (s, st)
        }
        else Some (if s = ALP_OK then ALP_ERR_TIMEOUT else s, st)
      })"

section \<open>WRITE\<close>

abbreviation (input) "OTA_MAX_CHUNK \<equiv> (4092 :: nat)"
abbreviation (input) "POLLED_OTA_CHUNK \<equiv> (16 :: nat)"

definition cc3501e_ota_write_frame ::
  "'w ota_link \<Rightarrow> u32 \<Rightarrow> bytes \<Rightarrow> nat \<Rightarrow> 'w cc_st \<Rightarrow> alp_status \<times> 'w cc_st" where
  "cc3501e_ota_write_frame lk offset data len st =
     (case ol_request lk CMD_OTA_WRITE (ota_le32 offset @ take len data) None st of (s, _, st) \<Rightarrow> (s, st))"

function ota_write_frames ::
  "'w ota_link \<Rightarrow> u32 \<Rightarrow> bytes \<Rightarrow> nat \<Rightarrow> nat \<Rightarrow> 'w cc_st \<Rightarrow> alp_status \<times> 'w cc_st" where
  "ota_write_frames lk offset data len sent st =
     (if sent < len then
        let n = (if len - sent > POLLED_OTA_CHUNK then POLLED_OTA_CHUNK else len - sent)
        in case cc3501e_ota_write_frame lk (offset + of_nat sent) (drop sent data) n st of (fs, st) \<Rightarrow>
             if fs \<noteq> ALP_OK then (fs, st) else ota_write_frames lk offset data len (sent + n) st
      else (ALP_OK, st))"
  by pat_completeness auto
termination
  by (relation "measure (\<lambda>(lk, offset, data, len, sent, st). len - sent)") auto

declare ota_write_frames.simps [simp del]

definition cc3501e_ota_write ::
  "'w ota_link \<Rightarrow> u32 \<Rightarrow> bytes option \<Rightarrow> nat \<Rightarrow> 'w cc_st \<Rightarrow> alp_status \<times> 'w cc_st" where
  "cc3501e_ota_write lk offset data len st =
     (case data of
        None \<Rightarrow> (ALP_ERR_INVAL, st)
      | Some d \<Rightarrow>
          if len = 0 \<or> len > OTA_MAX_CHUNK then (ALP_ERR_INVAL, st)
          else if g_peer_polled (fst st) \<and> len > POLLED_OTA_CHUNK then ota_write_frames lk offset d len 0 st
          else cc3501e_ota_write_frame lk offset d len st)"

section \<open>FINISH, ABORT and PROMOTE\<close>

definition cc3501e_ota_finish_confirmed :: "'w cc_st \<Rightarrow> 'w cc_st" where
  "cc3501e_ota_finish_confirmed = cc3501e_set_peer_polled False"

definition ota_session_over :: "'w cc_st \<Rightarrow> 'w cc_st" where
  "ota_session_over = on_ctx (\<lambda>c. c\<lparr>cc_ota_session_active := False\<rparr>)"

definition cc3501e_ota_finish :: "'w ota_link \<Rightarrow> u32 \<Rightarrow> 'w cc_st \<Rightarrow> (alp_status \<times> 'w cc_st) option" where
  "cc3501e_ota_finish lk timeout_ms st = do {
     (s, _, st) \<leftarrow> ol_poll lk CMD_OTA_FINISH [] None timeout_ms st;
     if s = ALP_OK then Some (ALP_OK, ota_session_over (cc3501e_ota_finish_confirmed st))
     else do {
       (settled, st) \<leftarrow> ota_settled_as lk OTA_STAGED timeout_ms st;
       if settled = ALP_OK then Some (ALP_OK, ota_session_over (cc3501e_ota_finish_confirmed st))
       else if settled = ALP_ERR_IO then Some (ALP_ERR_IO, st)
       else Some (s, st)
     }
   }"

definition cc3501e_ota_abort :: "'w ota_link \<Rightarrow> u32 \<Rightarrow> 'w cc_st \<Rightarrow> (alp_status \<times> 'w cc_st) option" where
  "cc3501e_ota_abort lk timeout_ms st = do {
     (s, _, st) \<leftarrow> ol_poll lk CMD_OTA_ABORT [] None timeout_ms st; Some (s, st) }"

definition cc3501e_ota_promote :: "'w ota_link \<Rightarrow> u32 \<Rightarrow> 'w cc_st \<Rightarrow> (alp_status \<times> 'w cc_st) option" where
  "cc3501e_ota_promote lk timeout_ms st = do {
     ((ss, out), st) \<leftarrow> cc3501e_ota_status lk timeout_ms st;
     if ss \<noteq> ALP_OK then Some (ss, st)
     else if map_option os_pending out = Some PENDING_STAGED then do {
       (ps, _, st) \<leftarrow> ol_poll lk CMD_OTA_PROMOTE [] None timeout_ms st;
       Some (ps, if ps = ALP_OK then ota_session_over st else st)
     }
     else if map_option os_pending out = Some PENDING_TRIAL then Some (ALP_OK, st)
     else Some (ALP_ERR_NOT_READY, st)
   }"

section \<open>Update mode\<close>

definition update_mode_reads_as :: "'w ota_link \<Rightarrow> u8 \<Rightarrow> 'w cc_st \<Rightarrow> bool \<times> 'w cc_st" where
  "update_mode_reads_as lk want st =
     (case ol_request lk CMD_OTA_UPDATE_MODE [want] (Some 4) st of (s, reply, st) \<Rightarrow>
        if s \<noteq> ALP_OK \<or> rx_len reply < 1 \<or> rx_byte reply 0 \<noteq> want then (False, st)
        else if want \<noteq> 0 then (True, st)
        else if cc_fw_proto_major (fst st) \<ge> 4 then (True, st)
        else case ol_diag_info lk st of ((ds, info), st) \<Rightarrow>
          (ds = ALP_OK \<and> (case info of None \<Rightarrow> False | Some i \<Rightarrow> di_uptime_ms i \<noteq> 0), st))"

definition update_mode_poll_ms :: "u32 \<Rightarrow> u32" where
  "update_mode_poll_ms timeout_ms = (if timeout_ms < 1200 then timeout_ms else 1200)"

partial_function (option) update_mode_loop ::
  "'w ota_link \<Rightarrow> u8 \<Rightarrow> u32 \<Rightarrow> u32 \<Rightarrow> 'w cc_st \<Rightarrow> (bool \<times> 'w cc_st) option" where
  "update_mode_loop lk want timeout_ms waited st =
     (case update_mode_reads_as lk want st of (ok, st) \<Rightarrow>
        if ok then Some (True, st)
        else if waited \<ge> timeout_ms then Some (False, st)
        else update_mode_loop lk want timeout_ms (waited + (250 + update_mode_poll_ms timeout_ms))
               (ol_delay_ms lk 250 st))"

declare update_mode_loop.simps [code]

definition cc3501e_ota_update_mode ::
  "'w ota_link \<Rightarrow> bool \<Rightarrow> u32 \<Rightarrow> 'w cc_st \<Rightarrow> (alp_status \<times> 'w cc_st) option" where
  "cc3501e_ota_update_mode lk enable timeout_ms st =
     (if \<not> cc_initialised (fst st) then Some (ALP_ERR_NOT_READY, st)
      else
        let want = (if enable then 1 else 0);
            st = (if enable then on_ctx (\<lambda>c. c\<lparr>cc_ota_session_active := True\<rparr>) st else st);
            confirmed = (\<lambda>st. let st = cc3501e_set_peer_polled enable st
                              in (ALP_OK, if enable then st else ota_session_over st))
        in case update_mode_reads_as lk want st of (ok, st) \<Rightarrow>
          if ok then Some (confirmed st)
          else do {
            (ok, st) \<leftarrow> update_mode_loop lk want timeout_ms 0 (ol_delay_ms lk 3500 st);
            Some (if ok then confirmed st
                  else case ol_hard_reset lk (cc3501e_set_peer_polled False st) of (_, st) \<Rightarrow>
                    (ALP_ERR_TIMEOUT, ota_session_over st))
          })"

definition ota_update_bail :: "'w ota_link \<Rightarrow> alp_status \<Rightarrow> u32 \<Rightarrow> 'w cc_st \<Rightarrow> (alp_status \<times> 'w cc_st) option" where
  "ota_update_bail lk s timeout_ms st = do {
     (_, st) \<leftarrow> cc3501e_ota_update_mode lk False timeout_ms st; Some (s, st) }"

section \<open>The whole update\<close>

text \<open>What one pass over a chunk decides: the chunk is in, try it again, or give up
  with a status.\<close>

datatype ota_pass = Landed | Retry | GiveUp alp_status

function ota_hold_off ::
  "'w ota_link \<Rightarrow> nat \<Rightarrow> u32 \<Rightarrow> u32 \<Rightarrow> 'w cc_st \<Rightarrow> (ota_pass \<times> 'w cc_st) option" where
  "ota_hold_off lk target timeout_ms waited st =
     (case cc3501e_ota_status lk (ota_poll_ms timeout_ms) st of
        None \<Rightarrow> None
      | Some ((s, out), st) \<Rightarrow>
          if s = ALP_OK \<and> map_option (\<lambda>o'. os_reserved o' ! 1) out = Some 0
          then Some (if map_option os_state out \<noteq> Some OTA_WRITING then GiveUp ALP_ERR_IO
                     else if (case out of None \<Rightarrow> False | Some o' \<Rightarrow> os_bytes_written o' \<ge> of_nat target)
                     then Landed else Retry, st)
          else if waited \<ge> 600000 then Some (GiveUp ALP_ERR_TIMEOUT, st)
          else ota_hold_off lk target timeout_ms (waited + (50 + ota_poll_ms timeout_ms)) (ol_delay_ms lk 50 st))"
  by pat_completeness auto
termination
proof (relation "measure (\<lambda>(lk, target, t, waited, st). 600000 - unat waited)", goal_cases)
  case (2 lk target t waited st)
  hence b: "\<not> 600000 \<le> waited" by simp
  hence "unat waited < 600000" by (simp add: word_le_nat_alt)
  thus ?case using ota_budget [OF b] by simp
qed simp

declare ota_hold_off.simps [simp del]

definition ota_chunk :: "'w ota_link \<Rightarrow> bytes \<Rightarrow> nat \<Rightarrow> nat \<Rightarrow> u32 \<Rightarrow> 'w cc_st \<Rightarrow> (ota_pass \<times> 'w cc_st) option" where
  "ota_chunk lk img off n timeout_ms st =
     (case cc3501e_ota_write lk (of_nat off) (Some (drop off img)) n st of (s, st) \<Rightarrow>
        if s = ALP_ERR_BUSY \<or> s = ALP_ERR_IO then ota_hold_off lk (off + n) timeout_ms 0 st
        else if s \<noteq> ALP_OK then do {
          ((ss, out), st) \<leftarrow> cc3501e_ota_status lk timeout_ms st;
          let off_u32 = alp_size_to_u32 (of_nat off :: u64) 0;
          let n_u32 = alp_size_to_u32 (of_nat n :: u64) 0;
          let expect = alp_u32_add_checked (snd off_u32) (snd n_u32) 0;
          let took = (ss = ALP_OK \<and> map_option os_state out = Some OTA_WRITING \<and> fst off_u32 \<and> fst n_u32
                      \<and> fst expect \<and> map_option os_bytes_written out = Some (snd expect));
          Some (if took then Landed else GiveUp s, st)
        }
        else Some (Landed, st))"

text \<open>The stream: an error exit aborts the session before it leaves update mode.\<close>

definition ota_give_up :: "'w ota_link \<Rightarrow> alp_status \<Rightarrow> u32 \<Rightarrow> 'w cc_st \<Rightarrow> (alp_status \<times> 'w cc_st) option" where
  "ota_give_up lk s timeout_ms st = do {
     (_, st) \<leftarrow> cc3501e_ota_abort lk timeout_ms st;
     ota_update_bail lk s timeout_ms st }"

definition ota_chunk_len :: "nat \<Rightarrow> nat \<Rightarrow> nat" where
  "ota_chunk_len chunk rest = (if rest > chunk then chunk else rest)"

text \<open>The streaming loop, from offset \<open>off\<close> with \<open>stall\<close> fruitless hold-offs behind it;
  \<open>None\<close> in the pair is the end of the stream, a status is an early return.\<close>

function ota_stream ::
  "'w ota_link \<Rightarrow> bytes \<Rightarrow> nat \<Rightarrow> nat \<Rightarrow> u32 \<Rightarrow> nat \<Rightarrow> nat \<Rightarrow> 'w cc_st \<Rightarrow> (alp_status option \<times> 'w cc_st) option" where
  "ota_stream lk img len chunk timeout_ms off stall st =
     (if off < len \<and> 0 < chunk then
        let n = ota_chunk_len chunk (len - off)
        in case ota_chunk lk img off n timeout_ms st of
             None \<Rightarrow> None
           | Some (Landed, st) \<Rightarrow> ota_stream lk img len chunk timeout_ms (off + n) 0 st
           | Some (Retry, st) \<Rightarrow>
               if stall + 1 \<ge> 8 then map_option (map_prod Some id) (ota_give_up lk ALP_ERR_IO timeout_ms st)
               else ota_stream lk img len chunk timeout_ms off (stall + 1) st
           | Some (GiveUp s, st) \<Rightarrow> map_option (map_prod Some id) (ota_give_up lk s timeout_ms st)
      else Some (None, st))"
  by pat_completeness auto
termination
  by (relation "measures [\<lambda>(lk, img, len, chunk, t, off, stall, st). len - off,
                          \<lambda>(lk, img, len, chunk, t, off, stall, st). 8 - stall]")
    (auto simp: ota_chunk_len_def)

declare ota_stream.simps [simp del]

definition cc3501e_ota_update ::
  "'w ota_link \<Rightarrow> bytes option \<Rightarrow> nat \<Rightarrow> u32 \<Rightarrow> 'w cc_st \<Rightarrow> (alp_status \<times> 'w cc_st) option" where
  "cc3501e_ota_update lk img len timeout_ms st =
     (case img of
        None \<Rightarrow> Some (ALP_ERR_INVAL, st)
      | Some img \<Rightarrow>
          if len = 0 then Some (ALP_ERR_INVAL, st)
          else case alp_size_to_u32 (of_nat len :: u64) 0 of (fits, total_len_u32) \<Rightarrow>
            if \<not> fits then Some (ALP_ERR_INVAL, st)
            else do {
              (s, st) \<leftarrow> cc3501e_ota_update_mode lk True timeout_ms st;
              if s \<noteq> ALP_OK then Some (s, st)
              else do {
                (s, st) \<leftarrow> cc3501e_ota_begin lk total_len_u32 timeout_ms st;
                if s \<noteq> ALP_OK then ota_update_bail lk s timeout_ms st
                else do {
                  (early, st) \<leftarrow> ota_stream lk img len (if g_peer_polled (fst st) then POLLED_OTA_CHUNK else 256)
                                   timeout_ms 0 0 st;
                  case early of
                    Some s \<Rightarrow> Some (s, st)
                  | None \<Rightarrow> do {
                      (fs, st) \<leftarrow> cc3501e_ota_finish lk timeout_ms st;
                      if fs \<noteq> ALP_OK then ota_update_bail lk fs timeout_ms st
                      else cc3501e_ota_promote lk timeout_ms st
                    }
                }
              }
            })"

section \<open>What the bridge firmware promises\<close>

text \<open>The documented view of the device: its session state, the bytes it has taken
  into the open session, and the image its last FINISH staged. On its own it may
  drop a session (a reset, a failed flush), never open, extend or stage one.\<close>

record ota_dev =
  dv_state :: u8
  dv_image :: bytes
  dv_staged :: "bytes option"

definition dev_quiet :: "ota_dev \<Rightarrow> ota_dev \<Rightarrow> bool" where
  "dev_quiet d d' \<longleftrightarrow>
     (dv_state d' = OTA_WRITING \<longrightarrow> dv_state d = OTA_WRITING \<and> dv_image d' = dv_image d) \<and>
     (dv_state d' = OTA_STAGED \<longrightarrow> dv_state d = OTA_STAGED) \<and> dv_staged d' = dv_staged d"

text \<open>A chunk is taken only at the write cursor, and a FINISH stages the open
  session's bytes.\<close>

definition dev_takes :: "u32 \<Rightarrow> bytes \<Rightarrow> ota_dev \<Rightarrow> ota_dev \<Rightarrow> bool" where
  "dev_takes off data d d' \<longleftrightarrow> dv_state d = OTA_WRITING \<and> unat off = length (dv_image d) \<and>
     d' = d\<lparr>dv_image := dv_image d @ data\<rparr>"

definition dev_stages :: "ota_dev \<Rightarrow> ota_dev \<Rightarrow> bool" where
  "dev_stages d d' \<longleftrightarrow> dv_state d = OTA_WRITING \<and>
     d' = d\<lparr>dv_state := OTA_STAGED, dv_staged := Some (dv_image d)\<rparr>"

text \<open>What one operation of the client may have done to the device. A reply may be
  lost, so only \<open>ALP_OK\<close> says that the request took effect.\<close>

definition begin_effect :: "ota_dev \<Rightarrow> ota_dev \<Rightarrow> bool" where
  "begin_effect d d' \<longleftrightarrow>
     (dv_state d' = OTA_WRITING \<longrightarrow> dv_image d' = [] \<or> dv_state d = OTA_WRITING \<and> dv_image d' = dv_image d) \<and>
     (dv_state d' = OTA_STAGED \<longrightarrow> dv_state d = OTA_STAGED)"

definition write_effect :: "u32 \<Rightarrow> bytes \<Rightarrow> alp_status \<Rightarrow> ota_dev \<Rightarrow> ota_dev \<Rightarrow> bool" where
  "write_effect off data s d d' \<longleftrightarrow>
     (\<exists>d1. (dev_takes off data d d1 \<or> s \<noteq> ALP_OK \<and> d1 = d) \<and> dev_quiet d1 d')"

definition finish_effect :: "alp_status \<Rightarrow> ota_dev \<Rightarrow> ota_dev \<Rightarrow> bool" where
  "finish_effect s d d' \<longleftrightarrow>
     (\<exists>d1. (dev_stages d d1 \<or> d1 = d \<and> (s = ALP_OK \<longrightarrow> dv_state d = OTA_STAGED)) \<and> dev_quiet d1 d')"

definition status_effect :: "alp_status \<Rightarrow> bytes option \<Rightarrow> ota_dev \<Rightarrow> ota_dev \<Rightarrow> bool" where
  "status_effect s rx d d' \<longleftrightarrow>
     (\<exists>d1. dev_quiet d d1 \<and> dev_quiet d1 d' \<and> (s = ALP_OK \<longrightarrow> rx_byte rx 0 = dv_state d1 \<and>
        (dv_state d1 = OTA_WRITING \<longrightarrow> rx_le32 rx 4 = of_nat (length (dv_image d1)))))"

definition ota_device :: "'w ota_link \<Rightarrow> ('w \<Rightarrow> ota_dev) \<Rightarrow> bool" where
  "ota_device lk dev \<longleftrightarrow>
     (\<forall>ms c w c' w'. ol_delay_ms lk ms (c, w) = (c', w') \<longrightarrow> dev_quiet (dev w) (dev w')) \<and>
     (\<forall>m cap c w s rx c' w'. ol_request lk CMD_OTA_UPDATE_MODE m cap (c, w) = (s, rx, c', w') \<longrightarrow>
        dev_quiet (dev w) (dev w')) \<and>
     (\<forall>tx c w s rx c' w'. ol_request lk CMD_OTA_BEGIN tx None (c, w) = (s, rx, c', w') \<longrightarrow>
        begin_effect (dev w) (dev w')) \<and>
     (\<forall>off data c w s rx c' w'. ol_request lk CMD_OTA_WRITE (ota_le32 off @ data) None (c, w) = (s, rx, c', w') \<longrightarrow>
        write_effect off data s (dev w) (dev w')) \<and>
     (\<forall>t c w s rx c' w'. ol_poll lk CMD_OTA_FINISH [] None t (c, w) = Some (s, rx, c', w') \<longrightarrow>
        finish_effect s (dev w) (dev w')) \<and>
     (\<forall>t c w s rx c' w'. ol_poll lk CMD_OTA_STATUS [] (Some 16) t (c, w) = Some (s, rx, c', w') \<longrightarrow>
        status_effect s rx (dev w) (dev w')) \<and>
     (\<forall>t c w s rx c' w'. ol_poll lk CMD_OTA_PROMOTE [] None t (c, w) = Some (s, rx, c', w') \<longrightarrow>
        dv_staged (dev w') = dv_staged (dev w))"

lemma ota_deviceD:
  assumes "ota_device lk dev"
  shows "ol_delay_ms lk ms st = st' \<Longrightarrow> dev_quiet (dev (snd st)) (dev (snd st'))"
    and "ol_request lk CMD_OTA_UPDATE_MODE m cap st = (s, rx, st') \<Longrightarrow> dev_quiet (dev (snd st)) (dev (snd st'))"
    and "ol_request lk CMD_OTA_BEGIN tx None st = (s, rx, st') \<Longrightarrow> begin_effect (dev (snd st)) (dev (snd st'))"
    and "ol_request lk CMD_OTA_WRITE (ota_le32 off @ data) None st = (s, rx, st') \<Longrightarrow>
         write_effect off data s (dev (snd st)) (dev (snd st'))"
    and "ol_poll lk CMD_OTA_FINISH [] None t st = Some (s, rx, st') \<Longrightarrow>
         finish_effect s (dev (snd st)) (dev (snd st'))"
    and "ol_poll lk CMD_OTA_STATUS [] (Some 16) t st = Some (s, rx, st') \<Longrightarrow>
         status_effect s rx (dev (snd st)) (dev (snd st'))"
    and "ol_poll lk CMD_OTA_PROMOTE [] None t st = Some (s, rx, st') \<Longrightarrow>
         dv_staged (dev (snd st')) = dv_staged (dev (snd st))"
  using assms unfolding ota_device_def by (cases st; cases st'; simp; fast)+

lemma dev_quiet_refl [simp]: "dev_quiet d d"
  by (simp add: dev_quiet_def)

lemma dev_quiet_trans [trans]: "dev_quiet d d1 \<Longrightarrow> dev_quiet d1 d2 \<Longrightarrow> dev_quiet d d2"
  by (auto simp: dev_quiet_def)

lemma ota_status_effect:
  assumes "ota_device lk dev" and "cc3501e_ota_status lk t st = Some ((s, out), st')"
  obtains d1 where "dev_quiet (dev (snd st)) d1" and "dev_quiet d1 (dev (snd st'))"
    and "s = ALP_OK \<Longrightarrow> \<exists>o'. out = Some o' \<and> os_state o' = dv_state d1 \<and>
           (dv_state d1 = OTA_WRITING \<longrightarrow> os_bytes_written o' = of_nat (length (dv_image d1)))"
proof -
  from assms(2) obtain s0 rx where p: "ol_poll lk CMD_OTA_STATUS [] (Some 16) t st = Some (s0, rx, st')"
    by (auto simp: cc3501e_ota_status_def bind_eq_Some_conv split: if_splits)
  from ota_deviceD(6) [OF assms(1) p] obtain d1 where d: "dev_quiet (dev (snd st)) d1" "dev_quiet d1 (dev (snd st'))"
      "s0 = ALP_OK \<longrightarrow> rx_byte rx 0 = dv_state d1 \<and> (dv_state d1 = OTA_WRITING \<longrightarrow> rx_le32 rx 4 = of_nat (length (dv_image d1)))"
    by (auto simp: status_effect_def)
  show thesis
    by (rule that [OF d(1,2)]) (use assms(2) p d(3) in \<open>auto simp: cc3501e_ota_status_def split: if_splits\<close>)
qed

lemma settle_loop_effect:
  assumes "ota_device lk dev" and "ota_settle_loop lk want t waited st = Some (s, st')"
  shows "dev_quiet (dev (snd st)) (dev (snd st'))"
    and "s = ALP_OK \<Longrightarrow> \<exists>d1. dev_quiet (dev (snd st)) d1 \<and> dev_quiet d1 (dev (snd st')) \<and> dv_state d1 = want"
proof -
  have "dev_quiet (dev (snd st)) (dev (snd st')) \<and>
      (s = ALP_OK \<longrightarrow> (\<exists>d1. dev_quiet (dev (snd st)) d1 \<and> dev_quiet d1 (dev (snd st')) \<and> dv_state d1 = want))"
    using assms
  proof (induction lk want t waited st rule: ota_settle_loop.induct)
    case (1 lk want t waited st)
    let ?d = "dev (snd st)" and ?d' = "dev (snd st')" and ?waited = "waited + (50 + ota_poll_ms t)"
    obtain s1 out st1 where p: "cc3501e_ota_status lk (ota_poll_ms t) st = Some ((s1, out), st1)"
      using "1.prems"(2) by (subst (asm) ota_settle_loop.simps) (auto split: option.splits)
    let ?yes = "s1 = ALP_OK \<and> map_option os_state out = Some want"
    let ?err = "s1 = ALP_OK \<and> map_option os_state out = Some OTA_ERROR"
    let ?st2 = "ol_delay_ms lk 50 st1"
    have run: "(if ?yes then Some (ALP_OK, st1) else if ?err then Some (ALP_ERR_IO, st1)
        else if waited \<ge> 60000 then Some (ALP_ERR_TIMEOUT, st1)
        else ota_settle_loop lk want t ?waited ?st2) = Some (s, st')"
      using "1.prems"(2) by (subst (asm) ota_settle_loop.simps) (simp add: p)
    obtain d1 where d1: "dev_quiet ?d d1" "dev_quiet d1 (dev (snd st1))"
        "s1 = ALP_OK \<Longrightarrow> \<exists>o'. out = Some o' \<and> os_state o' = dv_state d1 \<and>
           (dv_state d1 = OTA_WRITING \<longrightarrow> os_bytes_written o' = of_nat (length (dv_image d1)))"
      using ota_status_effect [OF "1.prems"(1) p] by blast
    note q1 = dev_quiet_trans [OF d1(1,2)]
    consider (yes) "?yes" "s = ALP_OK" "st' = st1" | (no) "s \<noteq> ALP_OK" "st' = st1"
      | (again) "\<not> ?yes" "\<not> ?err" "\<not> waited \<ge> 60000" "ota_settle_loop lk want t ?waited ?st2 = Some (s, st')"
      using run by (auto split: if_splits)
    thus ?case
    proof cases
      case yes
      thus ?thesis using d1 q1 by auto
    next
      case no
      thus ?thesis using q1 by simp
    next
      case again
      have q2: "dev_quiet ?d (dev (snd ?st2))"
        by (rule dev_quiet_trans [OF q1 ota_deviceD(1) [OF "1.prems"(1) refl]])
      have "dev_quiet (dev (snd ?st2)) ?d' \<and>
          (s = ALP_OK \<longrightarrow> (\<exists>d1. dev_quiet (dev (snd ?st2)) d1 \<and> dev_quiet d1 ?d' \<and> dv_state d1 = want))"
        by (rule "1.IH" [OF p refl refl]) (use again "1.prems"(1) in simp_all)
      thus ?thesis using q2 dev_quiet_trans by blast
    qed
  qed
  thus "dev_quiet (dev (snd st)) (dev (snd st'))"
    and "s = ALP_OK \<Longrightarrow> \<exists>d1. dev_quiet (dev (snd st)) d1 \<and> dev_quiet d1 (dev (snd st')) \<and> dv_state d1 = want"
    by blast+
qed

text \<open>The stream's invariant at offset \<open>off\<close>: an open session holds a prefix of the
  image that reaches at least there, and nothing is staged.\<close>

definition stream_inv :: "bytes \<Rightarrow> nat \<Rightarrow> ota_dev \<Rightarrow> bool" where
  "stream_inv img off d \<longleftrightarrow> dv_state d \<noteq> OTA_STAGED \<and>
     (dv_state d = OTA_WRITING \<longrightarrow>
        off \<le> length (dv_image d) \<and> length (dv_image d) \<le> length img \<and> dv_image d = take (length (dv_image d)) img)"

lemma stream_inv_quiet: "stream_inv img off d \<Longrightarrow> dev_quiet d d' \<Longrightarrow> stream_inv img off d'"
  by (auto simp: stream_inv_def dev_quiet_def)

lemma stream_inv_mono: "stream_inv img off d \<Longrightarrow> off' \<le> off \<Longrightarrow> stream_inv img off' d"
  by (auto simp: stream_inv_def)

lemma stream_inv_takes:
  assumes "stream_inv img k d" and "dev_takes off (take n (drop (unat off) img)) d d'"
    and "unat off + n \<le> length img"
  shows "stream_inv img (unat off + n) d'"
  using assms by (auto simp: stream_inv_def dev_takes_def take_add)

lemma begin_effect_inv:
  assumes "begin_effect d d'" and "dv_state d = OTA_WRITING \<Longrightarrow> dv_image d = []"
  shows "dv_state d' = OTA_WRITING \<Longrightarrow> dv_image d' = []"
  using assms by (auto simp: begin_effect_def)

lemma ota_begin_effect:
  assumes "ota_device lk dev" and "cc3501e_ota_begin lk n t st = Some (ALP_OK, st')"
    and "dv_state (dev (snd st)) = OTA_WRITING \<Longrightarrow> dv_image (dev (snd st)) = []"
  shows "stream_inv img 0 (dev (snd st'))"
proof -
  obtain s rx st1 where r: "ol_request lk CMD_OTA_BEGIN (ota_le32 n) None st = (s, rx, st1)" by (metis prod_cases3)
  let ?st2 = "if s \<noteq> ALP_OK \<and> s \<noteq> ALP_ERR_BUSY then ol_delay_ms lk 180000 st1 else st1"
  note e1 = ota_deviceD(3) [OF assms(1) r]
  have e2: "dev_quiet (dev (snd st1)) (dev (snd ?st2))" using ota_deviceD(1) [OF assms(1) refl] by simp
  have fresh: "dv_state d1 = OTA_WRITING \<Longrightarrow> dv_image d1 = []" if "dev_quiet (dev (snd st1)) d1" for d1
    using begin_effect_inv [OF e1 assms(3)] that by (auto simp: dev_quiet_def)
  have settled: "stream_inv img 0 (dev (snd st'))"
    if q: "dev_quiet (dev (snd st1)) (dev (snd st3))" and l: "ota_settled_as lk OTA_WRITING t st3 = Some (ALP_OK, st')" for st3
  proof -
    obtain d1 where d: "dev_quiet (dev (snd st3)) d1" "dev_quiet d1 (dev (snd st'))" "dv_state d1 = OTA_WRITING"
      using settle_loop_effect(2) [OF assms(1) l [unfolded ota_settled_as_def] refl] by blast
    thus ?thesis using fresh [OF dev_quiet_trans [OF q d(1)]] by (auto simp: stream_inv_def dev_quiet_def)
  qed
  obtain s1 st3 where l1: "ota_settled_as lk OTA_WRITING t ?st2 = Some (s1, st3)"
    and run: "(if s1 = ALP_OK then Some (ALP_OK, st3) else if s1 = ALP_ERR_IO then Some (ALP_ERR_IO, st3)
        else if s = ALP_ERR_BUSY then ota_settled_as lk OTA_WRITING t (ol_delay_ms lk 180000 st3) \<bind>
          (\<lambda>(s1, st). if s1 = ALP_OK then Some (ALP_OK, st) else if s1 = ALP_ERR_IO then Some (ALP_ERR_IO, st)
                      else Some (s, st))
        else Some (if s = ALP_OK then ALP_ERR_TIMEOUT else s, st3)) = Some (ALP_OK, st')"
    using assms(2) by (auto simp: cc3501e_ota_begin_def r bind_eq_Some_conv split: if_splits)
  have q3: "dev_quiet (dev (snd st1)) (dev (snd (ol_delay_ms lk 180000 st3)))"
    using dev_quiet_trans [OF dev_quiet_trans [OF e2 settle_loop_effect(1) [OF assms(1) l1 [unfolded ota_settled_as_def]]]
        ota_deviceD(1) [OF assms(1) refl]] .
  show ?thesis
  proof (cases "s1 = ALP_OK")
    case True
    thus ?thesis using run l1 settled [OF e2] by simp
  next
    case False
    hence "ota_settled_as lk OTA_WRITING t (ol_delay_ms lk 180000 st3) = Some (ALP_OK, st')"
      using run by (auto simp: bind_eq_Some_conv split: if_splits)
    thus ?thesis by (rule settled [OF q3])
  qed
qed

lemma write_frame_effect:
  assumes "ota_device lk dev" and "cc3501e_ota_write_frame lk (of_nat off) (drop off img) n st = (s, st')"
    and "off + n \<le> length img" and "length img < 2 ^ 32" and "stream_inv img k (dev (snd st))"
  shows "stream_inv img k (dev (snd st'))" and "s = ALP_OK \<Longrightarrow> stream_inv img (off + n) (dev (snd st'))"
proof -
  obtain rx where r: "ol_request lk CMD_OTA_WRITE (ota_le32 (of_nat off) @ take n (drop off img)) None st = (s, rx, st')"
    using assms(2) by (auto simp: cc3501e_ota_write_frame_def split: prod.splits)
  have off: "unat (of_nat off :: u32) = off" using assms(3,4) by (simp add: unat_of_nat)
  let ?d = "dev (snd st)" and ?d' = "dev (snd st')"
  from ota_deviceD(4) [OF assms(1) r] obtain d1 where d1: "dev_quiet d1 ?d'"
      "dev_takes (of_nat off) (take n (drop off img)) ?d d1 \<or> s \<noteq> ALP_OK \<and> d1 = ?d"
    by (auto simp: write_effect_def)
  have took: "stream_inv img (off + n) d1" "stream_inv img k d1"
    if "dev_takes (of_nat off) (take n (drop off img)) ?d d1"
  proof -
    have "dev_takes (of_nat off) (take n (drop (unat (of_nat off :: u32)) img)) ?d d1" using that off by simp
    from stream_inv_takes [OF assms(5) this] assms(3) off show i: "stream_inv img (off + n) d1" by simp
    have "k \<le> off" using that assms(5) off by (simp add: dev_takes_def stream_inv_def)
    thus "stream_inv img k d1" by (intro stream_inv_mono [OF i]) simp
  qed
  show "s = ALP_OK \<Longrightarrow> stream_inv img (off + n) ?d'" using d1 took(1) stream_inv_quiet by metis
  have "stream_inv img k d1" using d1(2) took(2) assms(5) by metis
  thus "stream_inv img k ?d'" by (rule stream_inv_quiet [OF _ d1(1)])
qed

text \<open>A split write keeps the invariant of its start, and moves it to its end when it
  succeeds.\<close>

lemma write_frames_effect:
  assumes "ota_device lk dev" and "off + len \<le> length img" and "length img < 2 ^ 32"
    and "ota_write_frames lk (of_nat off) (drop off img) len sent st = (s, st')"
    and "sent \<le> len" and "stream_inv img (off + sent) (dev (snd st))"
  shows "stream_inv img off (dev (snd st')) \<and> (s = ALP_OK \<longrightarrow> stream_inv img (off + len) (dev (snd st')))"
  using assms(4-)
proof (induction "len - sent" arbitrary: sent st rule: less_induct)
  case less
  show ?case
  proof (cases "sent < len")
    case True
    define n where "n = (if len - sent > POLLED_OTA_CHUNK then POLLED_OTA_CHUNK else len - sent)"
    obtain fs st1 where f: "cc3501e_ota_write_frame lk (of_nat off + of_nat sent) (drop sent (drop off img)) n st = (fs, st1)"
      by (metis prod.exhaust)
    have f': "cc3501e_ota_write_frame lk (of_nat (off + sent)) (drop (off + sent) img) n st = (fs, st1)"
      using f by (simp add: add.commute)
    have n: "0 < n" "sent + n \<le> len" "off + sent + n \<le> length img" using True assms(2) by (auto simp: n_def)
    note eff = write_frame_effect [OF assms(1) f' n(3) assms(3) less.prems(3)]
    have run: "(if fs \<noteq> ALP_OK then (fs, st1) else ota_write_frames lk (of_nat off) (drop off img) len (sent + n) st1) = (s, st')"
      using less.prems(1) True f by (subst (asm) ota_write_frames.simps) (simp add: Let_def f del: drop_drop flip: n_def)
    show ?thesis
    proof (cases "fs = ALP_OK")
      case True
      thus ?thesis
        by (intro less.hyps [of "sent + n" st1]) (use run n eff \<open>sent < len\<close> in \<open>auto simp: add.assoc\<close>)
    next
      case False
      thus ?thesis using run eff(1) stream_inv_mono by auto
    qed
  next
    case False
    thus ?thesis using less.prems stream_inv_mono by (subst (asm) ota_write_frames.simps) auto
  qed
qed

lemma ota_write_effect:
  assumes "ota_device lk dev" and "cc3501e_ota_write lk (of_nat off) (Some (drop off img)) n st = (s, st')"
    and "off + n \<le> length img" and "length img < 2 ^ 32" and "stream_inv img off (dev (snd st))"
  shows "stream_inv img off (dev (snd st'))" and "s = ALP_OK \<Longrightarrow> stream_inv img (off + n) (dev (snd st'))"
proof -
  have "stream_inv img off (dev (snd st')) \<and> (s = ALP_OK \<longrightarrow> stream_inv img (off + n) (dev (snd st')))"
    using assms(2) write_frame_effect [OF assms(1) _ assms(3-5)]
      write_frames_effect [OF assms(1,3,4), of 0 st s st'] assms(5)
    by (auto simp: cc3501e_ota_write_def split: if_splits)
  thus "stream_inv img off (dev (snd st'))" "s = ALP_OK \<Longrightarrow> stream_inv img (off + n) (dev (snd st'))" by blast+
qed

lemma hold_off_effect:
  assumes "ota_device lk dev" and "length img < 2 ^ 32" and "target \<le> length img"
    and "ota_hold_off lk target t waited st = Some (r, st')" and "stream_inv img off (dev (snd st))"
  shows "stream_inv img off (dev (snd st')) \<and> (r = Landed \<longrightarrow> stream_inv img target (dev (snd st')))"
  using assms
proof (induction lk target t waited st rule: ota_hold_off.induct)
  case (1 lk target t waited st)
  let ?inv = "\<lambda>k st. stream_inv img k (dev (snd st))" and ?waited = "waited + (50 + ota_poll_ms t)"
  obtain s1 out st1 where p: "cc3501e_ota_status lk (ota_poll_ms t) st = Some ((s1, out), st1)"
    using "1.prems"(4) by (subst (asm) ota_hold_off.simps) (auto split: option.splits)
  let ?up = "s1 = ALP_OK \<and> map_option (\<lambda>o'. os_reserved o' ! 1) out = Some 0"
  let ?st2 = "ol_delay_ms lk 50 st1"
  have run: "(if ?up then Some (if map_option os_state out \<noteq> Some OTA_WRITING then GiveUp ALP_ERR_IO
                  else if (case out of None \<Rightarrow> False | Some o' \<Rightarrow> os_bytes_written o' \<ge> of_nat target)
                  then Landed else Retry, st1)
      else if waited \<ge> 600000 then Some (GiveUp ALP_ERR_TIMEOUT, st1)
      else ota_hold_off lk target t ?waited ?st2) = Some (r, st')"
    using "1.prems"(4) by (subst (asm) ota_hold_off.simps) (simp add: p)
  obtain d1 where d1: "dev_quiet (dev (snd st)) d1" "dev_quiet d1 (dev (snd st1))"
      "s1 = ALP_OK \<Longrightarrow> \<exists>o'. out = Some o' \<and> os_state o' = dv_state d1 \<and>
         (dv_state d1 = OTA_WRITING \<longrightarrow> os_bytes_written o' = of_nat (length (dv_image d1)))"
    using ota_status_effect [OF "1.prems"(1) p] by blast
  have i1: "stream_inv img off d1" by (rule stream_inv_quiet [OF "1.prems"(5) d1(1)])
  have i: "?inv off st1" by (rule stream_inv_quiet [OF i1 d1(2)])
  consider (up) "?up" "st' = st1" | (slow) "r = GiveUp ALP_ERR_TIMEOUT" "st' = st1"
    | (again) "\<not> ?up" "\<not> waited \<ge> 600000" "ota_hold_off lk target t ?waited ?st2 = Some (r, st')"
    using run by (auto split: if_splits)
  thus ?case
  proof cases
    case up
    then obtain o' where o': "out = Some o'" "os_state o' = dv_state d1"
        "dv_state d1 = OTA_WRITING \<longrightarrow> os_bytes_written o' = of_nat (length (dv_image d1))"
      using d1(3) by blast
    have "?inv target st1" if "r = Landed"
    proof -
      have w: "dv_state d1 = OTA_WRITING" "of_nat target \<le> os_bytes_written o'"
        using run up o' that by (auto split: if_splits)
      hence "(of_nat target :: u32) \<le> of_nat (length (dv_image d1))" using o'(3) by simp
      moreover have "length (dv_image d1) < 2 ^ 32" using i1 w(1) "1.prems"(2) by (simp add: stream_inv_def)
      ultimately have "target \<le> length (dv_image d1)"
        using "1.prems"(2,3) by (simp add: word_le_nat_alt unat_of_nat)
      hence "stream_inv img target d1" using i1 w(1) by (simp add: stream_inv_def)
      thus ?thesis by (rule stream_inv_quiet [OF _ d1(2)])
    qed
    thus ?thesis using i up by simp
  next
    case slow
    thus ?thesis using i by simp
  next
    case again
    have "?inv off ?st2" by (rule stream_inv_quiet [OF i ota_deviceD(1) [OF "1.prems"(1) refl]])
    thus ?thesis by (intro "1.IH" [OF p refl refl]) (use again "1.prems" in simp_all)
  qed
qed

lemma hold_off_gives_up:
  "ota_hold_off lk target t waited st = Some (GiveUp e, st') \<Longrightarrow> e \<noteq> ALP_OK"
proof (induction lk target t waited st rule: ota_hold_off.induct)
  case (1 lk target t waited st)
  from "1.prems" show ?case
    by (subst (asm) ota_hold_off.simps) (auto split: option.splits if_splits dest: "1.IH" [OF _ refl refl])
qed

lemma u32_of_nat_inject:
  "a < 2 ^ 32 \<Longrightarrow> b < 2 ^ 32 \<Longrightarrow> (of_nat a :: u32) = of_nat b \<longleftrightarrow> a = b"
  by (simp add: word_unat_eq_iff unat_of_nat)

lemma ota_chunk_effect:
  assumes "ota_device lk dev" and "length img < 2 ^ 32" and "off + n \<le> length img"
    and "ota_chunk lk img off n t st = Some (r, st')" and "stream_inv img off (dev (snd st))"
  shows "stream_inv img off (dev (snd st'))" and "r = Landed \<Longrightarrow> stream_inv img (off + n) (dev (snd st'))"
proof -
  obtain s st1 where w: "cc3501e_ota_write lk (of_nat off) (Some (drop off img)) n st = (s, st1)" by (metis prod.exhaust)
  note i1 = ota_write_effect [OF assms(1) w assms(3,2,5)]
  let ?thesis' = "stream_inv img off (dev (snd st')) \<and> (r = Landed \<longrightarrow> stream_inv img (off + n) (dev (snd st')))"
  consider (hold) "ota_hold_off lk (off + n) t 0 st1 = Some (r, st')" | (ok) "s = ALP_OK" "st' = st1"
    | (sync) ss out where "s \<noteq> ALP_OK" "cc3501e_ota_status lk t st1 = Some ((ss, out), st')"
        "r = Landed \<longrightarrow> ss = ALP_OK \<and> map_option os_state out = Some OTA_WRITING \<and>
           map_option os_bytes_written out = Some (of_nat (off + n))"
  proof -
    have fit: "alp_size_to_u32 (of_nat k :: u64) 0 = (True, of_nat k)" if "k < 2 ^ 32" for k
      using that by (simp add: size_to_u32_eq unat_of_nat)
    have sum: "snd (alp_u32_add_checked a b 0) = a + b \<or> \<not> fst (alp_u32_add_checked a b 0)" for a b
      by (simp add: alp_u32_add_checked_def)
    show thesis
      using assms(2-4) hold ok sync sum [of "of_nat off" "of_nat n"]
      by (auto simp: ota_chunk_def w bind_eq_Some_conv fit Let_def split: if_splits)
  qed
  hence ?thesis'
  proof cases
    case hold
    from hold_off_effect [OF assms(1,2,3) this i1(1)] show ?thesis .
  next
    case ok
    thus ?thesis using i1 by simp
  next
    case sync
    obtain d1 where d1: "dev_quiet (dev (snd st1)) d1" "dev_quiet d1 (dev (snd st'))"
        "ss = ALP_OK \<Longrightarrow> \<exists>o'. out = Some o' \<and> os_state o' = dv_state d1 \<and>
           (dv_state d1 = OTA_WRITING \<longrightarrow> os_bytes_written o' = of_nat (length (dv_image d1)))"
      using ota_status_effect [OF assms(1) sync(2)] by blast
    have i2: "stream_inv img off d1" by (rule stream_inv_quiet [OF i1(1) d1(1)])
    have "stream_inv img (off + n) d1" if "r = Landed"
    proof -
      have "dv_state d1 = OTA_WRITING" "(of_nat (length (dv_image d1)) :: u32) = of_nat (off + n)"
        using sync(3) d1(3) that by auto
      moreover from this i2 assms(2) have "length (dv_image d1) < 2 ^ 32" by (simp add: stream_inv_def)
      ultimately have "length (dv_image d1) = off + n" using assms(2,3) u32_of_nat_inject [of "length (dv_image d1)" "off + n"] by linarith
      thus ?thesis using i2 by (simp add: stream_inv_def)
    qed
    thus ?thesis using stream_inv_quiet [OF _ d1(2)] i2 by blast
  qed
  thus "stream_inv img off (dev (snd st'))" "r = Landed \<Longrightarrow> stream_inv img (off + n) (dev (snd st'))" by blast+
qed

lemma ota_chunk_gives_up: "ota_chunk lk img off n t st = Some (GiveUp e, st') \<Longrightarrow> e \<noteq> ALP_OK"
  by (auto simp: ota_chunk_def bind_eq_Some_conv Let_def dest: hold_off_gives_up split: prod.splits if_splits)

lemma ota_update_bail_status: "ota_update_bail lk e t st = Some (s, st') \<Longrightarrow> s = e"
  by (auto simp: ota_update_bail_def bind_eq_Some_conv)

lemma ota_give_up_status: "ota_give_up lk e t st = Some (s, st') \<Longrightarrow> s = e"
  by (auto simp: ota_give_up_def ota_update_bail_def bind_eq_Some_conv)

lemma ota_stream_effect:
  assumes "ota_device lk dev" and "length img < 2 ^ 32" and "0 < chunk" and "off \<le> length img"
    and "ota_stream lk img (length img) chunk t off stall st = Some (early, st')"
    and "stream_inv img off (dev (snd st))"
  shows "early \<noteq> Some ALP_OK" and "early = None \<Longrightarrow> stream_inv img (length img) (dev (snd st'))"
proof -
  have "early \<noteq> Some ALP_OK \<and> (early = None \<longrightarrow> stream_inv img (length img) (dev (snd st')))"
    using assms
  proof (induction lk img "length img" chunk t off stall st rule: ota_stream.induct)
    case (1 lk img chunk t off stall st)
    show ?case
    proof (cases "off < length img")
      case False
      hence "early = None" "st' = st" using "1.prems"(5) ota_stream.simps [of lk img "length img" chunk t off stall st] by auto
      thus ?thesis using "1.prems"(4,6) False by simp
    next
      case True
      hence c: "off < length img \<and> 0 < chunk" using "1.prems"(3) by simp
      let ?n = "ota_chunk_len chunk (length img - off)"
      have n: "off + ?n \<le> length img" using True by (auto simp: ota_chunk_len_def)
      obtain r st1 where k: "ota_chunk lk img off ?n t st = Some (r, st1)"
        using "1.prems"(5) c by (subst (asm) ota_stream.simps) (auto simp: Let_def split: option.splits)
      note eff = ota_chunk_effect [OF "1.prems"(1,2) n k "1.prems"(6)]
      have run: "(case r of Landed \<Rightarrow> ota_stream lk img (length img) chunk t (off + ?n) 0 st1
         | Retry \<Rightarrow> if stall + 1 \<ge> 8 then map_option (map_prod Some id) (ota_give_up lk ALP_ERR_IO t st1)
                   else ota_stream lk img (length img) chunk t off (stall + 1) st1
         | GiveUp e \<Rightarrow> map_option (map_prod Some id) (ota_give_up lk e t st1)) = Some (early, st')"
        using "1.prems"(5) c k by (subst (asm) ota_stream.simps) (auto simp: Let_def split: ota_pass.splits)
      have quit: ?thesis if "map_option (map_prod Some id) (ota_give_up lk e t st1) = Some (early, st')" "e \<noteq> ALP_OK" for e
        using that ota_give_up_status [of lk e t st1] by auto
      show ?thesis
      proof (cases r)
        case Landed
        thus ?thesis
          by (intro "1.hyps"(1) [OF c refl k refl]) (use run eff(2) n "1.prems" in simp_all)
      next
        case Retry
        show ?thesis
        proof (cases "stall + 1 \<ge> 8")
          case True
          thus ?thesis by (intro quit [of ALP_ERR_IO]) (use run Retry in simp_all)
        next
          case False
          thus ?thesis
            by (intro "1.hyps"(2) [OF c refl k refl]) (use run Retry eff(1) "1.prems" in simp_all)
        qed
      next
        case (GiveUp e)
        thus ?thesis by (intro quit [of e]) (use run k in \<open>auto dest: ota_chunk_gives_up\<close>)
      qed
    qed
  qed
  thus "early \<noteq> Some ALP_OK" and "early = None \<Longrightarrow> stream_inv img (length img) (dev (snd st'))" by blast+
qed

lemma stream_complete:
  assumes "stream_inv img (length img) d" and "dev_stages d d1"
  shows "dv_staged d1 = Some img"
  using assms by (auto simp: stream_inv_def dev_stages_def)

lemma ota_session_over_world [simp]: "snd (ota_session_over st) = snd st"
  and set_peer_polled_world [simp]: "snd (cc3501e_set_peer_polled v st) = snd st"
  by (cases st; simp add: ota_session_over_def cc3501e_set_peer_polled_def on_ctx_def)+

lemma ota_finish_effect:
  assumes "ota_device lk dev" and "stream_inv img (length img) (dev (snd st))"
    and "cc3501e_ota_finish lk t st = Some (ALP_OK, st')"
  shows "dv_staged (dev (snd st')) = Some img"
proof -
  obtain s rx st1 where p: "ol_poll lk CMD_OTA_FINISH [] None t st = Some (s, rx, st1)"
    using assms(3) by (auto simp: cc3501e_ota_finish_def bind_eq_Some_conv)
  from ota_deviceD(5) [OF assms(1) p] obtain d1 where d1: "dev_quiet d1 (dev (snd st1))"
      "dev_stages (dev (snd st)) d1 \<or> d1 = dev (snd st) \<and> (s = ALP_OK \<longrightarrow> dv_state d1 = OTA_STAGED)"
    by (auto simp: finish_effect_def)
  have not_staged: "dv_state (dev (snd st)) \<noteq> OTA_STAGED" using assms(2) by (simp add: stream_inv_def)
  have done': "dv_staged d1 = Some img" if "dv_state d1 = OTA_STAGED"
    using d1(2) not_staged that stream_complete [OF assms(2)] by auto
  show ?thesis
  proof (cases "s = ALP_OK")
    case True
    hence "dv_state d1 = OTA_STAGED" using d1(2) by (auto simp: dev_stages_def)
    moreover have "snd st' = snd st1"
      using assms(3) p True by (auto simp: cc3501e_ota_finish_def cc3501e_ota_finish_confirmed_def)
    ultimately show ?thesis using done' d1(1) by (simp add: dev_quiet_def)
  next
    case False
    obtain st2 where l: "ota_settled_as lk OTA_STAGED t st1 = Some (ALP_OK, st2)" "snd st' = snd st2"
      using assms(3) p False
      by (auto simp: cc3501e_ota_finish_def cc3501e_ota_finish_confirmed_def bind_eq_Some_conv split: if_splits)
    obtain d2 where d2: "dev_quiet (dev (snd st1)) d2" "dev_quiet d2 (dev (snd st2))" "dv_state d2 = OTA_STAGED"
      using settle_loop_effect(2) [OF assms(1) l(1) [unfolded ota_settled_as_def] refl] by blast
    hence "dv_state d1 = OTA_STAGED" using d1(1) by (simp add: dev_quiet_def)
    thus ?thesis using done' d1(1) d2 l(2) by (simp add: dev_quiet_def)
  qed
qed

lemma ota_promote_effect:
  assumes "ota_device lk dev" and "cc3501e_ota_promote lk t st = Some (s, st')"
  shows "dv_staged (dev (snd st')) = dv_staged (dev (snd st))"
proof -
  obtain ss out st1 where p: "cc3501e_ota_status lk t st = Some ((ss, out), st1)"
    using assms(2) by (auto simp: cc3501e_ota_promote_def bind_eq_Some_conv)
  have q: "dev_quiet (dev (snd st)) (dev (snd st1))"
    using ota_status_effect [OF assms(1) p] dev_quiet_trans by metis
  have "dv_staged (dev (snd st')) = dv_staged (dev (snd st1))"
    using assms(2) p by (auto simp: cc3501e_ota_promote_def bind_eq_Some_conv split: if_splits
        dest: ota_deviceD(7) [OF assms(1), where st = st1])
  thus ?thesis using q by (simp add: dev_quiet_def)
qed

lemma reads_as_effect:
  assumes "ota_device lk dev" and "update_mode_reads_as lk 1 st = (ok, st')"
  shows "dev_quiet (dev (snd st)) (dev (snd st'))"
proof -
  obtain s rx st1 where r: "ol_request lk CMD_OTA_UPDATE_MODE [1] (Some 4) st = (s, rx, st1)" by (metis prod_cases3)
  hence "st' = st1" using assms(2) by (simp add: update_mode_reads_as_def split: if_splits)
  thus ?thesis using ota_deviceD(2) [OF assms(1) r] by simp
qed

lemma update_mode_loop_effect:
  fixes lk :: "'w ota_link"
  assumes "ota_device lk dev" and "update_mode_loop lk 1 t waited st = Some (ok, st')"
  shows "dev_quiet (dev (snd st)) (dev (snd st'))"
proof -
  have "ota_device lk dev \<longrightarrow> (1 :: u8) = 1 \<longrightarrow> dev_quiet (dev (snd st)) (dev (snd (snd (ok, st'))))"
  proof (rule update_mode_loop.raw_induct [where P = "\<lambda>lk want t waited st r. ota_device lk dev \<longrightarrow> want = 1 \<longrightarrow>
        dev_quiet (dev (snd st)) (dev (snd (snd r)))", OF _ assms(2)], intro impI)
    fix f lk want t waited st r
    assume IH: "\<And>lk want t waited st r. f lk want t waited st = Some r \<Longrightarrow>
          ota_device lk dev \<longrightarrow> want = 1 \<longrightarrow> dev_quiet (dev (snd st)) (dev (snd (snd r)))"
      and eq: "(case update_mode_reads_as lk want st of (ok, st) \<Rightarrow>
        if ok then Some (True, st) else if waited \<ge> t then Some (False, st)
        else f lk want t (waited + (250 + update_mode_poll_ms t)) (ol_delay_ms lk 250 st)) = Some r"
      and dev: "ota_device lk dev" and want: "want = 1"
    obtain ok1 st1 where a: "update_mode_reads_as lk 1 st = (ok1, st1)" by (metis prod.exhaust)
    have q1: "dev_quiet (dev (snd st)) (dev (snd st1))" by (rule reads_as_effect [OF dev a])
    have q2: "dev_quiet (dev (snd st1)) (dev (snd (ol_delay_ms lk 250 st1)))" by (rule ota_deviceD(1) [OF dev refl])
    show "dev_quiet (dev (snd st)) (dev (snd (snd r)))"
      using eq q1 IH [of lk 1 t "waited + (250 + update_mode_poll_ms t)" "ol_delay_ms lk 250 st1" r] dev
        dev_quiet_trans [OF dev_quiet_trans [OF q1 q2]]
      by (auto simp: want a split: if_splits)
  qed
  thus ?thesis using assms(1) by simp
qed

lemma update_mode_effect:
  assumes "ota_device lk dev" and "cc3501e_ota_update_mode lk True t st = Some (ALP_OK, st')"
  shows "dev_quiet (dev (snd st)) (dev (snd st'))"
proof -
  let ?st = "on_ctx (\<lambda>c. c\<lparr>cc_ota_session_active := True\<rparr>) st"
  have w: "snd ?st = snd st" by (cases st) (simp add: on_ctx_def)
  obtain ok1 st1 where a: "update_mode_reads_as lk 1 ?st = (ok1, st1)" by (metis prod.exhaust)
  have q1: "dev_quiet (dev (snd st)) (dev (snd st1))" using reads_as_effect [OF assms(1) a] w by simp
  show ?thesis
  proof (cases ok1)
    case True
    thus ?thesis using assms(2) a q1 by (auto simp: cc3501e_ota_update_mode_def Let_def split: if_splits)
  next
    case False
    then obtain st2 where l: "update_mode_loop lk 1 t 0 (ol_delay_ms lk 3500 st1) = Some (True, st2)" "snd st' = snd st2"
      using assms(2) a by (auto simp: cc3501e_ota_update_mode_def Let_def bind_eq_Some_conv split: if_splits prod.splits)
    show ?thesis
      using dev_quiet_trans [OF dev_quiet_trans [OF q1 ota_deviceD(1) [OF assms(1) refl]] update_mode_loop_effect [OF assms(1) l(1)]]
        l(2) by simp
  qed
qed

text \<open>The update of an image that fits the wire's length field.\<close>

lemma ota_update_fits:
  assumes "img \<noteq> []" and "length img < 2 ^ 32"
  shows "cc3501e_ota_update lk (Some img) (length img) t st =
    cc3501e_ota_update_mode lk True t st \<bind> (\<lambda>(s, st). if s \<noteq> ALP_OK then Some (s, st)
      else cc3501e_ota_begin lk (of_nat (length img)) t st \<bind> (\<lambda>(s, st). if s \<noteq> ALP_OK then ota_update_bail lk s t st
        else ota_stream lk img (length img) (if g_peer_polled (fst st) then POLLED_OTA_CHUNK else 256) t 0 0 st \<bind>
          (\<lambda>(early, st). case early of Some s \<Rightarrow> Some (s, st)
             | None \<Rightarrow> cc3501e_ota_finish lk t st \<bind> (\<lambda>(fs, st). if fs \<noteq> ALP_OK then ota_update_bail lk fs t st
                 else cc3501e_ota_promote lk t st))))"
  using assms by (simp add: cc3501e_ota_update_def size_to_u32_eq unat_of_nat)


section \<open>A device to run against\<close>

text \<open>It follows the documentation, is already in update mode, and loses the reply to
  its second write and to its first FINISH. The world is the device and the
  number of requests it has seen.\<close>

type_synonym sim = "ota_dev \<times> nat"

definition sim_request :: "cc_cmd \<Rightarrow> bytes \<Rightarrow> nat option \<Rightarrow> sim cc_st \<Rightarrow> alp_status \<times> bytes option \<times> sim cc_st" where
  "sim_request cmd tx cap = (\<lambda>(c, d, k).
     if cmd = CMD_OTA_UPDATE_MODE then (ALP_OK, Some (take 1 tx @ [0, 0, 0]), c, d, k + 1)
     else if cmd = CMD_OTA_BEGIN then
       (if dv_state d = OTA_WRITING \<and> dv_image d \<noteq> [] then (ALP_ERR_INVAL, None, c, d, k + 1)
        else (ALP_OK, None, c, d\<lparr>dv_state := OTA_WRITING, dv_image := []\<rparr>, k + 1))
     else if cmd = CMD_OTA_WRITE then
       (if dv_state d = OTA_WRITING \<and> unat (rx_le32 (Some tx) 0) = length (dv_image d)
        then (if k = 3 then ALP_ERR_IO else ALP_OK, None, c, d\<lparr>dv_image := dv_image d @ drop 4 tx\<rparr>, k + 1)
        else (ALP_ERR_INVAL, None, c, d, k + 1))
     else (ALP_ERR_INVAL, None, c, d, k + 1))"

definition sim_poll ::
  "cc_cmd \<Rightarrow> bytes \<Rightarrow> nat option \<Rightarrow> u32 \<Rightarrow> sim cc_st \<Rightarrow> (alp_status \<times> bytes option \<times> sim cc_st) option" where
  "sim_poll cmd tx cap t = (\<lambda>(c, d, k).
     if cmd = CMD_OTA_STATUS then
       Some (ALP_OK, Some ([dv_state d, 0, 0, 0] @ ota_le32 (of_nat (length (dv_image d))) @ [0, 0, 0, 0]
               @ [if dv_staged d = None then 0 else PENDING_STAGED, 0, 0, 0]), c, d, k)
     else if cmd = CMD_OTA_FINISH then
       (if dv_state d = OTA_WRITING
        then Some (ALP_ERR_IO, None, c, d\<lparr>dv_state := OTA_STAGED, dv_staged := Some (dv_image d)\<rparr>, k)
        else Some (if dv_state d = OTA_STAGED then ALP_OK else ALP_ERR_INVAL, None, c, d, k))
     else if cmd = CMD_OTA_ABORT then Some (ALP_OK, None, c, d\<lparr>dv_state := OTA_IDLE\<rparr>, k)
     else Some (ALP_OK, None, c, d, k))"

definition sim_link :: "sim ota_link" where
  "sim_link = \<lparr>ol_request = sim_request, ol_poll = sim_poll, ol_diag_info = (\<lambda>st. ((ALP_ERR_IO, None), st)),
     ol_hard_reset = (\<lambda>st. (ALP_OK, st)), ol_delay_ms = (\<lambda>ms st. st)\<rparr>"

lemma ota_le32_parts:
  "ucast (ucast (v AND 0xFF) :: u8) OR push_bit 8 (ucast (ucast (drop_bit 8 v AND 0xFF) :: u8))
     OR push_bit 16 (ucast (ucast (drop_bit 16 v AND 0xFF) :: u8))
     OR push_bit 24 (ucast (ucast (drop_bit 24 v AND 0xFF) :: u8)) = (v :: u32)"
proof -
  have m: "x AND 0xFF = take_bit 8 x" for x :: u32 by (simp add: take_bit_eq_mask mask_eq_exp_minus_1)
  show ?thesis unfolding m
  proof (rule bit_word_eqI)
    fix n
    assume "n < LENGTH(32)"
    hence n: "n < 32" by simp
    consider "n < 8" | "8 \<le> n" "n < 16" | "16 \<le> n" "n < 24" | "24 \<le> n" by linarith
    thus "bit (ucast (ucast (take_bit 8 v) :: u8) OR push_bit 8 (ucast (ucast (take_bit 8 (drop_bit 8 v)) :: u8))
        OR push_bit 16 (ucast (ucast (take_bit 8 (drop_bit 16 v)) :: u8))
        OR push_bit 24 (ucast (ucast (take_bit 8 (drop_bit 24 v)) :: u8)) :: u32) n \<longleftrightarrow> bit v n"
      using n by cases (auto simp: bit_simps bit_ucast_iff)
  qed
qed

lemma rx_le32_ota: "rx_le32 (Some (ota_le32 v @ r)) 0 = v"
  "rx_le32 (Some (a # b # c # d # ota_le32 v @ r)) 4 = v"
  using ota_le32_parts [of v] by (simp_all add: rx_le32_def rx_byte_def ota_le32_def)

lemma sim_device: "ota_device sim_link fst"
proof -
  have q: "dev_takes off data d d1 \<Longrightarrow> write_effect off data s d d1" for off data s d d1
    unfolding write_effect_def using dev_quiet_refl by blast
  have "write_effect off data s (fst w) (fst w')"
    if "sim_request CMD_OTA_WRITE (ota_le32 off @ data) None (c, w) = (s, rx, c', w')" for off data c w s rx c' w'
  proof -
    have "drop 4 (ota_le32 off @ data) = data" by (simp add: ota_le32_def)
    thus ?thesis
      using that
      by (cases w) (auto simp: sim_request_def rx_le32_ota dev_takes_def write_effect_def intro: q split: if_splits)
  qed
  moreover have "begin_effect (fst w) (fst w')"
    if "sim_request CMD_OTA_BEGIN tx None (c, w) = (s, rx, c', w')" for tx c w s rx c' w'
    using that by (cases w) (auto simp: sim_request_def begin_effect_def split: if_splits)
  moreover have "dev_quiet (fst w) (fst w')"
    if "sim_request CMD_OTA_UPDATE_MODE m cap (c, w) = (s, rx, c', w')" for m cap c w s rx c' w'
    using that by (cases w) (auto simp: sim_request_def split: if_splits)
  moreover have "finish_effect s (fst w) (fst w')"
    if "sim_poll CMD_OTA_FINISH [] None t (c, w) = Some (s, rx, c', w')" for t c w s rx c' w'
    using that by (cases w) (auto simp: sim_poll_def finish_effect_def dev_stages_def split: if_splits)
  moreover have "status_effect s rx (fst w) (fst w')"
    if "sim_poll CMD_OTA_STATUS [] (Some 16) t (c, w) = Some (s, rx, c', w')" for t c w s rx c' w'
  proof -
    obtain d k where w: "w = (d, k)" by (cases w)
    have "w' = w" "rx_byte rx 0 = dv_state d" "rx_le32 rx 4 = of_nat (length (dv_image d))"
      using that rx_le32_ota(2) [of "dv_state d" 0 0 0] by (auto simp: sim_poll_def w rx_byte_def)
    thus ?thesis unfolding status_effect_def w by (intro exI [of _ d]) simp
  qed
  moreover have "dv_staged (fst w') = dv_staged (fst w)"
    if "sim_poll CMD_OTA_PROMOTE [] None t (c, w) = Some (s, rx, c', w')" for t c w s rx c' w'
    using that by (cases w) (auto simp: sim_poll_def)
  ultimately show ?thesis
    unfolding ota_device_def by (auto simp: sim_link_def)
qed

text \<open>The run: a 40-byte image, whose second chunk's reply is lost.\<close>

definition sim_start :: "bytes \<Rightarrow> u8 \<Rightarrow> sim cc_st" where
  "sim_start taken state = (cc_zero\<lparr>cc_initialised := True, cc_fw_proto_major := 4, cc_rx_scratch := []\<rparr>,
     \<lparr>dv_state = state, dv_image = taken, dv_staged = None\<rparr>, 0)"


section \<open>What the confirmations do not see\<close>

lemma alp_size_to_u32_int [code]:
  "alp_size_to_u32 (v :: 'a::len word) out = (if LENGTH('a) > 32 \<and> uint v > 4294967295 then (False, out) else (True, ucast v))"
proof -
  have "unat v > 2 ^ 32 - 1 \<longleftrightarrow> uint v > 4294967295" by (simp flip: of_nat_less_iff [where 'a = int])
  thus ?thesis by (simp add: alp_size_to_u32_def)
qed

text \<open>BEGIN reads its verdict off the session state alone: a device that refuses the
  BEGIN because another session is open is reported as ready, so an update that
  follows a single chunk of another image splices the two, and the documented
  device stages the splice.\<close>

theorem ota_update_splices_stale_session:
  "\<exists>st'. cc3501e_ota_update sim_link (Some (map of_nat [1..<41])) 40 1000 (sim_start (replicate 16 0xEE) OTA_WRITING)
       = Some (ALP_OK, st') \<and>
     dv_staged (fst (snd st')) = Some (replicate 16 0xEE @ map of_nat [17..<41])"
proof -
  let ?img = "map of_nat [1..<41] :: bytes"
  have "map_option (\<lambda>(s, c, d, k). (s, dv_staged d))
      (cc3501e_ota_update sim_link (Some ?img) (length ?img) 1000 (sim_start (replicate 16 0xEE) OTA_WRITING))
    = Some (ALP_OK, Some (replicate 16 0xEE @ map of_nat [17..<41]))"
    by (subst ota_update_fits, simp, simp, code_simp)
  thus ?thesis by auto
qed

section \<open>Leaving the confirm loop of update mode\<close>

lemma update_mode_loop_returns:
  assumes "unat t + 1450 \<le> 2 ^ 32"
  shows "\<exists>r. update_mode_loop lk want t waited st = Some r"
proof (induction "2 ^ 32 - unat waited" arbitrary: waited st rule: less_induct)
  case less
  obtain ok st1 where r: "update_mode_reads_as lk want st = (ok, st1)" by (metis prod.exhaust)
  have "\<exists>r. update_mode_loop lk want t (waited + (250 + update_mode_poll_ms t)) (ol_delay_ms lk 250 st1) = Some r"
    if "\<not> t \<le> waited"
  proof (rule less.hyps)
    have p: "unat (update_mode_poll_ms t) \<le> 1200"
      by (simp add: update_mode_poll_ms_def word_le_nat_alt word_less_nat_alt)
    moreover have "unat waited < unat t" using that by (simp add: word_le_nat_alt)
    ultimately have "unat (waited + (250 + update_mode_poll_ms t)) = unat waited + 250 + unat (update_mode_poll_ms t)"
      using assms by (simp add: unat_word_ariths)
    thus "2 ^ 32 - unat (waited + (250 + update_mode_poll_ms t)) < 2 ^ 32 - unat waited"
      using \<open>unat waited < unat t\<close> assms by linarith
  qed
  thus ?case by (subst update_mode_loop.simps) (auto simp: r)
qed

text \<open>
  C27. Entering or leaving update mode returns for every budget up to
  \<open>2 ^ 32 - 1450\<close> ms, whatever the device answers: the 32-bit count of the charged
  time cannot wrap before it passes the budget.\<close>

theorem update_mode_returns:
  assumes "unat timeout_ms + 1450 \<le> 2 ^ 32"
  shows "\<exists>s st'. cc3501e_ota_update_mode lk enable timeout_ms st = Some (s, st')"
proof -
  obtain ok st1 where "update_mode_reads_as lk (if enable then 1 else 0)
      (if enable then on_ctx (\<lambda>c. c\<lparr>cc_ota_session_active := True\<rparr>) st else st) = (ok, st1)"
    by (metis prod.exhaust)
  thus ?thesis
    using update_mode_loop_returns [OF assms, of lk "if enable then 1 else 0" 0 "ol_delay_ms lk 3500 st1"]
    by (auto simp: cc3501e_ota_update_mode_def Let_def split: prod.splits)
qed

theorem update_mode_returns_witness:
  "\<exists>s st'. cc3501e_ota_update_mode sim_link True 20000 (sim_start [] OTA_IDLE) = Some (s, st')"
  by (rule update_mode_returns) simp

text \<open>With the budget \<open>UINT32_MAX\<close> the count, which moves in steps of 1450, wraps
  without ever equalling it: against a device that never answers, the call does
  not return and the hard reset that should end it is never reached.\<close>

theorem update_mode_hangs_at_max:
  assumes "\<And>cmd tx cap st. fst (ol_request lk cmd tx cap st) \<noteq> ALP_OK" and "cc_initialised (fst st)"
  shows "cc3501e_ota_update_mode lk enable (- 1) st = None"
proof -
  have dead: "\<exists>st1. update_mode_reads_as lk want st = (False, st1)" for want st
  proof -
    obtain s rx st1 where r: "ol_request lk CMD_OTA_UPDATE_MODE [want] (Some 4) st = (s, rx, st1)" by (metis prod_cases3)
    thus ?thesis using assms(1) [of CMD_OTA_UPDATE_MODE "[want]" "Some 4" st] by (simp add: update_mode_reads_as_def)
  qed
  have loop: "update_mode_loop lk want (- 1) waited st = None" if "even waited" for want waited st
  proof (rule ccontr)
    assume "update_mode_loop lk want (- 1) waited st \<noteq> None"
    then obtain r where ret: "update_mode_loop lk want (- 1) waited st = Some r" by blast
    have "lk = lk \<longrightarrow> (- 1 :: u32) = - 1 \<longrightarrow> even waited \<longrightarrow> False"
    proof (rule update_mode_loop.raw_induct [where P = "\<lambda>lk' want t waited st r. lk' = lk \<longrightarrow> t = - 1 \<longrightarrow> even waited \<longrightarrow> False", OF _ ret],
        intro impI)
      fix f lk' want t waited st r
      assume IH: "\<And>lk' want t waited st r. f lk' want t waited st = Some r \<Longrightarrow>
            lk' = lk \<longrightarrow> t = - 1 \<longrightarrow> even waited \<longrightarrow> False"
        and eq: "(case update_mode_reads_as lk' want st of (ok, st) \<Rightarrow>
          if ok then Some (True, st) else if waited \<ge> t then Some (False, st)
          else f lk' want t (waited + (250 + update_mode_poll_ms t)) (ol_delay_ms lk' 250 st)) = Some r"
        and lk: "lk' = lk" and t: "t = - 1" and ev: "even waited"
      obtain st1 where a: "update_mode_reads_as lk want st = (False, st1)" using dead by blast
      have "\<not> - 1 \<le> waited"
      proof
        assume "- 1 \<le> waited"
        hence "waited = - 1" by (simp add: word_order.extremum_unique)
        thus False using ev by simp
      qed
      moreover have "update_mode_poll_ms (- 1) = 1200" by (simp add: update_mode_poll_ms_def)
      ultimately have "f lk want (- 1) (waited + 1450) (ol_delay_ms lk 250 st1) = Some r"
        using eq a by (simp add: lk t)
      from IH [OF this] show False using ev by simp
    qed
    thus False using that by simp
  qed
  let ?want = "if enable then 1 else 0" and
    ?st = "if enable then on_ctx (\<lambda>c. c\<lparr>cc_ota_session_active := True\<rparr>) st else st"
  obtain st1 where "update_mode_reads_as lk ?want ?st = (False, st1)" using dead by blast
  thus ?thesis using assms(2) loop [of 0 ?want] by (simp add: cc3501e_ota_update_mode_def Let_def)
qed

section \<open>The window between FINISH and PROMOTE\<close>

declare poll_loop.simps [code]

text \<open>A bus that never answers; the world is the time and the number of reset pulses.\<close>

definition mute_port :: "(u64 \<times> nat) cc_port" where
  "mute_port =
    \<lparr>auto_recover_on = True, spi_xfer = (\<lambda>tx rx w. (ALP_ERR_IO, [], w)), ready_read = (\<lambda>w. (ALP_OK, True, w)),
     reset_write = (\<lambda>v (t, n). (t, if v then n else n + 1)), enable_write = (\<lambda>v w. w), delay_us = (\<lambda>us w. w),
     delay_ms = (\<lambda>ms (c, t, n). (c, t + ucast ms, n)), uptime_us = (\<lambda>(t, n). t * 1000), uptime_ms = (\<lambda>(t, n). t),
     attn_set_armed = (\<lambda>v w. w), recover_cb = (\<lambda>n st. st)\<rparr>"

definition mute_start :: "bool \<Rightarrow> (u64 \<times> nat) cc_st" where
  "mute_start active = (cc_zero\<lparr>cc_initialised := True, cc_fw_proto_major := 4, cc_reset_pin := True,
     cc_ota_session_active := active, cc_rx_scratch := [0, 0, 0, 0]\<rparr>, 1000, 0)"

text \<open>A PROMOTE whose status read draws no answer resets the device, because the
  FINISH before it has already closed the session that forbids a reset; with
  the session still open, the same call leaves the reset line alone.\<close>

theorem promote_window_unguarded:
  "map_option (\<lambda>(s, c, t, n). (s, n)) (cc3501e_ota_promote (ota_link_of mute_port) 100 (ota_session_over (mute_start True)))
     = Some (ALP_ERR_TIMEOUT, 1) \<and>
   map_option (\<lambda>(s, c, t, n). (s, n)) (cc3501e_ota_promote (ota_link_of mute_port) 100 (mute_start True))
     = Some (ALP_ERR_TIMEOUT, 0)"
  by (rule conjI; code_simp)

end
