(* ===== verification/Spec2Isabelle.thy ===== *)
theory Spec2Isabelle
  imports Nvs_Tier Tfm_Owner Update_Log_Dispatch I2c_Regfile Checked_Arith Engine_Lock Boot_Providers
    Timer_Dispatch Dsp_Decimator Fast_Memcpy Rpc_Dispatch Model_Package Mproc_Frame Eeprom_24c128
    Cc3501e_Ota
begin

text \<open>
  The portable core of the ALP SDK.

  The program.  The SDK gives one C interface to peripherals and services of several SoMs.  Each class
  (counter, RTC, watchdog, RPC, update log, ...) has a dispatcher \<^verbatim>\<open>src/<class>_dispatch.c\<close> with the public
  entry points.  It elects a backend among those the linker collected (\<^verbatim>\<open>src/backend.c\<close>), claims a handle
  from a static pool and guards it (\<^verbatim>\<open>src/common/alp_slot_claim.h\<close>), and calls the backend through its
  operation table.  The update log is the largest service: an append-only, hash-chained record of
  firmware updates (\<^verbatim>\<open>src/update_log/engine.c\<close>) over three seams, a key-value store, a monotonic counter
  and a rollback anchor, that each tier implements.  Beside these stand self-contained algorithms: the
  decimator, the word-wise copy, the register-file I2C target, the model-package reader, the mailbox
  frame and the EEPROM driver.  The largest chip driver, for the CC3501E radio bridge, is a protocol
  client: a CRC-framed exchange over SPI, link recovery, polling, and a firmware updater on top.

  Conventions.  A function of C is a HOL function over the state it touches, returned updated.  Machine
  integers are words of their width; \<^verbatim>\<open>size_t\<close> is a word of any width, or a natural number where the code
  never adds to it.  Pointers that may be \<^verbatim>\<open>NULL\<close> are options, output parameters are passed in and
  returned.  Buffers are byte lists; a read or write outside one is \<open>None\<close> where the code handles
  untrusted bytes.  What lies outside \<^verbatim>\<open>src/\<close> or behind an operation table (backends, PSA storage, NVS, the
  CBOR library, the I2C controller, the Zephyr counter) is a parameter with its documented behaviour as
  a hypothesis.  Concurrent code is split at its atomic accesses into a step relation over threads.

  The theories, from the bottom up.

  \<^item> \<open>Alp_Prelude\<close>: integer types, \<^verbatim>\<open>alp_status_t\<close> (\<^verbatim>\<open>include/alp/peripheral.h\<close>), buffers, little-endian words
    and their facts, counting of threads.
  \<^item> \<open>Sha256\<close>: \<^verbatim>\<open>src/update_log/sha256.c\<close>; the streaming hash equals the padded-block definition.
  \<^item> \<open>Ulog_Codec\<close>, \<open>Ulog_Engine\<close>: \<^verbatim>\<open>src/update_log/engine.c\<close>, its wire formats and keys, then recovery, anchor,
    append, verify, count and get over abstract seams.
  \<^item> \<open>Ulog_Spec\<close>, \<open>Ulog_Contract\<close>, \<open>Ulog_Live\<close>, \<open>Ulog_Keys\<close>: the abstract log (a map from sequence numbers to
    entries), the locales \<open>ulog_seams\<close> and \<open>ulog_seams_live\<close> that state what a tier owes the engine, and what
    the engine owes its callers: an append adds one entry or none, recovery loses nothing committed,
    verify's verdict is the chain's, a tampered chain collides or is found.
  \<^item> \<open>Sw_Tier\<close>, \<open>Nvs_Tier\<close>: \<^verbatim>\<open>src/backends/update_log/sw_tier.c\<close> in its RAM and persistent builds; \<open>Tfm_Owner\<close>:
    \<^verbatim>\<open>src/update_log/tfm_psa_secure_owner.c\<close>.  Each interprets the seams locale on its own operations.
  \<^item> \<open>Engine_Lock\<close>: the spin lock of the engine, and that concurrent engine calls serialise.
  \<^item> \<open>Boot_Providers\<close>: \<^verbatim>\<open>src/update_log/boot_providers.c\<close>, the MCUboot and Alif SE decoders on untrusted images.
  \<^item> \<open>Backend_Registry\<close>: \<^verbatim>\<open>src/backend.c\<close>; ranked selection and the fall-through walk.
  \<^item> \<open>Slot_Claim\<close>: \<^verbatim>\<open>src/common/alp_slot_claim.h\<close> and \<^verbatim>\<open>.c\<close>, with every interleaving of claim, operation
    and close.
  \<^item> \<open>Pool_Core\<close>, \<open>Timer_Dispatch\<close>: the code the pooled dispatchers share, and \<^verbatim>\<open>src/counter_dispatch.c\<close>,
    \<^verbatim>\<open>src/rtc_dispatch.c\<close>, \<^verbatim>\<open>src/wdt_dispatch.c\<close> on it.  \<open>Update_Log_Dispatch\<close>: \<^verbatim>\<open>src/update_log_dispatch.c\<close>.
  \<^item> \<open>Rpc_Channel\<close>, \<open>Rpc_Dispatch\<close>: \<^verbatim>\<open>src/rpc_dispatch.c\<close> and \<^verbatim>\<open>src/backends/rpc/rpc_ops.h\<close>; the packed lifecycle
    and count word under interleaving, then the public calls and the link state.
  \<^item> \<open>Lprtc_Calendar\<close>: \<^verbatim>\<open>src/backends/rtc/lprtc_calendar_shim.c\<close>, calendar arithmetic over a free-running counter.
  \<^item> \<open>Checked_Arith\<close>: \<^verbatim>\<open>src/common/alp_checked_arith.h\<close>, \<^verbatim>\<open>alp_errno.h\<close>.  \<open>Mproc_Frame\<close>:
    \<^verbatim>\<open>src/common/proto/alp_mproc_frame.c\<close>.  \<open>Fast_Memcpy\<close>: \<^verbatim>\<open>src/common/alp_fast_memcpy_core.c\<close>.
    \<open>Dsp_Decimator\<close>: \<^verbatim>\<open>src/dsp_decimator.c\<close>.  \<open>I2c_Regfile\<close>: \<^verbatim>\<open>src/i2c_regfile.c\<close>.
  \<^item> \<open>Model_Select\<close>, \<open>Model_Package\<close>: \<^verbatim>\<open>src/backends/inference/alp_model_select.c\<close>, \<^verbatim>\<open>src/common/alp_model.c\<close>,
    \<^verbatim>\<open>src/common/alp_model_loader.c\<close>; the package reader, the choice of a target, and the loader that
    composes them.
  \<^item> \<open>Eeprom_24c128\<close>: \<^verbatim>\<open>chips/eeprom_24c128/eeprom_24c128.c\<close>; the frames sent, over any sequence of calls and
    any behaviour of the bus.
  \<^item> \<open>Crc16\<close>: \<^verbatim>\<open>include/alp/protocol/crc16.h\<close>; the sliced tables compute the bit-by-bit CRC, and no burst
    of sixteen bits escapes it.  \<open>Cc3501e_Wire\<close>, \<open>Cc3501e_Link\<close>, \<open>Cc3501e_Recover\<close>:
    \<^verbatim>\<open>chips/cc3501e/cc3501e_core.c\<close> and \<^verbatim>\<open>cc3501e_diag.c\<close>, from the reply verdict over the four-phase
    exchange and the READY gate to resets, recovery and polling: a damaged or dead reply is refused, a
    success is one authentic exchange, polling ends.  \<open>Cc3501e_Ota\<close>: \<^verbatim>\<open>chips/cc3501e/cc3501e_ota.c\<close>; an
    update that succeeds staged the caller's image, and three runs where the confirmations fall short.

  Bounds and fuel.  Interleavings are stated for fewer threads than the counter can hold: \<open>2 ^ 32\<close> for the
  handle guard, \<open>2 ^ 30\<close> for the RPC word, whose upper two bits are the lifecycle.  The RAM store has 32
  slots, one of them the metadata record, hence 31 entries; the persistent and secure owners stop at
  their key spaces.  Sequence numbers are stated up to \<open>ULOG_SEQ_MAX\<close>, the last whose key is not cut short.
  The package reader carries fuel for its decoding loops: any amount above the package length plus one
  is enough, since every round consumes a byte of the manifest.  Loops whose measure is visible (digit
  loops, TLV and ATOC walks, page splitting, the selection walk, the trial of backends) are total
  functions.  The polling loop of the bridge driver and the confirm loop of its update mode are partial
  functions: the first returns over any clock that does not run back and lets a delay's length pass,
  read up to \<open>2 ^ 63\<close> ms; the second for budgets up to \<open>2 ^ 32 - 1450\<close>, and not at \<open>UINT32_MAX\<close>.  The
  READY wait, the lock wait, the link probe and the update's other loops have their own budgets and
  are total.  A wait that only another thread can end is \<open>None\<close> in the sequential models and a disabled
  step in the interleaved ones; that it ends is proved there as reachability of the release.

  Not modelled.  The remaining class dispatchers repeat the modelled pool over their own tables.  The
  Zephyr, bridge, Yocto and bare-metal backends translate calls to a kernel or a bus and need their
  contracts.  The AEN M55 owner needs a model of the mailbox hardware.  The bridge driver's Wi-Fi and BLE operations
  pack and unpack records for a radio firmware that is not here; its NULL contexts are left out, and
  other threads act on its state only inside a millisecond delay.  The other chip drivers' contract is
  the part's data sheet.  Weak memory is not modelled: steps interleave sequentially, which the
  sequentially consistent atomics of the sources justify for the lifecycle and count words only.
  Callbacks are identifiers, and what the application does in one is an environment step.  Vendored
  code, examples, tests and tools are outside the library.
\<close>

end
